(* ===== verification/Prelude.thy ===== *)
theory Prelude
  imports Main "HOL-Library.Sublist"
begin

text \<open>
  Shared vocabulary of the development: the collections of rewrite rules, insertion ordered
  association lists (the JavaScript objects, \<open>Map\<close>s and \<open>Set\<close>s of the modelled scripts) with the
  laws every client uses, and the generic facts on lists the component theories share.
\<close>

named_theorems js_string \<open>unfolding rules of the string primitives\<close>
named_theorems dict_laws \<open>laws of insertion ordered dictionaries\<close>

section \<open>Insertion ordered dictionaries\<close>

text \<open>
  A dictionary keeps the order in which its keys were first inserted; writing an existing key
  replaces the value in place, as \<open>Map.prototype.set\<close> and property assignment do.
\<close>

type_synonym ('k, 'v) dict = "('k \<times> 'v) list"

fun dict_set :: "'k \<Rightarrow> 'v \<Rightarrow> ('k, 'v) dict \<Rightarrow> ('k, 'v) dict" where
  "dict_set k v [] = [(k, v)]"
| "dict_set k v ((k', v') # m) = (if k = k' then (k, v) # m else (k', v') # dict_set k v m)"

definition dict_has :: "('k, 'v) dict \<Rightarrow> 'k \<Rightarrow> bool" where
  "dict_has m k \<longleftrightarrow> k \<in> fst ` set m"

abbreviation dict_keys :: "('k, 'v) dict \<Rightarrow> 'k list" where
  "dict_keys m \<equiv> map fst m"

definition dict_wf :: "('k, 'v) dict \<Rightarrow> bool" where
  "dict_wf m \<longleftrightarrow> distinct (dict_keys m)"

lemma map_of_dict_set [simp, dict_laws]: "map_of (dict_set k v m) = (map_of m)(k \<mapsto> v)"
  by (induction m) (auto simp: fun_eq_iff)

lemma dict_has_set [simp, dict_laws]: "dict_has (dict_set k v m) k' \<longleftrightarrow> k' = k \<or> dict_has m k'"
  unfolding dict_has_def
proof (induction m)
  case (Cons p m)
  then show ?case by (cases p) (auto split: if_splits)
qed simp

lemma dict_has_Nil [simp]: "\<not> dict_has [] k"
  by (simp add: dict_has_def)

lemma dict_has_iff [dict_laws]: "dict_has m k \<longleftrightarrow> map_of m k \<noteq> None"
  unfolding dict_has_def by (simp add: map_of_eq_None_iff image_iff)

lemma dict_keys_set [dict_laws]:
  "dict_keys (dict_set k v m) = (if dict_has m k then dict_keys m else dict_keys m @ [k])"
  unfolding dict_has_def by (induction m) force+

lemma dict_wf_Nil [simp]: "dict_wf []"
  by (simp add: dict_wf_def)

lemma dict_wf_set [simp, intro, dict_laws]: "dict_wf m \<Longrightarrow> dict_wf (dict_set k v m)"
  unfolding dict_wf_def by (auto simp: dict_keys_set dict_has_def)

lemma dict_set_values: "snd ` set (dict_set k v m) \<subseteq> insert v (snd ` set m)"
proof (induction m)
  case (Cons p m)
  then show ?case by (cases p) auto
qed simp

text \<open>
  What a client of a dictionary relies on.  The lemmas of the locale are proved from these laws
  only, so that they hold for every implementation that discharges them.
\<close>

locale dictionary =
  fixes empty :: "'m"
    and put :: "'k \<Rightarrow> 'v \<Rightarrow> 'm \<Rightarrow> 'm"
    and lookup :: "'m \<Rightarrow> 'k \<Rightarrow> 'v option"
    and key_list :: "'m \<Rightarrow> 'k list"
    and wf :: "'m \<Rightarrow> bool"
  assumes lookup_empty: "lookup empty k = None"
    and lookup_put: "lookup (put k v m) = (lookup m)(k \<mapsto> v)"
    and keys_empty: "key_list empty = []"
    and keys_put: "key_list (put k v m) =
          (if lookup m k = None then key_list m @ [k] else key_list m)"
    and wf_empty: "wf empty"
    and wf_put: "wf m \<Longrightarrow> wf (put k v m)"
    and wf_keys: "wf m \<Longrightarrow> distinct (key_list m)"
begin

definition put_all :: "('k \<times> 'v) list \<Rightarrow> 'm \<Rightarrow> 'm" where
  "put_all ps m = fold (\<lambda>(k, v). put k v) ps m"

lemma wf_put_all: "wf m \<Longrightarrow> wf (put_all ps m)"
  unfolding put_all_def by (induction ps arbitrary: m) (auto simp: wf_put)

lemma lookup_put_all: "lookup (put_all ps m) = lookup m ++ map_of (rev ps)"
proof (induction ps arbitrary: m)
  case Nil
  then show ?case by (simp add: put_all_def)
next
  case (Cons p ps)
  obtain k v where p: "p = (k, v)" by fastforce
  have "lookup (put_all (p # ps) m) = lookup (put_all ps (put k v m))"
    by (simp add: put_all_def p)
  also have "\<dots> = (lookup m)(k \<mapsto> v) ++ map_of (rev ps)"
    by (simp only: Cons.IH lookup_put)
  also have "\<dots> = lookup m ++ map_of (rev (p # ps))"
    by (simp add: p fun_eq_iff map_add_def map_of_append split: option.splits)
  finally show ?case .
qed

lemma put_all_keys_distinct: "distinct (key_list (put_all ps empty))"
  by (intro wf_keys wf_put_all wf_empty)

end

interpretation assoc_dict: dictionary "[]" dict_set map_of "map fst" dict_wf
  by unfold_locales (auto simp: dict_keys_set dict_has_iff dict_wf_def)

text \<open>Insertion ordered sets: \<open>Set.prototype.add\<close> and \<open>new Set(iterable)\<close>.\<close>

definition set_add :: "'a \<Rightarrow> 'a list \<Rightarrow> 'a list" where
  "set_add x xs = (if x \<in> set xs then xs else xs @ [x])"

definition new_Set :: "'a list \<Rightarrow> 'a list" where
  "new_Set xs = fold set_add xs []"

lemma set_set_add [simp]: "set (set_add x xs) = insert x (set xs)"
  by (auto simp: set_add_def)

lemma distinct_set_add [simp]: "distinct (set_add x xs) = distinct xs"
  by (auto simp: set_add_def)

lemma set_fold_set_add: "set (fold set_add xs acc) = set acc \<union> set xs"
  by (induction xs arbitrary: acc) auto

lemma distinct_fold_set_add: "distinct (fold set_add xs acc) = distinct acc"
  by (induction xs arbitrary: acc) auto

lemma set_new_Set [simp]: "set (new_Set xs) = set xs"
  by (simp add: new_Set_def set_fold_set_add)

lemma distinct_new_Set [simp]: "distinct (new_Set xs)"
  by (simp add: new_Set_def distinct_fold_set_add)

section \<open>Lists\<close>

definition str_at :: "string list \<Rightarrow> nat \<Rightarrow> string" where
  "str_at xs i = (if i < length xs then xs ! i else ''undefined'')"

lemma str_at_in: "i < length xs \<Longrightarrow> str_at xs i \<in> set xs"
  by (simp add: str_at_def)

lemma length_concat_map_const: "(\<And>x. x \<in> set xs \<Longrightarrow> length (f x) = n) \<Longrightarrow>
    length (concat (map f xs)) = n * length xs"
  by (induction xs) auto

lemma takeWhile_all: "(\<And>x. x \<in> set xs \<Longrightarrow> P x) \<Longrightarrow> takeWhile P xs = xs"
  by (simp add: takeWhile_eq_all_conv)

lemma length_dropWhile_tl: "dropWhile P xs = y # ys \<Longrightarrow> length (dropWhile Q ys) < length xs"
proof -
  assume "dropWhile P xs = y # ys"
  then have "Suc (length ys) \<le> length xs"
    using length_dropWhile_le [of P xs] by simp
  then show ?thesis using length_dropWhile_le [of Q ys] by linarith
qed

section \<open>Errors\<close>

text \<open>An exception the code can raise; \<open>Inl\<close> is a raise, \<open>Inr\<close> a normal return.\<close>

datatype js_error = TypeError | ErrorMsg string

fun mapM_err :: "('a \<Rightarrow> 'e + 'b) \<Rightarrow> 'a list \<Rightarrow> 'e + 'b list" where
  "mapM_err f [] = Inr []"
| "mapM_err f (x # xs) =
     (case f x of
        Inl e \<Rightarrow> Inl e
      | Inr y \<Rightarrow> (case mapM_err f xs of Inl e \<Rightarrow> Inl e | Inr ys \<Rightarrow> Inr (y # ys)))"

lemma mapM_err_Inr:
  "(\<And>x. x \<in> set xs \<Longrightarrow> f x = Inr (g x)) \<Longrightarrow> mapM_err f xs = Inr (map g xs)"
  by (induction xs) auto

lemma mapM_err_set:
  "mapM_err f xs = Inr ys \<Longrightarrow> y \<in> set ys \<Longrightarrow> \<exists>x \<in> set xs. f x = Inr y"
  by (induction xs arbitrary: ys) (auto split: sum.splits)

lemma mapM_err_ok:
  "mapM_err f xs = Inr ys \<Longrightarrow> x \<in> set xs \<Longrightarrow> \<exists>y \<in> set ys. f x = Inr y"
  by (induction xs arbitrary: ys) (auto split: sum.splits)

section \<open>Objects used as dictionaries\<close>

text \<open>
  The names an object literal inherits from \<open>Object.prototype\<close>: reading one that is no own key gives
  a function (for \<open>__proto__\<close> an object), and \<open>in\<close> finds it.
\<close>

definition object_prototype_names :: "string list" where
  "object_prototype_names =
     [''constructor'', ''hasOwnProperty'', ''isPrototypeOf'', ''propertyIsEnumerable'',
      ''toLocaleString'', ''toString'', ''valueOf'', ''__proto__'', ''__defineGetter__'',
      ''__defineSetter__'', ''__lookupGetter__'', ''__lookupSetter__'']"

section \<open>Subsequences\<close>

lemma subseq_set_subset: "subseq xs ys \<Longrightarrow> set xs \<subseteq> set ys"
  by (induction rule: list_emb.induct) auto

lemma sorted_wrt_subseq: "subseq xs ys \<Longrightarrow> sorted_wrt P ys \<Longrightarrow> sorted_wrt P xs"
  by (induction rule: list_emb.induct) (auto dest: subseq_set_subset)

end
