(* ===== verification/JsString.thy ===== *)
theory JsString
  imports Prelude
begin

text \<open>
  The part of the ECMAScript string library the scripts under \<open>docs/_static\<close> call.  A string is a
  sequence of code units; Isabelle's \<^typ>\<open>char\<close> covers U+0000 to U+00FF, and on that range the
  definitions below (case mapping, white space, Unicode letter and number classes) are the ones
  of the language standard.
\<close>

section \<open>Characters\<close>

definition code :: "char \<Rightarrow> nat" where
  "code c = of_char c"

text \<open>\<open>toLowerCase\<close> on one code unit: A to Z, and the Latin-1 capitals other than U+00D7.\<close>

definition is_upper :: "char \<Rightarrow> bool" where
  "is_upper c \<longleftrightarrow> 65 \<le> code c \<and> code c \<le> 90 \<or> 192 \<le> code c \<and> code c \<le> 222 \<and> code c \<noteq> 215"

definition lower_char :: "char \<Rightarrow> char" where
  "lower_char c = (if is_upper c then char_of (code c + 32) else c)"

text \<open>The white space and line terminator code units of \<open>trim\<close> and of the class \<open>\s\<close>.\<close>

definition is_space :: "char \<Rightarrow> bool" where
  "is_space c \<longleftrightarrow> code c \<in> {9, 10, 11, 12, 13, 32, 160}"

definition is_digit :: "char \<Rightarrow> bool" where
  "is_digit c \<longleftrightarrow> 48 \<le> code c \<and> code c \<le> 57"

text \<open>The classes \<open>\p{Letter}\<close> and \<open>\p{Number}\<close> below U+0100.\<close>

definition is_letter :: "char \<Rightarrow> bool" where
  "is_letter c \<longleftrightarrow> 65 \<le> code c \<and> code c \<le> 90 \<or> 97 \<le> code c \<and> code c \<le> 122
     \<or> code c \<in> {170, 181, 186}
     \<or> 192 \<le> code c \<and> code c \<noteq> 215 \<and> code c \<noteq> 247"

definition is_number :: "char \<Rightarrow> bool" where
  "is_number c \<longleftrightarrow> is_digit c \<or> code c \<in> {178, 179, 185, 188, 189, 190}"

lemma code_less_256 [simp]: "code c < 256"
  using nat_of_char_less_256 [of c] by (simp add: code_def)

lemma char_of_code [simp]: "char_of (code c) = c"
  by (simp add: code_def)

lemma code_char_of [simp]: "n < 256 \<Longrightarrow> code (char_of n) = n"
  by (simp add: code_def)

lemma code_inject [simp]: "code a = code b \<longleftrightarrow> a = b"
  by (simp add: code_def)

lemma is_upper_le: "is_upper c \<Longrightarrow> code c + 32 < 256"
  by (auto simp: is_upper_def)

lemma lower_char_not_upper [simp]: "\<not> is_upper (lower_char c)"
proof (cases "is_upper c")
  case True
  then have "code (lower_char c) = code c + 32"
    using is_upper_le by (simp add: lower_char_def)
  with True show ?thesis by (auto simp: is_upper_def)
next
  case False
  then show ?thesis by (simp add: lower_char_def)
qed

lemma lower_char_idem [simp]: "lower_char (lower_char c) = lower_char c"
  using lower_char_not_upper by (simp add: lower_char_def [of "lower_char c"])

lemma code_lower_char:
  "code (lower_char c) = (if is_upper c then code c + 32 else code c)"
  using is_upper_le by (auto simp: lower_char_def)

lemma is_letter_lower: "is_upper c \<Longrightarrow> is_letter (lower_char c)"
  by (auto simp: is_letter_def is_upper_def code_lower_char)

lemma is_letter_lower_char [simp]: "is_letter (lower_char c) = is_letter c"
  by (auto simp: is_letter_def is_upper_def code_lower_char)

lemma is_number_lower_char [simp]: "is_number (lower_char c) = is_number c"
  by (auto simp: is_number_def is_digit_def is_upper_def code_lower_char)

lemma is_space_lower_char [simp]: "is_space (lower_char c) = is_space c"
  by (auto simp: is_space_def is_upper_def code_lower_char)

section \<open>Strings\<close>

definition toLowerCase :: "string \<Rightarrow> string" where
  "toLowerCase s = map lower_char s"

definition trim :: "string \<Rightarrow> string" where
  "trim s = rev (dropWhile is_space (rev (dropWhile is_space s)))"

text \<open>First position of a substring; \<open>indexOf\<close> gives \<open>-1\<close> where there is none.\<close>

fun sub_index :: "string \<Rightarrow> string \<Rightarrow> nat option" where
  "sub_index n [] = (if n = [] then Some 0 else None)"
| "sub_index n (c # cs) =
     (if prefix n (c # cs) then Some 0 else map_option Suc (sub_index n cs))"

definition indexOf :: "string \<Rightarrow> string \<Rightarrow> int" where
  "indexOf s n = (case sub_index n s of None \<Rightarrow> - 1 | Some i \<Rightarrow> int i)"

definition str_includes :: "string \<Rightarrow> string \<Rightarrow> bool" where
  "str_includes s n \<longleftrightarrow> sub_index n s \<noteq> None"

text \<open>\<open>s.substr(start)\<close> and \<open>s.substr(start, len)\<close>: a negative start counts from the end.\<close>

definition substr_from :: "string \<Rightarrow> int \<Rightarrow> string" where
  "substr_from s start =
     drop (nat (if start < 0 then max 0 (int (length s) + start) else start)) s"

definition substr :: "string \<Rightarrow> int \<Rightarrow> int \<Rightarrow> string" where
  "substr s start len = take (nat len) (substr_from s start)"

text \<open>\<open>replaceAll\<close> with a one character pattern and a replacement without \<open>$\<close>.\<close>

definition replaceAll :: "char \<Rightarrow> string \<Rightarrow> string \<Rightarrow> string" where
  "replaceAll c r s = concat (map (\<lambda>x. if x = c then r else [x]) s)"

text \<open>\<open>split\<close> on a one character separator, and on a regular expression \<open>[...]+\<close> whose class is
  the set of separator characters.\<close>

fun split_char :: "char \<Rightarrow> string \<Rightarrow> string list" where
  "split_char d [] = [[]]"
| "split_char d (c # cs) =
     (if c = d then [] # split_char d cs
      else (case split_char d cs of [] \<Rightarrow> [[c]] | w # ws \<Rightarrow> (c # w) # ws))"

function split_class :: "(char \<Rightarrow> bool) \<Rightarrow> string \<Rightarrow> string list" where
  "split_class sep s =
     (case dropWhile (\<lambda>c. \<not> sep c) s of
        [] \<Rightarrow> [s]
      | d # ds \<Rightarrow> takeWhile (\<lambda>c. \<not> sep c) s # split_class sep (dropWhile sep ds))"
  by pat_completeness auto
termination
  by (relation "measure (\<lambda>(sep, s). length s)") (auto intro: length_dropWhile_tl)

declare split_class.simps [simp del]

definition join :: "string \<Rightarrow> string list \<Rightarrow> string" where
  "join d xs = (case xs of [] \<Rightarrow> [] | y # ys \<Rightarrow> y @ concat (map (\<lambda>z. d @ z) ys))"

text \<open>\<open>Math.round(a / b)\<close> for integers and a positive denominator: halves round up.\<close>

definition round_div :: "int \<Rightarrow> int \<Rightarrow> int" where
  "round_div a b = (2 * a + b) div (2 * b)"

section \<open>Facts\<close>

lemma length_toLowerCase [simp]: "length (toLowerCase s) = length s"
  by (simp add: toLowerCase_def)

lemma toLowerCase_idem [simp]: "toLowerCase (toLowerCase s) = toLowerCase s"
  by (simp add: toLowerCase_def)

lemma toLowerCase_Nil_iff [simp]: "toLowerCase s = [] \<longleftrightarrow> s = []"
  by (simp add: toLowerCase_def)

lemma set_toLowerCase: "c \<in> set (toLowerCase s) \<Longrightarrow> \<not> is_upper c"
  by (auto simp: toLowerCase_def)

lemma toLowerCase_append: "toLowerCase (s @ t) = toLowerCase s @ toLowerCase t"
  by (simp add: toLowerCase_def)

lemma toLowerCase_drop: "toLowerCase (drop n s) = drop n (toLowerCase s)"
  by (simp add: toLowerCase_def drop_map)

lemma sub_index_Some_iff:
  "sub_index n s = Some i \<longleftrightarrow>
     i \<le> length s \<and> prefix n (drop i s) \<and> (\<forall>j<i. \<not> prefix n (drop j s))"
proof (induction s arbitrary: i)
  case Nil
  then show ?case by auto
next
  case (Cons c cs)
  show ?case
  proof (cases i)
    case 0
    then show ?thesis by (auto simp del: prefix_Cons)
  next
    case (Suc k)
    have "(\<forall>j<Suc k. \<not> prefix n (drop j (c # cs))) \<longleftrightarrow>
        \<not> prefix n (c # cs) \<and> (\<forall>j<k. \<not> prefix n (drop j cs))"
      by (auto simp: less_Suc_eq_0_disj simp del: prefix_Cons)
    then show ?thesis using Cons.IH [of k] Suc by (auto simp del: prefix_Cons)
  qed
qed

lemma sub_index_bound: "sub_index n s = Some i \<Longrightarrow> i + length n \<le> length s"
  using prefix_length_le [of n "drop i s"] by (auto simp: sub_index_Some_iff)

lemma sub_index_None_iff: "sub_index n s = None \<longleftrightarrow> \<not> sublist n s"
proof (induction s)
  case Nil
  then show ?case by auto
next
  case (Cons c cs)
  then show ?case by (auto simp: sublist_Cons_right simp del: prefix_Cons)
qed

lemma str_includes_iff: "str_includes s n \<longleftrightarrow> sublist n s"
  by (simp add: str_includes_def sub_index_None_iff)

lemma indexOf_nonneg_iff: "0 \<le> indexOf s n \<longleftrightarrow> sublist n s"
  using sub_index_None_iff [of n s] by (auto simp: indexOf_def split: option.splits)

lemma indexOf_found_iff: "- 1 < indexOf s n \<longleftrightarrow> sublist n s"
  using indexOf_nonneg_iff [of s n] by linarith

lemma indexOf_decompose:
  assumes "sub_index n s = Some i"
  shows "s = take i s @ n @ drop (i + length n) s"
proof -
  from assms obtain t where t: "drop i s = n @ t"
    by (auto simp: sub_index_Some_iff prefix_def)
  then have "drop (i + length n) s = t"
    by (metis add.commute append_eq_conv_conj drop_drop)
  with t show ?thesis by (metis append_take_drop_id)
qed

lemma split_class_Nil: "dropWhile (\<lambda>c. \<not> sep c) s = [] \<Longrightarrow> split_class sep s = [s]"
  by (simp only: split_class.simps [of sep s] list.case)

lemma split_class_Cons:
  "dropWhile (\<lambda>c. \<not> sep c) s = d # ds \<Longrightarrow>
     split_class sep s = takeWhile (\<lambda>c. \<not> sep c) s # split_class sep (dropWhile sep ds)"
  by (subst split_class.simps) simp

lemma split_class_sep_free: "w \<in> set (split_class sep s) \<Longrightarrow> c \<in> set w \<Longrightarrow> \<not> sep c"
proof (induction sep s rule: split_class.induct)
  case (1 sep s)
  show ?case
  proof (cases "dropWhile (\<lambda>c. \<not> sep c) s")
    case Nil
    then have "\<forall>x \<in> set s. \<not> sep x" by (simp add: dropWhile_eq_Nil_conv)
    with 1(2,3) show ?thesis by (simp add: split_class_Nil [OF Nil])
  next
    case (Cons d ds)
    from 1(2) consider "w = takeWhile (\<lambda>c. \<not> sep c) s" | "w \<in> set (split_class sep (dropWhile sep ds))"
      by (auto simp: split_class_Cons [OF Cons])
    then show ?thesis
    proof cases
      case 1
      with \<open>c \<in> set w\<close> show ?thesis using set_takeWhileD [of c "\<lambda>c. \<not> sep c" s] by simp
    next
      case 2
      then show ?thesis by (rule 1(1) [OF Cons _ 1(3)])
    qed
  qed
qed

lemma filter_concat_split_class:
  "concat (split_class sep s) = filter (\<lambda>c. \<not> sep c) s"
proof (induction sep s rule: split_class.induct)
  case (1 sep s)
  show ?case
  proof (cases "dropWhile (\<lambda>c. \<not> sep c) s")
    case Nil
    then show ?thesis by (simp add: split_class_Nil [OF Nil] filter_id_conv dropWhile_eq_Nil_conv)
  next
    case (Cons d ds)
    let ?p = "\<lambda>c. \<not> sep c"
    have d: "sep d" using hd_dropWhile [of ?p s] Cons by simp
    have drop: "filter ?p (dropWhile sep ds) = filter ?p ds" by (induction ds) auto
    have tw: "filter ?p (takeWhile ?p s) = takeWhile ?p s"
      by (auto simp: filter_id_conv dest: set_takeWhileD)
    have "filter ?p s = filter ?p (takeWhile ?p s @ dropWhile ?p s)" by simp
    also have "\<dots> = takeWhile ?p s @ filter ?p ds"
      unfolding filter_append Cons tw using d by simp
    finally show ?thesis
      using 1 [OF Cons] drop by (simp add: split_class_Cons [OF Cons])
  qed
qed

lemma split_char_not_Nil [simp]: "split_char d s \<noteq> []"
  by (induction s) (auto split: list.splits)

lemma join_split_char: "join [d] (split_char d s) = s"
proof (induction s)
  case Nil
  then show ?case by (simp add: join_def)
next
  case (Cons c cs)
  then show ?case by (cases "split_char d cs") (auto simp: join_def)
qed

lemma split_char_sep_free: "w \<in> set (split_char d s) \<Longrightarrow> d \<notin> set w"
  by (induction s arbitrary: w) (auto split: if_splits list.splits)

lemma round_div_half: "0 < b \<Longrightarrow> b * (2 * round_div a b - 1) \<le> 2 * a \<and> 2 * a < b * (2 * round_div a b + 1)"
proof -
  assume b: "0 < b"
  let ?q = "(2 * a + b) div (2 * b)"
  have "?q * (2 * b) \<le> 2 * a + b \<and> 2 * a + b < ?q * (2 * b) + 2 * b"
    using b by (metis add_strict_left_mono div_mult_mod_eq le_add_same_cancel1
        mult_pos_pos pos_mod_bound pos_mod_sign zero_less_numeral)
  then show ?thesis by (simp add: round_div_def algebra_simps)
qed

section \<open>Numbers in strings, first replacement\<close>

text \<open>\<open>String(n)\<close> of a non-negative integer.\<close>

fun nat_str :: "nat \<Rightarrow> string" where
  "nat_str n = (if n < 10 then [char_of (48 + n)] else nat_str (n div 10) @ [char_of (48 + n mod 10)])"

declare nat_str.simps [simp del]

text \<open>\<open>s.replace(pat, r)\<close> with string arguments, \<open>r\<close> without \<open>$\<close>.\<close>

definition replace_first :: "string \<Rightarrow> string \<Rightarrow> string \<Rightarrow> string" where
  "replace_first pat r s =
     (case sub_index pat s of None \<Rightarrow> s | Some i \<Rightarrow> take i s @ r @ drop (i + length pat) s)"

fun str_nat :: "nat \<Rightarrow> string \<Rightarrow> nat" where
  "str_nat acc [] = acc"
| "str_nat acc (c # cs) = str_nat (10 * acc + (code c - 48)) cs"

lemma str_nat_append: "str_nat acc (s @ t) = str_nat (str_nat acc s) t"
  by (induction s arbitrary: acc) auto

lemma str_nat_nat_str: "str_nat 0 (nat_str n) = n"
proof (induction n rule: nat_str.induct)
  case (1 n)
  then show ?case
    by (cases "n < 10") (simp_all add: nat_str.simps [of n] str_nat_append)
qed

lemma nat_str_digits: "c \<in> set (nat_str n) \<Longrightarrow> is_digit c"
proof (induction n rule: nat_str.induct)
  case (1 n)
  show ?case
  proof (cases "n < 10")
    case True
    with 1(2) show ?thesis by (simp add: nat_str.simps [of n] is_digit_def)
  next
    case False
    with 1(2) consider "c \<in> set (nat_str (n div 10))" | "c = char_of (48 + n mod 10)"
      by (auto simp: nat_str.simps [of n])
    then show ?thesis
    proof cases
      case 1
      with \<open>\<not> n < 10\<close> "1.IH" show ?thesis by blast
    qed (simp add: is_digit_def)
  qed
qed

lemma nat_str_inject: "nat_str a = nat_str b \<longleftrightarrow> a = b"
  by (metis str_nat_nat_str)

end
