(* ===== verification/SearchText.thy ===== *)
theory SearchText
  imports JsString
begin

text \<open>
  The text level of the documentation search, \<open>docs/_static/searchtools.js\<close>: escaping for regular
  expressions and for HTML, splitting a query into words, and \<open>Search._parseQuery\<close>, which sorts the
  words of a query into search, exclusion, highlight and object terms.

  The word stemmer and the stop word list come from the generated file \<open>language_data.js\<close>; they
  are arguments of the definitions.
\<close>

section \<open>Escaping\<close>

text \<open>The class \<open>[.*+\-?^${}()|[\]\\]\<close> of \<open>_escapeRegExp\<close>, by code unit.\<close>

definition regexp_special :: "char \<Rightarrow> bool" where
  "regexp_special c \<longleftrightarrow>
     code c \<in> {46, 42, 43, 45, 63, 94, 36, 123, 125, 40, 41, 124, 91, 93, 92}"

definition backslash :: char where
  "backslash = CHR 0x5C"

definition escapeRegExp :: "string \<Rightarrow> string" where
  "escapeRegExp s = concat (map (\<lambda>c. if regexp_special c then [backslash, c] else [c]) s)"

text \<open>
  How the language reads a pattern made of literal characters and of a backslash before a
  syntax character: the literal text it matches, \<open>None\<close> where the pattern has any other construct.
\<close>

fun regexp_literal :: "string \<Rightarrow> string option" where
  "regexp_literal [] = Some []"
| "regexp_literal (c # cs) =
     (if c = backslash then
        (case cs of
           [] \<Rightarrow> None
         | d # ds \<Rightarrow> if regexp_special d then map_option ((#) d) (regexp_literal ds) else None)
      else if regexp_special c \<and> c \<noteq> CHR 0x2D then None
      else map_option ((#) c) (regexp_literal cs))"

text \<open>\<open>term.match(pattern)\<close> as a truth value, for such a pattern.\<close>

definition regexp_match :: "string \<Rightarrow> string \<Rightarrow> bool" where
  "regexp_match s pat = (case regexp_literal pat of None \<Rightarrow> False | Some lit \<Rightarrow> str_includes s lit)"

definition escapeHTML :: "string \<Rightarrow> string" where
  "escapeHTML text =
     replaceAll (CHR 0x27) ''&apos;''
      (replaceAll (CHR 0x22) ''&quot;''
       (replaceAll (CHR ''>'') ''&gt;''
        (replaceAll (CHR ''<'') ''&lt;''
         (replaceAll (CHR ''&'') ''&amp;'' text))))"

section \<open>Queries\<close>

text \<open>The class \<open>[^\p{Letter}\p{Number}_\p{Emoji_Presentation}]\<close>; no code unit below U+0100 has
  the emoji property.\<close>

definition query_sep :: "char \<Rightarrow> bool" where
  "query_sep c \<longleftrightarrow> \<not> (is_letter c \<or> is_number c \<or> c = CHR ''_'')"

definition splitQuery :: "string \<Rightarrow> string list" where
  "splitQuery query = filter (\<lambda>w. w \<noteq> []) (split_class query_sep query)"

text \<open>\<open>queryTerm.match(/^\d+$/)\<close>.\<close>

definition all_digits :: "string \<Rightarrow> bool" where
  "all_digits s \<longleftrightarrow> s \<noteq> [] \<and> list_all is_digit s"

record parsed_query =
  pq_query :: string
  searchTerms :: "string list"
  excludedTerms :: "string list"
  highlightTerms :: "string list"
  objectTerms :: "string list"

text \<open>The body of the \<open>forEach\<close> over the words of the query.\<close>

definition parse_term ::
  "(string \<Rightarrow> bool) \<Rightarrow> (string \<Rightarrow> string) \<Rightarrow> string \<Rightarrow> parsed_query \<Rightarrow> parsed_query" where
  "parse_term stopword stemWord queryTerm pq =
     (let queryTermLower = toLowerCase queryTerm in
      if stopword queryTermLower \<or> all_digits queryTerm then pq
      else (let word = stemWord queryTermLower in
        case word of
          CHR ''-'' # rest \<Rightarrow> pq\<lparr>excludedTerms := set_add rest (excludedTerms pq)\<rparr>
        | _ \<Rightarrow> pq\<lparr>searchTerms := set_add word (searchTerms pq),
                 highlightTerms := set_add queryTermLower (highlightTerms pq)\<rparr>))"

definition parseQuery :: "(string \<Rightarrow> bool) \<Rightarrow> (string \<Rightarrow> string) \<Rightarrow> string \<Rightarrow> parsed_query" where
  "parseQuery stopword stemWord query =
     fold (parse_term stopword stemWord) (splitQuery (trim query))
       \<lparr>pq_query = query, searchTerms = [], excludedTerms = [], highlightTerms = [],
        objectTerms = new_Set (splitQuery (trim (toLowerCase query)))\<rparr>"

text \<open>What \<open>_parseQuery\<close> leaves in \<open>localStorage\<close> under \<open>sphinx_highlight_terms\<close>.\<close>

definition stored_highlight :: "parsed_query \<Rightarrow> string" where
  "stored_highlight pq = join '' '' (highlightTerms pq)"

section \<open>Properties of the escapers\<close>

lemma regexp_special_backslash [simp]: "regexp_special backslash"
  by (simp add: regexp_special_def backslash_def code_def)

lemma escapeRegExp_Nil [simp]: "escapeRegExp [] = []"
  by (simp add: escapeRegExp_def)

lemma escapeRegExp_Cons [simp]:
  "escapeRegExp (c # cs) = (if regexp_special c then [backslash, c] else [c]) @ escapeRegExp cs"
  by (simp add: escapeRegExp_def)

lemma regexp_literal_escape: "regexp_literal (escapeRegExp s) = Some s"
  by (induction s) auto

lemma regexp_match_escape: "regexp_match t (escapeRegExp w) \<longleftrightarrow> sublist w t"
  by (simp add: regexp_match_def regexp_literal_escape str_includes_iff)

lemma replaceAll_Nil [simp]: "replaceAll c r [] = []"
  by (simp add: replaceAll_def)

lemma replaceAll_Cons [simp]:
  "replaceAll c r (x # s) = (if x = c then r else [x]) @ replaceAll c r s"
  by (simp add: replaceAll_def)

lemma replaceAll_append [simp]: "replaceAll c r (s @ t) = replaceAll c r s @ replaceAll c r t"
  by (simp add: replaceAll_def)

text \<open>The five passes act as one substitution, because no replacement text holds a character
  that a later pass replaces.\<close>

definition html_entity :: "char \<Rightarrow> string" where
  "html_entity c =
     (if c = CHR ''&'' then ''&amp;'' else if c = CHR ''<'' then ''&lt;''
      else if c = CHR ''>'' then ''&gt;'' else if c = CHR 0x22 then ''&quot;''
      else if c = CHR 0x27 then ''&apos;'' else [c])"

lemma escapeHTML_Nil [simp]: "escapeHTML [] = []"
  by (simp add: escapeHTML_def)

lemma escapeHTML_Cons [simp]: "escapeHTML (c # s) = html_entity c @ escapeHTML s"
  by (simp add: escapeHTML_def html_entity_def)

lemma escapeHTML_concat: "escapeHTML s = concat (map html_entity s)"
  by (induction s) auto

lemma escapeHTML_append: "escapeHTML (s @ t) = escapeHTML s @ escapeHTML t"
  by (simp add: escapeHTML_concat)

text \<open>
  What the browser shows for an attribute-free HTML text: the five named references stand for
  their characters, everything else for itself.
\<close>

fun html_text :: "string \<Rightarrow> string" where
  "html_text [] = []"
| "html_text (c # cs) =
     (if c \<noteq> CHR ''&'' then c # html_text cs
      else if prefix ''amp;'' cs then CHR ''&'' # html_text (drop 4 cs)
      else if prefix ''lt;'' cs then CHR ''<'' # html_text (drop 3 cs)
      else if prefix ''gt;'' cs then CHR ''>'' # html_text (drop 3 cs)
      else if prefix ''quot;'' cs then CHR 0x22 # html_text (drop 5 cs)
      else if prefix ''apos;'' cs then CHR 0x27 # html_text (drop 5 cs)
      else c # html_text cs)"

lemma html_text_entity: "html_text (html_entity c @ s) = c # html_text s"
  by (auto simp: html_entity_def)

lemma html_text_escapeHTML: "html_text (escapeHTML s) = s"
  by (induction s) (auto simp: html_text_entity)

text \<open>Characters that can open a tag or close an attribute value.\<close>

definition html_markup :: "char \<Rightarrow> bool" where
  "html_markup c \<longleftrightarrow> c = CHR ''<'' \<or> c = CHR ''>'' \<or> c = CHR 0x22 \<or> c = CHR 0x27"

lemma html_entity_safe: "d \<in> set (html_entity c) \<Longrightarrow> \<not> html_markup d"
  by (auto simp: html_entity_def html_markup_def split: if_splits)

lemma escapeHTML_safe: "d \<in> set (escapeHTML s) \<Longrightarrow> \<not> html_markup d"
  by (auto simp: escapeHTML_concat dest: html_entity_safe)

section \<open>Properties of the query parser\<close>

lemma splitQuery_word:
  "w \<in> set (splitQuery q) \<Longrightarrow> w \<noteq> [] \<and> (\<forall>c \<in> set w. is_letter c \<or> is_number c \<or> c = CHR ''_'')"
  using split_class_sep_free [of w query_sep q] by (auto simp: splitQuery_def query_sep_def)

lemma query_sep_lower [simp]: "query_sep (lower_char c) = query_sep c"
proof -
  have "lower_char c = CHR ''_'' \<longleftrightarrow> c = CHR ''_''"
    using code_inject [of "lower_char c" "CHR ''_''"] code_inject [of c "CHR ''_''"]
    by (auto simp: code_lower_char is_upper_def code_def [of "CHR ''_''"] split: if_splits)
  then show ?thesis by (simp add: query_sep_def)
qed

definition kept_term :: "(string \<Rightarrow> bool) \<Rightarrow> string \<Rightarrow> bool" where
  "kept_term stopword w \<longleftrightarrow> \<not> stopword (toLowerCase w) \<and> \<not> all_digits w"

definition plain_word :: "string \<Rightarrow> bool" where
  "plain_word w \<longleftrightarrow> (case w of CHR ''-'' # _ \<Rightarrow> False | _ \<Rightarrow> True)"

lemma plain_word_alt: "plain_word w \<longleftrightarrow> \<not> (\<exists>r. w = CHR ''-'' # r)"
  unfolding plain_word_def by (auto split: list.splits char.splits bool.splits)

lemma parse_term_skip:
  "\<not> kept_term stopword w \<Longrightarrow> parse_term stopword stem w pq = pq"
  by (auto simp: parse_term_def kept_term_def Let_def)

lemma parse_term_plain:
  assumes "kept_term stopword w" and "plain_word (stem (toLowerCase w))"
  shows "parse_term stopword stem w pq =
    pq\<lparr>searchTerms := set_add (stem (toLowerCase w)) (searchTerms pq),
       highlightTerms := set_add (toLowerCase w) (highlightTerms pq)\<rparr>"
  using assms unfolding parse_term_def kept_term_def plain_word_def Let_def
  by (auto split: list.splits char.splits bool.splits)

lemma parse_term_minus:
  assumes "kept_term stopword w" and "stem (toLowerCase w) = CHR ''-'' # r"
  shows "parse_term stopword stem w pq = pq\<lparr>excludedTerms := set_add r (excludedTerms pq)\<rparr>"
  using assms unfolding parse_term_def kept_term_def Let_def by simp

lemma parse_term_frame [simp]:
  "objectTerms (parse_term stopword stem w pq) = objectTerms pq"
  "pq_query (parse_term stopword stem w pq) = pq_query pq"
  by (auto simp: parse_term_def Let_def split: list.splits char.splits bool.splits)

lemma fold_parse_term_frame [simp]:
  "objectTerms (fold (parse_term stopword stem) ws pq) = objectTerms pq"
  "pq_query (fold (parse_term stopword stem) ws pq) = pq_query pq"
  by (induction ws arbitrary: pq) simp_all

lemma fold_parse_term_plain:
  assumes "\<And>w. w \<in> set ws \<Longrightarrow> kept_term stopword w \<Longrightarrow> plain_word (stem (toLowerCase w))"
  shows "set (searchTerms (fold (parse_term stopword stem) ws pq)) =
      set (searchTerms pq) \<union> (stem \<circ> toLowerCase) ` {w \<in> set ws. kept_term stopword w} \<and>
    set (highlightTerms (fold (parse_term stopword stem) ws pq)) =
      set (highlightTerms pq) \<union> toLowerCase ` {w \<in> set ws. kept_term stopword w} \<and>
    excludedTerms (fold (parse_term stopword stem) ws pq) = excludedTerms pq"
  using assms
proof (induction ws arbitrary: pq)
  case Nil
  then show ?case by simp
next
  case (Cons w ws)
  have later: "\<And>v. v \<in> set ws \<Longrightarrow> kept_term stopword v \<Longrightarrow> plain_word (stem (toLowerCase v))"
    using Cons.prems by simp
  show ?case
  proof (cases "kept_term stopword w")
    case True
    then have "plain_word (stem (toLowerCase w))" using Cons.prems by simp
    with True Cons.IH [OF later, of "parse_term stopword stem w pq"] show ?thesis
      by (auto simp: parse_term_plain)
  next
    case False
    with Cons.IH [OF later, of pq] show ?thesis by (auto simp: parse_term_skip)
  qed
qed

lemma parse_term_highlight_distinct:
  "distinct (highlightTerms pq) \<Longrightarrow> distinct (highlightTerms (parse_term stopword stem w pq))"
  by (auto simp: parse_term_def Let_def split: list.splits char.splits bool.splits)

lemma parse_term_highlight_sub:
  "set (highlightTerms (parse_term stopword stem w pq)) \<subseteq> insert (toLowerCase w) (set (highlightTerms pq))"
  by (auto simp: parse_term_def Let_def split: list.splits char.splits bool.splits if_splits)

lemma fold_highlight_sub:
  "set (highlightTerms (fold (parse_term stopword stem) ws pq)) \<subseteq>
     set (highlightTerms pq) \<union> toLowerCase ` set ws"
proof (induction ws arbitrary: pq)
  case (Cons w ws)
  show ?case
    using Cons.IH [of "parse_term stopword stem w pq"] parse_term_highlight_sub [of stopword stem w pq]
    by auto
qed simp

lemma highlightTerms_words:
  assumes "t \<in> set (highlightTerms (parseQuery stopword stem q))"
  shows "t \<noteq> [] \<and> (\<forall>c \<in> set t. \<not> query_sep c) \<and> toLowerCase t = t"
proof -
  have "t \<in> toLowerCase ` set (splitQuery (trim q))"
    using assms fold_highlight_sub [of stopword stem "splitQuery (trim q)"]
    unfolding parseQuery_def by fastforce
  then obtain w where w: "w \<in> set (splitQuery (trim q))" "t = toLowerCase w" by blast
  have "\<not> query_sep c" if "c \<in> set t" for c
  proof -
    from that w(2) obtain d where "d \<in> set w" "c = lower_char d" by (auto simp: toLowerCase_def)
    with splitQuery_word [OF w(1)] show ?thesis by (auto simp: query_sep_def [of d])
  qed
  with splitQuery_word [OF w(1)] w(2) show ?thesis by auto
qed

lemma query_sep_space: "is_space c \<Longrightarrow> query_sep c"
  by (auto simp: query_sep_def is_space_def is_letter_def is_number_def is_digit_def code_def)

text \<open>Splitting the stored string on white space gives the highlight terms back.\<close>

lemma split_class_word_space:
  assumes "\<forall>c \<in> set w. \<not> sep c" and "sep d"
  shows "split_class sep (w @ d # s) = w # split_class sep (dropWhile sep s)"
proof -
  have "dropWhile (\<lambda>c. \<not> sep c) (w @ d # s) = d # s"
    using assms by (induction w) auto
  moreover have "takeWhile (\<lambda>c. \<not> sep c) (w @ d # s) = w"
    using assms by (induction w) auto
  ultimately show ?thesis by (simp add: split_class_Cons)
qed

lemma split_class_word:
  assumes "\<forall>c \<in> set w. \<not> sep c"
  shows "split_class sep w = [w]"
  using assms by (intro split_class_Nil) (simp add: dropWhile_eq_Nil_conv)

lemma join_Cons2: "join d (x # y # xs) = x @ d @ join d (y # xs)"
  by (simp add: join_def)

lemma split_join_words:
  assumes "\<forall>w \<in> set ws. w \<noteq> [] \<and> (\<forall>c \<in> set w. \<not> sep c)" and "sep d" and "ws \<noteq> []"
  shows "split_class sep (join [d] ws) = ws"
  using assms
proof (induction ws)
  case (Cons w ws)
  show ?case
  proof (cases ws)
    case Nil
    with Cons.prems show ?thesis by (simp add: join_def split_class_word)
  next
    case (Cons v vs)
    let ?r = "join [d] (v # vs)"
    have v: "v \<noteq> []" "\<not> sep (hd v)" using Cons Cons.prems by auto
    have "dropWhile sep ?r = ?r"
    proof -
      from v obtain c cs where "v = c # cs" "\<not> sep c" by (cases v) auto
      then show ?thesis by (simp add: join_def)
    qed
    with Cons Cons.prems Cons.IH show ?thesis
      by (simp add: join_Cons2 split_class_word_space)
  qed
qed simp

end
