(* ===== verification/JsSort.thy ===== *)
theory JsSort
  imports Prelude "HOL-Library.Multiset"
begin

text \<open>
  \<open>Array.prototype.sort\<close> with a comparison function: a stable sort.  The laws a comparator has to
  satisfy, and what the sort then promises, are stated once for all the callers in the scripts.
\<close>

text \<open>\<open>Array.prototype.sort\<close> with a comparator: the stable sort of the array.\<close>

fun sort_insert :: "('a \<Rightarrow> 'a \<Rightarrow> int) \<Rightarrow> 'a \<Rightarrow> 'a list \<Rightarrow> 'a list" where
  "sort_insert cmp x [] = [x]"
| "sort_insert cmp x (y # ys) = (if cmp x y \<le> 0 then x # y # ys else y # sort_insert cmp x ys)"

definition sort_js :: "('a \<Rightarrow> 'a \<Rightarrow> int) \<Rightarrow> 'a list \<Rightarrow> 'a list" where
  "sort_js cmp xs = foldr (sort_insert cmp) xs []"

text \<open>What a sort needs of its comparator, and what it gives in return.\<close>

locale comparator =
  fixes cmp :: "'a \<Rightarrow> 'a \<Rightarrow> int"
  assumes total: "cmp x y \<le> 0 \<or> cmp y x \<le> 0"
    and trans: "cmp x y \<le> 0 \<Longrightarrow> cmp y z \<le> 0 \<Longrightarrow> cmp x z \<le> 0"
begin

lemma set_sort_insert: "set (sort_insert cmp x xs) = insert x (set xs)"
  by (induction xs) auto

lemma sorted_sort_insert:
  "sorted_wrt (\<lambda>a b. cmp a b \<le> 0) xs \<Longrightarrow> sorted_wrt (\<lambda>a b. cmp a b \<le> 0) (sort_insert cmp x xs)"
proof (induction xs)
  case (Cons y ys)
  show ?case
  proof (cases "cmp x y \<le> 0")
    case True
    with Cons.prems show ?thesis by (auto intro: trans)
  next
    case False
    then have "cmp y x \<le> 0" using total [of x y] by blast
    with False Cons show ?thesis by (auto simp: set_sort_insert)
  qed
qed simp

lemma sorted_sort_js: "sorted_wrt (\<lambda>a b. cmp a b \<le> 0) (sort_js cmp xs)"
  unfolding sort_js_def by (induction xs) (auto intro: sorted_sort_insert)

text \<open>Elements that compare equal to \<open>a\<close> keep their order.\<close>

lemma filter_sort_insert:
  assumes "\<And>y. y \<in> set xs \<Longrightarrow> P y \<Longrightarrow> P x \<Longrightarrow> cmp x y \<le> 0"
  shows "filter P (sort_insert cmp x xs) = (if P x then x # filter P xs else filter P xs)"
  using assms by (induction xs) auto

lemma sort_js_stable:
  "filter (\<lambda>b. cmp a b \<le> 0 \<and> cmp b a \<le> 0) (sort_js cmp xs) = filter (\<lambda>b. cmp a b \<le> 0 \<and> cmp b a \<le> 0) xs"
proof (induction xs)
  case (Cons x xs)
  have "filter (\<lambda>b. cmp a b \<le> 0 \<and> cmp b a \<le> 0) (sort_insert cmp x (sort_js cmp xs)) =
      (if cmp a x \<le> 0 \<and> cmp x a \<le> 0 then x # filter (\<lambda>b. cmp a b \<le> 0 \<and> cmp b a \<le> 0) (sort_js cmp xs)
       else filter (\<lambda>b. cmp a b \<le> 0 \<and> cmp b a \<le> 0) (sort_js cmp xs))"
    by (rule filter_sort_insert) (blast intro: trans)
  with Cons show ?case by (simp add: sort_js_def)
qed (simp add: sort_js_def)

end

lemma mset_sort_insert: "mset (sort_insert cmp x xs) = add_mset x (mset xs)"
  by (induction xs) auto

lemma mset_sort_js: "mset (sort_js cmp xs) = mset xs"
  unfolding sort_js_def by (induction xs) (auto simp: mset_sort_insert)

lemma set_sort_js [simp]: "set (sort_js cmp xs) = set xs"
  using mset_sort_js by (metis set_mset_mset)

end
