(* ===== verification/SearchEngine.thy ===== *)
theory SearchEngine
  imports SearchText JsSort
begin

text \<open>
  The ranking core of \<open>docs/_static/searchtools.js\<close>: the scorer, the result order
  \<open>_orderResultsByScoreThenName\<close>, \<open>Search.performObjectSearch\<close>, \<open>Search.performTermsSearch\<close> and
  \<open>Search._performSearch\<close> with its removal of duplicates.

  An object of the index whose keys the code enumerates is a dictionary in the enumeration order
  of the engine.  A file number outside the name tables reads \<open>undefined\<close>, which the code puts
  into strings; \<^const>\<open>str_at\<close> gives that text.
\<close>

section \<open>Data\<close>

datatype result_kind = KIndex | KObject | KText | KTitle

text \<open>\<open>[docname, title, anchor, descr, score, filename, kind]\<close>; \<open>descr\<close> may be \<open>null\<close>.\<close>

record result =
  r_docname :: string
  r_title :: string
  r_anchor :: string
  r_descr :: "string option"
  r_score :: int
  r_filename :: string
  r_kind :: result_kind

text \<open>A term of the index is in one file (a number) or in a list of files.\<close>

datatype file_ref = OneFile nat | Files "nat list"

definition record_files :: "file_ref \<Rightarrow> nat list" where
  "record_files r = (case r of OneFile f \<Rightarrow> [f] | Files fs \<Rightarrow> fs)"

record obj_match =
  om_file :: nat
  om_objtype :: nat
  om_prio :: int
  om_anchor :: string
  om_name :: string

record search_index =
  filenames :: "string list"
  docnames :: "string list"
  titles :: "string list"
  alltitles :: "(string, (nat \<times> string option) list) dict"
  indexentries :: "(string, (nat \<times> string \<times> bool) list) dict"
  objects :: "(string, obj_match list) dict"
  objnames :: "(nat, string \<times> string \<times> string) dict"
  terms :: "(string, file_ref) dict"
  titleterms :: "(string, file_ref) dict"

record scorer =
  objNameMatch :: int
  objPartialMatch :: int
  objPrio :: "(int, int) dict"
  objPrioDefault :: int
  sc_title :: int
  partialTitle :: int
  sc_term :: int
  partialTerm :: int
  sc_score :: "(result \<Rightarrow> int) option"

definition Scorer :: scorer where
  "Scorer = \<lparr>objNameMatch = 11, objPartialMatch = 6,
     objPrio = [(0, 15), (1, 5), (2, - 5)], objPrioDefault = 0,
     sc_title = 15, partialTitle = 7, sc_term = 5, partialTerm = 2, sc_score = None\<rparr>"

section \<open>Order of results\<close>

text \<open>Strings compare by code units.\<close>

fun str_less :: "string \<Rightarrow> string \<Rightarrow> bool" where
  "str_less s [] = False"
| "str_less [] (_ # _) = True"
| "str_less (a # s) (b # t) = (code a < code b \<or> a = b \<and> str_less s t)"

definition orderResultsByScoreThenName :: "result \<Rightarrow> result \<Rightarrow> int" where
  "orderResultsByScoreThenName a b =
     (let leftScore = r_score a; rightScore = r_score b in
      if leftScore = rightScore then
        (let leftTitle = toLowerCase (r_title a); rightTitle = toLowerCase (r_title b) in
         if leftTitle = rightTitle then 0
         else if str_less rightTitle leftTitle then - 1 else 1)
      else if leftScore > rightScore then 1 else - 1)"

section \<open>Object search\<close>

text \<open>
  \<open>objectSearchCallback\<close>: \<open>Inr None\<close> where it returns without a result.  Indexing the missing entry of
  an object type raises a \<open>TypeError\<close>.  \<open>gettext\<close> is the translation function \<open>_\<close> of \<open>doctools.js\<close>.
\<close>

definition objectSearchCallback ::
  "(string \<Rightarrow> string) \<Rightarrow> scorer \<Rightarrow> search_index \<Rightarrow> string \<Rightarrow> string list \<Rightarrow> string \<Rightarrow> obj_match
     \<Rightarrow> js_error + result option" where
  "objectSearchCallback gettext sc idx object obj_terms pre match =
     (let name = om_name match;
          fullname = (if pre \<noteq> [] then pre @ ''.'' else []) @ name;
          fullnameLower = toLowerCase fullname in
      if indexOf fullnameLower object < 0 then Inr None
      else
       (let parts = split_char (CHR ''.'') fullnameLower;
            score1 =
              (if fullnameLower = object \<or> last parts = object then objNameMatch sc
               else if indexOf (last parts) object > - 1 then objPartialMatch sc
               else 0) in
        case map_of (objnames idx) (om_objtype match) of
          None \<Rightarrow> Inl TypeError
        | Some (objDomain, objType, objName) \<Rightarrow>
         (let title = str_at (titles idx) (om_file match);
              otherTerms = removeAll object (new_Set obj_terms);
              haystack = toLowerCase (pre @ '' '' @ name @ '' '' @ objName @ '' '' @ title) in
          if otherTerms \<noteq> [] \<and> list_ex (\<lambda>otherTerm. indexOf haystack otherTerm < 0) otherTerms
          then Inr None
          else
           (let anchor =
                  (if om_anchor match = [] then fullname
                   else if om_anchor match = ''-'' then objType @ ''-'' @ fullname
                   else om_anchor match);
                descr = objName @ gettext '', in '' @ title;
                score =
                  score1 + (case map_of (objPrio sc) (om_prio match) of
                              Some p \<Rightarrow> p | None \<Rightarrow> objPrioDefault sc) in
            Inr (Some \<lparr>r_docname = str_at (docnames idx) (om_file match), r_title = fullname,
                  r_anchor = ''#'' @ anchor, r_descr = Some descr, r_score = score,
                  r_filename = str_at (filenames idx) (om_file match), r_kind = KObject\<rparr>)))))"

definition somes :: "'a option list \<Rightarrow> 'a list" where
  "somes xs = concat (map (\<lambda>x. case x of None \<Rightarrow> [] | Some y \<Rightarrow> [y]) xs)"

definition performObjectSearch ::
  "(string \<Rightarrow> string) \<Rightarrow> scorer \<Rightarrow> search_index \<Rightarrow> string \<Rightarrow> string list \<Rightarrow> js_error + result list" where
  "performObjectSearch gettext sc idx object obj_terms =
     map_sum id somes
       (mapM_err (\<lambda>(pre, match). objectSearchCallback gettext sc idx object obj_terms pre match)
          (concat (map (\<lambda>(pre, ms). map (Pair pre) ms) (objects idx))))"

section \<open>Full text search\<close>

text \<open>
  The state of \<open>performTermsSearch\<close>: \<open>scoreMap\<close> from a file to the score of each word in it, and
  \<open>fileMap\<close> from a file to the words found in it.
\<close>

record term_state =
  scoreMap :: "(nat, (string, int) dict) dict"
  fileMap :: "(nat, string list) dict"

text \<open>The array \<open>arr\<close> built for one word: records of files (or \<open>undefined\<close>) and a score.\<close>

definition term_records :: "scorer \<Rightarrow> search_index \<Rightarrow> string \<Rightarrow> (file_ref option \<times> int) list" where
  "term_records sc idx word =
     [(map_of (terms idx) word, sc_term sc), (map_of (titleterms idx) word, sc_title sc)] @
     (if length word > 2 then
        (let escapedWord = escapeRegExp word in
         (if \<not> dict_has (terms idx) word then
            map (\<lambda>(t, fs). (Some fs, partialTerm sc))
              (filter (\<lambda>(t, fs). regexp_match t escapedWord) (terms idx))
          else []) @
         (if \<not> dict_has (titleterms idx) word then
            map (\<lambda>(t, fs). (Some fs, partialTitle sc))
              (filter (\<lambda>(t, fs). regexp_match t escapedWord) (titleterms idx))
          else []))
      else [])"

definition set_score :: "string \<Rightarrow> int \<Rightarrow> nat
    \<Rightarrow> (nat, (string, int) dict) dict \<Rightarrow> (nat, (string, int) dict) dict" where
  "set_score word score file m =
     (let m' = (if dict_has m file then m else dict_set file [] m) in
      case map_of m' file of
        None \<Rightarrow> m'
      | Some fileScores \<Rightarrow> dict_set file (dict_set word score fileScores) m')"

definition add_word :: "string \<Rightarrow> nat \<Rightarrow> (nat, string list) dict \<Rightarrow> (nat, string list) dict" where
  "add_word word file m =
     (case map_of m file of
        None \<Rightarrow> dict_set file [word] m
      | Some ws \<Rightarrow> if word \<in> set ws then m else dict_set file (ws @ [word]) m)"

text \<open>\<open>recordFiles\<close> of a record; nothing for \<open>undefined\<close>.\<close>

definition files_of :: "file_ref option \<times> int \<Rightarrow> nat list" where
  "files_of r = (case fst r of None \<Rightarrow> [] | Some fs \<Rightarrow> record_files fs)"

definition search_term :: "scorer \<Rightarrow> search_index \<Rightarrow> string \<Rightarrow> term_state \<Rightarrow> term_state" where
  "search_term sc idx word st =
     (let arr = term_records sc idx word in
      if list_all (\<lambda>r. fst r = None) arr then st
      else
       (let files = concat (map files_of arr) in
        st\<lparr>scoreMap := fold (\<lambda>r. fold (set_score word (snd r)) (files_of r)) arr (scoreMap st),
           fileMap := fold (add_word word) files (fileMap st)\<rparr>))"

definition word_score :: "term_state \<Rightarrow> nat \<Rightarrow> string \<Rightarrow> int option" where
  "word_score st file w = (case map_of (scoreMap st) file of None \<Rightarrow> None | Some m \<Rightarrow> map_of m w)"

text \<open>
  \<open>terms[term]\<close> for an excluded term, read without \<open>hasOwnProperty\<close>: an own record, a member of
  \<open>Object.prototype\<close>, or \<open>undefined\<close>.
\<close>

datatype term_entry = NoEntry | Inherited | Own file_ref

definition term_entry_of :: "(string, file_ref) dict \<Rightarrow> string \<Rightarrow> term_entry" where
  "term_entry_of d t =
     (case map_of d t of
        Some r \<Rightarrow> Own r
      | None \<Rightarrow> if t \<in> set object_prototype_names then Inherited else NoEntry)"

text \<open>\<open>terms[term] === file\<close>\<close>

definition entry_is :: "term_entry \<Rightarrow> nat \<Rightarrow> bool" where
  "entry_is e file \<longleftrightarrow> e = Own (OneFile file)"

text \<open>
  \<open>(terms[term] || []).includes(file)\<close>.  Zero is falsy and gives the empty array; other numbers and
  the members of \<open>Object.prototype\<close> have no method \<open>includes\<close>.
\<close>

definition entry_includes :: "term_entry \<Rightarrow> nat \<Rightarrow> js_error + bool" where
  "entry_includes e file =
     (case e of
        NoEntry \<Rightarrow> Inr False
      | Inherited \<Rightarrow> Inl TypeError
      | Own (OneFile f) \<Rightarrow> if f = 0 then Inr False else Inl TypeError
      | Own (Files fs) \<Rightarrow> Inr (file \<in> set fs))"

definition has_excluded :: "search_index \<Rightarrow> nat \<Rightarrow> string \<Rightarrow> js_error + bool" where
  "has_excluded idx file t =
     (let in_terms = term_entry_of (terms idx) t; in_titles = term_entry_of (titleterms idx) t in
      if entry_is in_terms file \<or> entry_is in_titles file then Inr True
      else (case entry_includes in_terms file of
              Inl e \<Rightarrow> Inl e
            | Inr b \<Rightarrow> if b then Inr True else entry_includes in_titles file))"

fun some_excluded :: "search_index \<Rightarrow> nat \<Rightarrow> string list \<Rightarrow> js_error + bool" where
  "some_excluded idx file [] = Inr False"
| "some_excluded idx file (t # ts) =
     (case has_excluded idx file t of
        Inl e \<Rightarrow> Inl e
      | Inr b \<Rightarrow> if b then Inr True else some_excluded idx file ts)"

text \<open>
  The loop over \<open>fileMap\<close>.  Note the \<open>break\<close> on an excluded term: it ends the loop, not the
  iteration.
\<close>

fun collect_files ::
  "search_index \<Rightarrow> string list \<Rightarrow> string list \<Rightarrow> term_state \<Rightarrow> (nat, string list) dict
     \<Rightarrow> js_error + result list" where
  "collect_files idx search_terms excluded st [] = Inr []"
| "collect_files idx search_terms excluded st ((file, wordList) # rest) =
     (let filteredTermCount = length (filter (\<lambda>t. length t > 2) search_terms) in
      if length wordList \<noteq> length search_terms \<and> length wordList \<noteq> filteredTermCount
      then collect_files idx search_terms excluded st rest
      else (case some_excluded idx file excluded of
              Inl e \<Rightarrow> Inl e
            | Inr b \<Rightarrow>
                if b then Inr []
                else
                  map_sum id
                    ((#) \<lparr>r_docname = str_at (docnames idx) file, r_title = str_at (titles idx) file,
                      r_anchor = [], r_descr = None,
                      r_score = Max (set (map (\<lambda>w. the (word_score st file w)) wordList)),
                      r_filename = str_at (filenames idx) file, r_kind = KText\<rparr>)
                    (collect_files idx search_terms excluded st rest)))"

definition performTermsSearch ::
  "scorer \<Rightarrow> search_index \<Rightarrow> string list \<Rightarrow> string list \<Rightarrow> js_error + result list" where
  "performTermsSearch sc idx search_terms excluded =
     (let st = fold (search_term sc idx) search_terms \<lparr>scoreMap = [], fileMap = []\<rparr> in
      collect_files idx search_terms excluded st (fileMap st))"

section \<open>The search\<close>

text \<open>Matches in the titles of sections.  The length tests and the quotient are on code units.\<close>

definition title_results :: "scorer \<Rightarrow> search_index \<Rightarrow> string \<Rightarrow> result list" where
  "title_results sc idx queryLower =
     concat (map (\<lambda>(title, foundTitles).
       if str_includes (trim (toLowerCase title)) queryLower
          \<and> 2 * length queryLower \<ge> length title
       then map (\<lambda>(file, id).
          let score = round_div (sc_title sc * int (length queryLower)) (int (length title));
              doc = str_at (titles idx) file;
              boost = (if doc = title then 1 else 0) in
          \<lparr>r_docname = str_at (docnames idx) file,
           r_title = (if doc \<noteq> title then doc @ '' > '' @ title else title),
           r_anchor = (case id of None \<Rightarrow> [] | Some i \<Rightarrow> ''#'' @ i),
           r_descr = None, r_score = score + boost,
           r_filename = str_at (filenames idx) file, r_kind = KTitle\<rparr>) foundTitles
       else []) (alltitles idx))"

text \<open>Matches in the entries of index directives, each with its \<open>isMain\<close> flag.\<close>

definition entry_results :: "search_index \<Rightarrow> string \<Rightarrow> (result \<times> bool) list" where
  "entry_results idx queryLower =
     concat (map (\<lambda>(entry, foundEntries).
       if str_includes entry queryLower \<and> 2 * length queryLower \<ge> length entry
       then map (\<lambda>(file, id, isMain).
          (\<lparr>r_docname = str_at (docnames idx) file, r_title = str_at (titles idx) file,
            r_anchor = (if id \<noteq> [] then ''#'' @ id else []), r_descr = None,
            r_score = round_div (100 * int (length queryLower)) (int (length entry)),
            r_filename = str_at (filenames idx) file, r_kind = KIndex\<rparr>, isMain)) foundEntries
       else []) (indexentries idx))"

text \<open>\<open>resultStr\<close>: the identity under which duplicates are removed.\<close>

definition resultStr :: "result \<Rightarrow> string" where
  "resultStr r = join '','' [r_docname r, r_title r, r_anchor r,
     case r_descr r of None \<Rightarrow> ''null'' | Some d \<Rightarrow> d, r_filename r]"

definition dedup_step :: "result \<Rightarrow> result list \<times> string list \<Rightarrow> result list \<times> string list" where
  "dedup_step r = (\<lambda>(acc, seen).
     if resultStr r \<in> set seen then (acc, seen) else (acc @ [r], set_add (resultStr r) seen))"

definition remove_duplicates :: "result list \<Rightarrow> result list" where
  "remove_duplicates results = rev (fst (fold dedup_step (rev results) ([], [])))"

definition rescore :: "scorer \<Rightarrow> result \<Rightarrow> result" where
  "rescore sc r = (case sc_score sc of None \<Rightarrow> r | Some f \<Rightarrow> r\<lparr>r_score := f r\<rparr>)"

definition main_results ::
  "(string \<Rightarrow> string) \<Rightarrow> scorer \<Rightarrow> search_index \<Rightarrow> parsed_query \<Rightarrow> js_error + result list" where
  "main_results gettext sc idx pq =
     (let queryLower = trim (toLowerCase (pq_query pq)) in
      case mapM_err (\<lambda>t. performObjectSearch gettext sc idx t (objectTerms pq)) (objectTerms pq) of
        Inl e \<Rightarrow> Inl e
      | Inr objs \<Rightarrow>
          map_sum id (\<lambda>found.
            title_results sc idx queryLower
            @ map fst (filter snd (entry_results idx queryLower))
            @ concat objs
            @ found)
          (performTermsSearch sc idx (searchTerms pq) (excludedTerms pq)))"

definition non_main_results :: "search_index \<Rightarrow> parsed_query \<Rightarrow> result list" where
  "non_main_results idx pq =
     map fst (filter (\<lambda>x. \<not> snd x) (entry_results idx (trim (toLowerCase (pq_query pq)))))"

definition combine_results :: "scorer \<Rightarrow> result list \<Rightarrow> result list \<Rightarrow> result list" where
  "combine_results sc nonMainIndexResults normalResults =
     remove_duplicates
       (sort_js orderResultsByScoreThenName (map (rescore sc) nonMainIndexResults)
        @ sort_js orderResultsByScoreThenName (map (rescore sc) normalResults))"

definition performSearch ::
  "(string \<Rightarrow> string) \<Rightarrow> scorer \<Rightarrow> search_index \<Rightarrow> parsed_query \<Rightarrow> js_error + result list" where
  "performSearch gettext sc idx pq =
     map_sum id (combine_results sc (non_main_results idx pq)) (main_results gettext sc idx pq)"

section \<open>The comparator is a linear preorder and the sort is a stable sort\<close>

lemma str_less_irrefl [simp]: "\<not> str_less s s"
  by (induction s) auto

lemma str_less_linear: "str_less s t \<or> s = t \<or> str_less t s"
proof (induction s arbitrary: t)
  case Nil
  then show ?case by (cases t) auto
next
  case (Cons a s)
  show ?case
  proof (cases t)
    case (Cons b u)
    with Cons.IH [of u] show ?thesis by (cases "code a" "code b" rule: linorder_cases) auto
  qed simp
qed

lemma str_less_trans: "str_less s t \<Longrightarrow> str_less t u \<Longrightarrow> str_less s u"
proof (induction s t arbitrary: u rule: str_less.induct)
  case (2 b t)
  then show ?case by (cases u) auto
next
  case (3 a s b t)
  then show ?case by (cases u) auto
qed simp

lemma str_nless_trans: "\<not> str_less s t \<Longrightarrow> \<not> str_less t u \<Longrightarrow> \<not> str_less s u"
  using str_less_linear [of s t] str_less_linear [of t u] str_less_trans [of u t s]
    str_less_trans [of s u s] by auto

lemma order_le_iff:
  "orderResultsByScoreThenName a b \<le> 0 \<longleftrightarrow>
     r_score a < r_score b \<or>
     r_score a = r_score b \<and> \<not> str_less (toLowerCase (r_title a)) (toLowerCase (r_title b))"
  using str_less_linear [of "toLowerCase (r_title a)" "toLowerCase (r_title b)"]
    str_less_trans [of "toLowerCase (r_title a)" "toLowerCase (r_title b)" "toLowerCase (r_title a)"]
  by (auto simp: orderResultsByScoreThenName_def Let_def)

interpretation result_order: comparator orderResultsByScoreThenName
proof unfold_locales
  fix x y z :: result
  show "orderResultsByScoreThenName x y \<le> 0 \<or> orderResultsByScoreThenName y x \<le> 0"
    unfolding order_le_iff using str_less_trans str_less_irrefl by (metis linorder_neqE)
  assume "orderResultsByScoreThenName x y \<le> 0" and "orderResultsByScoreThenName y z \<le> 0"
  then show "orderResultsByScoreThenName x z \<le> 0"
    unfolding order_le_iff using str_nless_trans by auto
qed

section \<open>Removal of duplicates\<close>

lemma dedup_fold_seen:
  "set (snd (fold dedup_step rs (acc, seen))) = resultStr ` set rs \<union> set seen"
  by (induction rs arbitrary: acc seen) (auto simp: dedup_step_def)

lemma remove_duplicates_Nil [simp]: "remove_duplicates [] = []"
  by (simp add: remove_duplicates_def)

lemma remove_duplicates_Cons [simp]:
  "remove_duplicates (r # rs) =
     (if resultStr r \<in> resultStr ` set rs then remove_duplicates rs else r # remove_duplicates rs)"
proof -
  obtain acc seen where eq: "fold dedup_step (rev rs) ([], []) = (acc, seen)" by fastforce
  then have "set seen = resultStr ` set rs"
    using dedup_fold_seen [of "rev rs" "[]" "[]"] by simp
  then show ?thesis by (auto simp: remove_duplicates_def dedup_step_def eq)
qed

lemma set_remove_duplicates: "set (remove_duplicates rs) \<subseteq> set rs"
  by (induction rs) auto

lemma remove_duplicates_keys: "resultStr ` set (remove_duplicates rs) = resultStr ` set rs"
  by (induction rs) (auto simp: insert_absorb)

lemma remove_duplicates_distinct: "distinct (map resultStr (remove_duplicates rs))"
  by (induction rs) (auto simp: remove_duplicates_keys)

lemma subseq_remove_duplicates: "subseq (remove_duplicates rs) rs"
  by (induction rs) auto

lemma remove_duplicates_append:
  "remove_duplicates (xs @ ys) =
     filter (\<lambda>r. resultStr r \<notin> resultStr ` set ys) (remove_duplicates xs) @ remove_duplicates ys"
  by (induction xs) (auto simp: image_Un)

text \<open>In a list sorted by \<open>le\<close>, the entry kept for a key is the greatest one with that key.\<close>

lemma remove_duplicates_best:
  assumes "sorted_wrt le rs" and "\<And>x. le x x" and "r \<in> set rs"
  shows "\<exists>k \<in> set (remove_duplicates rs). resultStr k = resultStr r \<and> le r k"
  using assms(1,3)
proof (induction rs)
  case (Cons x xs)
  consider (tail) "r \<in> set xs" | (kept) "r = x" "resultStr x \<notin> resultStr ` set xs"
    | (dup) "r = x" "resultStr x \<in> resultStr ` set xs"
    using Cons.prems by auto
  then show ?case
  proof cases
    case tail
    with Cons.IH Cons.prems show ?thesis by auto
  next
    case kept
    with assms(2) show ?thesis by auto
  next
    case dup
    then obtain k where k: "k \<in> set (remove_duplicates xs)" "resultStr k = resultStr x"
      using remove_duplicates_keys [of xs] by (metis (no_types, lifting) imageE image_eqI)
    then have "k \<in> set xs" using set_remove_duplicates by blast
    with Cons.prems dup k show ?thesis by auto
  qed
qed simp

section \<open>The index of found words\<close>

definition words_of :: "(nat, string list) dict \<Rightarrow> nat \<Rightarrow> string list" where
  "words_of m f = (case map_of m f of None \<Rightarrow> [] | Some ws \<Rightarrow> ws)"

text \<open>A word is found in a file when one of its records lists the file.\<close>

definition found_in :: "scorer \<Rightarrow> search_index \<Rightarrow> string \<Rightarrow> nat \<Rightarrow> bool" where
  "found_in sc idx word f \<longleftrightarrow> (\<exists>r \<in> set (term_records sc idx word). f \<in> set (files_of r))"

lemma map_of_add_word:
  "map_of (add_word w f m) = (map_of m)(f \<mapsto> set_add w (words_of m f))"
  by (auto simp: add_word_def words_of_def set_add_def split: option.splits)

lemma words_of_add_word:
  "words_of (add_word w f m) g = (if g = f then set_add w (words_of m f) else words_of m g)"
  by (simp add: words_of_def [of "add_word w f m"] map_of_add_word) (simp add: words_of_def)

lemma set_add_idem [simp]: "set_add x (set_add x xs) = set_add x xs"
  by (simp add: set_add_def)

lemma words_of_fold_add_word:
  "words_of (fold (add_word w) fs m) g =
     (if g \<in> set fs then set_add w (words_of m g) else words_of m g)"
  by (induction fs arbitrary: m) (auto simp: words_of_add_word)

lemma found_in_files: "found_in sc idx w g \<longleftrightarrow> g \<in> set (concat (map files_of (term_records sc idx w)))"
  by (auto simp: found_in_def)

lemma no_records_not_found: "list_all (\<lambda>r. fst r = None) (term_records sc idx w) \<Longrightarrow> \<not> found_in sc idx w g"
  by (auto simp: found_in_def list_all_iff files_of_def)

lemma words_of_search_term:
  "words_of (fileMap (search_term sc idx w st)) g =
     (if found_in sc idx w g then set_add w (words_of (fileMap st) g) else words_of (fileMap st) g)"
proof (cases "list_all (\<lambda>r. fst r = None) (term_records sc idx w)")
  case True
  with no_records_not_found [OF True, of g] show ?thesis by (simp add: search_term_def)
next
  case False
  then show ?thesis unfolding found_in_files
    by (simp add: search_term_def Let_def words_of_fold_add_word)
qed

lemma words_of_fold_search:
  assumes "distinct (done_words @ ws)"
    and "words_of (fileMap st) g = filter (\<lambda>w. found_in sc idx w g) done_words"
  shows "words_of (fileMap (fold (search_term sc idx) ws st)) g =
     filter (\<lambda>w. found_in sc idx w g) (done_words @ ws)"
  using assms
proof (induction ws arbitrary: st done_words)
  case (Cons w ws)
  have "words_of (fileMap (search_term sc idx w st)) g =
      filter (\<lambda>w. found_in sc idx w g) (done_words @ [w])"
    using Cons.prems by (auto simp: words_of_search_term set_add_def)
  with Cons.prems Cons.IH [of "done_words @ [w]" "search_term sc idx w st"] show ?case by simp
qed simp

lemma fileMap_keys_add_word [simp]: "dict_wf m \<Longrightarrow> dict_wf (add_word w f m)"
  by (auto simp: add_word_def split: option.splits)

lemma fileMap_wf_fold [simp]: "dict_wf m \<Longrightarrow> dict_wf (fold (add_word w) fs m)"
  by (induction fs arbitrary: m) auto

lemma fileMap_wf_search_term [simp]:
  "dict_wf (fileMap st) \<Longrightarrow> dict_wf (fileMap (search_term sc idx w st))"
  by (simp add: search_term_def Let_def)

lemma fileMap_wf_search [simp]:
  "dict_wf (fileMap st) \<Longrightarrow> dict_wf (fileMap (fold (search_term sc idx) ws st))"
  by (induction ws arbitrary: st) auto

lemma words_of_in: "dict_wf m \<Longrightarrow> (f, ws) \<in> set m \<Longrightarrow> words_of m f = ws"
  by (simp add: words_of_def dict_wf_def)

text \<open>No file of \<open>fileMap\<close> has an empty word list.\<close>

definition words_nonempty :: "(nat, string list) dict \<Rightarrow> bool" where
  "words_nonempty m \<longleftrightarrow> (\<forall>f ws. map_of m f = Some ws \<longrightarrow> ws \<noteq> [])"

lemma words_nonempty_add_word: "words_nonempty m \<Longrightarrow> words_nonempty (add_word w f m)"
  by (auto simp: words_nonempty_def map_of_add_word set_add_def)

lemma words_nonempty_fold: "words_nonempty m \<Longrightarrow> words_nonempty (fold (add_word w) fs m)"
  by (induction fs arbitrary: m) (auto simp: words_nonempty_add_word)

lemma words_nonempty_search:
  "words_nonempty (fileMap st) \<Longrightarrow> words_nonempty (fileMap (fold (search_term sc idx) ws st))"
proof (induction ws arbitrary: st)
  case (Cons w ws)
  have "words_nonempty (fileMap (search_term sc idx w st))"
    using Cons.prems by (simp add: search_term_def Let_def words_nonempty_fold)
  with Cons.IH show ?case by simp
qed simp

subsection \<open>Scores\<close>

text \<open>The score of a word in a file: the one of the last record that lists the file.\<close>

definition last_score :: "(file_ref option \<times> int) list \<Rightarrow> nat \<Rightarrow> int option \<Rightarrow> int option" where
  "last_score arr f s =
     (case filter (\<lambda>r. f \<in> set (files_of r)) arr of [] \<Rightarrow> s | rs \<Rightarrow> Some (snd (last rs)))"

definition score_in :: "scorer \<Rightarrow> search_index \<Rightarrow> string \<Rightarrow> nat \<Rightarrow> int" where
  "score_in sc idx w f = snd (last (filter (\<lambda>r. f \<in> set (files_of r)) (term_records sc idx w)))"

definition score_at :: "(nat, (string, int) dict) dict \<Rightarrow> nat \<Rightarrow> string \<Rightarrow> int option" where
  "score_at m f w = (case map_of m f of None \<Rightarrow> None | Some d \<Rightarrow> map_of d w)"

lemma word_score_at: "word_score st f w = score_at (scoreMap st) f w"
  by (simp add: word_score_def score_at_def)

lemma score_at_set_score:
  "score_at (set_score w s f m) g v = (if g = f \<and> v = w then Some s else score_at m g v)"
  by (auto simp: score_at_def set_score_def Let_def dict_has_iff split: option.splits)

lemma score_at_fold_files:
  "score_at (fold (set_score w s) fs m) g v =
     (if g \<in> set fs \<and> v = w then Some s else score_at m g v)"
  by (induction fs arbitrary: m) (auto simp: score_at_set_score)

lemma score_at_fold_records:
  "score_at (fold (\<lambda>r. fold (set_score w (snd r)) (files_of r)) arr m) g v =
     (if v = w then last_score arr g (score_at m g v) else score_at m g v)"
proof (induction arr arbitrary: m)
  case Nil
  then show ?case by (simp add: last_score_def)
next
  case (Cons r arr)
  show ?case
    by (simp add: Cons.IH score_at_fold_files) (auto simp: last_score_def split: list.splits)
qed

lemma last_score_found:
  "found_in sc idx w f \<Longrightarrow> last_score (term_records sc idx w) f s = Some (score_in sc idx w f)"
  by (auto simp: last_score_def score_in_def found_in_def filter_empty_conv split: list.splits)

lemma last_score_not_found:
  "\<not> found_in sc idx w f \<Longrightarrow> last_score (term_records sc idx w) f s = s"
  by (auto simp: last_score_def found_in_def filter_empty_conv split: list.splits)

lemma word_score_search_term:
  "word_score (search_term sc idx w st) f v =
     (if v = w \<and> found_in sc idx w f then Some (score_in sc idx w f) else word_score st f v)"
proof (cases "list_all (\<lambda>r. fst r = None) (term_records sc idx w)")
  case True
  then show ?thesis using no_records_not_found [OF True, of f]
    by (simp add: search_term_def Let_def)
next
  case False
  then show ?thesis
    by (simp add: search_term_def Let_def word_score_at score_at_fold_records
        last_score_found last_score_not_found)
qed

lemma word_score_search:
  "word_score (fold (search_term sc idx) ws st) f v =
     (if v \<in> set ws \<and> found_in sc idx v f then Some (score_in sc idx v f) else word_score st f v)"
  by (induction ws arbitrary: st) (auto simp: word_score_search_term)

subsection \<open>Results of the full text search\<close>

definition matched :: "scorer \<Rightarrow> search_index \<Rightarrow> string list \<Rightarrow> nat \<Rightarrow> string list" where
  "matched sc idx ws f = filter (\<lambda>w. found_in sc idx w f) ws"

definition enough_matches :: "string list \<Rightarrow> string list \<Rightarrow> bool" where
  "enough_matches ws found \<longleftrightarrow>
     length found = length ws \<or> length found = length (filter (\<lambda>t. length t > 2) ws)"

definition text_result :: "scorer \<Rightarrow> search_index \<Rightarrow> string list \<Rightarrow> nat \<Rightarrow> result" where
  "text_result sc idx ws f =
     \<lparr>r_docname = str_at (docnames idx) f, r_title = str_at (titles idx) f,
      r_anchor = [], r_descr = None,
      r_score = Max ((\<lambda>w. score_in sc idx w f) ` set (matched sc idx ws f)),
      r_filename = str_at (filenames idx) f, r_kind = KText\<rparr>"

text \<open>What an excluded term means: one of the two tables lists the file for it.\<close>

definition in_files :: "file_ref option \<Rightarrow> nat \<Rightarrow> bool" where
  "in_files r file =
     (case r of None \<Rightarrow> False | Some (OneFile f) \<Rightarrow> f = file | Some (Files fs) \<Rightarrow> file \<in> set fs)"

definition holds_excluded :: "search_index \<Rightarrow> string list \<Rightarrow> nat \<Rightarrow> bool" where
  "holds_excluded idx excluded f \<longleftrightarrow>
     list_ex (\<lambda>t. in_files (map_of (terms idx) t) f \<or> in_files (map_of (titleterms idx) t) f) excluded"

text \<open>Entries whose \<open>includes\<close> can be called: absent ones, arrays, and the number zero.\<close>

definition searchable_entry :: "(string, file_ref) dict \<Rightarrow> string \<Rightarrow> bool" where
  "searchable_entry d t \<longleftrightarrow>
     (case map_of d t of
        None \<Rightarrow> t \<notin> set object_prototype_names
      | Some (OneFile f) \<Rightarrow> f = 0
      | Some (Files fs) \<Rightarrow> True)"

lemma has_excluded_searchable:
  assumes "searchable_entry (terms idx) t" and "searchable_entry (titleterms idx) t"
  shows "has_excluded idx f t =
     Inr (in_files (map_of (terms idx) t) f \<or> in_files (map_of (titleterms idx) t) f)"
  using assms unfolding has_excluded_def Let_def term_entry_of_def searchable_entry_def
  by (auto simp: entry_is_def entry_includes_def in_files_def
      split: option.splits file_ref.splits if_splits)

lemma some_excluded_searchable:
  assumes "\<And>t. t \<in> set excl \<Longrightarrow> searchable_entry (terms idx) t \<and> searchable_entry (titleterms idx) t"
  shows "some_excluded idx f excl = Inr (holds_excluded idx excl f)"
  using assms by (induction excl) (auto simp: has_excluded_searchable holds_excluded_def)

lemma collect_files_spec:
  assumes "\<And>f ws. (f, ws) \<in> set fm \<Longrightarrow> ws = matched sc idx ts f"
    and "\<And>f w. w \<in> set ts \<Longrightarrow> found_in sc idx w f \<Longrightarrow> word_score st f w = Some (score_in sc idx w f)"
    and "\<And>f. some_excluded idx f excl = Inr (P f)"
  shows "collect_files idx ts excl st fm =
     Inr (map (text_result sc idx ts) (takeWhile (\<lambda>f. \<not> P f)
       (filter (\<lambda>f. enough_matches ts (matched sc idx ts f)) (map fst fm))))"
  using assms(1)
proof (induction fm)
  case (Cons p fm)
  obtain f ws where p: "p = (f, ws)" by fastforce
  have ws: "ws = matched sc idx ts f" using Cons.prems p by simp
  have score: "(\<lambda>w. the (word_score st f w)) ` set ws = (\<lambda>w. score_in sc idx w f) ` set ws"
    by (rule image_cong) (auto simp: ws matched_def assms(2))
  have "collect_files idx ts excl st fm =
     Inr (map (text_result sc idx ts) (takeWhile (\<lambda>f. \<not> P f)
       (filter (\<lambda>f. enough_matches ts (matched sc idx ts f)) (map fst fm))))"
    using Cons.IH Cons.prems by (meson list.set_intros(2))
  with score show ?case
    unfolding p by (simp add: enough_matches_def text_result_def ws assms(3))
qed simp

text \<open>Which files the map holds, and the list of results in the order of the map.\<close>

abbreviation empty_term_state :: term_state where
  "empty_term_state \<equiv> \<lparr>scoreMap = [], fileMap = []\<rparr>"

lemma fileMap_search_words:
  assumes "distinct ws" and "(f, found) \<in> set (fileMap (fold (search_term sc idx) ws empty_term_state))"
  shows "found = matched sc idx ws f"
proof -
  let ?st = "fold (search_term sc idx) ws empty_term_state"
  have "words_of (fileMap ?st) f = filter (\<lambda>w. found_in sc idx w f) ([] @ ws)"
    using assms(1) by (intro words_of_fold_search) (auto simp: words_of_def)
  moreover have "words_of (fileMap ?st) f = found"
    using assms(2) by (intro words_of_in) auto
  ultimately show ?thesis by (simp add: matched_def)
qed

lemma fileMap_search_dom:
  assumes "distinct ws"
  shows "f \<in> fst ` set (fileMap (fold (search_term sc idx) ws empty_term_state)) \<longleftrightarrow>
    matched sc idx ws f \<noteq> []"
proof -
  let ?m = "fileMap (fold (search_term sc idx) ws empty_term_state)"
  have words: "words_of ?m f = matched sc idx ws f"
    using words_of_fold_search [of "[]" ws empty_term_state f sc idx] assms
    by (simp add: words_of_def [of "[]"] matched_def)
  have "words_nonempty ?m"
    by (rule words_nonempty_search) (simp add: words_nonempty_def)
  then have "dict_has ?m f \<longleftrightarrow> words_of ?m f \<noteq> []"
    by (auto simp: words_of_def words_nonempty_def dict_has_iff split: option.splits)
  with words show ?thesis by (simp add: dict_has_def)
qed

text \<open>The files of the map, in its order: the files of the first word, then the new ones of the
  second, and so on.\<close>

definition found_files :: "scorer \<Rightarrow> search_index \<Rightarrow> string list \<Rightarrow> nat list" where
  "found_files sc idx ws = new_Set (concat (map (\<lambda>w. concat (map files_of (term_records sc idx w))) ws))"

lemma keys_add_word: "dict_keys (add_word w f m) = set_add f (dict_keys m)"
proof (cases "map_of m f")
  case None
  moreover from None have "f \<notin> fst ` set m" by (simp add: map_of_eq_None_iff)
  ultimately show ?thesis by (simp add: add_word_def set_add_def dict_keys_set dict_has_def)
next
  case (Some ws)
  then have "f \<in> fst ` set m" by (metis map_of_eq_None_iff option.distinct(1))
  with Some show ?thesis by (simp add: add_word_def set_add_def dict_keys_set dict_has_def)
qed

lemma keys_fold_add_word: "dict_keys (fold (add_word w) fs m) = fold set_add fs (dict_keys m)"
  by (induction fs arbitrary: m) (simp_all add: keys_add_word)

lemma keys_search_term:
  "dict_keys (fileMap (search_term sc idx w st)) =
     fold set_add (concat (map files_of (term_records sc idx w))) (dict_keys (fileMap st))"
proof (cases "list_all (\<lambda>r. fst r = None) (term_records sc idx w)")
  case True
  then have "concat (map files_of (term_records sc idx w)) = []"
    by (simp add: list_all_iff files_of_def)
  with True show ?thesis by (simp only: search_term_def Let_def if_True fold_simps)
next
  case False
  then show ?thesis by (simp add: search_term_def Let_def keys_fold_add_word)
qed

lemma keys_search:
  "dict_keys (fileMap (fold (search_term sc idx) ws st)) =
     fold set_add (concat (map (\<lambda>w. concat (map files_of (term_records sc idx w))) ws)) (dict_keys (fileMap st))"
  by (induction ws arbitrary: st) (simp_all add: keys_search_term)

text \<open>The files whose words suffice, in the order in which the loop meets them.\<close>

definition candidates :: "scorer \<Rightarrow> search_index \<Rightarrow> string list \<Rightarrow> nat list" where
  "candidates sc idx ws = filter (\<lambda>f. enough_matches ws (matched sc idx ws f)) (found_files sc idx ws)"

lemma candidates_eq:
  "candidates sc idx ws = filter (\<lambda>f. enough_matches ws (matched sc idx ws f))
     (map fst (fileMap (fold (search_term sc idx) ws empty_term_state)))"
  by (simp add: candidates_def found_files_def keys_search new_Set_def)

lemma performTermsSearch_candidates:
  assumes "distinct ws" and "\<And>f. some_excluded idx f excl = Inr (P f)"
  shows "performTermsSearch sc idx ws excl =
    Inr (map (text_result sc idx ws) (takeWhile (\<lambda>f. \<not> P f) (candidates sc idx ws)))"
  unfolding performTermsSearch_def Let_def candidates_eq
  by (rule collect_files_spec)
    (auto simp: fileMap_search_words [OF assms(1)] word_score_search assms(2))

lemma collect_files_raises:
  assumes "\<And>g ws. (g, ws) \<in> set fm \<Longrightarrow> ws = matched sc idx ts g"
    and "filter (\<lambda>g. enough_matches ts (matched sc idx ts g)) (map fst fm) = f # fs"
    and "some_excluded idx f excl = Inl e"
  shows "collect_files idx ts excl st fm = Inl e"
  using assms(1,2)
proof (induction fm)
  case (Cons p fm)
  obtain g ws where p: "p = (g, ws)" by fastforce
  have ws: "ws = matched sc idx ts g" using Cons.prems p by simp
  show ?case
  proof (cases "enough_matches ts ws")
    case True
    then have "g = f" using Cons.prems(2) by (simp add: p ws)
    with True show ?thesis by (auto simp: p enough_matches_def assms(3))
  next
    case False
    have "filter (\<lambda>g. enough_matches ts (matched sc idx ts g)) (map fst fm) = f # fs"
      using Cons.prems(2) False by (simp add: p ws)
    then have "collect_files idx ts excl st fm = Inl e"
      by (rule Cons.IH [rotated]) (rule Cons.prems(1), simp)
    with False show ?thesis by (simp add: p enough_matches_def)
  qed
qed simp

lemma has_excluded_raises:
  assumes "\<not> searchable_entry (terms idx) t"
    and "\<not> entry_is (term_entry_of (terms idx) t) f" and "\<not> entry_is (term_entry_of (titleterms idx) t) f"
  shows "has_excluded idx f t = Inl TypeError"
  using assms unfolding has_excluded_def Let_def
  by (auto simp: searchable_entry_def term_entry_of_def entry_includes_def
      split: option.splits file_ref.splits if_splits)

lemma performTermsSearch_raises:
  assumes "distinct ws" and "candidates sc idx ws = f # fs" and "\<not> searchable_entry (terms idx) t"
    and "\<not> entry_is (term_entry_of (terms idx) t) f" and "\<not> entry_is (term_entry_of (titleterms idx) t) f"
  shows "performTermsSearch sc idx ws (t # excl) = Inl TypeError"
proof -
  have "some_excluded idx f (t # excl) = Inl TypeError"
    by (simp add: has_excluded_raises [OF assms(3-5)])
  with collect_files_raises [of _ sc idx ws f fs, OF fileMap_search_words [OF assms(1)]] assms(2)
  show ?thesis unfolding performTermsSearch_def Let_def candidates_eq by blast
qed

lemma performTermsSearch_results:
  assumes "distinct ws"
  shows "performTermsSearch sc idx ws [] = Inr (map (text_result sc idx ws) (candidates sc idx ws))"
  using performTermsSearch_candidates [OF assms, of idx "[]" "\<lambda>_. False"] by (simp add: takeWhile_all)

lemma in_files_iff: "in_files r f \<longleftrightarrow> f \<in> set (files_of (r, s))"
  by (auto simp: in_files_def files_of_def record_files_def split: option.splits file_ref.splits)

text \<open>The reference meaning of \<^const>\<open>found_in\<close>: an exact entry, or a partial one for a word of at
  least three characters that has no exact entry.\<close>

lemma found_in_iff:
  "found_in sc idx w f \<longleftrightarrow>
     in_files (map_of (terms idx) w) f \<or> in_files (map_of (titleterms idx) w) f \<or>
     2 < length w \<and>
      (\<not> dict_has (terms idx) w \<and> (\<exists>(t, fs) \<in> set (terms idx). sublist w t \<and> f \<in> set (record_files fs)) \<or>
       \<not> dict_has (titleterms idx) w \<and>
         (\<exists>(t, fs) \<in> set (titleterms idx). sublist w t \<and> f \<in> set (record_files fs)))"
proof -
  have partial: "(\<exists>r \<in> set (map (\<lambda>(t, fs). (Some fs, s)) (filter (\<lambda>(t, fs). regexp_match t (escapeRegExp w)) d)).
      f \<in> set (files_of r)) \<longleftrightarrow> (\<exists>(t, fs) \<in> set d. sublist w t \<and> f \<in> set (record_files fs))"
    for s :: int and d :: "(string, file_ref) dict"
    by (force simp: regexp_match_escape files_of_def)
  have guard: "(\<exists>r \<in> set (if b then xs else []). P r) \<longleftrightarrow> b \<and> (\<exists>r \<in> set xs. P r)"
    for b :: bool and xs :: "(file_ref option \<times> int) list" and P
    by (cases b) auto
  have exact: "(\<exists>r \<in> set [(map_of (terms idx) w, sc_term sc), (map_of (titleterms idx) w, sc_title sc)].
      f \<in> set (files_of r)) \<longleftrightarrow> in_files (map_of (terms idx) w) f \<or> in_files (map_of (titleterms idx) w) f"
    using in_files_iff [of "map_of (terms idx) w" f "sc_term sc"]
      in_files_iff [of "map_of (titleterms idx) w" f "sc_title sc"] by simp
  show ?thesis
    unfolding found_in_def term_records_def Let_def
    by (simp only: set_append bex_Un guard partial exact disj_assoc)
qed

text \<open>The final list in the order of display, from its end: the results of the main search by
  falling score, then those that only non-main index entries gave, by falling score.\<close>

definition falling :: "result list \<Rightarrow> bool" where
  "falling rs \<longleftrightarrow> sorted_wrt (\<lambda>a b. r_score b \<le> r_score a) rs"

lemma falling_deduplicated:
  "falling (rev (filter P (remove_duplicates (sort_js orderResultsByScoreThenName rs))))"
proof -
  let ?s = "sort_js orderResultsByScoreThenName rs"
  have "sorted_wrt (\<lambda>a b. orderResultsByScoreThenName a b \<le> 0) (remove_duplicates ?s)"
    using subseq_remove_duplicates result_order.sorted_sort_js by (rule sorted_wrt_subseq)
  then have "sorted_wrt (\<lambda>a b. r_score a \<le> r_score b) (filter P (remove_duplicates ?s))"
    by (intro sorted_wrt_filter) (erule sorted_wrt_mono_rel [rotated], auto simp: order_le_iff)
  then show ?thesis by (simp add: falling_def sorted_wrt_rev)
qed

lemma combine_results_groups:
  "\<exists>shown_first shown_last.
     rev (combine_results sc others ms) = shown_first @ shown_last
     \<and> falling shown_first \<and> falling shown_last
     \<and> set shown_first \<subseteq> rescore sc ` set ms \<and> set shown_last \<subseteq> rescore sc ` set others
     \<and> distinct (map resultStr (shown_first @ shown_last))
     \<and> resultStr ` set shown_first = resultStr ` rescore sc ` set ms
     \<and> resultStr ` set (shown_first @ shown_last) = resultStr ` rescore sc ` (set ms \<union> set others)"
proof -
  let ?o = "sort_js orderResultsByScoreThenName (map (rescore sc) others)"
  let ?n = "sort_js orderResultsByScoreThenName (map (rescore sc) ms)"
  let ?kept = "filter (\<lambda>r. resultStr r \<notin> resultStr ` set ?n) (remove_duplicates ?o)"
  have eq: "combine_results sc others ms = ?kept @ remove_duplicates ?n"
    by (simp add: combine_results_def remove_duplicates_append)
  have "distinct (map resultStr (combine_results sc others ms))"
    unfolding combine_results_def by (rule remove_duplicates_distinct)
  then have "distinct (map resultStr (rev (remove_duplicates ?n) @ rev ?kept))"
    unfolding eq by (auto simp: rev_map [symmetric])
  moreover have "resultStr ` set (combine_results sc others ms) = resultStr ` rescore sc ` (set ms \<union> set others)"
    by (simp add: combine_results_def remove_duplicates_keys image_Un Un_commute)
  then have "resultStr ` set (rev (remove_duplicates ?n) @ rev ?kept) = resultStr ` rescore sc ` (set ms \<union> set others)"
    unfolding eq by (simp only: set_append set_rev Un_commute)
  moreover have "falling (rev (remove_duplicates ?n))"
    using falling_deduplicated [of "\<lambda>_. True"] by simp
  moreover have "set (remove_duplicates ?n) \<subseteq> rescore sc ` set ms" "set ?kept \<subseteq> rescore sc ` set others"
    using set_remove_duplicates [of ?n] set_remove_duplicates [of ?o] by auto
  ultimately show ?thesis
    by (intro exI [of _ "rev (remove_duplicates ?n)"] exI [of _ "rev ?kept"])
      (simp add: eq falling_deduplicated remove_duplicates_keys)
qed

section \<open>Properties\<close>

text \<open>C1: \<open>performTermsSearch\<close> without exclusions finds exactly the files in which enough of the
  search terms occur (all of them, or as many as there are terms longer than two characters),
  each once, with the greatest of the scores its terms have in the file.\<close>

theorem terms_search_exact:
  assumes "distinct ws"
  shows "\<exists>rs. performTermsSearch sc idx ws [] = Inr rs
    \<and> set rs = text_result sc idx ws ` {f. matched sc idx ws f \<noteq> [] \<and> enough_matches ws (matched sc idx ws f)}
    \<and> length rs = card {f. matched sc idx ws f \<noteq> [] \<and> enough_matches ws (matched sc idx ws f)}"
proof -
  let ?fm = "fileMap (fold (search_term sc idx) ws empty_term_state)"
  have files: "set (candidates sc idx ws) = {f. matched sc idx ws f \<noteq> [] \<and> enough_matches ws (matched sc idx ws f)}"
    unfolding candidates_eq using fileMap_search_dom [OF assms] by auto
  have "dict_wf ?fm" by (rule fileMap_wf_search) simp
  then have "distinct (candidates sc idx ws)" by (simp add: candidates_eq dict_wf_def)
  then have "length (candidates sc idx ws) = card (set (candidates sc idx ws))"
    by (rule distinct_card [symmetric])
  then show ?thesis
    unfolding performTermsSearch_results [OF assms] using files by simp
qed

definition tiny_index :: search_index where
  "tiny_index =
     \<lparr>filenames = [''a.rst'', ''b.rst''], docnames = [''a'', ''b''], titles = [''Alpha'', ''Beta''],
      alltitles = [(''Alpha'', [(0, None)]), (''Beta'', [(1, None)])],
      indexentries = [(''sink'', [(1, ''s'', False)])],
      objects = [(''xtr'', [\<lparr>om_file = 0, om_objtype = 0, om_prio = 1, om_anchor = [], om_name = ''sink''\<rparr>])],
      objnames = [(0, (''cpp'', ''class'', ''C++ class''))],
      terms = [(''log'', Files [0, 1]), (''sink'', OneFile 1)],
      titleterms = [(''alpha'', OneFile 0)]\<rparr>"

lemma terms_search_exact_witness:
  "distinct [''log'', ''sink''] \<and>
   (\<exists>rs. performTermsSearch Scorer tiny_index [''log'', ''sink''] [] = Inr rs
    \<and> length rs = card {f. matched Scorer tiny_index [''log'', ''sink''] f \<noteq> [] \<and>
       enough_matches [''log'', ''sink''] (matched Scorer tiny_index [''log'', ''sink''] f)})"
  using terms_search_exact [of "[''log'', ''sink'']" Scorer tiny_index] by auto

text \<open>C2: the files with enough search terms are reported up to the first one that holds an excluded
  term, and no further: the loop of \<open>performTermsSearch\<close> stops there, and the files behind it are
  lost even when they hold no excluded term.  This is for excluded terms whose entries are absent,
  arrays or the number zero; when the first file meets an excluded term that the index lists as
  a single other file, or that is a name of \<open>Object.prototype\<close>, the search raises a \<open>TypeError\<close>.\<close>

theorem excluded_term_ends_search:
  assumes "distinct ws"
  shows "((\<forall>t \<in> set excl. searchable_entry (terms idx) t \<and> searchable_entry (titleterms idx) t) \<longrightarrow>
      performTermsSearch sc idx ws excl =
        Inr (map (text_result sc idx ws)
          (takeWhile (\<lambda>f. \<not> holds_excluded idx excl f) (candidates sc idx ws))))
    \<and> (candidates sc idx ws = f # fs \<and> \<not> searchable_entry (terms idx) t
        \<and> \<not> entry_is (term_entry_of (terms idx) t) f \<and> \<not> entry_is (term_entry_of (titleterms idx) t) f \<longrightarrow>
      performTermsSearch sc idx ws (t # excl) = Inl TypeError)"
proof (intro conjI impI)
  assume "\<forall>t \<in> set excl. searchable_entry (terms idx) t \<and> searchable_entry (titleterms idx) t"
  then have "some_excluded idx f excl = Inr (holds_excluded idx excl f)" for f
    by (intro some_excluded_searchable) blast
  then show "performTermsSearch sc idx ws excl =
        Inr (map (text_result sc idx ws)
          (takeWhile (\<lambda>f. \<not> holds_excluded idx excl f) (candidates sc idx ws)))"
    by (rule performTermsSearch_candidates [OF assms])
next
  assume "candidates sc idx ws = f # fs \<and> \<not> searchable_entry (terms idx) t
        \<and> \<not> entry_is (term_entry_of (terms idx) t) f \<and> \<not> entry_is (term_entry_of (titleterms idx) t) f"
  then show "performTermsSearch sc idx ws (t # excl) = Inl TypeError"
    by (intro performTermsSearch_raises [OF assms]) auto
qed

lemma excluded_term_ends_search_witness:
  "performTermsSearch Scorer tiny_index [''log''] [''alpha''] = Inr []
   \<and> candidates Scorer tiny_index [''log''] = [0, 1]
   \<and> \<not> holds_excluded tiny_index [''alpha''] 1
   \<and> performTermsSearch Scorer tiny_index [''log''] [''sink''] = Inl TypeError"
proof -
  have facts: "candidates Scorer tiny_index [''log''] = [0, 1]" "\<not> holds_excluded tiny_index [''alpha''] 1"
      "holds_excluded tiny_index [''alpha''] 0"
      "searchable_entry (terms tiny_index) ''alpha''" "searchable_entry (titleterms tiny_index) ''alpha''"
      "\<not> searchable_entry (terms tiny_index) ''sink''"
      "\<not> entry_is (term_entry_of (terms tiny_index) ''sink'') 0"
      "\<not> entry_is (term_entry_of (titleterms tiny_index) ''sink'') 0"
    by (code_simp+)
  show ?thesis
    using excluded_term_ends_search [of "[''log'']" "[''alpha'']" tiny_index Scorer 0 "[1]" "''sink''"]
      excluded_term_ends_search [of "[''log'']" "[]" tiny_index Scorer 0 "[1]" "''sink''"] facts
    by simp
qed

text \<open>C3: the results of a search carry pairwise different identities, and every candidate is
  represented by a result of the same identity that is at least as high in the order when the
  candidate is not a cross reference.\<close>

theorem combined_results_best:
  assumes "r \<in> set normalResults"
  shows "distinct (map resultStr (combine_results sc others normalResults))
    \<and> (\<exists>k \<in> set (combine_results sc others normalResults).
         resultStr k = resultStr (rescore sc r) \<and> r_score (rescore sc r) \<le> r_score k)"
proof -
  let ?n = "sort_js orderResultsByScoreThenName (map (rescore sc) normalResults)"
  have refl: "orderResultsByScoreThenName x x \<le> 0" for x using result_order.total by blast
  have "rescore sc r \<in> set ?n" using assms by simp
  from remove_duplicates_best [OF result_order.sorted_sort_js refl this]
  obtain k where k: "k \<in> set (remove_duplicates ?n)" "resultStr k = resultStr (rescore sc r)"
    and le: "orderResultsByScoreThenName (rescore sc r) k \<le> 0" by blast
  from le have "r_score (rescore sc r) \<le> r_score k" by (auto simp: order_le_iff)
  moreover have "k \<in> set (combine_results sc others normalResults)"
    using k(1) by (simp add: combine_results_def remove_duplicates_append)
  moreover have "distinct (map resultStr (combine_results sc others normalResults))"
    unfolding combine_results_def by (rule remove_duplicates_distinct)
  ultimately show ?thesis using k(2) by blast
qed

lemma combined_results_best_witness:
  "\<exists>k \<in> set (combine_results Scorer [] [text_result Scorer tiny_index [''log''] 0]).
     resultStr k = resultStr (text_result Scorer tiny_index [''log''] 0)"
  using combined_results_best [of "text_result Scorer tiny_index [''log''] 0"
      "[text_result Scorer tiny_index [''log''] 0]" Scorer "[]"]
  by (auto simp: rescore_def Scorer_def)

end
