(* ===== verification/DocTools.thy ===== *)
theory DocTools
  imports JsString
begin

text \<open>
  \<open>docs/_static/doctools.js\<close> and \<open>documentation_options.js\<close>: translations (\<open>gettext\<close>, \<open>ngettext\<close>,
  \<open>addTranslations\<close>), the buttons that fold the domain index, and the keyboard listener.
\<close>

section \<open>Options\<close>

record documentation_options =
  VERSION :: string
  LANGUAGE :: string
  COLLAPSE_INDEX :: bool
  BUILDER :: string
  FILE_SUFFIX :: string
  LINK_SUFFIX :: string
  HAS_SOURCE :: bool
  SOURCELINK_SUFFIX :: string
  NAVIGATION_WITH_KEYS :: bool
  SHOW_SEARCH_SUMMARY :: bool
  ENABLE_SEARCH_SHORTCUTS :: bool

definition DOCUMENTATION_OPTIONS :: documentation_options where
  "DOCUMENTATION_OPTIONS =
     \<lparr>VERSION = [], LANGUAGE = ''en'', COLLAPSE_INDEX = False, BUILDER = ''html'',
      FILE_SUFFIX = ''.html'', LINK_SUFFIX = ''.html'', HAS_SOURCE = True,
      SOURCELINK_SUFFIX = ''.txt'', NAVIGATION_WITH_KEYS = False,
      SHOW_SEARCH_SUMMARY = True, ENABLE_SEARCH_SHORTCUTS = True\<rparr>"

section \<open>Translations\<close>

text \<open>A catalogue maps a message to a string or to a tuple of plural forms.\<close>

datatype translation = TStr string | TTuple "string list"

record documentation =
  TRANSLATIONS :: "(string, translation) dict"
  PLURAL_EXPR :: "int \<Rightarrow> nat"
  LOCALE :: string

record catalog =
  cat_messages :: "(string, translation) dict"
  cat_plural_expr :: "int \<Rightarrow> nat"
  cat_locale :: string

definition initial_documentation :: documentation where
  "initial_documentation =
     \<lparr>TRANSLATIONS = [], PLURAL_EXPR = (\<lambda>n. if n = 1 then 0 else 1), LOCALE = ''unknown''\<rparr>"

text \<open>Indexing a translation: a tuple gives a form, a string one of its characters; \<open>None\<close> is
  \<open>undefined\<close>.\<close>

definition translation_at :: "translation \<Rightarrow> nat \<Rightarrow> string option" where
  "translation_at t i =
     (case t of
        TStr s \<Rightarrow> if i < length s then Some [s ! i] else None
      | TTuple xs \<Rightarrow> if i < length xs then Some (xs ! i) else None)"

definition gettext :: "documentation \<Rightarrow> string \<Rightarrow> string option" where
  "gettext d s =
     (case map_of (TRANSLATIONS d) s of
        None \<Rightarrow> Some s
      | Some (TStr t) \<Rightarrow> Some t
      | Some t \<Rightarrow> translation_at t 0)"

definition ngettext :: "documentation \<Rightarrow> string \<Rightarrow> string \<Rightarrow> int \<Rightarrow> string option" where
  "ngettext d singular plural n =
     (case map_of (TRANSLATIONS d) singular of
        Some t \<Rightarrow> translation_at t (PLURAL_EXPR d n)
      | None \<Rightarrow> Some (if n = 1 then singular else plural))"

definition addTranslations :: "catalog \<Rightarrow> documentation \<Rightarrow> documentation" where
  "addTranslations c d =
     d\<lparr>TRANSLATIONS := fold (\<lambda>(k, v). dict_set k v) (cat_messages c) (TRANSLATIONS d),
       PLURAL_EXPR := cat_plural_expr c, LOCALE := cat_locale c\<rparr>"

section \<open>Folding the domain index\<close>

text \<open>
  A toggle button: its \<open>id\<close> and the \<open>src\<close> of its image.  The rows of the table are given by their
  class names and carry whether they are displayed.
\<close>

record toggle_button =
  tb_id :: string
  tb_src :: string

record index_row =
  ir_class :: string
  ir_hidden :: bool

definition set_rows_hidden :: "string \<Rightarrow> bool \<Rightarrow> index_row list \<Rightarrow> index_row list" where
  "set_rows_hidden cls h rows = map (\<lambda>r. if ir_class r = cls then r\<lparr>ir_hidden := h\<rparr> else r) rows"

definition toggler :: "toggle_button \<Rightarrow> index_row list \<Rightarrow> toggle_button \<times> index_row list" where
  "toggler el rows =
     (let idNumber = substr_from (tb_id el) 7;
          src = tb_src el; len = int (length src) in
      if substr_from src (- 9) = ''minus.png''
      then (el\<lparr>tb_src := substr src 0 (len - 9) @ ''plus.png''\<rparr>,
            set_rows_hidden (''cg-'' @ idNumber) True rows)
      else (el\<lparr>tb_src := substr src 0 (len - 8) @ ''minus.png''\<rparr>,
            set_rows_hidden (''cg-'' @ idNumber) False rows))"

text \<open>\<open>initDomainIndexTable\<close>: every button is shown and, when the index starts collapsed, toggled
  once.\<close>

fun toggle_all :: "toggle_button list \<Rightarrow> index_row list \<Rightarrow> toggle_button list \<times> index_row list" where
  "toggle_all [] rows = ([], rows)"
| "toggle_all (el # els) rows =
     (let (el', rows') = toggler el rows; (els', rows'') = toggle_all els rows' in (el' # els', rows''))"

definition initDomainIndexTable ::
  "documentation_options \<Rightarrow> toggle_button list \<Rightarrow> index_row list \<Rightarrow> toggle_button list \<times> index_row list" where
  "initDomainIndexTable opts els rows =
     (if COLLAPSE_INDEX opts then toggle_all els rows else (els, rows))"

section \<open>Keyboard\<close>

record key_event =
  ke_key :: string
  ke_alt :: bool
  ke_ctrl :: bool
  ke_meta :: bool
  ke_shift :: bool

text \<open>The parts of the page the listener reads, and what it can do.\<close>

record key_page =
  active_tag :: string
  prev_href :: "string option"
  next_href :: "string option"

datatype key_action = GoTo string | FocusSearchBar | PreventDefault

definition BLACKLISTED_KEY_CONTROL_ELEMENTS :: "string list" where
  "BLACKLISTED_KEY_CONTROL_ELEMENTS = [''TEXTAREA'', ''INPUT'', ''SELECT'', ''BUTTON'']"

definition follow_link :: "string option \<Rightarrow> key_action list" where
  "follow_link href = (case href of Some (c # cs) \<Rightarrow> [GoTo (c # cs), PreventDefault] | _ \<Rightarrow> [])"

definition on_keydown :: "documentation_options \<Rightarrow> key_page \<Rightarrow> key_event \<Rightarrow> key_action list" where
  "on_keydown opts page ev =
     (if active_tag page \<in> set BLACKLISTED_KEY_CONTROL_ELEMENTS then []
      else if ke_alt ev \<or> ke_ctrl ev \<or> ke_meta ev then []
      else
        (if \<not> ke_shift ev then
           (if ke_key ev = ''ArrowLeft'' then
              (if NAVIGATION_WITH_KEYS opts then follow_link (prev_href page) else [])
            else if ke_key ev = ''ArrowRight'' then
              (if NAVIGATION_WITH_KEYS opts then follow_link (next_href page) else [])
            else [])
         else []) @
        (if ke_key ev = ''/'' \<and> ENABLE_SEARCH_SHORTCUTS opts then [FocusSearchBar, PreventDefault]
         else []))"

text \<open>\<open>initOnKeyListeners\<close>: no listener, so no action, unless one of the two options is on.\<close>

definition initOnKeyListeners :: "documentation_options \<Rightarrow> key_page \<Rightarrow> key_event \<Rightarrow> key_action list" where
  "initOnKeyListeners opts page ev =
     (if \<not> NAVIGATION_WITH_KEYS opts \<and> \<not> ENABLE_SEARCH_SHORTCUTS opts then []
      else on_keydown opts page ev)"

section \<open>Facts\<close>

lemma lookup_addTranslations:
  "map_of (TRANSLATIONS (addTranslations c d)) = map_of (TRANSLATIONS d) ++ map_of (rev (cat_messages c))"
  using assoc_dict.lookup_put_all [of "cat_messages c" "TRANSLATIONS d"]
  by (simp add: addTranslations_def assoc_dict.put_all_def)

lemma substr_from_suffix:
  "length t = n \<Longrightarrow> 0 < n \<Longrightarrow> substr_from (s @ t) (- int n) = t"
  by (simp add: substr_from_def)

lemma substr_init: "length t = n \<Longrightarrow> substr (s @ t) 0 (int (length (s @ t)) - int n) = s"
  by (simp add: substr_def substr_from_def)

lemma toggler_minus:
  "tb_src el = s @ ''minus.png'' \<Longrightarrow>
   toggler el rows =
     (el\<lparr>tb_src := s @ ''plus.png''\<rparr>, set_rows_hidden (''cg-'' @ substr_from (tb_id el) 7) True rows)"
  using substr_from_suffix [of "''minus.png''" 9 s] substr_init [of "''minus.png''" 9 s]
  by (simp add: toggler_def Let_def)

lemma toggler_plus:
  assumes "tb_src el = s @ ''plus.png''"
  shows "toggler el rows =
     (el\<lparr>tb_src := s @ ''minus.png''\<rparr>, set_rows_hidden (''cg-'' @ substr_from (tb_id el) 7) False rows)"
proof -
  have "substr_from (s @ ''plus.png'') (- 9) \<noteq> ''minus.png''"
  proof (cases s rule: rev_cases)
    case Nil
    then show ?thesis by (simp add: substr_from_def)
  next
    case (snoc t c)
    then have "substr_from (s @ ''plus.png'') (- 9) = c # ''plus.png''"
      by (simp add: substr_from_def)
    then show ?thesis by simp
  qed
  with assms substr_init [of "''plus.png''" 8 s] show ?thesis
    by (simp add: toggler_def Let_def)
qed

end
