(* ===== verification/SearchUi.thy ===== *)
theory SearchUi
  imports SearchEngine DocTools "HOL-Library.Signed_Division"
begin

text \<open>
  The search page of \<open>docs/_static/searchtools.js\<close> as a state machine: \<open>Search.performSearch\<close>,
  \<open>setIndex\<close>, \<open>deferQuery\<close>, \<open>query\<close>, the pulse of the progress dots, and the display of one result
  per timer tick by \<open>_displayNextItem\<close>.  The state holds the fields of the \<open>Search\<close> object, the
  texts and list items the code writes to the page, and the callbacks armed with \<open>setTimeout\<close>.
  Firing an armed callback is a step of the environment.
\<close>

section \<open>State\<close>

record list_item =
  li_class :: string
  li_href :: string
  li_score :: int
  li_title_html :: string
  li_descr_html :: "string option"
  li_highlighted :: "string list"

text \<open>A page requested with \<open>fetch\<close> for the summary of a result.\<close>

record summary_request =
  sr_url :: string
  sr_terms :: "string list"
  sr_anchor :: string

datatype timer =
    TPulse
  | TDisplay "result list" nat "string list" "string list"

record search_page =
  sp_index :: "search_index option"
  queued_query :: "string option"
  pulse_status :: int
  dots :: string
  title_text :: string
  status_text :: string
  out_items :: "list_item list"
  requests :: "summary_request list"
  timers :: "timer list"
  stored_terms :: string

text \<open>What the page is configured with: the options, the translations, the content root, the
  scorer, and the stop words and stemmer of \<open>language_data.js\<close>.\<close>

record search_env =
  env_opts :: documentation_options
  env_doc :: documentation
  env_root :: string
  env_scorer :: scorer
  env_stopword :: "string \<Rightarrow> bool"
  env_stem :: "string \<Rightarrow> string"

definition SPHINX_HIGHLIGHT_ENABLED :: bool where
  "SPHINX_HIGHLIGHT_ENABLED = True"

definition kind_name :: "result_kind \<Rightarrow> string" where
  "kind_name k =
     (case k of KIndex \<Rightarrow> ''index'' | KObject \<Rightarrow> ''object'' | KText \<Rightarrow> ''text'' | KTitle \<Rightarrow> ''title'')"

text \<open>A text from the catalogue; \<open>undefined\<close> prints as such.\<close>

definition translated :: "search_env \<Rightarrow> string \<Rightarrow> string" where
  "translated env s = (case gettext (env_doc env) s of Some t \<Rightarrow> t | None \<Rightarrow> ''undefined'')"

section \<open>Display\<close>

text \<open>\<open>requestUrl\<close> and \<open>linkUrl\<close> of a document.\<close>

definition doc_urls :: "documentation_options \<Rightarrow> string \<Rightarrow> string \<Rightarrow> string \<times> string" where
  "doc_urls opts contentRoot docName =
     (if BUILDER opts = ''dirhtml'' then
        (let dirname0 = docName @ ''/'';
             dirname =
               (if suffix ''/index/'' dirname0 then take (length dirname0 - 6) dirname0
                else if dirname0 = ''index/'' then [] else dirname0);
             requestUrl = contentRoot @ dirname in
         (requestUrl, requestUrl))
      else (contentRoot @ docName @ FILE_SUFFIX opts, docName @ LINK_SUFFIX opts))"

definition displayItem ::
  "search_env \<Rightarrow> result \<Rightarrow> string list \<Rightarrow> string list \<Rightarrow> search_page \<Rightarrow> search_page" where
  "displayItem env item search_terms highlight_terms sp =
     (let (requestUrl, linkUrl) = doc_urls (env_opts env) (env_root env) (r_docname item);
          descr = (case r_descr item of Some (c # cs) \<Rightarrow> Some (c # cs) | _ \<Rightarrow> None);
          li = \<lparr>li_class = ''kind-'' @ kind_name (r_kind item), li_href = linkUrl @ r_anchor item,
                li_score = r_score item, li_title_html = escapeHTML (r_title item),
                li_descr_html = map_option (\<lambda>d. '' ('' @ escapeHTML d @ '')'') descr,
                li_highlighted =
                  (if descr \<noteq> None \<and> SPHINX_HIGHLIGHT_ENABLED then highlight_terms else [])\<rparr> in
      sp\<lparr>out_items := out_items sp @ [li],
         requests := (if descr = None \<and> SHOW_SEARCH_SUMMARY (env_opts env)
           then requests sp @ [\<lparr>sr_url = requestUrl, sr_terms = search_terms, sr_anchor = r_anchor item\<rparr>]
           else requests sp)\<rparr>)"

definition stopPulse :: "search_page \<Rightarrow> search_page" where
  "stopPulse sp = sp\<lparr>pulse_status := - 1\<rparr>"

definition no_match_message :: string where
  "no_match_message = ''Your search did not match any documents. Please make sure that all words '' @
     ''are spelled correctly and that you'' @ [CHR 0x27] @ ''ve selected enough categories.''"

definition singular_message :: string where
  "singular_message = ''Search finished, found one page matching the search query.''"

definition plural_message :: string where
  "plural_message = ''Search finished, found ${resultCount} pages matching the search query.''"

text \<open>\<open>_finishSearch\<close>.  \<open>replace\<close> on a missing plural form raises a \<open>TypeError\<close>, after the title is set.\<close>

definition finishSearch :: "search_env \<Rightarrow> nat \<Rightarrow> search_page \<Rightarrow> (js_error option) \<times> search_page" where
  "finishSearch env resultCount sp =
     (let sp1 = (stopPulse sp)\<lparr>title_text := translated env ''Search Results''\<rparr> in
      if resultCount = 0 then (None, sp1\<lparr>status_text := translated env no_match_message\<rparr>)
      else (case ngettext (env_doc env) singular_message plural_message (int resultCount) of
              None \<Rightarrow> (Some TypeError, sp1)
            | Some m \<Rightarrow>
                (None, sp1\<lparr>status_text := replace_first ''${resultCount}'' (nat_str resultCount) m\<rparr>)))"

text \<open>\<open>_displayNextItem\<close>: the last result is shown, the rest waits for the next tick.\<close>

definition displayNextItem ::
  "search_env \<Rightarrow> result list \<Rightarrow> nat \<Rightarrow> string list \<Rightarrow> string list \<Rightarrow> search_page
     \<Rightarrow> js_error option \<times> search_page" where
  "displayNextItem env results resultCount search_terms highlight_terms sp =
     (if results \<noteq> [] then
        (let sp1 = displayItem env (last results) search_terms highlight_terms sp in
         (None, sp1\<lparr>timers := timers sp1
                     @ [TDisplay (butlast results) resultCount search_terms highlight_terms]\<rparr>))
      else finishSearch env resultCount sp)"

section \<open>Pulse\<close>

text \<open>
  The callback of the progress dots.  The remainder takes the sign of the dividend; \<open>repeat\<close> with a
  negative count raises a \<open>RangeError\<close>, after the status is written.
\<close>

definition pulse :: "search_page \<Rightarrow> js_error option \<times> search_page" where
  "pulse sp =
     (let p = (pulse_status sp + 1) smod 4;
          sp1 = sp\<lparr>pulse_status := p\<rparr> in
      if p < 0 then (Some (ErrorMsg ''RangeError''), sp1)
      else
       (let sp2 = sp1\<lparr>dots := replicate (nat p) (CHR ''.'')\<rparr> in
        (None, if p \<ge> 0 then sp2\<lparr>timers := timers sp2 @ [TPulse]\<rparr> else sp2)))"

definition startPulse :: "search_page \<Rightarrow> js_error option \<times> search_page" where
  "startPulse sp = (if pulse_status sp \<ge> 0 then (None, sp) else pulse sp)"

section \<open>Queries\<close>

definition query ::
  "search_env \<Rightarrow> search_index \<Rightarrow> string \<Rightarrow> search_page \<Rightarrow> js_error option \<times> search_page" where
  "query env idx q sp =
     (let pq = parseQuery (env_stopword env) (env_stem env) q;
          sp1 = (if SPHINX_HIGHLIGHT_ENABLED then sp\<lparr>stored_terms := stored_highlight pq\<rparr> else sp) in
      case performSearch (translated env) (env_scorer env) idx pq of
        Inl e \<Rightarrow> (Some e, sp1)
      | Inr results \<Rightarrow>
          displayNextItem env results (length results) (searchTerms pq) (highlightTerms pq) sp1)"

definition deferQuery :: "string \<Rightarrow> search_page \<Rightarrow> search_page" where
  "deferQuery q sp = sp\<lparr>queued_query := Some q\<rparr>"

definition setIndex :: "search_env \<Rightarrow> search_index \<Rightarrow> search_page \<Rightarrow> js_error option \<times> search_page" where
  "setIndex env idx sp =
     (let sp1 = sp\<lparr>sp_index := Some idx\<rparr> in
      case queued_query sp of
        None \<Rightarrow> (None, sp1)
      | Some q \<Rightarrow> query env idx q (sp1\<lparr>queued_query := None\<rparr>))"

text \<open>\<open>Search.performSearch\<close>: fresh page elements, the pulse, and the query now or later.\<close>

definition performSearch_page :: "search_env \<Rightarrow> string \<Rightarrow> search_page \<Rightarrow> js_error option \<times> search_page" where
  "performSearch_page env q sp =
     (case startPulse (sp\<lparr>title_text := translated env ''Searching'', dots := [],
                        status_text := [], out_items := []\<rparr>) of
        (Some e, sp1) \<Rightarrow> (Some e, sp1)
      | (None, sp1) \<Rightarrow>
         (case sp_index sp1 of
            Some idx \<Rightarrow> query env idx q sp1
          | None \<Rightarrow> (None, deferQuery q sp1)))"

text \<open>\<open>Search.init\<close>: the \<open>q\<close> parameter of the address, if there is one and it is not empty.\<close>

definition init_page :: "search_env \<Rightarrow> string option \<Rightarrow> search_page \<Rightarrow> js_error option \<times> search_page" where
  "init_page env q sp =
     (case q of Some (c # cs) \<Rightarrow> performSearch_page env (c # cs) sp | _ \<Rightarrow> (None, sp))"

definition new_page :: search_page where
  "new_page = \<lparr>sp_index = None, queued_query = None, pulse_status = - 1, dots = [],
     title_text = [], status_text = [], out_items = [], requests = [], timers = [], stored_terms = []\<rparr>"

text \<open>The environment fires one armed callback.\<close>

definition run_timer :: "search_env \<Rightarrow> timer \<Rightarrow> search_page \<Rightarrow> js_error option \<times> search_page" where
  "run_timer env t sp =
     (case t of
        TPulse \<Rightarrow> pulse sp
      | TDisplay results n search_terms highlight_terms \<Rightarrow>
          displayNextItem env results n search_terms highlight_terms sp)"

definition fire :: "search_env \<Rightarrow> nat \<Rightarrow> search_page \<Rightarrow> js_error option \<times> search_page" where
  "fire env i sp = run_timer env (timers sp ! i) (sp\<lparr>timers := take i (timers sp) @ drop (Suc i) (timers sp)\<rparr>)"

section \<open>Summaries\<close>

text \<open>
  \<open>Search.makeSearchSummary\<close> from the text of the page on: \<open>None\<close> for an empty text, else the text
  of the paragraph.  \<open>slice(-1)[0]\<close> of an empty array is \<open>undefined\<close>, the start position is then
  \<open>NaN\<close>: it is not \<open>=== 0\<close>, every comparison with it is false, and \<open>substr\<close> reads it as \<open>0\<close>.
\<close>

definition keyword_position :: "string \<Rightarrow> string list \<Rightarrow> int option" where
  "keyword_position textLower keywords =
     (case filter (\<lambda>i. i > - 1) (map (\<lambda>k. indexOf textLower (toLowerCase k)) keywords) of
        [] \<Rightarrow> None | is \<Rightarrow> Some (last is))"

definition makeSearchSummary :: "string \<Rightarrow> string list \<Rightarrow> string option" where
  "makeSearchSummary text keywords =
     (if text = [] then None
      else Some
       (case keyword_position (toLowerCase text) keywords of
          None \<Rightarrow> ''...'' @ trim (substr text 0 240)
        | Some pos \<Rightarrow>
           (let startWithContext = max (pos - 120) 0;
                top = (if startWithContext = 0 then [] else ''...'');
                tail = (if startWithContext + 240 < int (length text) then ''...'' else []) in
            top @ trim (substr text startWithContext 240) @ tail)))"

section \<open>Display facts\<close>

text \<open>The list item of one result.\<close>

definition item_of :: "search_env \<Rightarrow> string list \<Rightarrow> result \<Rightarrow> list_item" where
  "item_of env highlight_terms r =
     \<lparr>li_class = ''kind-'' @ kind_name (r_kind r),
      li_href = snd (doc_urls (env_opts env) (env_root env) (r_docname r)) @ r_anchor r,
      li_score = r_score r, li_title_html = escapeHTML (r_title r),
      li_descr_html = (if r_descr r \<in> {None, Some []} then None
        else Some ('' ('' @ escapeHTML (the (r_descr r)) @ '')'')),
      li_highlighted = (if r_descr r \<in> {None, Some []} then [] else highlight_terms)\<rparr>"

lemma displayItem_output:
  "out_items (displayItem env item ts hs sp) = out_items sp @ [item_of env hs item]"
  by (auto simp: displayItem_def item_of_def Let_def split_beta SPHINX_HIGHLIGHT_ENABLED_def
      split: option.splits list.splits)

lemma displayItem_frame [simp]:
  "timers (displayItem env item ts hs sp) = timers sp"
  "pulse_status (displayItem env item ts hs sp) = pulse_status sp"
  "status_text (displayItem env item ts hs sp) = status_text sp"
  by (simp_all add: displayItem_def Let_def split_beta)

lemma finishSearch_frame [simp]:
  "timers (snd (finishSearch env n sp)) = timers sp"
  "out_items (snd (finishSearch env n sp)) = out_items sp"
  "pulse_status (snd (finishSearch env n sp)) = - 1"
  by (auto simp: finishSearch_def stopPulse_def Let_def split: option.splits)

lemma pulse_frame [simp]: "out_items (snd (pulse sp)) = out_items sp"
  by (simp add: pulse_def Let_def)

lemma pulse_returns: "pulse sp = (None, sp') \<Longrightarrow> timers sp' = timers sp @ [TPulse] \<and> out_items sp' = out_items sp"
  by (auto simp: pulse_def Let_def split: if_splits)

text \<open>From the status \<open>-1\<close> that \<open>stopPulse\<close> writes, and from every status above it, the callback
  arms itself again.\<close>

lemma pulse_rearms:
  assumes "- 1 \<le> pulse_status sp"
  shows "\<exists>sp'. pulse sp = (None, sp') \<and> timers sp' = timers sp @ [TPulse]
    \<and> 0 \<le> pulse_status sp' \<and> pulse_status sp' < 4"
  using assms by (simp add: pulse_def Let_def smod_mod_positive not_less)

lemma displayNextItem_timers:
  "set (timers sp) \<subseteq> set (timers (snd (displayNextItem env rs n ts hs sp)))"
  by (simp add: displayNextItem_def Let_def subset_insertI)

section \<open>Steps of the page\<close>

text \<open>One step fires any armed callback that returns normally.\<close>

inductive page_step :: "search_env \<Rightarrow> search_page \<Rightarrow> search_page \<Rightarrow> bool" for env where
  fire_step: "i < length (timers sp) \<Longrightarrow> fire env i sp = (None, sp') \<Longrightarrow> page_step env sp sp'"

inductive page_run :: "search_env \<Rightarrow> search_page \<Rightarrow> search_page \<Rightarrow> bool" for env where
  run_refl: "page_run env sp sp"
| run_step: "page_run env sp sp' \<Longrightarrow> page_step env sp' sp'' \<Longrightarrow> page_run env sp sp''"

inductive_cases page_stepE: "page_step env sp sp'"

text \<open>Results that wait in display timers, in the order in which they will be shown.\<close>

definition waiting :: "search_env \<Rightarrow> timer \<Rightarrow> list_item list" where
  "waiting env t = (case t of TPulse \<Rightarrow> [] | TDisplay rs n ts hs \<Rightarrow> map (item_of env hs) (rev rs))"

definition is_display :: "timer \<Rightarrow> bool" where
  "is_display t = (case t of TPulse \<Rightarrow> False | TDisplay _ _ _ _ \<Rightarrow> True)"

definition pending_items :: "search_env \<Rightarrow> search_page \<Rightarrow> list_item list" where
  "pending_items env sp = concat (map (waiting env) (timers sp))"

lemma waiting_TPulse [simp]: "waiting env TPulse = []"
    "waiting env (TDisplay rs n ts hs) = map (item_of env hs) (rev rs)"
  and is_display_simps [simp]: "\<not> is_display TPulse" "is_display (TDisplay rs n ts hs)"
  by (simp_all add: waiting_def is_display_def)

lemma not_display_waiting: "filter is_display xs = [] \<Longrightarrow> concat (map (waiting env) xs) = []"
  by (induction xs) (auto simp: waiting_def is_display_def split: timer.splits if_splits)

lemma displayNextItem_items:
  assumes "filter is_display (timers sp) = []"
  shows "out_items (snd (displayNextItem env rs n ts hs sp)) @
      pending_items env (snd (displayNextItem env rs n ts hs sp)) =
    out_items sp @ map (item_of env hs) (rev rs)
    \<and> length (filter is_display (timers (snd (displayNextItem env rs n ts hs sp)))) \<le> 1"
proof (cases rs rule: rev_cases)
  case Nil
  with not_display_waiting [OF assms] assms show ?thesis
    by (simp add: displayNextItem_def pending_items_def)
next
  case (snoc rs' r)
  with not_display_waiting [OF assms] assms show ?thesis
    by (simp add: displayNextItem_def Let_def pending_items_def displayItem_output waiting_def)
qed

lemma at_most_one_remove:
  assumes "length (filter P xs) \<le> 1" and "i < length xs" and "P (xs ! i)"
  shows "filter P (take i xs @ drop (Suc i) xs) = []"
proof -
  have "xs = take i xs @ xs ! i # drop (Suc i) xs" using assms(2) by (rule id_take_nth_drop)
  then have "filter P xs = filter P (take i xs) @ xs ! i # filter P (drop (Suc i) xs)"
    using assms(3) by (metis filter.simps(2) filter_append)
  with assms(1) show ?thesis by simp
qed

lemma page_step_items:
  assumes "page_step env sp sp'" and "length (filter is_display (timers sp)) \<le> 1"
  shows "out_items sp' @ pending_items env sp' = out_items sp @ pending_items env sp
    \<and> length (filter is_display (timers sp')) \<le> 1"
proof -
  from assms(1) obtain i where 1: "i < length (timers sp)" "fire env i sp = (None, sp')"
    by (rule page_stepE)
  let ?rest = "take i (timers sp) @ drop (Suc i) (timers sp)"
  let ?sp = "sp\<lparr>timers := ?rest\<rparr>"
  have split: "timers sp = take i (timers sp) @ timers sp ! i # drop (Suc i) (timers sp)"
    using 1(1) by (rule id_take_nth_drop)
  then have pend: "pending_items env sp =
      concat (map (waiting env) (take i (timers sp))) @ waiting env (timers sp ! i) @
      concat (map (waiting env) (drop (Suc i) (timers sp)))"
    unfolding pending_items_def by (metis concat.simps(2) concat_append list.simps(9) map_append)
  show ?thesis
  proof (cases "timers sp ! i")
    case TPulse
    then have "pulse ?sp = (None, sp')" using 1(2) by (simp add: fire_def run_timer_def)
    then have "timers sp' = ?rest @ [TPulse]" "out_items sp' = out_items sp"
      using pulse_returns by fastforce+
    moreover have "filter is_display ?rest = filter is_display (timers sp)"
      using split TPulse by (metis filter.simps(2) filter_append is_display_simps(1))
    ultimately show ?thesis
      using assms(2) pend TPulse by (simp add: pending_items_def)
  next
    case (TDisplay rs n ts hs)
    have none: "filter is_display ?rest = []"
      using at_most_one_remove [OF assms(2) 1(1)] TDisplay by simp
    have sp': "sp' = snd (displayNextItem env rs n ts hs ?sp)"
      using 1(2) TDisplay by (simp add: fire_def run_timer_def)
    have before: "concat (map (waiting env) (take i (timers sp))) = []"
      and later: "concat (map (waiting env) (drop (Suc i) (timers sp))) = []"
      using none by (simp_all only: filter_append append_is_Nil_conv not_display_waiting)
    have "pending_items env sp = map (item_of env hs) (rev rs)"
      unfolding pend TDisplay before later by simp
    with displayNextItem_items [of ?sp env rs n ts hs] none sp' show ?thesis by simp
  qed
qed

lemma page_run_items:
  assumes "page_run env sp sp'" and "length (filter is_display (timers sp)) \<le> 1"
  shows "out_items sp' @ pending_items env sp' = out_items sp @ pending_items env sp
    \<and> length (filter is_display (timers sp')) \<le> 1"
  using assms
proof (induction rule: page_run.induct)
  case (run_step sp sp' sp'')
  then show ?case using page_step_items [of env sp' sp''] by simp
qed simp

section \<open>Properties\<close>

text \<open>C4: every interleaving of timer ticks shows the results of a query in the same order, each
  once.  First come the results of the main search by falling score, then those that only
  non-main index entries gave, again by falling score, whatever their scores are; every identity
  of a candidate is shown exactly once.  What is on the page followed by what still waits is
  always this list, and when no display tick is armed all of it is on the page.\<close>

theorem results_displayed_in_order:
  assumes "main_results (translated env) (env_scorer env) idx
      (parseQuery (env_stopword env) (env_stem env) q) = Inr ms"
    and "filter is_display (timers sp) = []"
    and "page_run env (snd (query env idx q sp)) sp'"
    and "others = non_main_results idx (parseQuery (env_stopword env) (env_stem env) q)"
  shows "\<exists>shown_first shown_last.
     out_items sp' @ pending_items env sp' = out_items sp @
       map (item_of env (highlightTerms (parseQuery (env_stopword env) (env_stem env) q)))
         (shown_first @ shown_last)
     \<and> falling shown_first \<and> falling shown_last
     \<and> set shown_first \<subseteq> rescore (env_scorer env) ` set ms
     \<and> set shown_last \<subseteq> rescore (env_scorer env) ` set others
     \<and> distinct (map resultStr (shown_first @ shown_last))
     \<and> resultStr ` set shown_first = resultStr ` rescore (env_scorer env) ` set ms
     \<and> resultStr ` set (shown_first @ shown_last) =
         resultStr ` rescore (env_scorer env) ` (set ms \<union> set others)
     \<and> (filter is_display (timers sp') = [] \<longrightarrow> pending_items env sp' = [])"
proof -
  let ?pq = "parseQuery (env_stopword env) (env_stem env) q"
  let ?results = "combine_results (env_scorer env) others ms"
  let ?sp = "sp\<lparr>stored_terms := stored_highlight ?pq\<rparr>"
  let ?start = "snd (query env idx q sp)"
  have start: "?start = snd (displayNextItem env ?results (length ?results) (searchTerms ?pq)
      (highlightTerms ?pq) ?sp)"
    using assms(1,4) by (simp add: query_def performSearch_def Let_def SPHINX_HIGHLIGHT_ENABLED_def)
  have "out_items ?start @ pending_items env ?start =
      out_items sp @ map (item_of env (highlightTerms ?pq)) (rev ?results)
    \<and> length (filter is_display (timers ?start)) \<le> 1"
    using displayNextItem_items [of ?sp env ?results "length ?results" "searchTerms ?pq" "highlightTerms ?pq"]
      assms(2) start by simp
  with page_run_items [OF assms(3)] have shown: "out_items sp' @ pending_items env sp' =
      out_items sp @ map (item_of env (highlightTerms ?pq)) (rev ?results)" by simp
  have "filter is_display (timers sp') = [] \<longrightarrow> pending_items env sp' = []"
    using not_display_waiting by (auto simp: pending_items_def)
  then show ?thesis
    unfolding shown using combine_results_groups [of "env_scorer env" others ms]
    by (elim exE conjE) (intro exI conjI, simp_all)
qed

definition plain_env :: search_env where
  "plain_env = \<lparr>env_opts = DOCUMENTATION_OPTIONS, env_doc = initial_documentation, env_root = [],
     env_scorer = Scorer, env_stopword = (\<lambda>_. False), env_stem = id\<rparr>"

lemma results_displayed_in_order_witness:
  "\<exists>shown_first shown_last.
     out_items (snd (query plain_env tiny_index ''sink'' new_page)) @
       pending_items plain_env (snd (query plain_env tiny_index ''sink'' new_page)) =
       map (item_of plain_env [''sink'']) (shown_first @ shown_last)
     \<and> falling shown_first \<and> length shown_first = 2 \<and> length shown_last = 1"
proof -
  let ?pq = "parseQuery (env_stopword plain_env) (env_stem plain_env) ''sink''"
  let ?texts = "\<lambda>rs. map resultStr rs"
  have "case main_results (translated plain_env) (env_scorer plain_env) tiny_index ?pq of
      Inl _ \<Rightarrow> False | Inr ms \<Rightarrow> ?texts (map (rescore Scorer) ms) = [''a,xtr.sink,#xtr.sink,C++ class, in Alpha,a.rst'', ''b,Beta,,null,b.rst'']"
    by code_simp
  then obtain ms where ms: "main_results (translated plain_env) (env_scorer plain_env) tiny_index ?pq = Inr ms"
    "?texts (map (rescore Scorer) ms) = [''a,xtr.sink,#xtr.sink,C++ class, in Alpha,a.rst'', ''b,Beta,,null,b.rst'']"
    by (auto split: sum.splits)
  have others: "?texts (map (rescore Scorer) (non_main_results tiny_index ?pq)) = [''b,Beta,#s,null,b.rst'']"
    by code_simp
  have h: "highlightTerms ?pq = [''sink'']" by code_simp
  have n: "filter is_display (timers new_page) = []" "out_items new_page = []"
    by (simp_all add: new_page_def)
  have ids: "resultStr ` rescore Scorer ` set ms = {''a,xtr.sink,#xtr.sink,C++ class, in Alpha,a.rst'', ''b,Beta,,null,b.rst''}"
    "resultStr ` rescore Scorer ` set (non_main_results tiny_index ?pq) = {''b,Beta,#s,null,b.rst''}"
    using arg_cong [OF ms(2), of set] arg_cong [OF others, of set] by (simp_all add: image_image)
  obtain first later where shown:
    "out_items (snd (query plain_env tiny_index ''sink'' new_page)) @
       pending_items plain_env (snd (query plain_env tiny_index ''sink'' new_page)) =
       map (item_of plain_env [''sink'']) (first @ later)" "falling first"
    "distinct (map resultStr (first @ later))"
    "resultStr ` set first = {''a,xtr.sink,#xtr.sink,C++ class, in Alpha,a.rst'', ''b,Beta,,null,b.rst''}"
    "resultStr ` set (first @ later) = {''a,xtr.sink,#xtr.sink,C++ class, in Alpha,a.rst'', ''b,Beta,,null,b.rst'', ''b,Beta,#s,null,b.rst''}"
    using results_displayed_in_order [OF ms(1) n(1) page_run.run_refl refl]
    unfolding h n(2) image_Un plain_env_def [THEN arg_cong, of env_scorer, simplified]
    using ids by (auto simp: plain_env_def)
  have "length first = 2" using shown(3,4) distinct_card [of "map resultStr first"] by simp
  moreover have "length (first @ later) = 3"
    using shown(3,5) distinct_card [of "map resultStr (first @ later)"]
    by (simp only: set_map length_map) simp
  ultimately show ?thesis using shown(1,2) by (intro exI [of _ first] exI [of _ later]) simp
qed

section \<open>The pulse over the life of the page\<close>

text \<open>The life of a page: any armed callback fires, also one that raises, a search is started, the
  index arrives.\<close>

inductive page_life :: "search_env \<Rightarrow> search_page \<Rightarrow> search_page \<Rightarrow> bool" for env sp where
  life_refl: "page_life env sp sp"
| life_fire: "page_life env sp sp' \<Longrightarrow> i < length (timers sp') \<Longrightarrow> page_life env sp (snd (fire env i sp'))"
| life_search: "page_life env sp sp' \<Longrightarrow> page_life env sp (snd (performSearch_page env q sp'))"
| life_index: "page_life env sp sp' \<Longrightarrow> page_life env sp (snd (setIndex env idx sp'))"

definition pulse_alive :: "bool \<Rightarrow> search_page \<Rightarrow> bool" where
  "pulse_alive armed sp \<longleftrightarrow> - 1 \<le> pulse_status sp \<and> (armed \<longrightarrow> TPulse \<in> set (timers sp))"

lemma pulse_alive_update [simp]:
  "pulse_alive armed (sp\<lparr>stored_terms := ts\<rparr>) = pulse_alive armed sp"
  "pulse_alive armed (sp\<lparr>queued_query := q\<rparr>) = pulse_alive armed sp"
  "pulse_alive armed (sp\<lparr>sp_index := i\<rparr>) = pulse_alive armed sp"
  by (simp_all add: pulse_alive_def)

lemma pulse_alive_pulse:
  assumes "- 1 \<le> pulse_status sp"
  shows "pulse_alive armed (snd (pulse sp))"
  using pulse_rearms [OF assms] by (auto simp: pulse_alive_def)

lemma pulse_alive_display:
  assumes "pulse_alive armed sp"
  shows "pulse_alive armed (snd (displayNextItem env rs n ts hs sp))"
  using assms displayNextItem_timers [of sp env rs n ts hs]
  by (auto simp: pulse_alive_def displayNextItem_def Let_def)

lemma pulse_alive_query: "pulse_alive armed sp \<Longrightarrow> pulse_alive armed (snd (query env idx q sp))"
  by (simp add: query_def Let_def pulse_alive_display split: sum.splits)

lemma pulse_alive_fire:
  assumes "pulse_alive armed sp" and "i < length (timers sp)"
  shows "pulse_alive armed (snd (fire env i sp))"
proof (cases "timers sp ! i")
  case TPulse
  then show ?thesis using assms(1)
    by (auto simp: fire_def run_timer_def pulse_alive_def [of _ sp] intro!: pulse_alive_pulse)
next
  case (TDisplay rs n ts hs)
  have "timers sp = take i (timers sp) @ timers sp ! i # drop (Suc i) (timers sp)"
    using assms(2) by (rule id_take_nth_drop)
  then have "TPulse \<in> set (timers sp) \<Longrightarrow> TPulse \<in> set (take i (timers sp) @ drop (Suc i) (timers sp))"
    using TDisplay by (metis Un_iff list.set_intros(2) set_ConsD set_append timer.distinct(1))
  then have "pulse_alive armed (sp\<lparr>timers := take i (timers sp) @ drop (Suc i) (timers sp)\<rparr>)"
    using assms(1) by (auto simp: pulse_alive_def)
  then show ?thesis by (simp add: fire_def run_timer_def TDisplay pulse_alive_display)
qed

lemma pulse_alive_search:
  assumes "pulse_alive armed sp"
  shows "pulse_alive armed (snd (performSearch_page env q sp))"
proof -
  let ?sp = "sp\<lparr>title_text := translated env ''Searching'', dots := [], status_text := [], out_items := []\<rparr>"
  have "pulse_alive armed ?sp" using assms by (simp add: pulse_alive_def)
  then have "pulse_alive armed (snd (startPulse ?sp))"
    unfolding startPulse_def by (auto simp: pulse_alive_def [of _ ?sp] intro: pulse_alive_pulse)
  then show ?thesis unfolding performSearch_page_def
    by (auto simp: deferQuery_def pulse_alive_query split: prod.splits option.splits)
qed

lemma pulse_alive_index: "pulse_alive armed sp \<Longrightarrow> pulse_alive armed (snd (setIndex env idx sp))"
  by (simp add: setIndex_def Let_def pulse_alive_query split: option.splits)

lemma pulse_alive_life: "page_life env sp sp' \<Longrightarrow> pulse_alive armed sp \<Longrightarrow> pulse_alive armed sp'"
  by (induction rule: page_life.induct)
    (auto intro: pulse_alive_fire pulse_alive_search pulse_alive_index)

text \<open>C5: the progress dots never stop: once the pulse is armed on a page, it stays armed in every
  later state of that page, whatever callbacks fire, searches start and indexes arrive; and when
  it fires, also right after \<open>stopPulse\<close>, it returns with a status from 0 to 3 and is armed again,
  since the callback adds one to the status before it tests the sign.\<close>

theorem pulse_never_stops:
  assumes "page_life env new_page sp" and "TPulse \<in> set (timers sp)" and "page_life env sp sp'"
  shows "TPulse \<in> set (timers sp')
    \<and> (\<forall>sp1 \<in> {sp', stopPulse sp'}. \<exists>sp2. pulse sp1 = (None, sp2)
        \<and> 0 \<le> pulse_status sp2 \<and> pulse_status sp2 < 4 \<and> timers sp2 = timers sp' @ [TPulse])"
proof -
  have "pulse_alive False sp"
    by (rule pulse_alive_life [OF assms(1)]) (simp add: pulse_alive_def new_page_def)
  with assms(2) have "pulse_alive True sp" by (simp add: pulse_alive_def)
  with assms(3) have "pulse_alive True sp'" by (rule pulse_alive_life)
  then have "TPulse \<in> set (timers sp')" "- 1 \<le> pulse_status sp'" "- 1 \<le> pulse_status (stopPulse sp')"
    "timers (stopPulse sp') = timers sp'"
    by (simp_all add: pulse_alive_def stopPulse_def)
  with pulse_rearms [of sp'] pulse_rearms [of "stopPulse sp'"] show ?thesis by auto
qed

lemma pulse_never_stops_witness:
  "\<exists>sp. sp = snd (performSearch_page plain_env ''log'' new_page)
   \<and> TPulse \<in> set (timers sp)
   \<and> (\<exists>sp2. pulse (stopPulse (snd (fire plain_env 0 sp))) = (None, sp2) \<and> 0 \<le> pulse_status sp2)"
proof -
  let ?sp = "snd (performSearch_page plain_env ''log'' new_page)"
  have armed: "TPulse \<in> set (timers ?sp)" "0 < length (timers ?sp)"
    by (code_simp, code_simp)
  have "page_life plain_env new_page ?sp" "page_life plain_env ?sp (snd (fire plain_env 0 ?sp))"
    using page_life.intros armed(2) by metis+
  from pulse_never_stops [OF this(1) armed(1) this(2)] armed(1) show ?thesis by auto
qed

text \<open>C6: it does not matter whether the index arrives before or after the search is started: the
  query runs exactly once, with the same effect on the page.\<close>

theorem index_and_search_commute:
  "setIndex env idx (snd (performSearch_page env q new_page)) =
     performSearch_page env q (snd (setIndex env idx new_page))
   \<and> setIndex env idx (snd (performSearch_page env q new_page)) =
     query env idx q ((snd (startPulse (new_page\<lparr>title_text := translated env ''Searching''\<rparr>)))\<lparr>sp_index := Some idx\<rparr>)"
proof -
  let ?fresh = "new_page\<lparr>title_text := translated env ''Searching''\<rparr>"
  have fresh: "new_page\<lparr>title_text := t, dots := [], status_text := [], out_items := []\<rparr> =
      new_page\<lparr>title_text := t\<rparr>" for t
    by (simp add: new_page_def)
  have late: "setIndex env idx (snd (performSearch_page env q new_page)) =
      query env idx q ((snd (startPulse ?fresh))\<lparr>sp_index := Some idx\<rparr>)"
    unfolding performSearch_page_def fresh
    by (simp add: setIndex_def startPulse_def pulse_def deferQuery_def new_page_def Let_def)
  have early: "performSearch_page env q (snd (setIndex env idx new_page)) =
      query env idx q ((snd (startPulse ?fresh))\<lparr>sp_index := Some idx\<rparr>)"
    by (simp add: performSearch_page_def setIndex_def startPulse_def pulse_def new_page_def Let_def)
  from late early show ?thesis by simp
qed

text \<open>when no keyword occurs in the text of a page, its summary starts with an ellipsis although
  it shows the beginning of the text, and it has no ellipsis at the end however long the text is.\<close>

theorem summary_without_keyword:
  assumes "text \<noteq> []" and "list_all (\<lambda>k. \<not> sublist (toLowerCase k) (toLowerCase text)) keywords"
  shows "makeSearchSummary text keywords = Some (''...'' @ trim (take 240 text))"
proof -
  have "filter (\<lambda>i. i > - 1) (map (\<lambda>k. indexOf (toLowerCase text) (toLowerCase k)) keywords) = []"
    using assms(2) by (simp add: filter_empty_conv list_all_iff indexOf_found_iff)
  with assms(1) show ?thesis
    by (simp add: makeSearchSummary_def keyword_position_def substr_def substr_from_def)
qed

lemma summary_without_keyword_witness:
  "''xtr is a logger'' \<noteq> [] \<and>
   makeSearchSummary ''xtr is a logger'' [''sinks''] = Some ''...xtr is a logger''"
proof -
  have h: "''xtr is a logger'' \<noteq> []"
    "list_all (\<lambda>k. \<not> sublist (toLowerCase k) (toLowerCase ''xtr is a logger'')) [''sinks'']"
    by (simp, code_simp)
  have "trim (take 240 ''xtr is a logger'') = ''xtr is a logger''" by code_simp
  with summary_without_keyword [OF h] show ?thesis by simp
qed

end
