(* ===== verification/Highlight.thy ===== *)
theory Highlight
  imports SearchText
begin

text \<open>
  \<open>docs/_static/sphinx_highlight.js\<close>: marking the words of a search on a page.  The page is a tree
  of nodes.  \<open>childNodes.forEach\<close> is \<open>Array.prototype.forEach\<close> on a live list: it takes the length
  once, at the start, and then visits that many positions, so that inserted nodes are visited in
  place of nodes behind them.  The recursion on the rest of a text does not end for an empty word:
  the walk has fuel, and running out of it (\<open>None\<close>) stands for a walk that has not ended.
\<close>

section \<open>Documents\<close>

text \<open>
  A text node, a comment, or an element with tag, classes and children.  The number counts the
  entries of \<open>addItems\<close> whose \<open>parent\<close> is the element.
\<close>

datatype node =
    Text string
  | Comment string
  | Elem string "string list" nat "node list"

fun textContent :: "node \<Rightarrow> string" where
  "textContent (Text v) = v"
| "textContent (Comment v) = []"
| "textContent (Elem tag cls r kids) = concat (map textContent kids)"

section \<open>Highlighting\<close>

text \<open>\<open>closestNode && closestNode.matches("svg")\<close>, passed down from the root.\<close>

definition svg_below :: "string \<Rightarrow> bool \<Rightarrow> bool" where
  "svg_below tag svg =
     (if tag = ''svg'' then True else if tag = ''body'' \<or> tag = ''foreignObject'' then False else svg)"

definition marked_parent :: "string \<Rightarrow> string list \<Rightarrow> bool" where
  "marked_parent className cls \<longleftrightarrow> className \<in> set cls \<or> ''nohighlight'' \<in> set cls"

definition span_node :: "string \<Rightarrow> bool \<Rightarrow> string \<Rightarrow> node" where
  "span_node className svg t =
     (if svg then Elem ''tspan'' [] 0 [Text t] else Elem ''span'' [className] 0 [Text t])"

text \<open>
  \<open>_highlight\<close> on a text node whose parent has the tag \<open>ptag\<close> and the classes \<open>cls\<close>: the exception it
  raises, the value the node keeps, the nodes inserted behind it, and the number of
  \<open>addItems.push\<close> calls.  \<open>bbox\<close> tells which elements have a method \<open>getBBox\<close>; the browser has it for
  graphics elements only (\<open>text\<close>, \<open>tspan\<close>, \<open>g\<close>, \<open>\<dots>\<close>), not for a \<open>title\<close> or \<open>desc\<close>.
\<close>

fun highlight_text ::
  "nat \<Rightarrow> (string \<Rightarrow> bool) \<Rightarrow> string \<Rightarrow> string \<Rightarrow> string \<Rightarrow> string list \<Rightarrow> bool \<Rightarrow> string
     \<Rightarrow> (js_error option \<times> string \<times> node list \<times> nat) option" where
  "highlight_text 0 bbox word className ptag cls svg val = None"
| "highlight_text (Suc fuel) bbox word className ptag cls svg val =
     (case sub_index word (toLowerCase val) of
        None \<Rightarrow> Some (None, val, [], 0)
      | Some pos \<Rightarrow>
          if marked_parent className cls then Some (None, val, [], 0)
          else
           (case highlight_text fuel bbox word className ptag cls svg (drop (pos + length word) val) of
              None \<Rightarrow> None
            | Some (e, rest, inserted, n) \<Rightarrow>
                Some (if e = None \<and> svg \<and> \<not> bbox ptag then Some TypeError else e,
                      take pos val,
                      span_node className svg (take (length word) (drop pos val)) # Text rest # inserted,
                      n + (if e = None \<and> svg \<and> bbox ptag then 1 else 0))))"

text \<open>
  The walk over the first \<open>count\<close> positions of the live list of children of an element with the tag
  \<open>ptag\<close> and the classes \<open>cls\<close>; \<open>svg\<close> tells whether the closest of \<open>body\<close>, \<open>svg\<close> and \<open>foreignObject\<close> at
  or above the element is an \<open>svg\<close>.  An exception ends the walk and leaves the page as it is.
\<close>

fun highlight_children ::
  "nat \<Rightarrow> (string \<Rightarrow> bool) \<Rightarrow> string \<Rightarrow> string \<Rightarrow> nat \<Rightarrow> string \<Rightarrow> string list \<Rightarrow> bool \<Rightarrow> node list
     \<Rightarrow> (js_error option \<times> node list \<times> nat) option" where
  "highlight_children 0 bbox word className count ptag cls svg ns = None"
| "highlight_children (Suc fuel) bbox word className 0 ptag cls svg ns = Some (None, ns, 0)"
| "highlight_children (Suc fuel) bbox word className (Suc count) ptag cls svg [] = Some (None, [], 0)"
| "highlight_children (Suc fuel) bbox word className (Suc count) ptag cls svg (Text v # ns) =
     (case highlight_text fuel bbox word className ptag cls svg v of
        None \<Rightarrow> None
      | Some (Some e, v', inserted, n) \<Rightarrow> Some (Some e, Text v' # inserted @ ns, n)
      | Some (None, v', inserted, n) \<Rightarrow>
          (case highlight_children fuel bbox word className count ptag cls svg (inserted @ ns) of
             None \<Rightarrow> None
           | Some (e, ms, m) \<Rightarrow> Some (e, Text v' # ms, n + m)))"
| "highlight_children (Suc fuel) bbox word className (Suc count) ptag cls svg (Comment v # ns) =
     (case highlight_children fuel bbox word className count ptag cls svg ns of
        None \<Rightarrow> None
      | Some (e, ms, m) \<Rightarrow> Some (e, Comment v # ms, m))"
| "highlight_children (Suc fuel) bbox word className (Suc count) ptag cls svg (Elem tag ecls r kids # ns) =
     (if tag = ''button'' \<or> tag = ''select'' \<or> tag = ''textarea'' then
        (case highlight_children fuel bbox word className count ptag cls svg ns of
           None \<Rightarrow> None
         | Some (e, ms, m) \<Rightarrow> Some (e, Elem tag ecls r kids # ms, m))
      else
        (case highlight_children fuel bbox word className (length kids) tag ecls (svg_below tag svg) kids of
           None \<Rightarrow> None
         | Some (Some e, kids', n) \<Rightarrow> Some (Some e, Elem tag ecls (r + n) kids' # ns, 0)
         | Some (None, kids', n) \<Rightarrow>
            (case highlight_children fuel bbox word className count ptag cls svg ns of
               None \<Rightarrow> None
             | Some (e, ms, m) \<Rightarrow> Some (e, Elem tag ecls (r + n) kids' # ms, m))))"

text \<open>\<open>_highlightText\<close>: the walk, then one \<open>rect\<close> before each parent recorded in \<open>addItems\<close>.\<close>

fun insert_rects :: "string \<Rightarrow> node \<Rightarrow> node list" where
  "insert_rects className (Elem tag cls r kids) =
     replicate r (Elem ''rect'' [className] 0 []) @
     [Elem tag cls 0 (concat (map (insert_rects className) kids))]"
| "insert_rects className n = [n]"

definition highlightText ::
  "nat \<Rightarrow> (string \<Rightarrow> bool) \<Rightarrow> string \<Rightarrow> string \<Rightarrow> bool \<Rightarrow> node \<Rightarrow> (js_error option \<times> node list) option" where
  "highlightText fuel bbox word className svg root =
     (case highlight_children fuel bbox word className 1 [] [] svg [root] of
        None \<Rightarrow> None
      | Some (Some e, ns, _) \<Rightarrow> Some (Some e, ns)
      | Some (None, ns, _) \<Rightarrow> Some (None, concat (map (insert_rects className) ns)))"

section \<open>Terms to highlight\<close>

record highlight_source =
  hs_stored :: "string option"
  hs_param :: "string option"

text \<open>The terms of \<open>highlightSearchWords\<close>: from \<open>localStorage\<close>, else from the \<open>highlight\<close> parameter of
  the address; the stored string is removed.\<close>

definition first_nonempty :: "string option \<Rightarrow> string option \<Rightarrow> string" where
  "first_nonempty a b =
     (case a of Some (c # cs) \<Rightarrow> c # cs | _ \<Rightarrow> (case b of Some s \<Rightarrow> s | None \<Rightarrow> []))"

definition highlightSearchWords :: "highlight_source \<Rightarrow> string list \<times> highlight_source" where
  "highlightSearchWords hs =
     (filter (\<lambda>w. w \<noteq> []) (split_class is_space (toLowerCase (first_nonempty (hs_stored hs) (hs_param hs)))),
      \<lparr>hs_stored = None, hs_param = None\<rparr>)"

text \<open>\<open>hideSearchWords\<close> takes the class off every highlighted span.\<close>

fun hideSearchWords :: "node \<Rightarrow> node" where
  "hideSearchWords (Elem tag cls r kids) =
     Elem tag (if tag = ''span'' \<and> ''highlighted'' \<in> set cls then removeAll ''highlighted'' cls else cls)
       r (map hideSearchWords kids)"
| "hideSearchWords n = n"

section \<open>A reference for the marking\<close>

text \<open>The pieces of a text: plain, marked, plain, marked, \<open>\<dots>\<close>, plain.\<close>

function mark_text :: "string \<Rightarrow> string \<Rightarrow> string list \<Rightarrow> bool \<Rightarrow> string \<Rightarrow> node list" where
  "mark_text word className cls svg v =
     (case sub_index word (toLowerCase v) of
        None \<Rightarrow> [Text v]
      | Some pos \<Rightarrow>
          if word = [] \<or> marked_parent className cls then [Text v]
          else Text (take pos v) # span_node className svg (take (length word) (drop pos v))
               # mark_text word className cls svg (drop (pos + length word) v))"
  by pat_completeness auto
termination
proof (relation "measure (\<lambda>(t, c, cs, svg, v). length v)", goal_cases)
  case (2 word className cls svg v pos)
  then have "pos + length word \<le> length v" using sub_index_bound by fastforce
  with 2 show ?case by (cases word) auto
qed simp

declare mark_text.simps [simp del]

lemma mark_text_None: "sub_index word (toLowerCase v) = None \<Longrightarrow> mark_text word className cls svg v = [Text v]"
  by (simp add: mark_text.simps)

lemma mark_text_marked: "marked_parent className cls \<Longrightarrow> mark_text word className cls svg v = [Text v]"
  by (simp add: mark_text.simps split: option.splits)

lemma mark_text_Some:
  "sub_index word (toLowerCase v) = Some pos \<Longrightarrow> word \<noteq> [] \<Longrightarrow> \<not> marked_parent className cls \<Longrightarrow>
   mark_text word className cls svg v =
     Text (take pos v) # span_node className svg (take (length word) (drop pos v))
       # mark_text word className cls svg (drop (pos + length word) v)"
  by (subst mark_text.simps) simp

definition form_tag :: "string \<Rightarrow> bool" where
  "form_tag tag \<longleftrightarrow> tag = ''button'' \<or> tag = ''select'' \<or> tag = ''textarea''"

text \<open>
  Marking the children of an element when there are \<open>k\<close> visits to spend: a text costs as many as it
  has pieces, every other child costs one, and what is left when they are spent stays as it is.
\<close>

fun mark_list :: "string \<Rightarrow> string \<Rightarrow> nat \<Rightarrow> string list \<Rightarrow> node list \<Rightarrow> node list" where
  "mark_list word className 0 cls ns = ns"
| "mark_list word className (Suc k) cls [] = []"
| "mark_list word className (Suc k) cls (Text v # ns) =
     mark_text word className cls False v @
     mark_list word className (Suc k - length (mark_text word className cls False v)) cls ns"
| "mark_list word className (Suc k) cls (Comment v # ns) = Comment v # mark_list word className k cls ns"
| "mark_list word className (Suc k) cls (Elem tag ecls r kids # ns) =
     Elem tag ecls r (if form_tag tag then kids else mark_list word className (length kids) ecls kids)
       # mark_list word className k cls ns"

fun svg_free :: "node \<Rightarrow> bool" where
  "svg_free (Elem tag cls r kids) \<longleftrightarrow> tag \<noteq> ''svg'' \<and> list_all svg_free kids"
| "svg_free _ \<longleftrightarrow> True"

text \<open>Nodes the walk inserts: pieces without an occurrence, and spans.\<close>

definition settled :: "string \<Rightarrow> string \<Rightarrow> string list \<Rightarrow> bool \<Rightarrow> node \<Rightarrow> bool" where
  "settled word className cls svg n \<longleftrightarrow>
     (\<exists>v. n = Text v \<and> (sub_index word (toLowerCase v) = None \<or> marked_parent className cls))
     \<or> (\<exists>t. n = span_node className svg t)"

lemma no_occurrence_before:
  assumes "sub_index word s = Some pos" and "word \<noteq> []"
  shows "sub_index word (take pos s) = None"
proof (rule ccontr)
  assume "sub_index word (take pos s) \<noteq> None"
  then obtain j where j: "sub_index word (take pos s) = Some j" by blast
  then have "j < pos" using sub_index_bound [OF j] assms(2) by (cases word) auto
  moreover have "prefix word (drop j s)"
  proof -
    have "prefix word (drop j (take pos s))" using j by (simp add: sub_index_Some_iff)
    moreover have "prefix (drop j (take pos s)) (drop j s)" by (simp add: drop_take take_is_prefix)
    ultimately show ?thesis by (rule prefix_order.trans)
  qed
  ultimately show False using assms(1) by (simp add: sub_index_Some_iff)
qed

lemma mark_text_settled: "word \<noteq> [] \<Longrightarrow> list_all (settled word className cls svg) (mark_text word className cls svg v)"
proof (induction word className cls svg v rule: mark_text.induct)
  case (1 word className cls svg v)
  show ?case
  proof (cases "sub_index word (toLowerCase v)")
    case None
    then show ?thesis by (simp add: mark_text_None settled_def)
  next
    case (Some pos)
    show ?thesis
    proof (cases "marked_parent className cls")
      case True
      then show ?thesis by (simp add: mark_text_marked settled_def)
    next
      case False
      have "sub_index word (toLowerCase (take pos v)) = None"
        using no_occurrence_before [OF Some 1(2)] by (simp add: toLowerCase_def take_map)
      with 1 Some False show ?thesis by (auto simp: mark_text_Some settled_def)
    qed
  qed
qed

text \<open>Enough fuel for a text node is one more than its length.\<close>

lemma highlight_text_mark:
  assumes "word \<noteq> []" and "length v < fuel"
  shows "\<exists>e v' ins n. highlight_text fuel bbox word className ptag cls svg v = Some (e, v', ins, n)
    \<and> mark_text word className cls svg v = Text v' # ins \<and> (\<not> svg \<longrightarrow> e = None \<and> n = 0)"
  using assms(2)
proof (induction fuel arbitrary: v)
  case (Suc fuel)
  show ?case
  proof (cases "sub_index word (toLowerCase v)")
    case None
    then show ?thesis by (simp add: mark_text_None)
  next
    case (Some pos)
    show ?thesis
    proof (cases "marked_parent className cls")
      case True
      with Some show ?thesis by (simp add: mark_text_marked)
    next
      case False
      have "length (drop (pos + length word) v) < fuel"
        using sub_index_bound [OF Some] assms(1) Suc.prems by (cases word) auto
      from Suc.IH [OF this] obtain e r ins n where
        "highlight_text fuel bbox word className ptag cls svg (drop (pos + length word) v) = Some (e, r, ins, n)"
        "mark_text word className cls svg (drop (pos + length word) v) = Text r # ins"
        "\<not> svg \<longrightarrow> e = None \<and> n = 0" by blast
      with Some False show ?thesis by (auto simp: mark_text_Some assms(1))
    qed
  qed
qed simp

lemma highlight_text_fuel:
  assumes "highlight_text fuel bbox word className ptag cls svg v = Some res" and "fuel \<le> fuel'"
  shows "highlight_text fuel' bbox word className ptag cls svg v = Some res"
  using assms
proof (induction fuel arbitrary: fuel' v res)
  case (Suc fuel)
  then obtain f where f: "fuel' = Suc f" "fuel \<le> f" by (auto dest: Suc_le_D)
  show ?case
  proof (cases "\<exists>pos. sub_index word (toLowerCase v) = Some pos \<and> \<not> marked_parent className cls")
    case True
    then obtain pos where pos: "sub_index word (toLowerCase v) = Some pos" "\<not> marked_parent className cls"
      by blast
    let ?rest = "drop (pos + length word) v"
    obtain inner where inner: "highlight_text fuel bbox word className ptag cls svg ?rest = Some inner"
      using Suc.prems(1) pos by (cases "highlight_text fuel bbox word className ptag cls svg ?rest") auto
    from Suc.IH [OF inner f(2)] inner pos Suc.prems(1) f(1) show ?thesis by simp
  next
    case False
    with Suc.prems f(1) show ?thesis by (cases "sub_index word (toLowerCase v)") auto
  qed
qed simp

section \<open>The walk ends\<close>

text \<open>The walk ends with the result \<open>res\<close>, for all fuel from some amount on.\<close>

definition runs ::
  "(string \<Rightarrow> bool) \<Rightarrow> string \<Rightarrow> string \<Rightarrow> nat \<Rightarrow> string \<Rightarrow> string list \<Rightarrow> bool \<Rightarrow> node list
     \<Rightarrow> js_error option \<times> node list \<times> nat \<Rightarrow> bool" where
  "runs bbox word className k ptag cls svg ns res \<longleftrightarrow>
     (\<exists>N. \<forall>fuel \<ge> N. highlight_children fuel bbox word className k ptag cls svg ns = Some res)"

definition ends ::
  "(string \<Rightarrow> bool) \<Rightarrow> string \<Rightarrow> string \<Rightarrow> nat \<Rightarrow> string \<Rightarrow> string list \<Rightarrow> bool \<Rightarrow> node list \<Rightarrow> bool" where
  "ends bbox word className k ptag cls svg ns \<longleftrightarrow> (\<exists>res. runs bbox word className k ptag cls svg ns res)"

lemma runsI:
  "(\<And>fuel. fuel \<ge> N \<Longrightarrow> highlight_children (Suc fuel) bbox word className k ptag cls svg ns = Some res) \<Longrightarrow>
   runs bbox word className k ptag cls svg ns res"
  unfolding runs_def by (rule exI [of _ "Suc N"]) (auto dest: Suc_le_D)

lemma runs_0 [intro]: "runs bbox word className 0 ptag cls svg ns (None, ns, 0)"
  by (rule runsI) simp

lemma runs_Nil [intro]: "runs bbox word className k ptag cls svg [] (None, [], 0)"
  by (cases k) (auto intro: runsI)

lemma runs_Text:
  assumes "\<And>fuel. fuel > N \<Longrightarrow> highlight_text fuel bbox word className ptag cls svg v = Some (None, v', ins, n)"
    and "runs bbox word className k ptag cls svg (ins @ ns) (e, ms, m)"
  shows "runs bbox word className (Suc k) ptag cls svg (Text v # ns) (e, Text v' # ms, n + m)"
proof -
  from assms(2) obtain M where
    "\<forall>fuel \<ge> M. highlight_children fuel bbox word className k ptag cls svg (ins @ ns) = Some (e, ms, m)"
    unfolding runs_def by blast
  with assms(1) show ?thesis by (intro runsI [of "max (Suc N) M"]) auto
qed

lemma runs_Text_raise:
  assumes "\<And>fuel. fuel > N \<Longrightarrow> highlight_text fuel bbox word className ptag cls svg v = Some (Some e, v', ins, n)"
  shows "runs bbox word className (Suc k) ptag cls svg (Text v # ns) (Some e, Text v' # ins @ ns, n)"
  using assms by (intro runsI [of "Suc N"]) auto

lemma runs_Comment:
  assumes "runs bbox word className k ptag cls svg ns (e, ms, m)"
  shows "runs bbox word className (Suc k) ptag cls svg (Comment v # ns) (e, Comment v # ms, m)"
proof -
  from assms obtain M where
    "\<forall>fuel \<ge> M. highlight_children fuel bbox word className k ptag cls svg ns = Some (e, ms, m)"
    unfolding runs_def by blast
  then show ?thesis by (intro runsI [of M]) auto
qed

lemma runs_form:
  assumes "runs bbox word className k ptag cls svg ns (e, ms, m)" and "form_tag tag"
  shows "runs bbox word className (Suc k) ptag cls svg (Elem tag ecls r kids # ns) (e, Elem tag ecls r kids # ms, m)"
proof -
  from assms obtain M where
    "\<forall>fuel \<ge> M. highlight_children fuel bbox word className k ptag cls svg ns = Some (e, ms, m)"
    unfolding runs_def by blast
  with assms(2) show ?thesis by (intro runsI [of M]) (auto simp: form_tag_def)
qed

lemma runs_Elem:
  assumes "runs bbox word className (length kids) tag ecls (svg_below tag svg) kids (None, kids', n)"
    and "runs bbox word className k ptag cls svg ns (e, ms, m)" and "\<not> form_tag tag"
  shows "runs bbox word className (Suc k) ptag cls svg (Elem tag ecls r kids # ns)
    (e, Elem tag ecls (r + n) kids' # ms, m)"
proof -
  from assms(1) obtain K where "\<forall>fuel \<ge> K.
      highlight_children fuel bbox word className (length kids) tag ecls (svg_below tag svg) kids = Some (None, kids', n)"
    unfolding runs_def by blast
  moreover from assms(2) obtain M where
    "\<forall>fuel \<ge> M. highlight_children fuel bbox word className k ptag cls svg ns = Some (e, ms, m)"
    unfolding runs_def by blast
  ultimately show ?thesis
    using assms(3) by (intro runsI [of "max K M"]) (auto simp: form_tag_def)
qed

lemma runs_Elem_raise:
  assumes "runs bbox word className (length kids) tag ecls (svg_below tag svg) kids (Some e, kids', n)"
    and "\<not> form_tag tag"
  shows "runs bbox word className (Suc k) ptag cls svg (Elem tag ecls r kids # ns)
    (Some e, Elem tag ecls (r + n) kids' # ns, 0)"
proof -
  from assms(1) obtain K where "\<forall>fuel \<ge> K.
      highlight_children fuel bbox word className (length kids) tag ecls (svg_below tag svg) kids = Some (Some e, kids', n)"
    unfolding runs_def by blast
  with assms(2) show ?thesis by (intro runsI [of K]) (auto simp: form_tag_def)
qed

subsection \<open>On every page\<close>

lemma ends_Elem:
  assumes "ends bbox word className (length kids) tag ecls (svg_below tag svg) kids"
    and "ends bbox word className k ptag cls svg ns"
  shows "ends bbox word className (Suc k) ptag cls svg (Elem tag ecls r kids # ns)"
proof (cases "form_tag tag")
  case True
  with assms(2) runs_form show ?thesis by (fastforce simp: ends_def)
next
  case False
  from assms(1) obtain e kids' n where kids:
    "runs bbox word className (length kids) tag ecls (svg_below tag svg) kids (e, kids', n)"
    by (auto simp: ends_def)
  from assms(2) obtain e' ms m where "runs bbox word className k ptag cls svg ns (e', ms, m)"
    by (auto simp: ends_def)
  with kids False show ?thesis
    by (cases e) (auto simp: ends_def dest: runs_Elem runs_Elem_raise)
qed

lemma ends_Text:
  assumes "word \<noteq> []"
    and "\<And>v' ins. mark_text word className cls svg v = Text v' # ins \<Longrightarrow>
          ends bbox word className k ptag cls svg (ins @ ns)"
  shows "ends bbox word className (Suc k) ptag cls svg (Text v # ns)"
proof -
  obtain e v' ins n where res:
      "highlight_text (Suc (length v)) bbox word className ptag cls svg v = Some (e, v', ins, n)"
    and mark: "mark_text word className cls svg v = Text v' # ins"
    using highlight_text_mark [OF assms(1) lessI] by blast
  have run: "highlight_text fuel bbox word className ptag cls svg v = Some (e, v', ins, n)" if "fuel > length v" for fuel
    using highlight_text_fuel [OF res] that by simp
  from assms(2) [OF mark] obtain e' ms m where
    later: "runs bbox word className k ptag cls svg (ins @ ns) (e', ms, m)"
    by (auto simp: ends_def)
  show ?thesis
  proof (cases e)
    case None
    with run have "runs bbox word className (Suc k) ptag cls svg (Text v # ns) (e', Text v' # ms, n + m)"
      by (intro runs_Text [OF _ later]) simp
    then show ?thesis unfolding ends_def by (rule exI)
  next
    case (Some err)
    with run have "runs bbox word className (Suc k) ptag cls svg (Text v # ns) (Some err, Text v' # ins @ ns, n)"
      by (intro runs_Text_raise) simp
    then show ?thesis unfolding ends_def by (rule exI)
  qed
qed

lemma ends_0 [intro]: "ends bbox word className 0 ptag cls svg ns"
  unfolding ends_def by (rule exI, rule runs_0)

lemma ends_Nil [intro]: "ends bbox word className k ptag cls svg []"
  unfolding ends_def by (rule exI, rule runs_Nil)

lemma ends_Comment: "ends bbox word className k ptag cls svg ns \<Longrightarrow>
    ends bbox word className (Suc k) ptag cls svg (Comment v # ns)"
  by (auto simp: ends_def dest: runs_Comment)

lemma ends_inserted:
  assumes "word \<noteq> []" and "list_all (settled word className cls svg) ins"
    and "\<And>k. ends bbox word className k ptag cls svg ns"
  shows "ends bbox word className k ptag cls svg (ins @ ns)"
  using assms(2)
proof (induction ins arbitrary: k)
  case Nil
  then show ?case by (simp add: assms(3))
next
  case (Cons n ins)
  show ?case
  proof (cases k)
    case (Suc j)
    have IH: "ends bbox word className j ptag cls svg (ins @ ns)" using Cons by simp
    from Cons.prems consider v where "n = Text v" "mark_text word className cls svg v = [Text v]"
      | t where "n = span_node className svg t"
      by (auto simp: settled_def mark_text_None mark_text_marked)
    then show ?thesis
    proof cases
      case 1
      with IH Suc show ?thesis by (auto intro!: ends_Text [OF assms(1)])
    next
      case 2
      have "ends bbox word className (Suc 0) tag ecls b [Text t]" for tag ecls b
        by (rule ends_Text [OF assms(1)]) blast
      with IH Suc show ?thesis
        by (auto simp: 2 span_node_def intro!: ends_Elem)
    qed
  qed auto
qed

lemma ends_node:
  assumes "word \<noteq> []"
  shows "(\<And>j. ends bbox word className j ptag cls svg ns) \<Longrightarrow>
    ends bbox word className k ptag cls svg (n # ns)"
proof (induction n arbitrary: k ptag cls svg ns)
  case (Text v)
  show ?case
  proof (cases k)
    case (Suc j)
    have "ends bbox word className j ptag cls svg (ins @ ns)"
      if "mark_text word className cls svg v = Text v' # ins" for v' ins
    proof (rule ends_inserted [OF assms _ Text])
      show "list_all (settled word className cls svg) ins"
        using mark_text_settled [OF assms, of className cls svg v] that by simp
    qed
    then show ?thesis unfolding Suc by (rule ends_Text [OF assms])
  qed auto
next
  case (Comment v)
  then show ?case by (cases k) (auto intro: ends_Comment)
next
  case (Elem tag ecls r kids)
  have "ends bbox word className j tag ecls (svg_below tag svg) ks" if "set ks \<subseteq> set kids" for ks j
    using that
  proof (induction ks arbitrary: j)
    case (Cons n ks)
    then show ?case using Elem.IH [of n tag ecls "svg_below tag svg" ks] by auto
  qed auto
  with Elem.prems show ?case by (cases k) (auto intro: ends_Elem)
qed

lemma highlight_ends: "word \<noteq> [] \<Longrightarrow> ends bbox word className k ptag cls svg ns"
  by (induction ns arbitrary: k) (auto intro: ends_node)

subsection \<open>On pages without inline SVG it computes the reference\<close>

lemma runs_span:
  assumes "runs bbox word className k ptag cls False ns (e, ms, m)"
  shows "runs bbox word className (Suc k) ptag cls False (span_node className False t # ns)
    (e, span_node className False t # ms, m)"
proof -
  have "runs bbox word className (Suc 0) ''span'' [className] False [Text t] (None, [Text t], 0 + 0)"
    by (rule runs_Text [of 0 bbox word className _ "[className]" _ t t "[]" 0 0 "[]"])
      (auto simp: marked_parent_def gr0_conv_Suc split: option.splits)
  then have "runs bbox word className (length [Text t]) ''span'' [className] (svg_below ''span'' False) [Text t]
      (None, [Text t], 0)" by (simp add: svg_below_def)
  from runs_Elem [OF this assms, of 0] show ?thesis
    by (simp add: span_node_def form_tag_def)
qed

text \<open>Visits of inserted nodes change nothing; they only use up the count.\<close>

lemma runs_settled:
  assumes "list_all (settled word className cls False) ins"
    and "runs bbox word className (k - length ins) ptag cls False ns (None, ms, 0)"
  shows "runs bbox word className k ptag cls False (ins @ ns) (None, ins @ ms, 0)"
  using assms
proof (induction ins arbitrary: k)
  case (Cons n ins)
  show ?case
  proof (cases k)
    case 0
    from Cons.prems(2) obtain N where "\<forall>fuel \<ge> N.
        highlight_children fuel bbox word className 0 ptag cls False ns = Some (None, ms, 0)"
      unfolding runs_def 0 by auto
    then have "highlight_children (Suc N) bbox word className 0 ptag cls False ns = Some (None, ms, 0)"
      by (meson le_SucI order_refl)
    then have "ms = ns" by simp
    with 0 show ?thesis by auto
  next
    case (Suc j)
    have IH: "runs bbox word className j ptag cls False (ins @ ns) (None, ins @ ms, 0)"
      using Cons Suc by simp
    from Cons.prems(1) consider v where "n = Text v"
        "sub_index word (toLowerCase v) = None \<or> marked_parent className cls"
      | t where "n = span_node className False t"
      by (auto simp: settled_def)
    then show ?thesis
    proof cases
      case 1
      have "runs bbox word className (Suc j) ptag cls False (Text v # ins @ ns) (None, Text v # ins @ ms, 0 + 0)"
        by (rule runs_Text [of 0 bbox word className ptag cls False v v "[]" 0])
          (use IH 1 in \<open>auto simp: gr0_conv_Suc split: option.splits\<close>)
      with 1 Suc show ?thesis by simp
    next
      case 2
      with Suc runs_span [OF IH] show ?thesis by simp
    qed
  qed
qed simp

lemma runs_mark_text:
  assumes "word \<noteq> []"
    and "runs bbox word className (Suc k - length (mark_text word className cls False v)) ptag cls False ns (None, ms, 0)"
  shows "runs bbox word className (Suc k) ptag cls False (Text v # ns)
    (None, mark_text word className cls False v @ ms, 0)"
proof -
  obtain v' ins where eq: "mark_text word className cls False v = Text v' # ins"
    using highlight_text_mark [OF assms(1) lessI] by blast
  have run: "highlight_text fuel bbox word className ptag cls False v = Some (None, v', ins, 0)"
    if "fuel > length v" for fuel
    using highlight_text_mark [OF assms(1) that, of bbox className ptag cls False] eq by auto
  have "list_all (settled word className cls False) ins"
    using mark_text_settled [OF assms(1), of className cls False v] eq by simp
  from runs_Text [OF run runs_settled [OF this, of bbox k]] assms(2) eq show ?thesis by simp
qed

lemma runs_mark_list:
  assumes "word \<noteq> []"
    and "list_all svg_free ns"
  shows "runs bbox word className k ptag cls False ns (None, mark_list word className k cls ns, 0)"
  using assms
proof (induction word className k cls ns arbitrary: ptag rule: mark_list.induct)
  case (3 word className k cls v ns)
  then show ?case using runs_mark_text [of word bbox className k cls v ptag ns] by simp
next
  case (4 word className k cls v ns)
  then show ?case by (simp add: runs_Comment)
next
  case (5 word className k cls tag ecls r kids ns)
  have later: "runs bbox word className k ptag cls False ns (None, mark_list word className k cls ns, 0)"
    using 5 by simp
  show ?case
  proof (cases "form_tag tag")
    case True
    with runs_form [OF later] show ?thesis by simp
  next
    case False
    have "svg_below tag False = False" using 5(4) by (simp add: svg_below_def)
    moreover have "runs bbox word className (length kids) tag ecls False kids
        (None, mark_list word className (length kids) ecls kids, 0)"
      using 5 False by simp
    ultimately have "runs bbox word className (Suc k) ptag cls False (Elem tag ecls r kids # ns)
        (None, Elem tag ecls (r + 0) (mark_list word className (length kids) ecls kids) # mark_list word className k cls ns, 0)"
      using later False by (intro runs_Elem) simp_all
    with False show ?thesis by simp
  qed
qed (auto simp: runs_0 runs_Nil)

section \<open>What the walk keeps and what the reference does\<close>

lemma span_text [simp]: "textContent (span_node className svg t) = t"
  by (simp add: span_node_def)

lemma pieces: "take p v @ take n (drop p v) @ drop (p + n) v = v"
  by (metis add.commute append_take_drop_id drop_drop)

abbreviation texts :: "node list \<Rightarrow> string" where
  "texts ns \<equiv> concat (map textContent ns)"

lemma highlight_text_texts:
  "highlight_text fuel bbox word className ptag cls svg v = Some (e, v', ins, n) \<Longrightarrow> v' @ texts ins = v"
proof (induction fuel arbitrary: v e v' ins n)
  case (Suc fuel)
  show ?case
  proof (cases "\<exists>pos. sub_index word (toLowerCase v) = Some pos \<and> \<not> marked_parent className cls")
    case True
    then obtain pos where pos: "sub_index word (toLowerCase v) = Some pos" "\<not> marked_parent className cls"
      by blast
    let ?rest = "drop (pos + length word) v"
    obtain e1 r ins1 n1 where inner:
        "highlight_text fuel bbox word className ptag cls svg ?rest = Some (e1, r, ins1, n1)"
      using Suc.prems pos by (cases "highlight_text fuel bbox word className ptag cls svg ?rest") auto
    have "v' = take pos v" "ins = span_node className svg (take (length word) (drop pos v)) # Text r # ins1"
      using Suc.prems inner pos by auto
    with Suc.IH [OF inner] pieces [of pos v "length word"] show ?thesis by simp
  next
    case False
    with Suc.prems show ?thesis by (cases "sub_index word (toLowerCase v)") auto
  qed
qed simp

text \<open>Whatever happens, also when an exception ends the walk, the text of the page stays the same.\<close>

lemma highlight_children_texts:
  "highlight_children fuel bbox word className k ptag cls svg ns = Some (e, ms, m) \<Longrightarrow> texts ms = texts ns"
proof (induction fuel arbitrary: k ptag cls svg ns e ms m)
  case (Suc fuel)
  note IH = Suc.IH
  show ?case
  proof (cases "k = 0 \<or> ns = []")
    case True
    with Suc.prems show ?thesis by (cases k) auto
  next
    case False
    then obtain j n ns' where k: "k = Suc j" and ns: "ns = n # ns'" by (cases k; cases ns) auto
    show ?thesis
    proof (cases n)
      case (Text v)
      obtain e1 v' ins n1 where ht: "highlight_text fuel bbox word className ptag cls svg v = Some (e1, v', ins, n1)"
        using Suc.prems by (cases "highlight_text fuel bbox word className ptag cls svg v") (auto simp: k ns Text)
      show ?thesis
      proof (cases e1)
        case None
        then obtain ms' m' where "highlight_children fuel bbox word className j ptag cls svg (ins @ ns') = Some (e, ms', m')"
          "ms = Text v' # ms'"
          using Suc.prems ht by (auto simp: k ns Text split: option.splits)
        with IH highlight_text_texts [OF ht] show ?thesis by (fastforce simp: ns Text)
      next
        case (Some err)
        with Suc.prems ht highlight_text_texts [OF ht] show ?thesis by (auto simp: k ns Text)
      qed
    next
      case (Comment v)
      with Suc.prems show ?thesis by (auto simp: k ns split: option.splits dest: IH)
    next
      case (Elem tag ecls r kids)
      with Suc.prems show ?thesis
        by (auto simp: k ns split: option.splits if_splits dest!: IH)
    qed
  qed
qed simp

text \<open>No text node, outside form controls and already marked parents, still holds the word.\<close>

fun all_marked :: "string \<Rightarrow> string \<Rightarrow> string list \<Rightarrow> node \<Rightarrow> bool" where
  "all_marked word className cls (Text v) \<longleftrightarrow>
     marked_parent className cls \<or> \<not> sublist word (toLowerCase v)"
| "all_marked word className cls (Comment v) \<longleftrightarrow> True"
| "all_marked word className cls (Elem tag ecls r kids) \<longleftrightarrow>
     form_tag tag \<or> list_all (all_marked word className ecls) kids"

lemma settled_all_marked: "settled word className cls False n \<Longrightarrow> all_marked word className cls n"
  by (auto simp: settled_def sub_index_None_iff span_node_def marked_parent_def)

lemma mark_text_all_marked:
  "word \<noteq> [] \<Longrightarrow> list_all (all_marked word className cls) (mark_text word className cls False v)"
  using mark_text_settled settled_all_marked by (auto simp: list_all_iff)

lemma mark_text_nothing: "all_marked word className cls (Text v) \<Longrightarrow> mark_text word className cls svg v = [Text v]"
  by (auto simp: mark_text_marked mark_text_None sub_index_None_iff)

lemma mark_list_nothing:
  "list_all (all_marked word className cls) ns \<Longrightarrow> mark_list word className k cls ns = ns"
proof (induction word className k cls ns rule: mark_list.induct)
  case (3 word className k cls v ns)
  then show ?case by (simp add: mark_text_nothing)
qed auto

text \<open>In every parent, the children behind a text that holds the word are free of it.\<close>

fun word_last :: "string \<Rightarrow> string \<Rightarrow> string list \<Rightarrow> node list \<Rightarrow> bool" where
  "word_last word className cls [] \<longleftrightarrow> True"
| "word_last word className cls (Text v # ns) \<longleftrightarrow>
     (if all_marked word className cls (Text v) then word_last word className cls ns
      else list_all (all_marked word className cls) ns)"
| "word_last word className cls (Comment v # ns) \<longleftrightarrow> word_last word className cls ns"
| "word_last word className cls (Elem tag ecls r kids # ns) \<longleftrightarrow>
     (form_tag tag \<or> word_last word className ecls kids) \<and> word_last word className cls ns"

lemma mark_list_all_marked:
  assumes "word \<noteq> []" and "word_last word className cls ns" and "length ns \<le> k"
  shows "list_all (all_marked word className cls) (mark_list word className k cls ns)"
  using assms
proof (induction word className k cls ns rule: mark_list.induct)
  case (3 word className k cls v ns)
  show ?case
  proof (cases "all_marked word className cls (Text v)")
    case True
    with 3 show ?thesis by (simp add: mark_text_nothing)
  next
    case False
    with 3(3) have "list_all (all_marked word className cls) ns" by (simp del: all_marked.simps)
    then show ?thesis
      by (simp add: mark_list_nothing mark_text_all_marked 3(2))
  qed
qed auto

text \<open>The number of occurrences of a word, from left to right without overlap.\<close>

function occurrences :: "string \<Rightarrow> string \<Rightarrow> nat" where
  "occurrences word s =
     (case sub_index word s of
        None \<Rightarrow> 0
      | Some pos \<Rightarrow> if word = [] then 0 else Suc (occurrences word (drop (pos + length word) s)))"
  by pat_completeness auto
termination
proof (relation "measure (\<lambda>(w, s). length s)", goal_cases)
  case (2 word s pos)
  then have "pos + length word \<le> length s" using sub_index_bound by fastforce
  with 2 show ?case by (cases word) auto
qed simp

declare occurrences.simps [simp del]

lemma length_mark_text:
  "word \<noteq> [] \<Longrightarrow> \<not> marked_parent className cls \<Longrightarrow>
   length (mark_text word className cls svg v) = 1 + 2 * occurrences word (toLowerCase v)"
proof (induction word className cls svg v rule: mark_text.induct)
  case (1 word className cls svg v)
  show ?case
  proof (cases "sub_index word (toLowerCase v)")
    case None
    then show ?thesis by (simp add: mark_text_None occurrences.simps [of word "toLowerCase v"])
  next
    case (Some pos)
    moreover have "toLowerCase (drop (pos + length word) v) = drop (pos + length word) (toLowerCase v)"
      by (simp add: toLowerCase_def drop_map)
    ultimately show ?thesis using 1
      by (simp add: mark_text_Some occurrences.simps [of word "toLowerCase v"])
  qed
qed

definition text_hits :: "string \<Rightarrow> node list \<Rightarrow> nat" where
  "text_hits word ns =
     sum_list (map (\<lambda>n. case n of Text v \<Rightarrow> occurrences word (toLowerCase v) | _ \<Rightarrow> 0) ns)"

lemma mark_list_leaves:
  assumes "word \<noteq> []" and "\<not> marked_parent className cls" and "k \<le> length xs + 2 * text_hits word xs"
  shows "\<exists>front. mark_list word className k cls (xs @ ys) = front @ ys"
  using assms(3)
proof (induction xs arbitrary: k)
  case (Cons x xs)
  show ?case
  proof (cases k)
    case 0
    then show ?thesis by simp
  next
    case (Suc j)
    show ?thesis
    proof (cases x)
      case (Text v)
      let ?m = "mark_text word className cls False v"
      have "Suc j - length ?m \<le> length xs + 2 * text_hits word xs"
        using Cons.prems Suc by (simp add: Text length_mark_text [OF assms(1,2)] text_hits_def)
      from Cons.IH [OF this] obtain front where
        "mark_list word className (Suc j - length ?m) cls (xs @ ys) = front @ ys" by blast
      then show ?thesis using Suc Text by (intro exI [of _ "?m @ front"]) simp
    next
      case (Comment v)
      have "j \<le> length xs + 2 * text_hits word xs" using Cons.prems Suc Comment by (simp add: text_hits_def)
      from Cons.IH [OF this] Suc Comment show ?thesis by auto
    next
      case (Elem tag ecls r kids)
      have "j \<le> length xs + 2 * text_hits word xs" using Cons.prems Suc Elem by (simp add: text_hits_def)
      from Cons.IH [OF this] Suc Elem show ?thesis by auto
    qed
  qed
qed (simp add: text_hits_def)

section \<open>Properties\<close>

text \<open>C7: on a page without inline SVG the walk of \<open>_highlight\<close> over the live list of children ends
  without an exception, and its result is the reference marking: the texts are cut at the
  occurrences of the word from left to right, as long as visits are left.\<close>

theorem highlight_refines_mark:
  assumes "word \<noteq> []" and "list_all svg_free ns"
  shows "\<exists>N. \<forall>fuel \<ge> N. highlight_children fuel bbox word className k ptag cls False ns =
     Some (None, mark_list word className k cls ns, 0)"
  using runs_mark_list [OF assms] by (simp add: runs_def)

lemma highlight_refines_mark_witness:
  "\<exists>N. \<forall>fuel \<ge> N. highlight_children fuel (\<lambda>_. False) ''log'' ''highlighted'' 1 ''body'' [] False
       [Elem ''p'' [] 0 [Text ''Log logs'']] =
     Some (None, [Elem ''p'' [] 0 [Text [], Elem ''span'' [''highlighted''] 0 [Text ''Log''], Text '' '',
       Elem ''span'' [''highlighted''] 0 [Text ''log''], Text ''s'']], 0)"
proof -
  have "mark_list ''log'' ''highlighted'' 1 [] [Elem ''p'' [] 0 [Text ''Log logs'']] =
      [Elem ''p'' [] 0 [Text [], Elem ''span'' [''highlighted''] 0 [Text ''Log''], Text '' '',
       Elem ''span'' [''highlighted''] 0 [Text ''log''], Text ''s'']]"
    by code_simp
  with highlight_refines_mark [of "''log''" "[Elem ''p'' [] 0 [Text ''Log logs'']]" "\<lambda>_. False" "''highlighted''" 1
      "''body''" "[]"]
  show ?thesis by simp
qed

text \<open>C8: for a word that is not empty the walk ends on every page, with inline SVG too, and keeps
  its text, also when \<open>getBBox\<close> raises.  On a page without inline SVG where, in every parent,
  nothing behind a text that holds the word holds it again, no occurrence is left unmarked
  outside form controls and parents that are already marked or opt out.\<close>

theorem highlight_complete:
  assumes "word \<noteq> []"
  shows "\<exists>N e ms m. (\<forall>fuel \<ge> N. highlight_children fuel bbox word className (length ns) ptag cls svg ns = Some (e, ms, m))
    \<and> concat (map textContent ms) = concat (map textContent ns)
    \<and> (\<not> svg \<and> list_all svg_free ns \<and> word_last word className cls ns \<longrightarrow>
        e = None \<and> m = 0 \<and> list_all (all_marked word className cls) ms)"
proof -
  from highlight_ends [OF assms] obtain e ms m where
    run: "runs bbox word className (length ns) ptag cls svg ns (e, ms, m)"
    unfolding ends_def by (metis prod_cases3)
  then obtain N where
    N: "\<forall>fuel \<ge> N. highlight_children fuel bbox word className (length ns) ptag cls svg ns = Some (e, ms, m)"
    by (auto simp: runs_def)
  have "e = None \<and> m = 0 \<and> list_all (all_marked word className cls) ms"
    if free: "\<not> svg" "list_all svg_free ns" "word_last word className cls ns"
  proof -
    obtain M where "\<forall>fuel \<ge> M. highlight_children fuel bbox word className (length ns) ptag cls svg ns =
        Some (None, mark_list word className (length ns) cls ns, 0)"
      using runs_mark_list [OF assms free(2), of bbox className "length ns" ptag cls] free(1)
      by (auto simp: runs_def)
    with N have "Some (e, ms, m) = Some (None, mark_list word className (length ns) cls ns, 0)"
      by (metis max.cobounded1 max.cobounded2)
    with mark_list_all_marked [OF assms free(3)] show ?thesis by simp
  qed
  with N highlight_children_texts show ?thesis by blast
qed

lemma highlight_complete_witness:
  "\<exists>fuel ms. highlight_children fuel (\<lambda>_. False) ''log'' ''highlighted'' 2 ''p'' [] False
      [Elem ''b'' [] 0 [Text ''Log''], Text ''a log''] = Some (None, ms, 0)
    \<and> concat (map textContent ms) = ''Loga log'' \<and> list_all (all_marked ''log'' ''highlighted'' []) ms"
proof -
  let ?ns = "[Elem ''b'' [] 0 [Text ''Log''], Text ''a log'']"
  have "list_all svg_free ?ns" "word_last ''log'' ''highlighted'' [] ?ns" by (code_simp, code_simp)
  with highlight_complete [of "''log''" "\<lambda>_. False" "''highlighted''" ?ns "''p''" "[]" False]
  show ?thesis by (auto simp: numeral_2_eq_2)
qed

text \<open>C9: \<open>childNodes.forEach\<close> takes the number of children before nodes are inserted: each occurrence
  in the texts of the first children \<open>xs\<close> takes two visits away, so the children \<open>ys\<close> behind them
  are left as they are, whatever they hold, when there are at most twice as many of them as there
  are occurrences.\<close>

theorem highlight_misses_siblings:
  assumes "word \<noteq> []" and "\<not> marked_parent className cls" and "list_all svg_free (xs @ ys)"
    and "length ys \<le> 2 * text_hits word xs"
  shows "\<exists>N front. \<forall>fuel \<ge> N.
     highlight_children fuel bbox word className (length (xs @ ys)) ptag cls False (xs @ ys) = Some (None, front @ ys, 0)"
proof -
  obtain front where "mark_list word className (length (xs @ ys)) cls (xs @ ys) = front @ ys"
    using mark_list_leaves [OF assms(1,2), of "length (xs @ ys)" xs ys] assms(4) by auto
  with runs_mark_list [OF assms(1,3), of bbox className "length (xs @ ys)" ptag cls]
  show ?thesis unfolding runs_def by (metis (no_types))
qed

lemma highlight_misses_siblings_witness:
  "\<exists>N front. (\<forall>fuel \<ge> N. highlight_children fuel (\<lambda>_. False) ''log'' ''highlighted'' 2 ''p'' [] False
       [Text ''log '', Elem ''b'' [] 0 [Text ''log'']] = Some (None, front @ [Elem ''b'' [] 0 [Text ''log'']], 0))
   \<and> \<not> all_marked ''log'' ''highlighted'' [] (Elem ''b'' [] 0 [Text ''log''])"
proof -
  let ?xs = "[Text ''log '']" and ?ys = "[Elem ''b'' [] 0 [Text ''log'']]"
  have "\<not> marked_parent ''highlighted'' []" "list_all svg_free (?xs @ ?ys)"
    "length ?ys \<le> 2 * text_hits ''log'' ?xs" "\<not> all_marked ''log'' ''highlighted'' [] (hd ?ys)"
    by (code_simp, code_simp, code_simp, code_simp)
  with highlight_misses_siblings [of "''log''" "''highlighted''" "[]" ?xs ?ys "\<lambda>_. False" "''p''"]
  show ?thesis by (simp add: numeral_2_eq_2)
qed

text \<open>the words the search page stores for highlighting are the words the target page
  highlights, in the same order.\<close>

theorem stored_terms_roundtrip:
  "fst (highlightSearchWords \<lparr>hs_stored = Some (stored_highlight (parseQuery stopword stem q)), hs_param = None\<rparr>) =
     highlightTerms (parseQuery stopword stem q)"
proof -
  let ?ts = "highlightTerms (parseQuery stopword stem q)"
  have lower: "toLowerCase (join '' '' ts) = join '' '' (map toLowerCase ts)" for ts
    by (cases ts) (auto simp: join_def toLowerCase_def map_concat lower_char_def is_upper_def code_def comp_def)
  have ids: "map toLowerCase ?ts = ?ts"
    using highlightTerms_words by (intro map_idI) blast
  have words: "\<forall>w \<in> set ?ts. w \<noteq> [] \<and> (\<forall>c \<in> set w. \<not> is_space c)"
    using highlightTerms_words query_sep_space by blast
  have space: "is_space (CHR '' '')" by (simp add: is_space_def code_def)
  have pick: "first_nonempty (Some s) None = s" for s by (cases s) (auto simp: first_nonempty_def)
  show ?thesis
  proof (cases "?ts = []")
    case True
    then show ?thesis
      by (simp add: highlightSearchWords_def stored_highlight_def pick join_def split_class_Nil toLowerCase_def)
  next
    case False
    have "filter (\<lambda>w. w \<noteq> []) ?ts = ?ts" using words by (simp add: filter_id_conv)
    with split_join_words [OF words space False] show ?thesis
      by (simp add: highlightSearchWords_def stored_highlight_def pick lower ids)
  qed
qed

end
