(* ===== verification/JsValue.thy ===== *)
theory JsValue
  imports JsString
begin

text \<open>
  Values of the scripts \<open>underscore-1.13.1.js\<close> and \<open>jquery-3.6.0.js\<close>.  Numbers are the integers, the
  negative zero, the infinities and \<open>NaN\<close>; all arithmetic the modelled code does on them is on
  indices, lengths, counts and times.  Arrays, objects and functions carry the address that
  \<open>===\<close> compares, beside their contents at the time of the call.
\<close>

datatype jsnum = NaN | PInf | NInf | NegZero | Fin int

datatype jsval =
    VUndef
  | VNull
  | VBool bool
  | VNum jsnum
  | VStr string
  | VFun nat nat \<comment> \<open>address and declared number of parameters\<close>
  | VArr nat "jsval list"
  | VObj nat string "(string \<times> jsval) list" \<comment> \<open>address, class tag, own enumerable properties\<close>

abbreviation VInt :: "int \<Rightarrow> jsval" where
  "VInt n \<equiv> VNum (Fin n)"

section \<open>Equality and truth\<close>

definition num_eq :: "jsnum \<Rightarrow> jsnum \<Rightarrow> bool" where
  "num_eq a b \<longleftrightarrow>
     a \<noteq> NaN \<and> (a = b \<or> a = NegZero \<and> b = Fin 0 \<or> a = Fin 0 \<and> b = NegZero)"

text \<open>The operator \<open>===\<close>.\<close>

fun strict_eq :: "jsval \<Rightarrow> jsval \<Rightarrow> bool" where
  "strict_eq VUndef VUndef = True"
| "strict_eq VNull VNull = True"
| "strict_eq (VBool a) (VBool b) = (a = b)"
| "strict_eq (VNum a) (VNum b) = num_eq a b"
| "strict_eq (VStr a) (VStr b) = (a = b)"
| "strict_eq (VFun a _) (VFun b _) = (a = b)"
| "strict_eq (VArr a _) (VArr b _) = (a = b)"
| "strict_eq (VObj a _ _) (VObj b _ _) = (a = b)"
| "strict_eq _ _ = False"

fun truthy :: "jsval \<Rightarrow> bool" where
  "truthy VUndef = False"
| "truthy VNull = False"
| "truthy (VBool b) = b"
| "truthy (VNum n) = (n \<noteq> NaN \<and> n \<noteq> NegZero \<and> n \<noteq> Fin 0)"
| "truthy (VStr s) = (s \<noteq> [])"
| "truthy _ = True"

text \<open>\<open>v == null\<close>.\<close>

definition nullish :: "jsval \<Rightarrow> bool" where
  "nullish v \<longleftrightarrow> v = VUndef \<or> v = VNull"

section \<open>Property access\<close>

text \<open>\<open>v[k]\<close> on the values that have own properties; a missing property is \<open>undefined\<close>.\<close>

definition elem_at :: "jsval list \<Rightarrow> int \<Rightarrow> jsval" where
  "elem_at xs i = (if 0 \<le> i \<and> i < int (length xs) then xs ! nat i else VUndef)"

definition index_of_key :: "string \<Rightarrow> nat option" where
  "index_of_key k =
     (let n = str_nat 0 k in if nat_str n = k then Some n else None)"

fun getProp :: "jsval \<Rightarrow> string \<Rightarrow> jsval" where
  "getProp (VObj a c ps) k = (case map_of ps k of Some v \<Rightarrow> v | None \<Rightarrow> VUndef)"
| "getProp (VArr a xs) k =
     (if k = ''length'' then VInt (int (length xs))
      else (case index_of_key k of Some i \<Rightarrow> elem_at xs (int i) | None \<Rightarrow> VUndef))"
| "getProp (VStr s) k =
     (if k = ''length'' then VInt (int (length s))
      else (case index_of_key k of
              Some i \<Rightarrow> if i < length s then VStr [s ! i] else VUndef
            | None \<Rightarrow> VUndef))"
| "getProp (VFun a n) k = (if k = ''length'' then VInt (int n) else VUndef)"
| "getProp _ k = VUndef"

text \<open>Own enumerable property names (\<open>Object.keys\<close>) of an object.\<close>

fun ownKeys :: "jsval \<Rightarrow> string list" where
  "ownKeys (VObj a c ps) = map fst ps"
| "ownKeys (VArr a xs) = map nat_str [0..<length xs]"
| "ownKeys _ = []"

definition hasOwn :: "jsval \<Rightarrow> string \<Rightarrow> bool" where
  "hasOwn v k =
     (case v of
        VArr a xs \<Rightarrow> k = ''length'' \<or> k \<in> set (ownKeys v)
      | VStr s \<Rightarrow> k = ''length'' \<or> k \<in> set (map nat_str [0..<length s])
      | VFun a n \<Rightarrow> k = ''length''
      | _ \<Rightarrow> k \<in> set (ownKeys v))"

text \<open>The tag of \<open>Object.prototype.toString\<close>.\<close>

fun class_tag :: "jsval \<Rightarrow> string" where
  "class_tag VUndef = ''Undefined''"
| "class_tag VNull = ''Null''"
| "class_tag (VBool _) = ''Boolean''"
| "class_tag (VNum _) = ''Number''"
| "class_tag (VStr _) = ''String''"
| "class_tag (VFun _ _) = ''Function''"
| "class_tag (VArr _ _) = ''Array''"
| "class_tag (VObj _ c _) = c"

section \<open>Order and conversion\<close>

text \<open>The operator \<open><\<close> on numbers; every comparison with \<open>NaN\<close> is false.\<close>

fun num_lt :: "jsnum \<Rightarrow> jsnum \<Rightarrow> bool" where
  "num_lt NaN _ = False"
| "num_lt _ NaN = False"
| "num_lt PInf _ = False"
| "num_lt _ NInf = False"
| "num_lt NInf _ = True"
| "num_lt _ PInf = True"
| "num_lt NegZero NegZero = False"
| "num_lt NegZero (Fin j) = (0 < j)"
| "num_lt (Fin i) NegZero = (i < 0)"
| "num_lt (Fin i) (Fin j) = (i < j)"

abbreviation num_le :: "jsnum \<Rightarrow> jsnum \<Rightarrow> bool" where
  "num_le a b \<equiv> num_lt a b \<or> num_eq a b"

text \<open>
  \<open>String(v)\<close>, which also turns a value into a property name.  The text of a function is an argument;
  an array joins its elements, with nothing for \<open>null\<close> and \<open>undefined\<close>.
\<close>

definition int_str :: "int \<Rightarrow> string" where
  "int_str i = (if i < 0 then CHR ''-'' # nat_str (nat (- i)) else nat_str (nat i))"

fun num_str :: "jsnum \<Rightarrow> string" where
  "num_str NaN = ''NaN''"
| "num_str PInf = ''Infinity''"
| "num_str NInf = ''-Infinity''"
| "num_str NegZero = ''0''"
| "num_str (Fin i) = int_str i"

fun to_string :: "(nat \<Rightarrow> string) \<Rightarrow> jsval \<Rightarrow> string" where
  "to_string src VUndef = ''undefined''"
| "to_string src VNull = ''null''"
| "to_string src (VBool b) = (if b then ''true'' else ''false'')"
| "to_string src (VNum n) = num_str n"
| "to_string src (VStr s) = s"
| "to_string src (VFun a n) = src a"
| "to_string src (VArr a xs) =
     join '','' (map (\<lambda>v. case v of VUndef \<Rightarrow> [] | VNull \<Rightarrow> [] | _ \<Rightarrow> to_string src v) xs)"
| "to_string src (VObj a c ps) = ''[object '' @ c @ '']''"

section \<open>Facts\<close>

lemma strict_eq_sym: "strict_eq a b = strict_eq b a"
  by (cases a; cases b) (auto simp: num_eq_def)

definition is_nan :: "jsval \<Rightarrow> bool" where
  "is_nan v \<longleftrightarrow> v = VNum NaN"

lemma strict_eq_refl_iff: "strict_eq a a \<longleftrightarrow> \<not> is_nan a"
  by (cases a) (auto simp: num_eq_def is_nan_def)

lemma strict_eq_trans: "strict_eq a b \<Longrightarrow> strict_eq b c \<Longrightarrow> strict_eq a c"
  by (cases a; cases b; cases c) (auto simp: num_eq_def)

lemma strict_eq_VStr [simp]: "strict_eq (VStr s) v \<longleftrightarrow> v = VStr s"
  by (cases v) auto

lemma index_of_key_nat_str [simp]: "index_of_key (nat_str n) = Some n"
  by (simp add: index_of_key_def str_nat_nat_str)

lemma nat_str_not_length [simp]: "nat_str n \<noteq> ''length''"
  using nat_str_digits [of "CHR ''l''" n] by (auto simp: is_digit_def code_def)

lemma elem_at_nth [simp]: "i < length xs \<Longrightarrow> elem_at xs (int i) = xs ! i"
  by (simp add: elem_at_def)

lemma elem_at_out: "i < 0 \<or> int (length xs) \<le> i \<Longrightarrow> elem_at xs i = VUndef"
  by (auto simp: elem_at_def)

text \<open>What \<open>===\<close> offers to code that searches or removes duplicates: a partial equivalence whose
  only irreflexive value is \<open>NaN\<close>.\<close>

locale js_equality =
  fixes eq :: "'a \<Rightarrow> 'a \<Rightarrow> bool" and odd_one :: "'a \<Rightarrow> bool"
  assumes eq_sym: "eq a b = eq b a"
    and eq_trans: "eq a b \<Longrightarrow> eq b c \<Longrightarrow> eq a c"
    and eq_refl: "eq a a \<longleftrightarrow> \<not> odd_one a"
begin

definition member :: "'a \<Rightarrow> 'a list \<Rightarrow> bool" where
  "member x xs \<longleftrightarrow> (\<exists>y \<in> set xs. eq y x)"

lemma member_cong: "eq a b \<Longrightarrow> member a xs = member b xs"
  unfolding member_def using eq_sym eq_trans by blast

lemma member_self: "x \<in> set xs \<Longrightarrow> \<not> odd_one x \<Longrightarrow> member x xs"
  unfolding member_def using eq_refl by blast

lemma odd_not_member: "odd_one x \<Longrightarrow> \<not> member x xs"
  unfolding member_def using eq_refl eq_sym eq_trans by blast

lemma member_trans: "member a xs \<Longrightarrow> (\<And>y. y \<in> set xs \<Longrightarrow> member y ys) \<Longrightarrow> member a ys"
  unfolding member_def using eq_trans by blast

end

interpretation strict: js_equality strict_eq is_nan
  by unfold_locales (auto simp: strict_eq_sym strict_eq_refl_iff intro: strict_eq_trans)

end
