(* ===== verification/UnderscoreArrays.thy ===== *)
theory UnderscoreArrays
  imports JsValue
begin

text \<open>
  The array functions of \<open>docs/_static/underscore-1.13.1.js\<close>: finders, binary search, slicing,
  duplicate removal, set operations, zipping, ranges and chunks.  Array arguments are lists of
  values; an argument that may be absent is an option.  Predicates and iteratees are functions of
  the element and its index that return normally.
\<close>

section \<open>Slices\<close>

text \<open>\<open>Array.prototype.slice\<close>: negative positions count from the end, the range is clipped.\<close>

definition clip_index :: "nat \<Rightarrow> int \<Rightarrow> nat" where
  "clip_index len i = nat (if i < 0 then max (int len + i) 0 else min i (int len))"

definition slice :: "'a list \<Rightarrow> int \<Rightarrow> int option \<Rightarrow> 'a list" where
  "slice xs start stop =
     (let k = clip_index (length xs) start;
          final = (case stop of None \<Rightarrow> length xs | Some e \<Rightarrow> clip_index (length xs) e) in
      take (final - k) (drop k xs))"

text \<open>\<open>_.initial\<close>, \<open>_.first\<close>, \<open>_.rest\<close> and \<open>_.last\<close>: without a count (or called by \<open>_.map\<close>, which sets
  \<open>guard\<close>) the first and the last give an element, else a list.\<close>

datatype 'a some_of = One 'a | Many "'a list"

definition initial_us :: "'a list \<Rightarrow> int option \<Rightarrow> bool \<Rightarrow> 'a list" where
  "initial_us array n guard =
     slice array 0 (Some (max 0 (int (length array) -
       (case n of None \<Rightarrow> 1 | Some m \<Rightarrow> if guard then 1 else m))))"

definition first_us :: "jsval list option \<Rightarrow> int option \<Rightarrow> bool \<Rightarrow> jsval some_of" where
  "first_us array n guard =
     (case array of
        None \<Rightarrow> if n = None \<or> guard then One VUndef else Many []
      | Some xs \<Rightarrow>
          if length xs < 1 then (if n = None \<or> guard then One VUndef else Many [])
          else if n = None \<or> guard then One (elem_at xs 0)
          else Many (initial_us xs (Some (int (length xs) - the n)) False))"

definition rest_us :: "'a list \<Rightarrow> int option \<Rightarrow> bool \<Rightarrow> 'a list" where
  "rest_us array n guard = slice array (case n of None \<Rightarrow> 1 | Some m \<Rightarrow> if guard then 1 else m) None"

definition last_us :: "jsval list option \<Rightarrow> int option \<Rightarrow> bool \<Rightarrow> jsval some_of" where
  "last_us array n guard =
     (case array of
        None \<Rightarrow> if n = None \<or> guard then One VUndef else Many []
      | Some xs \<Rightarrow>
          if length xs < 1 then (if n = None \<or> guard then One VUndef else Many [])
          else if n = None \<or> guard then One (elem_at xs (int (length xs) - 1))
          else Many (rest_us xs (Some (max 0 (int (length xs) - the n))) False))"

section \<open>Finders\<close>

text \<open>The loop of \<open>createPredicateIndexFinder\<close>.\<close>

function find_loop :: "(jsval \<Rightarrow> int \<Rightarrow> bool) \<Rightarrow> int \<Rightarrow> jsval list \<Rightarrow> int \<Rightarrow> int" where
  "find_loop p dir array index =
     (if 0 \<le> index \<and> index < int (length array) \<and> (dir = 1 \<or> dir = - 1) then
        (if p (elem_at array index) index then index else find_loop p dir array (index + dir))
      else - 1)"
  by pat_completeness auto
termination
  by (relation "measure (\<lambda>(p, dir, array, index).
        nat (if dir = 1 then int (length array) - index else index + 1))") auto

declare find_loop.simps [simp del]

definition createPredicateIndexFinder :: "int \<Rightarrow> jsval list \<Rightarrow> (jsval \<Rightarrow> int \<Rightarrow> bool) \<Rightarrow> int" where
  "createPredicateIndexFinder dir array p =
     find_loop p dir array (if dir > 0 then 0 else int (length array) - 1)"

definition findIndex :: "jsval list \<Rightarrow> (jsval \<Rightarrow> int \<Rightarrow> bool) \<Rightarrow> int" where
  "findIndex = createPredicateIndexFinder 1"

definition findLastIndex :: "jsval list \<Rightarrow> (jsval \<Rightarrow> int \<Rightarrow> bool) \<Rightarrow> int" where
  "findLastIndex = createPredicateIndexFinder (- 1)"

text \<open>\<open>_.sortedIndex\<close>: binary search with the operator \<open><\<close> on the values of the iteratee.\<close>

function sorted_loop :: "('c \<Rightarrow> 'c \<Rightarrow> bool) \<Rightarrow> ('a \<Rightarrow> 'c) \<Rightarrow> 'a list \<Rightarrow> 'c \<Rightarrow> nat \<Rightarrow> nat \<Rightarrow> nat" where
  "sorted_loop lt it array val low high =
     (if low < high then
        (let mid = (low + high) div 2 in
         if lt (it (array ! mid)) val then sorted_loop lt it array val (mid + 1) high
         else sorted_loop lt it array val low mid)
      else low)"
  by pat_completeness auto
termination
  by (relation "measure (\<lambda>(lt, it, array, val, low, high). high - low)") (auto simp: Let_def)

declare sorted_loop.simps [simp del]

definition sortedIndex :: "('c \<Rightarrow> 'c \<Rightarrow> bool) \<Rightarrow> ('a \<Rightarrow> 'c) \<Rightarrow> 'a list \<Rightarrow> 'a \<Rightarrow> nat" where
  "sortedIndex lt it array obj = sorted_loop lt it array (it obj) 0 (length array)"

text \<open>The third argument of \<open>_.indexOf\<close>: a number, a true value that asks for binary search, or
  neither.\<close>

datatype index_arg = NoIdx | NumIdx int | SortedIdx

text \<open>
  \<open>createIndexFinder\<close> for a direction, with the binary search of \<open>_.indexOf\<close> (absent for
  \<open>_.lastIndexOf\<close>) on the operator \<open><\<close>.
\<close>

definition index_start :: "int \<Rightarrow> index_arg \<Rightarrow> nat \<Rightarrow> int" where
  "index_start dir idx len =
     (case idx of
        NumIdx k \<Rightarrow> if dir > 0 then (if k \<ge> 0 then k else max (k + int len) 0) else 0
      | _ \<Rightarrow> 0)"

definition index_length :: "int \<Rightarrow> index_arg \<Rightarrow> nat \<Rightarrow> int" where
  "index_length dir idx len =
     (case idx of
        NumIdx k \<Rightarrow>
          if dir > 0 then int len
          else if k \<ge> 0 then min (k + 1) (int len) else k + int len + 1
      | _ \<Rightarrow> int len)"

function index_loop :: "jsval \<Rightarrow> int \<Rightarrow> jsval list \<Rightarrow> int \<Rightarrow> int \<Rightarrow> int" where
  "index_loop item dir array length' idx =
     (if 0 \<le> idx \<and> idx < length' \<and> (dir = 1 \<or> dir = - 1) then
        (if strict_eq (elem_at array idx) item then idx
         else index_loop item dir array length' (idx + dir))
      else - 1)"
  by pat_completeness auto
termination
  by (relation "measure (\<lambda>(item, dir, array, length', idx).
        nat (if dir = 1 then length' - idx else idx + 1))") auto

declare index_loop.simps [simp del]

definition createIndexFinder ::
  "int \<Rightarrow> (jsval list \<Rightarrow> (jsval \<Rightarrow> int \<Rightarrow> bool) \<Rightarrow> int) \<Rightarrow> (jsval \<Rightarrow> jsval \<Rightarrow> bool) option
     \<Rightarrow> jsval list \<Rightarrow> jsval \<Rightarrow> index_arg \<Rightarrow> int" where
  "createIndexFinder dir predicateFind sortedLt array item idx =
     (let len = length array; i = index_start dir idx len; length' = index_length dir idx len in
      case (idx, sortedLt) of
        (SortedIdx, Some lt) \<Rightarrow>
          if 0 < len then
            (let k = int (sortedIndex lt id array item) in
             if strict_eq (elem_at array k) item then k else - 1)
          else - 1
      | _ \<Rightarrow>
          if \<not> strict_eq item item then
            (let k = predicateFind (slice array i (Some length')) (\<lambda>v _. is_nan v) in
             if k \<ge> 0 then k + i else - 1)
          else index_loop item dir array length' (if dir > 0 then i else length' - 1))"

definition indexOf_us :: "(jsval \<Rightarrow> jsval \<Rightarrow> bool) \<Rightarrow> jsval list \<Rightarrow> jsval \<Rightarrow> index_arg \<Rightarrow> int" where
  "indexOf_us lt = createIndexFinder 1 findIndex (Some lt)"

definition lastIndexOf :: "jsval list \<Rightarrow> jsval \<Rightarrow> index_arg \<Rightarrow> int" where
  "lastIndexOf = createIndexFinder (- 1) findLastIndex None"

text \<open>\<open>_.contains\<close> on an array: a start index, unless it is not a number or \<open>guard\<close> is set.\<close>

definition contains_from :: "jsval list \<Rightarrow> jsval \<Rightarrow> index_arg \<Rightarrow> bool \<Rightarrow> bool" where
  "contains_from array item fromIndex guard =
     (indexOf_us (\<lambda>_ _. False) array item
        (if guard then NumIdx 0 else (case fromIndex of NumIdx k \<Rightarrow> NumIdx k | _ \<Rightarrow> NumIdx 0)) \<ge> 0)"

abbreviation contains :: "jsval list \<Rightarrow> jsval \<Rightarrow> bool" where
  "contains array item \<equiv> contains_from array item NoIdx False"

section \<open>Flattening\<close>

text \<open>
  \<open>flatten$1\<close>.  The depth is \<open>None\<close> for \<open>Infinity\<close> (also for \<open>undefined\<close> and \<open>false\<close>) and \<open>Some 1\<close>
  for \<open>true\<close>.  A nested array is flattened further while the depth is above one, copied at depth
  one; another value is kept unless \<open>strict\<close>.
\<close>

definition deeper :: "int option \<Rightarrow> bool" where
  "deeper d = (case d of None \<Rightarrow> True | Some n \<Rightarrow> n > 1)"

definition less_deep :: "int option \<Rightarrow> int option" where
  "less_deep d = map_option (\<lambda>n. n - 1) d"

fun flatten_value :: "int option \<Rightarrow> bool \<Rightarrow> jsval \<Rightarrow> jsval list" where
  "flatten_value depth strict (VArr a xs) =
     (if deeper depth then concat (map (flatten_value (less_deep depth) strict) xs) else xs)"
| "flatten_value depth strict v = (if strict then [] else [v])"

definition flatten_us :: "int option \<Rightarrow> bool \<Rightarrow> jsval list \<Rightarrow> jsval list" where
  "flatten_us depth strict input =
     (case depth of
        Some n \<Rightarrow> if n \<le> 0 then input else concat (map (flatten_value depth strict) input)
      | None \<Rightarrow> concat (map (flatten_value depth strict) input))"

section \<open>Duplicates and set operations\<close>

text \<open>
  \<open>_.uniq\<close>: the loop variables are the index, the last value seen (sorted variant), the computed
  values seen (with an iteratee) and the result.
\<close>

fun uniq_loop ::
  "bool \<Rightarrow> (jsval \<Rightarrow> int \<Rightarrow> jsval) option \<Rightarrow> int \<Rightarrow> jsval \<Rightarrow> jsval list \<Rightarrow> jsval list \<Rightarrow> jsval list \<Rightarrow> jsval list" where
  "uniq_loop isSorted it i seen_val seen res [] = res"
| "uniq_loop isSorted it i seen_val seen res (v # vs) =
     (let computed = (case it of None \<Rightarrow> v | Some f \<Rightarrow> f v i) in
      if isSorted \<and> it = None then
        uniq_loop isSorted it (i + 1) computed seen
          (if i = 0 \<or> \<not> strict_eq seen_val computed then res @ [v] else res) vs
      else if it \<noteq> None then
        (if \<not> contains seen computed
         then uniq_loop isSorted it (i + 1) seen_val (seen @ [computed]) (res @ [v]) vs
         else uniq_loop isSorted it (i + 1) seen_val seen res vs)
      else uniq_loop isSorted it (i + 1) seen_val seen
             (if \<not> contains res v then res @ [v] else res) vs)"

definition uniq_us :: "jsval list \<Rightarrow> bool \<Rightarrow> (jsval \<Rightarrow> int \<Rightarrow> jsval) option \<Rightarrow> jsval list" where
  "uniq_us array isSorted it = uniq_loop isSorted it 0 (VArr 0 []) [] [] array"

definition union_us :: "jsval list \<Rightarrow> jsval list" where
  "union_us arrays = uniq_us (flatten_us (Some 1) True arrays) False None"

definition difference_us :: "jsval list \<Rightarrow> jsval list \<Rightarrow> jsval list" where
  "difference_us array others =
     (let rest = flatten_us (Some 1) True others in filter (\<lambda>v. \<not> contains rest v) array)"

definition without_us :: "jsval list \<Rightarrow> jsval list \<Rightarrow> jsval list" where
  "without_us array otherArrays = difference_us array [VArr 0 otherArrays]"

fun intersection_loop :: "jsval list list \<Rightarrow> jsval list \<Rightarrow> jsval list \<Rightarrow> jsval list" where
  "intersection_loop others res [] = res"
| "intersection_loop others res (item # items) =
     (if contains res item then intersection_loop others res items
      else if list_all (\<lambda>arg. contains arg item) others
      then intersection_loop others (res @ [item]) items
      else intersection_loop others res items)"

definition intersection_us :: "jsval list \<Rightarrow> jsval list list \<Rightarrow> jsval list" where
  "intersection_us array others = intersection_loop others [] array"

definition compact_us :: "jsval list \<Rightarrow> jsval list" where
  "compact_us array = filter truthy array"

section \<open>Zipping, objects, ranges, chunks\<close>

definition max_length :: "jsval list list \<Rightarrow> nat" where
  "max_length array = fold (\<lambda>xs n. if length xs > n then length xs else n) array 0"

definition unzip_us :: "jsval list list \<Rightarrow> jsval list list" where
  "unzip_us array = map (\<lambda>index. map (\<lambda>xs. elem_at xs (int index)) array) [0..<max_length array]"

definition zip_us :: "jsval list list \<Rightarrow> jsval list list" where
  "zip_us arrays = unzip_us arrays"

definition object_lists :: "string list \<Rightarrow> jsval list \<Rightarrow> (string, jsval) dict" where
  "object_lists list values =
     fold (\<lambda>i. dict_set (list ! i) (elem_at values (int i))) [0..<length list] []"

definition object_pairs :: "(string \<times> jsval) list \<Rightarrow> (string, jsval) dict" where
  "object_pairs list = fold (\<lambda>(k, v). dict_set k v) list []"

definition ceil_div :: "int \<Rightarrow> int \<Rightarrow> int" where
  "ceil_div a b = - ((- a) div b)"

fun range_loop :: "nat \<Rightarrow> int \<Rightarrow> int \<Rightarrow> int list" where
  "range_loop 0 start step = []"
| "range_loop (Suc n) start step = start # range_loop n (start + step) step"

definition range_us :: "int \<Rightarrow> int option \<Rightarrow> int option \<Rightarrow> int list" where
  "range_us start stop step =
     (let (start', stop') = (case stop of None \<Rightarrow> (0, start) | Some e \<Rightarrow> (start, e));
          step' = (case step of
                     None \<Rightarrow> if stop' < start' then - 1 else 1
                   | Some s \<Rightarrow> if s = 0 then (if stop' < start' then - 1 else 1) else s);
          len = max (ceil_div (stop' - start') step') 0 in
      range_loop (nat len) start' step')"

function chunk_loop :: "'a list \<Rightarrow> nat \<Rightarrow> nat \<Rightarrow> 'a list list" where
  "chunk_loop array count i =
     (if i < length array \<and> 0 < count
      then slice array (int i) (Some (int (i + count))) # chunk_loop array count (i + count)
      else [])"
  by pat_completeness auto
termination
  by (relation "measure (\<lambda>(array, count, i). length array - i)") auto

declare chunk_loop.simps [simp del]

definition chunk_us :: "'a list \<Rightarrow> int option \<Rightarrow> 'a list list" where
  "chunk_us array count =
     (case count of
        None \<Rightarrow> []
      | Some c \<Rightarrow> if c < 1 then [] else chunk_loop array (nat c) 0)"

section \<open>Finders: facts\<close>

text \<open>The equality of \<open>_.contains\<close>: \<open>===\<close>, except that \<open>NaN\<close> is found.\<close>

definition same_value :: "jsval \<Rightarrow> jsval \<Rightarrow> bool" where
  "same_value a b \<longleftrightarrow> strict_eq a b \<or> is_nan a \<and> is_nan b"

lemma slice_all [simp]: "slice xs 0 (Some (int (length xs))) = xs"
  by (simp add: slice_def clip_index_def)

lemma slice_nat: "slice xs (int i) (Some (int j)) = take (j - i) (drop i xs)"
proof (cases "j \<le> length xs")
  case False
  have "take (min j (length xs) - min i (length xs)) (drop (min i (length xs)) xs) = take (j - i) (drop i xs)"
    using False by (cases "i \<le> length xs") (auto simp: min_def)
  then show ?thesis
    by (simp add: slice_def clip_index_def nat_minus_as_int flip: of_nat_min)
next
  case True
  then show ?thesis
    by (cases "i \<le> length xs") (auto simp: slice_def clip_index_def min_def)
qed

text \<open>A search loop that runs upwards returns the first index that satisfies its test.\<close>

definition first_index :: "(int \<Rightarrow> bool) \<Rightarrow> int \<Rightarrow> int \<Rightarrow> int \<Rightarrow> bool" where
  "first_index P i n k \<longleftrightarrow>
     (if \<exists>j. i \<le> j \<and> j < n \<and> P j then i \<le> k \<and> k < n \<and> P k \<and> (\<forall>j. i \<le> j \<longrightarrow> j < k \<longrightarrow> \<not> P j)
      else k = - 1)"

definition last_index :: "(int \<Rightarrow> bool) \<Rightarrow> int \<Rightarrow> int \<Rightarrow> bool" where
  "last_index P n k \<longleftrightarrow>
     (if \<exists>j. 0 \<le> j \<and> j < n \<and> P j then 0 \<le> k \<and> k < n \<and> P k \<and> (\<forall>j. k < j \<longrightarrow> j < n \<longrightarrow> \<not> P j)
      else k = - 1)"

lemma first_index_step:
  assumes "i < n" "\<not> P i" "first_index P (i + 1) n k"
  shows "first_index P i n k"
proof -
  have eq: "i \<le> j \<and> P j \<longleftrightarrow> i + 1 \<le> j \<and> P j" for j using assms(2) by (cases "j = i") auto
  have ex: "(\<exists>j. i \<le> j \<and> j < n \<and> P j) \<longleftrightarrow> (\<exists>j. i + 1 \<le> j \<and> j < n \<and> P j)"
    using eq by metis
  have all: "(\<forall>j. i \<le> j \<longrightarrow> j < k \<longrightarrow> \<not> P j) \<longleftrightarrow> (\<forall>j. i + 1 \<le> j \<longrightarrow> j < k \<longrightarrow> \<not> P j)"
    using eq by metis
  show ?thesis
    using assms(3) eq [of k] unfolding first_index_def ex all
    by (cases "\<exists>j. i + 1 \<le> j \<and> j < n \<and> P j") auto
qed

lemma first_index_here: "i < n \<Longrightarrow> P i \<Longrightarrow> first_index P i n i"
  by (auto simp: first_index_def)

lemma first_index_empty: "n \<le> i \<Longrightarrow> first_index P i n (- 1)"
  by (auto simp: first_index_def)

lemma last_index_step:
  assumes "0 \<le> i" "\<not> P i" "last_index P i k"
  shows "last_index P (i + 1) k"
proof -
  have eq: "j < i + 1 \<and> P j \<longleftrightarrow> j < i \<and> P j" for j using assms(2) by (cases "j = i") auto
  have ex: "(\<exists>j. 0 \<le> j \<and> j < i + 1 \<and> P j) \<longleftrightarrow> (\<exists>j. 0 \<le> j \<and> j < i \<and> P j)"
    using eq by metis
  have all: "(\<forall>j. k < j \<longrightarrow> j < i + 1 \<longrightarrow> \<not> P j) \<longleftrightarrow> (\<forall>j. k < j \<longrightarrow> j < i \<longrightarrow> \<not> P j)"
    using eq by metis
  show ?thesis
    using assms(3) eq [of k] unfolding last_index_def ex all
    by (cases "\<exists>j. 0 \<le> j \<and> j < i \<and> P j") auto
qed

lemma last_index_here: "0 \<le> i \<Longrightarrow> P i \<Longrightarrow> last_index P (i + 1) i"
  by (auto simp: last_index_def)

lemma find_loop_up: "0 \<le> i \<Longrightarrow> first_index (\<lambda>j. p (elem_at xs j) j) i (int (length xs)) (find_loop p 1 xs i)"
proof (induction "nat (int (length xs) - i)" arbitrary: i)
  case 0
  then show ?case by (simp add: find_loop.simps [of p 1 xs i] first_index_empty)
next
  case (Suc n)
  then have lt: "i < int (length xs)" by simp
  have rec: "first_index (\<lambda>j. p (elem_at xs j) j) (i + 1) (int (length xs)) (find_loop p 1 xs (i + 1))"
    using Suc(1) [of "i + 1"] Suc(2,3) by simp
  show ?case
    using lt Suc(3) first_index_here [of i] first_index_step [OF lt _ rec]
    by (simp add: find_loop.simps [of p 1 xs i])
qed

lemma find_loop_down:
  "i \<le> length xs \<Longrightarrow> last_index (\<lambda>j. p (elem_at xs j) j) (int i) (find_loop p (- 1) xs (int i - 1))"
proof (induction i)
  case 0
  then show ?case by (simp add: find_loop.simps [of p "- 1" xs "- 1"] last_index_def)
next
  case (Suc i)
  then show ?case
    using last_index_here [of "int i" "\<lambda>j. p (elem_at xs j) j"]
      last_index_step [of "int i" "\<lambda>j. p (elem_at xs j) j"]
    by (simp add: find_loop.simps [of p "- 1" xs "int i"] add.commute)
qed

lemma index_loop_up:
  "0 \<le> i \<Longrightarrow> first_index (\<lambda>j. strict_eq (elem_at xs j) v) i n (index_loop v 1 xs n i)"
proof (induction "nat (n - i)" arbitrary: i)
  case 0
  then show ?case by (simp add: index_loop.simps [of v 1 xs n i] first_index_empty)
next
  case (Suc m)
  then have lt: "i < n" by simp
  have rec: "first_index (\<lambda>j. strict_eq (elem_at xs j) v) (i + 1) n (index_loop v 1 xs n (i + 1))"
    using Suc(1) [of "i + 1"] Suc(2,3) by simp
  show ?case
    using lt Suc(3) first_index_here [of i] first_index_step [OF lt _ rec]
    by (simp add: index_loop.simps [of v 1 xs n i])
qed

lemma index_loop_down:
  "int i \<le> n \<Longrightarrow> last_index (\<lambda>j. strict_eq (elem_at xs j) v) (int i) (index_loop v (- 1) xs n (int i - 1))"
proof (induction i)
  case 0
  then show ?case by (simp add: index_loop.simps [of v "- 1" xs n "- 1"] last_index_def)
next
  case (Suc i)
  then show ?case
    using last_index_here [of "int i" "\<lambda>j. strict_eq (elem_at xs j) v"]
      last_index_step [of "int i" "\<lambda>j. strict_eq (elem_at xs j) v"]
    by (simp add: index_loop.simps [of v "- 1" xs n "int i"] add.commute)
qed

lemma first_index_range: "first_index P 0 n k \<Longrightarrow> \<not> 0 \<le> k \<Longrightarrow> k = - 1"
  by (auto simp: first_index_def split: if_splits)

lemma last_index_range: "last_index P n k \<Longrightarrow> \<not> 0 \<le> k \<Longrightarrow> k = - 1"
  by (auto simp: last_index_def split: if_splits)

lemma not_strict_eq_self [simp]: "strict_eq v v \<longleftrightarrow> \<not> is_nan v"
  by (rule strict_eq_refl_iff)

lemma same_value_nan: "is_nan v \<Longrightarrow> same_value w v \<longleftrightarrow> is_nan w"
  by (cases w) (auto simp: same_value_def is_nan_def num_eq_def)

lemma same_value_not_nan: "\<not> is_nan v \<Longrightarrow> same_value w v \<longleftrightarrow> strict_eq w v"
  by (auto simp: same_value_def)

lemma findIndex_first: "first_index (\<lambda>j. p (elem_at xs j) j) 0 (int (length xs)) (findIndex xs p)"
  by (simp add: findIndex_def createPredicateIndexFinder_def find_loop_up)

lemma findLastIndex_last: "last_index (\<lambda>j. p (elem_at xs j) j) (int (length xs)) (findLastIndex xs p)"
  using find_loop_down [of "length xs" xs p]
  by (simp add: findLastIndex_def createPredicateIndexFinder_def)

lemma indexOf_first:
  assumes "idx = NoIdx \<or> idx = NumIdx 0"
  shows "first_index (\<lambda>j. same_value (elem_at xs j) v) 0 (int (length xs)) (indexOf_us lt xs v idx)"
proof (cases "is_nan v")
  case True
  have fi: "first_index (\<lambda>j. is_nan (elem_at xs j)) 0 (int (length xs)) (findIndex xs (\<lambda>v _. is_nan v))"
    by (rule findIndex_first)
  have "indexOf_us lt xs v idx = findIndex xs (\<lambda>v _. is_nan v)"
    using assms True first_index_range [OF fi]
    by (elim disjE) (simp_all add: indexOf_us_def createIndexFinder_def index_start_def index_length_def Let_def)
  with fi show ?thesis using True by (simp add: same_value_nan)
next
  case False
  then show ?thesis
    using assms index_loop_up [of 0 xs v "int (length xs)"]
    by (auto simp: indexOf_us_def createIndexFinder_def index_start_def index_length_def Let_def
        same_value_not_nan)
qed

lemma lastIndexOf_last:
  "last_index (\<lambda>j. same_value (elem_at xs j) v) (int (length xs)) (lastIndexOf xs v NoIdx)"
proof (cases "is_nan v")
  case True
  have la: "last_index (\<lambda>j. is_nan (elem_at xs j)) (int (length xs)) (findLastIndex xs (\<lambda>v _. is_nan v))"
    by (rule findLastIndex_last)
  have "lastIndexOf xs v NoIdx = findLastIndex xs (\<lambda>v _. is_nan v)"
    using True last_index_range [OF la]
    by (simp add: lastIndexOf_def createIndexFinder_def index_start_def index_length_def Let_def)
  with la show ?thesis using True by (simp add: same_value_nan)
next
  case False
  then show ?thesis
    using index_loop_down [of "length xs" "int (length xs)" xs v]
    by (auto simp: lastIndexOf_def createIndexFinder_def index_start_def index_length_def Let_def
        same_value_not_nan)
qed

lemma ex_index_iff: "(\<exists>j. 0 \<le> j \<and> j < int (length xs) \<and> P (elem_at xs j)) \<longleftrightarrow> (\<exists>x \<in> set xs. P x)"
proof
  assume "\<exists>x \<in> set xs. P x"
  then obtain i where "i < length xs" "P (xs ! i)" by (auto simp: in_set_conv_nth)
  then show "\<exists>j. 0 \<le> j \<and> j < int (length xs) \<and> P (elem_at xs j)"
    by (intro exI [of _ "int i"]) simp
next
  assume "\<exists>j. 0 \<le> j \<and> j < int (length xs) \<and> P (elem_at xs j)"
  then show "\<exists>x \<in> set xs. P x" by (auto simp: elem_at_def intro!: bexI [of _ "xs ! nat _"])
qed

lemma contains_iff: "contains xs v \<longleftrightarrow> (\<exists>x \<in> set xs. same_value x v)"
  using indexOf_first [of "NumIdx 0" xs v "\<lambda>_ _. False"] ex_index_iff [of xs "\<lambda>x. same_value x v"]
  by (auto simp: contains_from_def first_index_def split: if_splits)

interpretation same: js_equality same_value "\<lambda>_. False"
proof
  fix a b c
  show "same_value a b = same_value b a" by (auto simp: same_value_def strict_eq_sym)
  show "same_value a b \<Longrightarrow> same_value b c \<Longrightarrow> same_value a c"
    unfolding same_value_def
    by (metis strict_eq_refl_iff strict_eq_sym strict_eq_trans)
  show "same_value a a \<longleftrightarrow> \<not> False" by (auto simp: same_value_def)
qed

lemma contains_member: "contains xs v \<longleftrightarrow> same.member v xs"
  by (simp add: contains_iff same.member_def)

lemma contains_append: "contains (xs @ ys) v \<longleftrightarrow> contains xs v \<or> contains ys v"
  by (auto simp: contains_iff)

lemma contains_same: "same_value a b \<Longrightarrow> contains xs a \<longleftrightarrow> contains xs b"
  unfolding contains_member by (rule same.member_cong)

lemma contains_self: "v \<in> set xs \<Longrightarrow> contains xs v"
  unfolding contains_member by (rule same.member_self) auto

text \<open>The index finders are correct for every value, \<open>NaN\<close> included: \<open>_.indexOf\<close> returns the first
  index that holds the value and \<open>_.lastIndexOf\<close> the last one, both \<open>-1\<close> if there is none, and
  \<open>_.contains\<close> tells whether there is one.\<close>

theorem index_finders_correct:
  "first_index (\<lambda>j. same_value (elem_at array j) item) 0 (int (length array)) (indexOf_us lt array item NoIdx)
   \<and> last_index (\<lambda>j. same_value (elem_at array j) item) (int (length array)) (lastIndexOf array item NoIdx)
   \<and> contains array item = (\<exists>v \<in> set array. same_value v item)"
  using indexOf_first [of NoIdx] lastIndexOf_last contains_iff by simp

text \<open>With a negative start position before the beginning of the array, \<open>_.lastIndexOf\<close> still finds
  \<open>NaN\<close> (the slice it searches counts the negative end from the right), while it finds no other
  number there.\<close>

theorem lastIndexOf_nan_before_start:
  "lastIndexOf [VNum NaN, VInt 1, VInt 2] (VNum NaN) (NumIdx (- 5)) = 0
   \<and> (\<forall>n array. lastIndexOf array (VInt n) (NumIdx (- int (length array) - 2)) = - 1)"
proof (intro conjI allI)
  have "find_loop (\<lambda>v _. is_nan v) (- 1) [VNum NaN, VInt 1] 1 = 0"
    by (simp add: find_loop.simps elem_at_def is_nan_def)
  then show "lastIndexOf [VNum NaN, VInt 1, VInt 2] (VNum NaN) (NumIdx (- 5)) = 0"
    by (simp add: lastIndexOf_def createIndexFinder_def index_start_def index_length_def
        slice_def clip_index_def findLastIndex_def createPredicateIndexFinder_def is_nan_def)
next
  fix n :: int and array
  show "lastIndexOf array (VInt n) (NumIdx (- int (length array) - 2)) = - 1"
    by (simp add: lastIndexOf_def createIndexFinder_def index_start_def index_length_def
        index_loop.simps [of _ "- 1" array "- 1" "- 2"] is_nan_def)
qed

section \<open>Binary search\<close>

lemma sorted_loop_bounds:
  assumes mono: "\<And>i j. i \<le> j \<Longrightarrow> j < length xs \<Longrightarrow> lt (it (xs ! j)) v \<Longrightarrow> lt (it (xs ! i)) v"
  shows "low \<le> high \<Longrightarrow> high \<le> length xs \<Longrightarrow> (\<And>i. i < low \<Longrightarrow> lt (it (xs ! i)) v) \<Longrightarrow>
     (\<And>i. high \<le> i \<Longrightarrow> i < length xs \<Longrightarrow> \<not> lt (it (xs ! i)) v) \<Longrightarrow>
     sorted_loop lt it xs v low high = k \<Longrightarrow>
     k \<le> length xs \<and> (\<forall>i < k. lt (it (xs ! i)) v) \<and>
     (\<forall>i. k \<le> i \<longrightarrow> i < length xs \<longrightarrow> \<not> lt (it (xs ! i)) v)"
proof (induction "high - low" arbitrary: low high rule: less_induct)
  case (less low high)
  show ?case
  proof (cases "low < high")
    case True
    define mid where "mid = (low + high) div 2"
    have mid: "low \<le> mid" "mid < high" "mid < length xs" using True less.prems(2) by (auto simp: mid_def)
    show ?thesis
    proof (cases "lt (it (xs ! mid)) v")
      case lt: True
      show ?thesis
      proof (rule less.hyps [of high "mid + 1"])
        show "lt (it (xs ! i)) v" if "i < mid + 1" for i
          using mono [OF _ mid(3) lt] that by simp
        show "sorted_loop lt it xs v (mid + 1) high = k"
          using less.prems(5) lt True by (simp add: sorted_loop.simps [of lt it xs v low high] mid_def)
      qed (use mid less.prems in auto)
    next
      case nlt: False
      show ?thesis
      proof (rule less.hyps [of mid low])
        show "\<not> lt (it (xs ! i)) v" if "mid \<le> i" "i < length xs" for i
          using mono [OF that] nlt by blast
        show "sorted_loop lt it xs v low mid = k"
          using less.prems(5) nlt True by (simp add: sorted_loop.simps [of lt it xs v low high] mid_def)
      qed (use mid less.prems in auto)
    qed
  qed (use less.prems in \<open>auto simp: sorted_loop.simps [of lt it xs v high high]\<close>)
qed

lemma take_eq_filter:
  assumes "k \<le> length xs" "\<forall>i < k. P (xs ! i)" "\<forall>i. k \<le> i \<longrightarrow> i < length xs \<longrightarrow> \<not> P (xs ! i)"
  shows "filter P xs = take k xs"
proof -
  have "filter P xs = filter P (take k xs) @ filter P (drop k xs)"
    by (simp flip: filter_append)
  also have "filter P (take k xs) = take k xs"
    using assms(1,2) by (intro filter_True) (auto simp: in_set_conv_nth)
  also have "filter P (drop k xs) = []"
    using assms(3) by (intro filter_False) (auto simp: in_set_conv_nth)
  finally show ?thesis by simp
qed

text \<open>C15: On an array sorted by the iteratee, the binary search of \<open>_.sortedIndex\<close> returns the number of
  elements that come strictly before the object, which is the leftmost position where inserting the
  object keeps the array sorted.\<close>

theorem sortedIndex_leftmost:
  fixes it :: "'a \<Rightarrow> 'c :: linorder"
  assumes "sorted (map it array)"
  shows "sortedIndex (<) it array obj = length (filter (\<lambda>x. it x < it obj) array)
    \<and> sorted (map it (take (sortedIndex (<) it array obj) array @ obj # drop (sortedIndex (<) it array obj) array))"
proof -
  define k where "k = sortedIndex (<) it array obj"
  have "k \<le> length array \<and> (\<forall>i < k. it (array ! i) < it obj)
     \<and> (\<forall>i. k \<le> i \<longrightarrow> i < length array \<longrightarrow> \<not> it (array ! i) < it obj)"
  proof (rule sorted_loop_bounds [where lt = "(<)" and it = it and v = "it obj" and low = 0
        and high = "length array"])
    fix i j assume "i \<le> j" "j < length array" "it (array ! j) < it obj"
    then show "it (array ! i) < it obj"
      using sorted_nth_mono [OF assms, of i j] by simp
  qed (auto simp: k_def sortedIndex_def)
  then have k: "k \<le> length array" "\<forall>i < k. it (array ! i) < it obj"
    "\<forall>i. k \<le> i \<longrightarrow> i < length array \<longrightarrow> \<not> it (array ! i) < it obj" by auto
  have len: "length (filter (\<lambda>x. it x < it obj) array) = k"
    using take_eq_filter [OF k] k(1) by simp
  have lo: "x \<in> set (take k array) \<Longrightarrow> it x \<le> it obj" for x
    using k(1,2) by (auto simp: in_set_conv_nth)
  have hi: "x \<in> set (drop k array) \<Longrightarrow> it obj \<le> it x" for x
    using k(3) by (force simp: in_set_conv_nth not_less)
  have "sorted (map it (take k array) @ map it (drop k array))"
    using assms by (simp flip: map_append)
  then have "sorted (map it (take k array @ obj # drop k array))"
    using lo hi by (auto simp: sorted_append) 
  with len show ?thesis by (simp add: k_def)
qed

theorem sortedIndex_leftmost_witness:
  "sortedIndex (<) id [10, 20, 20, 30 :: int] 20 = length (filter (\<lambda>x. x < 20) [10, 20, 20, 30 :: int])"
  using sortedIndex_leftmost [of "id :: int \<Rightarrow> int" "[10, 20, 20, 30]" 20] by simp

section \<open>Duplicate removal and set operations: facts\<close>

definition uniq_step :: "jsval \<Rightarrow> jsval list \<Rightarrow> jsval list" where
  "uniq_step v res = (if contains res v then res else res @ [v])"

lemma uniq_step_old: "contains res v \<Longrightarrow> uniq_step v res = res"
  by (simp add: uniq_step_def)

lemma uniq_step_new: "\<not> contains res v \<Longrightarrow> uniq_step v res = res @ [v]"
  by (simp add: uniq_step_def)

text \<open>No two elements at different positions are the same value.\<close>

abbreviation no_duplicates :: "jsval list \<Rightarrow> bool" where
  "no_duplicates xs \<equiv> sorted_wrt (\<lambda>a b. \<not> same_value a b) xs"

lemma uniq_loop_plain: "uniq_loop False None i sv seen res xs = fold uniq_step xs res"
  by (induction xs arbitrary: i res) (auto simp: uniq_step_def)

lemma uniq_us_plain: "uniq_us xs False None = fold uniq_step xs []"
  by (simp add: uniq_us_def uniq_loop_plain)

lemma contains_uniq_fold: "contains (fold uniq_step xs res) v \<longleftrightarrow> contains res v \<or> contains xs v"
proof (induction xs arbitrary: res)
  case Nil
  then show ?case by (simp add: contains_iff)
next
  case (Cons x xs)
  have "contains (uniq_step x res) v \<longleftrightarrow> contains res v \<or> same_value x v"
    using contains_same [of x v res] by (auto simp: uniq_step_def contains_append contains_iff)
  then show ?case by (simp add: Cons.IH) (auto simp: contains_iff)
qed

lemma no_duplicates_snoc: "no_duplicates (xs @ [v]) \<longleftrightarrow> no_duplicates xs \<and> \<not> contains xs v"
  by (auto simp: sorted_wrt_append contains_iff)

lemma no_duplicates_uniq_fold: "no_duplicates res \<Longrightarrow> no_duplicates (fold uniq_step xs res)"
  by (induction xs arbitrary: res) (simp_all add: uniq_step_def no_duplicates_snoc)

lemma uniq_fold_append: "\<exists>ys. fold uniq_step xs res = res @ ys \<and> subseq ys xs"
proof (induction xs arbitrary: res)
  case (Cons x xs)
  then obtain ys where ys: "fold uniq_step xs (uniq_step x res) = uniq_step x res @ ys" "subseq ys xs"
    by blast
  then show ?case
    by (cases "contains res x") (auto simp: uniq_step_old uniq_step_new)
qed simp

text \<open>Equal values stand together, as in a sorted array.\<close>

fun grouped :: "jsval list \<Rightarrow> bool" where
  "grouped [] = True"
| "grouped (x # xs) \<longleftrightarrow> (\<forall>y \<in> set (dropWhile (same_value x) xs). \<not> same_value x y) \<and> grouped xs"

lemma uniq_loop_sorted:
  "0 < i \<Longrightarrow> contains res sv \<Longrightarrow> (\<And>x. x \<in> set xs \<Longrightarrow> contains res x \<Longrightarrow> same_value sv x) \<Longrightarrow>
     grouped (sv # xs) \<Longrightarrow> (\<And>x. x \<in> set xs \<Longrightarrow> \<not> is_nan x) \<Longrightarrow>
     uniq_loop True None i sv seen res xs = fold uniq_step xs res"
proof (induction xs arbitrary: i sv res)
  case (Cons x xs)
  have eq: "strict_eq sv x \<longleftrightarrow> same_value sv x" using Cons.prems(5) [of x] by (simp add: same_value_not_nan)
  show ?case
  proof (cases "same_value sv x")
    case True
    then have c: "contains res x" using Cons.prems(2) contains_same by blast
    have "uniq_loop True None (i + 1) x seen res xs = fold uniq_step xs res"
    proof (rule Cons.IH)
      show "same_value x y" if "y \<in> set xs" "contains res y" for y
        using that Cons.prems(3) [of y] True same.eq_sym same.eq_trans by (metis list.set_intros(2))
    qed (use Cons.prems c in auto)
    then show ?thesis using True eq c Cons.prems(1) by (simp add: uniq_step_old)
  next
    case False
    then have c: "\<not> contains res x" using Cons.prems(3) by auto
    have apart: "\<not> same_value sv y" if "y \<in> set xs" for y
      using Cons.prems(4) False that by simp
    have "uniq_loop True None (i + 1) x seen (res @ [x]) xs = fold uniq_step xs (res @ [x])"
    proof (rule Cons.IH)
      show "contains (res @ [x]) x" by (rule contains_self) simp
      show "same_value x y" if "y \<in> set xs" "contains (res @ [x]) y" for y
        using that apart [of y] Cons.prems(3) [of y] by (auto simp: contains_append contains_iff [of "[x]"])
      show "grouped (x # xs)" using Cons.prems(4) by simp
    qed (use Cons.prems(1,5) in simp_all)
    then show ?thesis using False eq c Cons.prems(1) by (simp add: uniq_step_new)
  qed
qed simp

text \<open>\<open>_.uniq\<close> returns a subsequence of its array with no two equal values (where \<open>NaN\<close> equals itself)
  in which every element of the array is found again; on arrays whose equal values stand together
  and that hold no \<open>NaN\<close>, the faster variant for sorted arrays returns the same list.\<close>

theorem uniq_correct:
  "subseq (uniq_us array False None) array
   \<and> no_duplicates (uniq_us array False None)
   \<and> (\<forall>v. contains (uniq_us array False None) v = contains array v)
   \<and> (grouped array \<and> list_all (\<lambda>v. \<not> is_nan v) array
        \<longrightarrow> uniq_us array True None = uniq_us array False None)"
proof (intro conjI allI impI)
  show "subseq (uniq_us array False None) array"
    using uniq_fold_append [of array "[]"] by (auto simp: uniq_us_plain)
  show "no_duplicates (uniq_us array False None)"
    by (simp add: uniq_us_plain no_duplicates_uniq_fold)
  show "contains (uniq_us array False None) v = contains array v" for v
    using contains_uniq_fold [of array "[]" v] contains_iff [of "[]" v] by (simp add: uniq_us_plain)
  assume *: "grouped array \<and> list_all (\<lambda>v. \<not> is_nan v) array"
  show "uniq_us array True None = uniq_us array False None"
  proof (cases array)
    case (Cons x xs)
    have "uniq_loop True None 1 x [] [x] xs = fold uniq_step xs [x]"
      using * Cons by (intro uniq_loop_sorted) (auto simp: contains_iff list_all_iff same.eq_refl)
    then show ?thesis
      using Cons contains_iff [of "[]" x] by (simp add: uniq_us_plain) (simp add: uniq_us_def uniq_step_new)
  qed (simp add: uniq_us_def)
qed

theorem uniq_correct_witness:
  "uniq_us [VInt 1, VInt 1, VInt 2] True None = uniq_us [VInt 1, VInt 1, VInt 2] False None"
proof -
  have "grouped [VInt 1, VInt 1, VInt 2] \<and> list_all (\<lambda>v. \<not> is_nan v) [VInt 1, VInt 1, VInt 2]"
    by (simp add: same_value_def is_nan_def num_eq_def)
  with uniq_correct [of "[VInt 1, VInt 1, VInt 2]"] show ?thesis by blast
qed

lemma intersection_loop_result:
  "contains (intersection_loop others res xs) v \<longleftrightarrow>
     contains res v \<or> contains xs v \<and> list_all (\<lambda>arg. contains arg v) others"
proof (induction xs arbitrary: res)
  case Nil
  then show ?case by (simp add: contains_iff)
next
  case (Cons x xs)
  have "list_all (\<lambda>arg. contains arg x) others = list_all (\<lambda>arg. contains arg v) others"
    "contains res x = contains res v" if "same_value x v"
    using contains_same [OF that] by simp_all
  then show ?case
    by (simp add: Cons.IH contains_append) (auto simp: contains_iff)
qed

lemma intersection_loop_no_duplicates:
  "no_duplicates res \<Longrightarrow> no_duplicates (intersection_loop others res xs)"
  by (induction xs arbitrary: res) (simp_all add: no_duplicates_snoc)

text \<open>The elements of those arguments that are arrays.\<close>

fun array_elements :: "jsval \<Rightarrow> jsval list" where
  "array_elements (VArr a xs) = xs"
| "array_elements _ = []"

lemma flatten_shallow_strict: "flatten_us (Some 1) True vs = concat (map array_elements vs)"
proof -
  have "flatten_value (Some 1) True v = array_elements v" for v
    by (cases v) (simp_all add: deeper_def)
  then show ?thesis by (simp add: flatten_us_def cong: map_cong)
qed

text \<open>The set operations compute with the equality of \<open>_.contains\<close>: a value is in the union iff one of
  the array arguments has it, in the intersection iff the array and every other argument have it,
  and in the difference iff the array has it and no other array argument does; union and
  intersection have no duplicates and the difference keeps the order of the array.\<close>

theorem set_operations_correct:
  "contains (union_us arrays) v = (\<exists>a \<in> set arrays. contains (array_elements a) v)
   \<and> no_duplicates (union_us arrays)
   \<and> contains (intersection_us array others) v = (contains array v \<and> list_all (\<lambda>arg. contains arg v) others)
   \<and> no_duplicates (intersection_us array others)
   \<and> contains (difference_us array arrays) v
       = (contains array v \<and> \<not> contains (concat (map array_elements arrays)) v)
   \<and> subseq (difference_us array arrays) array"
proof (intro conjI)
  have "contains [] v = False" for v by (simp add: contains_iff)
  note nil = this
  show "contains (union_us arrays) v = (\<exists>a \<in> set arrays. contains (array_elements a) v)"
    unfolding union_us_def uniq_us_plain flatten_shallow_strict contains_uniq_fold
    by (simp add: nil) (auto simp: contains_iff)
  show "no_duplicates (union_us arrays)"
    by (simp add: union_us_def uniq_us_plain no_duplicates_uniq_fold)
  show "contains (intersection_us array others) v = (contains array v \<and> list_all (\<lambda>arg. contains arg v) others)"
    by (simp add: intersection_us_def intersection_loop_result nil)
  show "no_duplicates (intersection_us array others)"
    by (simp add: intersection_us_def intersection_loop_no_duplicates)
  show "contains (difference_us array arrays) v
      = (contains array v \<and> \<not> contains (concat (map array_elements arrays)) v)"
    unfolding difference_us_def flatten_shallow_strict Let_def
    using contains_same [of _ v "concat (map array_elements arrays)"]
    by (auto simp: contains_iff [of "filter _ _"] contains_iff [of array])
  show "subseq (difference_us array arrays) array"
    by (simp add: difference_us_def Let_def)
qed

section \<open>Chunks, ranges and transposition: facts\<close>

lemma chunk_loop_parts:
  assumes "0 < n"
  shows "concat (chunk_loop xs n i) = drop i xs
    \<and> (\<forall>c \<in> set (chunk_loop xs n i). c \<noteq> [] \<and> length c \<le> n)
    \<and> (\<forall>c \<in> set (butlast (chunk_loop xs n i)). length c = n)"
proof (induction "length xs - i" arbitrary: i rule: less_induct)
  case less
  show ?case
  proof (cases "i < length xs")
    case True
    have unfold: "chunk_loop xs n i = take n (drop i xs) # chunk_loop xs n (i + n)"
      using True assms slice_nat [of xs i "i + n"] by (simp add: chunk_loop.simps [of xs n i])
    have IH: "concat (chunk_loop xs n (i + n)) = drop (i + n) xs"
      "\<forall>c \<in> set (chunk_loop xs n (i + n)). c \<noteq> [] \<and> length c \<le> n"
      "\<forall>c \<in> set (butlast (chunk_loop xs n (i + n))). length c = n"
      using less [of "i + n"] True assms by (simp_all add: diff_less_mono2)
    have full: "length (take n (drop i xs)) = n" if "chunk_loop xs n (i + n) \<noteq> []"
      using that by (auto simp: chunk_loop.simps [of xs n "i + n"] split: if_splits)
    have "concat (chunk_loop xs n i) = drop i xs"
      using append_take_drop_id [of n "drop i xs"] by (simp add: unfold IH(1) add.commute)
    then show ?thesis
      using IH(2,3) full True assms by (auto simp: unfold)
  qed (simp add: chunk_loop.simps [of xs n i])
qed

lemma length_range_loop [simp]: "length (range_loop n a s) = n"
  by (induction n arbitrary: a) auto

lemma range_loop_nth: "k < n \<Longrightarrow> range_loop n a s ! k = a + int k * s"
  by (induction n arbitrary: a k) (auto simp: nth_Cons algebra_simps split: nat.splits)

lemma div_less_iff_pos: "0 < (b :: int) \<Longrightarrow> a div b < c \<longleftrightarrow> a < c * b"
proof
  assume b: "0 < b" and "a < c * b"
  moreover have "a div b * b \<le> a" using b by (simp add: pos_mod_sign minus_mod_eq_div_mult [symmetric])
  ultimately have "a div b * b < c * b" by linarith
  then show "a div b < c" using b by (simp add: mult_less_cancel_right)
next
  assume b: "0 < b" and "a div b < c"
  then have "(a div b + 1) * b \<le> c * b" by (intro mult_right_mono) auto
  moreover have "a < (a div b + 1) * b"
    using b pos_mod_bound [of b a] div_mult_mod_eq [of a b] unfolding distrib_right by linarith
  ultimately show "a < c * b" by simp
qed

lemma less_ceil_div_pos: "0 < b \<Longrightarrow> k < ceil_div a b \<longleftrightarrow> k * b < a"
  unfolding ceil_div_def using div_less_iff_pos [of b "- a" "- k"] by auto

lemma less_ceil_div_neg: "b < 0 \<Longrightarrow> k < ceil_div a b \<longleftrightarrow> a < k * b"
  using less_ceil_div_pos [of "- b" k "- a"] div_minus_minus [of "- a" b] by (simp add: ceil_div_def)

text \<open>\<open>_.range(start, stop, step)\<close> with a step that is not zero lists, in order, exactly the numbers
  \<open>start + k * step\<close> (\<open>k\<close> natural) that lie before \<open>stop\<close> in the direction of the step.\<close>

theorem range_correct:
  assumes "step \<noteq> 0"
  shows "set (range_us start (Some stop) (Some step))
           = {start + int k * step | k. if 0 < step then start + int k * step < stop else stop < start + int k * step}
    \<and> (\<forall>k < length (range_us start (Some stop) (Some step)).
         range_us start (Some stop) (Some step) ! k = start + int k * step)"
proof -
  define n where "n = nat (max (ceil_div (stop - start) step) 0)"
  have r: "range_us start (Some stop) (Some step) = range_loop n start step"
    using assms by (simp add: range_us_def n_def)
  have n: "k < n \<longleftrightarrow> (if 0 < step then start + int k * step < stop else stop < start + int k * step)" for k
  proof -
    have "k < n \<longleftrightarrow> int k < ceil_div (stop - start) step" by (auto simp: n_def)
    then show ?thesis
      using assms less_ceil_div_pos [of step "int k" "stop - start"]
        less_ceil_div_neg [of step "int k" "stop - start"] by auto
  qed
  have "set (range_loop n start step) = {start + int k * step | k. k < n}"
    by (auto simp: set_conv_nth range_loop_nth) (metis range_loop_nth)
  then show ?thesis by (simp add: r n range_loop_nth)
qed

theorem range_correct_witness:
  "3 \<in> set (range_us 0 (Some 10) (Some 3)) \<and> 10 \<notin> set (range_us 0 (Some 10) (Some 3))"
proof -
  have "set (range_us 0 (Some 10) (Some 3)) = {int k * 3 | k. int k * 3 < 10}"
    using range_correct [of 3 0 10] by simp
  then show ?thesis by (auto intro: exI [of _ "1 :: nat"])
qed

text \<open>\<open>_.chunk\<close> with a positive count splits the array into non-empty pieces that make it up again and
  of which all but the last have exactly that length; with a smaller count or none it returns
  no piece.\<close>

theorem chunk_correct:
  "0 < n \<Longrightarrow> concat (chunk_us array (Some (int n))) = array
     \<and> list_all (\<lambda>c. c \<noteq> [] \<and> length c \<le> n) (chunk_us array (Some (int n)))
     \<and> list_all (\<lambda>c. length c = n) (butlast (chunk_us array (Some (int n))))
     \<and> chunk_us array None = [] \<and> chunk_us array (Some (- int n)) = [] \<and> chunk_us array (Some 0) = []"
  using chunk_loop_parts [of n array 0] by (auto simp: chunk_us_def list_all_iff)

theorem chunk_correct_witness:
  "concat (chunk_us [1, 2, 3 :: nat] (Some 2)) = [1, 2, 3] \<and> chunk_us [1, 2, 3 :: nat] None = []"
  using chunk_correct [of 2 "[1, 2, 3 :: nat]"] by simp

lemma max_length_const: "xss \<noteq> [] \<Longrightarrow> (\<And>xs. xs \<in> set xss \<Longrightarrow> length xs = n) \<Longrightarrow> max_length xss = n"
proof -
  have "(\<And>xs. xs \<in> set xss \<Longrightarrow> length xs = n) \<Longrightarrow> fold (\<lambda>xs n. if length xs > n then length xs else n) xss n = n"
    for n and xss :: "jsval list list"
    by (induction xss) auto
  then show "xss \<noteq> [] \<Longrightarrow> (\<And>xs. xs \<in> set xss \<Longrightarrow> length xs = n) \<Longrightarrow> max_length xss = n"
    by (cases xss) (auto simp: max_length_def)
qed

lemma unzip_involution:
  assumes "xss \<noteq> []" "0 < n" "\<And>xs. xs \<in> set xss \<Longrightarrow> length xs = n"
  shows "unzip_us (unzip_us xss) = xss"
proof -
  have len: "max_length xss = n" using assms by (simp add: max_length_const)
  have "length ys = length xss" if "ys \<in> set (unzip_us xss)" for ys
    using that by (auto simp: unzip_us_def)
  moreover have "unzip_us xss \<noteq> []" using assms(2) len by (simp add: unzip_us_def)
  ultimately have len': "max_length (unzip_us xss) = length xss" by (simp add: max_length_const)
  show ?thesis
  proof (rule nth_equalityI)
    fix i assume "i < length (unzip_us (unzip_us xss))"
    then have i: "i < length xss" by (simp add: unzip_us_def [of "unzip_us xss"] len')
    have "unzip_us (unzip_us xss) ! i = map (\<lambda>ys. elem_at ys (int i)) (unzip_us xss)"
      using i by (simp add: unzip_us_def [of "unzip_us xss"] len')
    also have "\<dots> = map (\<lambda>k. elem_at (xss ! i) (int k)) [0..<n]"
      using i by (simp add: unzip_us_def len)
    also have "\<dots> = xss ! i"
      using assms(3) [of "xss ! i"] i by (intro nth_equalityI) auto
    finally show "unzip_us (unzip_us xss) ! i = xss ! i" .
  qed (simp add: unzip_us_def [of "unzip_us xss"] len')
qed

end
