(* ===== verification/UnderscoreObjects.thy ===== *)
theory UnderscoreObjects
  imports UnderscoreArrays "HOL-Library.Char_ord" "HOL-Library.List_Lexorder"
begin

text \<open>
  Type tests and object functions of \<open>docs/_static/underscore-1.13.1.js\<close>.  Objects are values with
  their own enumerable properties; nothing is inherited from a prototype, so \<open>_.allKeys\<close> and \<open>_.keys\<close>
  agree on them and \<open>key in obj\<close> asks for an own property.  A property name is obtained from a value
  by \<open>String\<close>; the text of a function is the argument \<open>src\<close> of the definitions that need it.
\<close>

section \<open>Type tests\<close>

definition isObject :: "jsval \<Rightarrow> bool" where
  "isObject obj = (case obj of VFun _ _ \<Rightarrow> True | VArr _ _ \<Rightarrow> True | VObj _ _ _ \<Rightarrow> True | _ \<Rightarrow> False)"

definition isNull :: "jsval \<Rightarrow> bool" where
  "isNull obj = strict_eq obj VNull"

definition isUndefined :: "jsval \<Rightarrow> bool" where
  "isUndefined obj = strict_eq obj VUndef"

definition tagTester :: "string \<Rightarrow> jsval \<Rightarrow> bool" where
  "tagTester name obj = (''[object '' @ class_tag obj @ '']'' = ''[object '' @ name @ '']'')"

definition isBoolean :: "jsval \<Rightarrow> bool" where
  "isBoolean obj =
     (strict_eq obj (VBool True) \<or> strict_eq obj (VBool False) \<or> tagTester ''Boolean'' obj)"

definition isElement :: "jsval \<Rightarrow> bool" where
  "isElement obj = (truthy obj \<and> strict_eq (getProp obj ''nodeType'') (VInt 1))"

definition isString :: "jsval \<Rightarrow> bool" where
  "isString = tagTester ''String''"

definition isNumber :: "jsval \<Rightarrow> bool" where
  "isNumber = tagTester ''Number''"

definition isArguments :: "jsval \<Rightarrow> bool" where
  "isArguments = tagTester ''Arguments''"

definition isFunction :: "jsval \<Rightarrow> bool" where
  "isFunction obj = (case obj of VFun _ _ \<Rightarrow> True | _ \<Rightarrow> False)"

definition isArray :: "jsval \<Rightarrow> bool" where
  "isArray obj = (case obj of VArr _ _ \<Rightarrow> True | _ \<Rightarrow> False)"

text \<open>\<open>has$1\<close>.\<close>

definition has1_us :: "jsval \<Rightarrow> string \<Rightarrow> bool" where
  "has1_us obj key = (\<not> nullish obj \<and> hasOwn obj key)"

definition isNaN_us :: "jsval \<Rightarrow> bool" where
  "isNaN_us obj = (isNumber obj \<and> is_nan obj)"

section \<open>Sizes and keys\<close>

definition MAX_ARRAY_INDEX :: int where
  "MAX_ARRAY_INDEX = 2 ^ 53 - 1"

definition createSizePropertyCheck :: "(jsval \<Rightarrow> jsval) \<Rightarrow> jsval \<Rightarrow> bool" where
  "createSizePropertyCheck getSizeProperty collection =
     (case getSizeProperty collection of
        VNum n \<Rightarrow> num_le (Fin 0) n \<and> num_le n (Fin MAX_ARRAY_INDEX)
      | _ \<Rightarrow> False)"

definition shallowProperty :: "string \<Rightarrow> jsval \<Rightarrow> jsval" where
  "shallowProperty key obj = (if nullish obj then VUndef else getProp obj key)"

definition getLength :: "jsval \<Rightarrow> jsval" where
  "getLength = shallowProperty ''length''"

definition isArrayLike :: "jsval \<Rightarrow> bool" where
  "isArrayLike = createSizePropertyCheck getLength"

definition keys_us :: "jsval \<Rightarrow> string list" where
  "keys_us obj = (if \<not> isObject obj then [] else ownKeys obj)"

definition allKeys :: "jsval \<Rightarrow> string list" where
  "allKeys obj = (if \<not> isObject obj then [] else ownKeys obj)"

definition isEmpty :: "jsval \<Rightarrow> bool" where
  "isEmpty obj =
     (if nullish obj then True
      else (case getLength obj of
              VNum n \<Rightarrow>
                if isArray obj \<or> isString obj \<or> isArguments obj then num_eq n (Fin 0)
                else keys_us obj = []
            | _ \<Rightarrow> keys_us obj = []))"

section \<open>Reading objects\<close>

definition isMatch :: "jsval \<Rightarrow> jsval \<Rightarrow> bool" where
  "isMatch object attrs =
     (let ks = keys_us attrs in
      if nullish object then ks = []
      else list_all (\<lambda>key. \<not> (\<not> strict_eq (getProp attrs key) (getProp object key) \<or> \<not> hasOwn object key)) ks)"

definition values_us :: "jsval \<Rightarrow> jsval list" where
  "values_us obj = map (getProp obj) (keys_us obj)"

definition pairs_us :: "jsval \<Rightarrow> (string \<times> jsval) list" where
  "pairs_us obj = map (\<lambda>k. (k, getProp obj k)) (keys_us obj)"

definition invert_us :: "(nat \<Rightarrow> string) \<Rightarrow> jsval \<Rightarrow> (string, jsval) dict" where
  "invert_us src obj =
     fold (\<lambda>k. dict_set (to_string src (getProp obj k)) (VStr k)) (keys_us obj) []"

definition functions_us :: "jsval \<Rightarrow> string list" where
  "functions_us obj = sort (filter (\<lambda>key. isFunction (getProp obj key)) (ownKeys obj))"

section \<open>Assigning and copying\<close>

text \<open>
  \<open>createAssigner\<close> on an object given by its properties (\<open>None\<close> for \<open>null\<close> and \<open>undefined\<close>), which it
  returns changed.
\<close>

definition assign_key :: "bool \<Rightarrow> jsval \<Rightarrow> string \<Rightarrow> (string, jsval) dict \<Rightarrow> (string, jsval) dict" where
  "assign_key defaults source key obj =
     (if \<not> defaults \<or> isUndefined (case map_of obj key of Some v \<Rightarrow> v | None \<Rightarrow> VUndef)
      then dict_set key (getProp source key) obj else obj)"

definition assign_source ::
  "(jsval \<Rightarrow> string list) \<Rightarrow> bool \<Rightarrow> jsval \<Rightarrow> (string, jsval) dict \<Rightarrow> (string, jsval) dict" where
  "assign_source keysFunc defaults source obj = fold (assign_key defaults source) (keysFunc source) obj"

definition createAssigner ::
  "(jsval \<Rightarrow> string list) \<Rightarrow> bool \<Rightarrow> (string, jsval) dict option \<Rightarrow> jsval list
     \<Rightarrow> (string, jsval) dict option" where
  "createAssigner keysFunc defaults obj sources =
     (let obj' = (if defaults then Some (case obj of None \<Rightarrow> [] | Some o' \<Rightarrow> o') else obj) in
      case obj' of
        None \<Rightarrow> None
      | Some o' \<Rightarrow> Some (if sources = [] then o' else fold (assign_source keysFunc defaults) sources o'))"

definition extend_us :: "(string, jsval) dict option \<Rightarrow> jsval list \<Rightarrow> (string, jsval) dict option" where
  "extend_us = createAssigner allKeys False"

definition extendOwn :: "(string, jsval) dict option \<Rightarrow> jsval list \<Rightarrow> (string, jsval) dict option" where
  "extendOwn = createAssigner keys_us False"

definition defaults_us :: "(string, jsval) dict option \<Rightarrow> jsval list \<Rightarrow> (string, jsval) dict option" where
  "defaults_us = createAssigner allKeys True"

text \<open>\<open>_.clone\<close>; \<open>fresh\<close> is the address of the new array or object.\<close>

definition clone_us :: "nat \<Rightarrow> jsval \<Rightarrow> jsval" where
  "clone_us fresh obj =
     (if \<not> isObject obj then obj
      else (case obj of
              VArr a xs \<Rightarrow> VArr fresh (slice xs 0 None)
            | _ \<Rightarrow> VObj fresh ''Object'' (the (extend_us (Some []) [obj]))))"

section \<open>Paths\<close>

definition toPath :: "jsval \<Rightarrow> jsval list" where
  "toPath path = (case path of VArr a xs \<Rightarrow> xs | _ \<Rightarrow> [path])"

fun deepGet_loop :: "(nat \<Rightarrow> string) \<Rightarrow> jsval \<Rightarrow> jsval list \<Rightarrow> jsval" where
  "deepGet_loop src obj [] = obj"
| "deepGet_loop src obj (p # path) =
     (if nullish obj then VUndef else deepGet_loop src (getProp obj (to_string src p)) path)"

definition deepGet :: "(nat \<Rightarrow> string) \<Rightarrow> jsval \<Rightarrow> jsval list \<Rightarrow> jsval" where
  "deepGet src obj path = (if path \<noteq> [] then deepGet_loop src obj path else VUndef)"

definition get_us :: "(nat \<Rightarrow> string) \<Rightarrow> jsval \<Rightarrow> jsval \<Rightarrow> jsval \<Rightarrow> jsval" where
  "get_us src object path defaultValue =
     (let val = deepGet src object (toPath path) in if isUndefined val then defaultValue else val)"

fun has_loop :: "(nat \<Rightarrow> string) \<Rightarrow> jsval \<Rightarrow> jsval list \<Rightarrow> bool" where
  "has_loop src obj [] = True"
| "has_loop src obj (key # path) =
     (if \<not> has1_us obj (to_string src key) then False
      else has_loop src (getProp obj (to_string src key)) path)"

definition has_us :: "(nat \<Rightarrow> string) \<Rightarrow> jsval \<Rightarrow> jsval \<Rightarrow> bool" where
  "has_us src obj path = (has_loop src obj (toPath path) \<and> toPath path \<noteq> [])"

text \<open>
  \<open>_.result\<close>: a function met on the way is called with its parent as \<open>this\<close>; \<open>call\<close> gives what it
  returns.
\<close>

definition run_result :: "(nat \<Rightarrow> jsval \<Rightarrow> jsval) \<Rightarrow> jsval \<Rightarrow> jsval \<Rightarrow> jsval" where
  "run_result call prop obj = (case prop of VFun a n \<Rightarrow> call a obj | _ \<Rightarrow> prop)"

fun result_loop ::
  "(nat \<Rightarrow> string) \<Rightarrow> (nat \<Rightarrow> jsval \<Rightarrow> jsval) \<Rightarrow> jsval \<Rightarrow> jsval \<Rightarrow> jsval list \<Rightarrow> jsval" where
  "result_loop src call fallback obj [] = obj"
| "result_loop src call fallback obj (p # path) =
     (let prop = (if nullish obj then VUndef else getProp obj (to_string src p)) in
      if isUndefined prop then run_result call fallback obj
      else result_loop src call fallback (run_result call prop obj) path)"

definition result_us ::
  "(nat \<Rightarrow> string) \<Rightarrow> (nat \<Rightarrow> jsval \<Rightarrow> jsval) \<Rightarrow> jsval \<Rightarrow> jsval \<Rightarrow> jsval \<Rightarrow> jsval" where
  "result_us src call obj path fallback =
     (if toPath path = [] then run_result call fallback obj
      else result_loop src call fallback obj (toPath path))"

section \<open>Iteratee shorthands\<close>

definition matcher :: "jsval \<Rightarrow> jsval \<Rightarrow> bool" where
  "matcher attrs = (let copy = the (extendOwn (Some []) [attrs]) in
     (\<lambda>obj. isMatch obj (VObj 0 ''Object'' copy)))"

definition property_us :: "(nat \<Rightarrow> string) \<Rightarrow> jsval \<Rightarrow> jsval \<Rightarrow> jsval" where
  "property_us src path = (let p = toPath path in (\<lambda>obj. deepGet src obj p))"

text \<open>
  \<open>baseIteratee\<close>: \<open>call a v k\<close> is what the function at address \<open>a\<close> returns for the element \<open>v\<close> with
  key \<open>k\<close>.
\<close>

definition baseIteratee ::
  "(nat \<Rightarrow> string) \<Rightarrow> (nat \<Rightarrow> jsval \<Rightarrow> jsval \<Rightarrow> jsval) \<Rightarrow> jsval \<Rightarrow> jsval \<Rightarrow> jsval \<Rightarrow> jsval" where
  "baseIteratee src call val =
     (if nullish val then (\<lambda>v k. v)
      else (case val of
              VFun a n \<Rightarrow> call a
            | _ \<Rightarrow> if isObject val \<and> \<not> isArray val then (\<lambda>v k. VBool (matcher val v))
                   else (\<lambda>v k. property_us src val v)))"

definition mapObject :: "(jsval \<Rightarrow> string \<Rightarrow> jsval) \<Rightarrow> jsval \<Rightarrow> (string, jsval) dict" where
  "mapObject it obj = fold (\<lambda>k. dict_set k (it (getProp obj k) k)) (keys_us obj) []"

definition propertyOf :: "(nat \<Rightarrow> string) \<Rightarrow> jsval \<Rightarrow> jsval \<Rightarrow> jsval" where
  "propertyOf src obj = (if nullish obj then (\<lambda>_. VUndef) else (\<lambda>path. get_us src obj path VUndef))"

fun findKey_loop :: "(jsval \<Rightarrow> string \<Rightarrow> bool) \<Rightarrow> jsval \<Rightarrow> string list \<Rightarrow> string option" where
  "findKey_loop p obj [] = None"
| "findKey_loop p obj (k # ks) = (if p (getProp obj k) k then Some k else findKey_loop p obj ks)"

definition findKey :: "jsval \<Rightarrow> (jsval \<Rightarrow> string \<Rightarrow> bool) \<Rightarrow> string option" where
  "findKey obj p = findKey_loop p obj (keys_us obj)"

section \<open>Pick and omit\<close>

text \<open>The choice of \<open>_.pick\<close> and \<open>_.omit\<close>: a function of value and key, or names in nested arrays.\<close>

datatype chooser = ByFun "jsval \<Rightarrow> string \<Rightarrow> bool" | ByKeys "jsval list"

definition pick_us :: "(nat \<Rightarrow> string) \<Rightarrow> jsval \<Rightarrow> chooser \<Rightarrow> (string, jsval) dict" where
  "pick_us src obj keys =
     (if nullish obj then []
      else (case keys of
              ByFun f \<Rightarrow>
                fold (\<lambda>key result. if f (getProp obj key) key then dict_set key (getProp obj key) result
                                   else result) (allKeys obj) []
            | ByKeys ks \<Rightarrow>
                fold (\<lambda>key result. if hasOwn obj key then dict_set key (getProp obj key) result
                                   else result) (map (to_string src) (flatten_us None False ks)) []))"

definition omit_us :: "(nat \<Rightarrow> string) \<Rightarrow> jsval \<Rightarrow> chooser \<Rightarrow> (string, jsval) dict" where
  "omit_us src obj keys =
     (case keys of
        ByFun f \<Rightarrow> pick_us src obj (ByFun (\<lambda>v k. \<not> f v k))
      | ByKeys ks \<Rightarrow>
          (let names = map (VStr \<circ> to_string src) (flatten_us None False ks) in
           pick_us src obj (ByFun (\<lambda>v k. \<not> contains names (VStr k)))))"

section \<open>Facts\<close>

text \<open>Well-formed objects have each property once.\<close>

fun obj_wf :: "jsval \<Rightarrow> bool" where
  "obj_wf (VObj a c ps) = dict_wf ps"
| "obj_wf _ = True"

lemma distinct_ownKeys: "obj_wf v \<Longrightarrow> distinct (ownKeys v)"
proof (cases v)
  case (VArr a xs)
  have "inj_on nat_str (set [0..<length xs])" by (auto intro: inj_onI simp: nat_str_inject)
  then show ?thesis by (simp add: VArr distinct_map)
qed (auto simp: dict_wf_def)

lemma ownKeys_imp_hasOwn: "k \<in> set (ownKeys v) \<Longrightarrow> hasOwn v k"
  by (cases v) (auto simp: hasOwn_def)

lemma map_of_assign_keys:
  "map_of (fold (assign_key False src) ks obj) k = (if k \<in> set ks then Some (getProp src k) else map_of obj k)"
  by (induction ks arbitrary: obj) (auto simp: assign_key_def)

text \<open>The value a property has in an object given by its properties.\<close>

definition prop_of :: "(string, jsval) dict \<Rightarrow> string \<Rightarrow> jsval" where
  "prop_of obj k = (case map_of obj k of Some v \<Rightarrow> v | None \<Rightarrow> VUndef)"

lemma prop_of_dict_set: "prop_of (dict_set k v obj) k' = (if k' = k then v else prop_of obj k')"
  by (simp add: prop_of_def)

lemma isUndefined_iff [simp]: "isUndefined v \<longleftrightarrow> v = VUndef"
  by (cases v) (auto simp: isUndefined_def is_nan_def)

lemma prop_of_assign_defaults:
  "distinct ks \<Longrightarrow> prop_of (fold (assign_key True src) ks obj) k
     = (if prop_of obj k = VUndef \<and> k \<in> set ks then getProp src k else prop_of obj k)"
proof (induction ks arbitrary: obj)
  case (Cons x ks)
  have step: "prop_of (assign_key True src x obj) k
     = (if prop_of obj k = VUndef \<and> k = x then getProp src k else prop_of obj k)" for k
    by (auto simp: assign_key_def prop_of_dict_set simp flip: prop_of_def)
  from Cons show ?case by (auto simp: step)
qed simp

lemma getProp_not_own: "k \<notin> set (ownKeys src) \<Longrightarrow> obj_wf src \<Longrightarrow> \<exists>a c ps. src = VObj a c ps \<Longrightarrow> getProp src k = VUndef"
  by (auto simp: map_of_eq_None_iff split: option.splits) (metis map_of_SomeD fst_conv image_eqI option.distinct(1))

text \<open>The first of the sources that gives a property a value other than \<open>undefined\<close>.\<close>

fun first_defined :: "jsval list \<Rightarrow> string \<Rightarrow> jsval" where
  "first_defined [] k = VUndef"
| "first_defined (s # ss) k = (if getProp s k = VUndef then first_defined ss k else getProp s k)"

abbreviation is_obj :: "jsval \<Rightarrow> bool" where
  "is_obj v \<equiv> obj_wf v \<and> (\<exists>a c ps. v = VObj a c ps)"

lemma obj_keys: "is_obj s \<Longrightarrow> allKeys s = ownKeys s" "is_obj s \<Longrightarrow> keys_us s = ownKeys s"
  by (auto simp: allKeys_def keys_us_def isObject_def)

lemma prop_of_defaults_fold:
  "list_all is_obj sources \<Longrightarrow>
     prop_of (fold (assign_source allKeys True) sources obj) k
       = (if prop_of obj k = VUndef then first_defined sources k else prop_of obj k)"
proof (induction sources arbitrary: obj)
  case (Cons s ss)
  have "prop_of (assign_source allKeys True s obj) k
      = (if prop_of obj k = VUndef then getProp s k else prop_of obj k)" for k
    using Cons.prems distinct_ownKeys [of s] getProp_not_own [of k s]
    by (auto simp: assign_source_def prop_of_assign_defaults obj_keys)
  then show ?case using Cons by auto
qed simp

text \<open>The last of the sources that has the property.\<close>

fun last_own :: "jsval list \<Rightarrow> string \<Rightarrow> jsval option" where
  "last_own [] k = None"
| "last_own (s # ss) k =
     (case last_own ss k of Some v \<Rightarrow> Some v
      | None \<Rightarrow> if k \<in> set (ownKeys s) then Some (getProp s k) else None)"

lemma map_of_extend_fold:
  "list_all is_obj sources \<Longrightarrow>
     map_of (fold (assign_source allKeys False) sources obj) k
       = (case last_own sources k of Some v \<Rightarrow> Some v | None \<Rightarrow> map_of obj k)"
  by (induction sources arbitrary: obj)
     (auto simp: assign_source_def map_of_assign_keys obj_keys split: option.splits)

text \<open>On objects, \<open>_.extend\<close> gives every property the value of the last source that has it and keeps
  the others, while \<open>_.defaults\<close> keeps every property that is not \<open>undefined\<close> and fills the others
  from the first source that defines them.\<close>

theorem extend_defaults_precedence:
  assumes "list_all is_obj sources"
  shows "\<exists>e d. extend_us (Some obj) sources = Some e \<and> defaults_us (Some obj) sources = Some d
    \<and> (\<forall>k. map_of e k = (case last_own sources k of Some v \<Rightarrow> Some v | None \<Rightarrow> map_of obj k))
    \<and> (\<forall>k. prop_of d k = (if prop_of obj k = VUndef then first_defined sources k else prop_of obj k))"
  using map_of_extend_fold [OF assms] prop_of_defaults_fold [OF assms]
  by (cases sources) (auto simp: extend_us_def defaults_us_def createAssigner_def)

theorem extend_defaults_precedence_witness:
  "\<exists>e d. extend_us (Some [(''a'', VInt 1)]) [VObj 1 ''Object'' [(''a'', VInt 2), (''b'', VInt 3)]] = Some e
     \<and> defaults_us (Some [(''a'', VInt 1)]) [VObj 1 ''Object'' [(''a'', VInt 2), (''b'', VInt 3)]] = Some d
     \<and> map_of e ''a'' = Some (VInt 2) \<and> prop_of d ''a'' = VInt 1 \<and> prop_of d ''b'' = VInt 3"
  using extend_defaults_precedence [of "[VObj 1 ''Object'' [(''a'', VInt 2), (''b'', VInt 3)]]" "[(''a'', VInt 1)]"]
  by (force simp: dict_wf_def prop_of_def)

lemma map_of_pick_fold:
  "map_of (fold (\<lambda>key result. if P key then dict_set key (g key) result else result) ks acc) k
     = (if k \<in> set ks \<and> P k then Some (g k) else map_of acc k)"
  by (induction ks arbitrary: acc) auto

text \<open>The names a list of keys in nested arrays stands for.\<close>

definition named :: "(nat \<Rightarrow> string) \<Rightarrow> jsval list \<Rightarrow> string set" where
  "named src ks = to_string src ` set (flatten_us None False ks)"

lemma contains_names: "contains (map (VStr \<circ> f) xs) (VStr k) \<longleftrightarrow> k \<in> f ` set xs"
  by (auto simp: contains_iff same_value_def is_nan_def)

lemma obj_prop: "is_obj v \<Longrightarrow> map_of (pairs_us v) k = (if hasOwn v k then Some (getProp v k) else None)"
  by (auto simp: pairs_us_def map_of_map_restrict obj_keys hasOwn_def restrict_map_def)

lemma map_of_pick_keys:
  "is_obj v \<Longrightarrow> map_of (pick_us src v (ByKeys ks)) k
     = (if k \<in> named src ks \<and> hasOwn v k then Some (getProp v k) else None)"
  by (auto simp: pick_us_def map_of_pick_fold named_def nullish_def)

lemma map_of_omit_keys:
  "is_obj v \<Longrightarrow> map_of (omit_us src v (ByKeys ks)) k
     = (if k \<notin> named src ks \<and> hasOwn v k then Some (getProp v k) else None)"
  unfolding omit_us_def chooser.case Let_def pick_us_def contains_names
  by (auto simp: map_of_pick_fold named_def nullish_def obj_keys hasOwn_def)

text \<open>\<open>_.pick\<close> and \<open>_.omit\<close> with the same names split an object: the picked properties are the own
  properties among the names, the others are kept by \<open>_.omit\<close>, and together they give back the
  object's \<open>_.pairs\<close>.\<close>

theorem pick_omit_partition:
  assumes "is_obj obj"
  shows "map_of (pick_us src obj (ByKeys ks)) = map_of (pairs_us obj) |` named src ks
    \<and> map_of (omit_us src obj (ByKeys ks)) = map_of (pairs_us obj) |` (- named src ks)
    \<and> map_of (pick_us src obj (ByKeys ks)) ++ map_of (omit_us src obj (ByKeys ks)) = map_of (pairs_us obj)"
  unfolding fun_eq_iff map_add_def restrict_map_def
  by (simp add: map_of_pick_keys [OF assms] map_of_omit_keys [OF assms] obj_prop [OF assms])

theorem pick_omit_partition_witness:
  "map_of (pick_us (\<lambda>_. []) (VObj 0 ''Object'' [(''a'', VInt 1), (''b'', VInt 2)]) (ByKeys [VStr ''b'']))
     = map_of (pairs_us (VObj 0 ''Object'' [(''a'', VInt 1), (''b'', VInt 2)])) |` named (\<lambda>_. []) [VStr ''b'']"
  using pick_omit_partition [of "VObj 0 ''Object'' [(''a'', VInt 1), (''b'', VInt 2)]" "\<lambda>_. []" "[VStr ''b'']"]
  by (simp add: dict_wf_def)

lemma dict_set_fresh: "\<not> dict_has m k \<Longrightarrow> dict_set k v m = m @ [(k, v)]"
  by (induction m) (auto simp: dict_has_def)

lemma object_pairs_id: "dict_wf ps \<Longrightarrow> object_pairs ps = ps"
proof -
  have "dict_wf (acc @ ps) \<Longrightarrow> fold (\<lambda>(k, v). dict_set k v) ps acc = acc @ ps" for acc :: "(string, jsval) dict"
  proof (induction ps arbitrary: acc)
    case (Cons p ps)
    then have "\<not> dict_has acc (fst p)" by (auto simp: dict_wf_def dict_has_def)
    with Cons show ?case by (cases p) (simp add: dict_set_fresh)
  qed simp
  then show "dict_wf ps \<Longrightarrow> object_pairs ps = ps" by (simp add: object_pairs_def)
qed

lemma pairs_obj: "dict_wf ps \<Longrightarrow> pairs_us (VObj a c ps) = ps"
  by (auto simp: pairs_us_def keys_us_def isObject_def dict_wf_def o_def intro!: map_idI)

lemma object_of_pairs: "dict_wf ps \<Longrightarrow> object_pairs (pairs_us (VObj a c ps)) = ps"
  by (simp add: pairs_obj object_pairs_id)

end
