(* ===== verification/UnderscoreCollections.thy ===== *)
theory UnderscoreCollections
  imports Complex_Main UnderscoreObjects JsSort
begin

text \<open>
  The collection functions of \<open>docs/_static/underscore-1.13.1.js\<close>.  A collection is a value that is
  iterated by index if it is array-like and by key otherwise; callbacks are functions of value, key
  and a state they may change, and do not modify the collection itself.
\<close>

section \<open>Iteration\<close>

definition length_of :: "jsval \<Rightarrow> nat" where
  "length_of obj = (case getLength obj of VNum (Fin n) \<Rightarrow> nat n | _ \<Rightarrow> 0)"

text \<open>The keys and values in the order of iteration.\<close>

definition entries :: "jsval \<Rightarrow> (jsval \<times> jsval) list" where
  "entries obj =
     (if isArrayLike obj then map (\<lambda>i. (VInt (int i), getProp obj (nat_str i))) [0..<length_of obj]
      else map (\<lambda>k. (VStr k, getProp obj k)) (keys_us obj))"

definition each_us :: "(jsval \<Rightarrow> jsval \<Rightarrow> 's \<Rightarrow> 's) \<Rightarrow> jsval \<Rightarrow> 's \<Rightarrow> 's" where
  "each_us it obj s = fold (\<lambda>(k, v). it v k) (entries obj) s"

fun map_loop :: "(jsval \<Rightarrow> jsval \<Rightarrow> 's \<Rightarrow> 'r \<times> 's) \<Rightarrow> (jsval \<times> jsval) list \<Rightarrow> 's \<Rightarrow> 'r list \<times> 's" where
  "map_loop it [] s = ([], s)"
| "map_loop it ((k, v) # es) s =
     (let (r, s') = it v k s; (rs, s'') = map_loop it es s' in (r # rs, s''))"

definition map_us :: "(jsval \<Rightarrow> jsval \<Rightarrow> 's \<Rightarrow> 'r \<times> 's) \<Rightarrow> jsval \<Rightarrow> 's \<Rightarrow> 'r list \<times> 's" where
  "map_us it obj s = map_loop it (entries obj) s"

text \<open>
  \<open>createReduce\<close>: without an initial value the first entry in the direction is the start, which reads
  a property of the collection and so raises on \<open>null\<close> and \<open>undefined\<close>.
\<close>

definition reduce_loop ::
  "(jsval \<Rightarrow> jsval \<Rightarrow> jsval \<Rightarrow> 's \<Rightarrow> jsval \<times> 's) \<Rightarrow> (jsval \<times> jsval) list \<Rightarrow> jsval \<times> 's \<Rightarrow> jsval \<times> 's" where
  "reduce_loop it = fold (\<lambda>(k, v) (memo, s). it memo v k s)"

definition createReduce ::
  "int \<Rightarrow> (jsval \<Rightarrow> jsval \<Rightarrow> jsval \<Rightarrow> 's \<Rightarrow> jsval \<times> 's) \<Rightarrow> jsval \<Rightarrow> jsval option \<Rightarrow> 's \<Rightarrow> js_error + jsval \<times> 's" where
  "createReduce dir it obj memo s =
     (let es = (if dir > 0 then entries obj else rev (entries obj)) in
      case memo of
        Some m \<Rightarrow> Inr (reduce_loop it es (m, s))
      | None \<Rightarrow>
          if nullish obj then Inl TypeError
          else (case es of
                  [] \<Rightarrow> Inr (VUndef, s)
                | (k, v) # es' \<Rightarrow> Inr (reduce_loop it es' (v, s))))"

definition reduce_us ::
  "(jsval \<Rightarrow> jsval \<Rightarrow> jsval \<Rightarrow> 's \<Rightarrow> jsval \<times> 's) \<Rightarrow> jsval \<Rightarrow> jsval option \<Rightarrow> 's \<Rightarrow> js_error + jsval \<times> 's" where
  "reduce_us = createReduce 1"

definition reduceRight ::
  "(jsval \<Rightarrow> jsval \<Rightarrow> jsval \<Rightarrow> 's \<Rightarrow> jsval \<times> 's) \<Rightarrow> jsval \<Rightarrow> jsval option \<Rightarrow> 's \<Rightarrow> js_error + jsval \<times> 's" where
  "reduceRight = createReduce (- 1)"

section \<open>Tests on elements\<close>

definition filter_us :: "(jsval \<Rightarrow> jsval \<Rightarrow> 's \<Rightarrow> bool \<times> 's) \<Rightarrow> jsval \<Rightarrow> 's \<Rightarrow> jsval list \<times> 's" where
  "filter_us p obj s =
     each_us (\<lambda>v k (results, s). let (b, s') = p v k s in (if b then results @ [v] else results, s')) obj ([], s)"

definition negate_us :: "(jsval \<Rightarrow> jsval \<Rightarrow> 's \<Rightarrow> bool \<times> 's) \<Rightarrow> jsval \<Rightarrow> jsval \<Rightarrow> 's \<Rightarrow> bool \<times> 's" where
  "negate_us p v k s = (let (b, s') = p v k s in (\<not> b, s'))"

definition reject_us :: "(jsval \<Rightarrow> jsval \<Rightarrow> 's \<Rightarrow> bool \<times> 's) \<Rightarrow> jsval \<Rightarrow> 's \<Rightarrow> jsval list \<times> 's" where
  "reject_us p obj s = filter_us (negate_us p) obj s"

fun every_loop :: "(jsval \<Rightarrow> jsval \<Rightarrow> 's \<Rightarrow> bool \<times> 's) \<Rightarrow> (jsval \<times> jsval) list \<Rightarrow> 's \<Rightarrow> bool \<times> 's" where
  "every_loop p [] s = (True, s)"
| "every_loop p ((k, v) # es) s = (let (b, s') = p v k s in if \<not> b then (False, s') else every_loop p es s')"

definition every_us :: "(jsval \<Rightarrow> jsval \<Rightarrow> 's \<Rightarrow> bool \<times> 's) \<Rightarrow> jsval \<Rightarrow> 's \<Rightarrow> bool \<times> 's" where
  "every_us p obj s = every_loop p (entries obj) s"

fun some_loop :: "(jsval \<Rightarrow> jsval \<Rightarrow> 's \<Rightarrow> bool \<times> 's) \<Rightarrow> (jsval \<times> jsval) list \<Rightarrow> 's \<Rightarrow> bool \<times> 's" where
  "some_loop p [] s = (False, s)"
| "some_loop p ((k, v) # es) s = (let (b, s') = p v k s in if b then (True, s') else some_loop p es s')"

definition some_us :: "(jsval \<Rightarrow> jsval \<Rightarrow> 's \<Rightarrow> bool \<times> 's) \<Rightarrow> jsval \<Rightarrow> 's \<Rightarrow> bool \<times> 's" where
  "some_us p obj s = some_loop p (entries obj) s"

definition find_us :: "(jsval \<Rightarrow> jsval \<Rightarrow> bool) \<Rightarrow> jsval \<Rightarrow> jsval" where
  "find_us p obj =
     (if isArrayLike obj then
        (let key = findIndex (map snd (entries obj)) (\<lambda>v i. p v (VInt i)) in
         if key \<noteq> - 1 then getProp obj (nat_str (nat key)) else VUndef)
      else (case findKey obj (\<lambda>v k. p v (VStr k)) of
              Some key \<Rightarrow> getProp obj key
            | None \<Rightarrow> VUndef))"

definition findWhere :: "jsval \<Rightarrow> jsval \<Rightarrow> jsval" where
  "findWhere obj attrs = find_us (\<lambda>v k. matcher attrs v) obj"

definition contains_us :: "jsval \<Rightarrow> jsval \<Rightarrow> index_arg \<Rightarrow> bool \<Rightarrow> bool" where
  "contains_us obj item fromIndex guard =
     contains_from (if \<not> isArrayLike obj then values_us obj else map snd (entries obj)) item fromIndex guard"

section \<open>Projections\<close>

text \<open>
  \<open>_.invoke\<close>: \<open>call a this args\<close> is what the function at address \<open>a\<close> returns; calling any other value
  raises.
\<close>

definition invoke_one ::
  "(nat \<Rightarrow> string) \<Rightarrow> (nat \<Rightarrow> jsval \<Rightarrow> jsval list \<Rightarrow> jsval) \<Rightarrow> jsval \<Rightarrow> jsval list \<Rightarrow> jsval \<Rightarrow> js_error + jsval" where
  "invoke_one src call path args context =
     (let (context', method) =
        (if isFunction path then (context, Some path)
         else (let p = toPath path;
                   contextPath = slice p 0 (Some (- 1));
                   c = (if contextPath \<noteq> [] then deepGet src context contextPath else context) in
               if nullish c then (c, None)
               else (c, Some (getProp c (to_string src (elem_at p (int (length p) - 1))))))) in
      case method of
        None \<Rightarrow> Inr VUndef
      | Some m \<Rightarrow>
          if nullish m then Inr m
          else (case m of VFun a n \<Rightarrow> Inr (call a context' args) | _ \<Rightarrow> Inl TypeError))"

definition invoke_us ::
  "(nat \<Rightarrow> string) \<Rightarrow> (nat \<Rightarrow> jsval \<Rightarrow> jsval list \<Rightarrow> jsval) \<Rightarrow> jsval \<Rightarrow> jsval \<Rightarrow> jsval list \<Rightarrow> js_error + jsval list" where
  "invoke_us src call obj path args =
     mapM_err (invoke_one src call path args) (map snd (entries obj))"

definition pluck_us :: "(nat \<Rightarrow> string) \<Rightarrow> jsval \<Rightarrow> jsval \<Rightarrow> jsval list" where
  "pluck_us src obj key = fst (map_us (\<lambda>v k s. (property_us src key v, s)) obj ())"

definition where_us :: "jsval \<Rightarrow> jsval \<Rightarrow> jsval list" where
  "where_us obj attrs = fst (filter_us (\<lambda>v k s. (matcher attrs v, s)) obj ())"

text \<open>\<open>_.max\<close> and \<open>_.min\<close>: of numbers, and of values with a number computed for each.\<close>

definition max_plain :: "jsnum list \<Rightarrow> jsnum" where
  "max_plain obj = fold (\<lambda>v res. if num_lt res v then v else res) obj NInf"

definition max_by :: "(jsval \<Rightarrow> jsval \<Rightarrow> jsnum) \<Rightarrow> jsval \<Rightarrow> jsval" where
  "max_by it obj =
     fst (each_us (\<lambda>v k (res, lastComputed).
       let computed = it v k in
       if num_lt lastComputed computed \<or> computed = NInf \<and> strict_eq res (VNum NInf) then (v, computed)
       else (res, lastComputed)) obj (VNum NInf, NInf))"

definition min_plain :: "jsnum list \<Rightarrow> jsnum" where
  "min_plain obj = fold (\<lambda>v res. if num_lt v res then v else res) obj PInf"

definition min_by :: "(jsval \<Rightarrow> jsval \<Rightarrow> jsnum) \<Rightarrow> jsval \<Rightarrow> jsval" where
  "min_by it obj =
     fst (each_us (\<lambda>v k (res, lastComputed).
       let computed = it v k in
       if num_lt computed lastComputed \<or> computed = PInf \<and> strict_eq res (VNum PInf) then (v, computed)
       else (res, lastComputed)) obj (VNum PInf, PInf))"

section \<open>Random choice\<close>

text \<open>\<open>_.random\<close>, given the value \<open>r\<close> of \<open>Math.random()\<close>.\<close>

definition random_us :: "rat \<Rightarrow> int \<Rightarrow> int option \<Rightarrow> int" where
  "random_us r lo hi =
     (let (lo', hi') = (case hi of None \<Rightarrow> (0, lo) | Some h \<Rightarrow> (lo, h)) in
      lo' + \<lfloor>r * of_int (hi' - lo' + 1)\<rfloor>)"

datatype count = NoCount | Count int | Infinity

definition swap_random :: "(nat \<Rightarrow> rat) \<Rightarrow> nat \<Rightarrow> jsval list \<Rightarrow> jsval list" where
  "swap_random r index xs =
     (let rand = nat (random_us (r index) (int index) (Some (int (length xs) - 1))) in
      xs [index := xs ! rand, rand := xs ! index])"

text \<open>\<open>_.sample\<close> of the values of a collection; \<open>r k\<close> is the \<open>k\<close>-th value of \<open>Math.random()\<close>.\<close>

definition sample_us :: "(nat \<Rightarrow> rat) \<Rightarrow> jsval list \<Rightarrow> count \<Rightarrow> bool \<Rightarrow> jsval some_of" where
  "sample_us r xs n guard =
     (if n = NoCount \<or> guard then One (elem_at xs (random_us (r 0) (int (length xs) - 1) None))
      else (let m = nat (max (case n of Count k \<Rightarrow> min k (int (length xs)) | _ \<Rightarrow> int (length xs)) 0) in
            Many (slice (fold (swap_random r) [0..<m] xs) 0 (Some (int m)))))"

definition shuffle_us :: "(nat \<Rightarrow> rat) \<Rightarrow> jsval list \<Rightarrow> jsval some_of" where
  "shuffle_us r xs = sample_us r xs Infinity False"

section \<open>Sorting and grouping\<close>

text \<open>\<open>_.sortBy\<close> with criteria of one ordered type; \<open>None\<close> is \<open>undefined\<close>.\<close>

record 'c criterion =
  c_value :: jsval
  c_index :: nat
  c_criteria :: "'c option"

definition compare_criteria :: "('c :: linorder) criterion \<Rightarrow> 'c criterion \<Rightarrow> int" where
  "compare_criteria left right =
     (let a = c_criteria left; b = c_criteria right;
          by_index = int (c_index left) - int (c_index right) in
      if a \<noteq> b then
        (case (a, b) of
           (None, _) \<Rightarrow> 1
         | (Some x, None) \<Rightarrow> - 1
         | (Some x, Some y) \<Rightarrow> if x > y then 1 else if x < y then - 1 else by_index)
      else by_index)"

definition sortBy :: "(jsval \<Rightarrow> jsval \<Rightarrow> ('c :: linorder) option) \<Rightarrow> jsval \<Rightarrow> jsval list" where
  "sortBy it obj =
     map c_value (sort_js compare_criteria
       (fst (map_us (\<lambda>v k index. (\<lparr>c_value = v, c_index = index, c_criteria = it v k\<rparr>, index + 1)) obj 0)))"

definition group_us :: "('r \<Rightarrow> jsval \<Rightarrow> jsval \<Rightarrow> 'r) \<Rightarrow> 'r \<Rightarrow> (jsval \<Rightarrow> jsval \<Rightarrow> jsval) \<Rightarrow> jsval \<Rightarrow> 'r" where
  "group_us behavior init it obj = each_us (\<lambda>v k result. behavior result v (it v k)) obj init"

definition groupBy :: "(nat \<Rightarrow> string) \<Rightarrow> (jsval \<Rightarrow> jsval \<Rightarrow> jsval) \<Rightarrow> jsval \<Rightarrow> (string, jsval list) dict" where
  "groupBy src = group_us (\<lambda>result v key.
     let k = to_string src key in
     case map_of result k of Some vs \<Rightarrow> dict_set k (vs @ [v]) result | None \<Rightarrow> dict_set k [v] result) []"

definition indexBy :: "(nat \<Rightarrow> string) \<Rightarrow> (jsval \<Rightarrow> jsval \<Rightarrow> jsval) \<Rightarrow> jsval \<Rightarrow> (string, jsval) dict" where
  "indexBy src = group_us (\<lambda>result v key. dict_set (to_string src key) v result) []"

definition countBy :: "(nat \<Rightarrow> string) \<Rightarrow> (jsval \<Rightarrow> jsval \<Rightarrow> jsval) \<Rightarrow> jsval \<Rightarrow> (string, nat) dict" where
  "countBy src = group_us (\<lambda>result v key.
     let k = to_string src key in
     case map_of result k of Some n \<Rightarrow> dict_set k (n + 1) result | None \<Rightarrow> dict_set k 1 result) []"

definition partition_us :: "(jsval \<Rightarrow> jsval \<Rightarrow> jsval) \<Rightarrow> jsval \<Rightarrow> jsval list \<times> jsval list" where
  "partition_us = group_us (\<lambda>(yes, no) v pass. if truthy pass then (yes @ [v], no) else (yes, no @ [v])) ([], [])"

section \<open>Conversions\<close>

definition toArray :: "jsval \<Rightarrow> jsval list" where
  "toArray obj =
     (if \<not> truthy obj then []
      else (case obj of
              VArr a xs \<Rightarrow> slice xs 0 None
            | VStr s \<Rightarrow> map (\<lambda>c. VStr [c]) s
            | _ \<Rightarrow> if isArrayLike obj then fst (map_us (\<lambda>v k s. (v, s)) obj ()) else values_us obj))"

definition size_us :: "jsval \<Rightarrow> nat" where
  "size_us obj = (if nullish obj then 0 else if isArrayLike obj then length_of obj else length (keys_us obj))"

fun times_loop :: "(int \<Rightarrow> 's \<Rightarrow> 'r \<times> 's) \<Rightarrow> int \<Rightarrow> nat \<Rightarrow> 's \<Rightarrow> 'r list \<times> 's" where
  "times_loop it i 0 s = ([], s)"
| "times_loop it i (Suc n) s = (let (r, s') = it i s; (rs, s'') = times_loop it (i + 1) n s' in (r # rs, s''))"

definition times_us :: "int \<Rightarrow> (int \<Rightarrow> 's \<Rightarrow> 'r \<times> 's) \<Rightarrow> 's \<Rightarrow> 'r list \<times> 's" where
  "times_us n it s = times_loop it 0 (nat n) s"

section \<open>Sorting: facts\<close>

lemma compare_criteria_le:
  "compare_criteria x y \<le> 0 \<longleftrightarrow>
     (case (c_criteria x, c_criteria y) of
        (None, None) \<Rightarrow> c_index x \<le> c_index y
      | (None, Some _) \<Rightarrow> False
      | (Some _, None) \<Rightarrow> True
      | (Some a, Some b) \<Rightarrow> a < b \<or> a = b \<and> c_index x \<le> c_index y)"
  by (auto simp: compare_criteria_def Let_def split: option.splits)

interpretation criteria_order: comparator compare_criteria
proof
  fix x y z :: "('c :: linorder) criterion"
  show "compare_criteria x y \<le> 0 \<or> compare_criteria y x \<le> 0"
    by (auto simp: compare_criteria_le split: option.splits)
  show "compare_criteria x y \<le> 0 \<Longrightarrow> compare_criteria y z \<le> 0 \<Longrightarrow> compare_criteria x z \<le> 0"
    by (auto simp: compare_criteria_le split: option.splits)
qed

lemma map_insort_key: "map g (insort_key (\<lambda>x. f (g x)) x xs) = insort_key f (g x) (map g xs)"
  by (induction xs) auto

lemma map_sort_key: "map g (sort_key (\<lambda>x. f (g x)) xs) = sort_key f (map g xs)"
  by (induction xs) (auto simp: map_insort_key)

lemma sort_insert_defined:
  assumes "c_criteria x = Some a" "\<And>y. y \<in> set A \<Longrightarrow> c_criteria y \<noteq> None \<and> c_index x < c_index y"
    "\<And>y. y \<in> set U \<Longrightarrow> c_criteria y = None"
  shows "sort_insert compare_criteria x (A @ U) = insort_key (\<lambda>c. the (c_criteria c)) x A @ U"
  using assms(2,3)
proof (induction A)
  case Nil
  then show ?case using assms(1) by (cases U) (auto simp: compare_criteria_le)
next
  case (Cons y A)
  then obtain b where b: "c_criteria y = Some b" "c_index x < c_index y" by auto
  then have "compare_criteria x y \<le> 0 \<longleftrightarrow> a \<le> b" using assms(1) by (auto simp: compare_criteria_le)
  then show ?case using Cons b assms(1) by auto
qed

lemma sort_insert_undefined:
  assumes "c_criteria x = None" "\<And>y. y \<in> set A \<Longrightarrow> c_criteria y \<noteq> None"
    "\<And>y. y \<in> set U \<Longrightarrow> c_criteria y = None \<and> c_index x < c_index y"
  shows "sort_insert compare_criteria x (A @ U) = A @ x # U"
  using assms(2,3)
proof (induction A)
  case Nil
  then show ?case using assms(1) by (cases U) (force simp: compare_criteria_le less_imp_le)+
next
  case (Cons y A)
  then obtain b where "c_criteria y = Some b" by auto
  then have "\<not> compare_criteria x y \<le> 0" using assms(1) by (simp add: compare_criteria_le)
  then show ?case using Cons by simp
qed

lemma sort_js_criteria:
  "sorted_wrt (\<lambda>x y. c_index x < c_index y) cs \<Longrightarrow>
     sort_js compare_criteria cs
       = sort_key (\<lambda>c. the (c_criteria c)) (filter (\<lambda>c. c_criteria c \<noteq> None) cs) @ filter (\<lambda>c. c_criteria c = None) cs"
proof (induction cs)
  case (Cons c cs)
  then have IH: "foldr (sort_insert compare_criteria) cs []
      = sort_key (\<lambda>c. the (c_criteria c)) (filter (\<lambda>c. c_criteria c \<noteq> None) cs) @ filter (\<lambda>c. c_criteria c = None) cs"
    by (simp add: sort_js_def)
  let ?A = "sort_key (\<lambda>c. the (c_criteria c)) (filter (\<lambda>c. c_criteria c \<noteq> None) cs)"
  let ?U = "filter (\<lambda>c. c_criteria c = None) cs"
  show ?case
  proof (cases "c_criteria c")
    case None
    have "sort_insert compare_criteria c (?A @ ?U) = ?A @ c # ?U"
      using Cons.prems by (intro sort_insert_undefined [OF None]) auto
    then show ?thesis using None by (simp add: sort_js_def IH)
  next
    case (Some a)
    have "sort_insert compare_criteria c (?A @ ?U) = insort_key (\<lambda>c. the (c_criteria c)) c ?A @ ?U"
      using Cons.prems by (intro sort_insert_defined [OF Some]) auto
    then show ?thesis using Some by (simp add: sort_js_def IH)
  qed
qed (simp add: sort_js_def)

lemma map_us_criteria:
  "fst (map_loop (\<lambda>v k index. (\<lparr>c_value = v, c_index = index, c_criteria = it v k\<rparr>, index + 1)) es n)
     = map (\<lambda>(i, k, v). \<lparr>c_value = v, c_index = i, c_criteria = it v k\<rparr>) (enumerate n es)"
proof (induction es arbitrary: n)
  case (Cons e es)
  then show ?case by (cases e) (simp add: Let_def case_prod_beta)
qed simp

text \<open>\<open>_.sortBy\<close> is a stable sort with undefined criteria last: it returns the values with a defined
  criterion in the order of the library's stable sort by that criterion, followed by the others in
  the order of the collection.\<close>

theorem sortBy_stable:
  fixes it :: "jsval \<Rightarrow> jsval \<Rightarrow> ('c :: linorder) option"
  shows "sortBy it obj
    = map snd (sort_key (\<lambda>(k, v). the (it v k)) (filter (\<lambda>(k, v). it v k \<noteq> None) (entries obj)))
      @ map snd (filter (\<lambda>(k, v). it v k = None) (entries obj))"
proof -
  define es where "es = entries obj"
  define mk where "mk = (\<lambda>(i :: nat, k, v). \<lparr>c_value = v, c_index = i, c_criteria = it v k\<rparr>)"
  define L where "L = enumerate 0 es"
  have mk: "c_value (mk p) = snd (snd p)" "c_criteria (mk p) = it (snd (snd p)) (fst (snd p))" for p
    by (cases p, simp add: mk_def)+
  have idx: "map (\<lambda>p. c_index (mk p)) (enumerate n es) = [n..<n + length es]" for n
    by (simp add: mk_def case_prod_unfold enumerate_eq_zip)
  have "sorted_wrt (<) (map (\<lambda>p. c_index (mk p)) L)" unfolding L_def idx by simp
  then have "sorted_wrt (\<lambda>x y. c_index x < c_index y) (map mk L)"
    by (simp add: sorted_wrt_map)
  note sorted = sort_js_criteria [OF this]
  have "sortBy it obj = map c_value (sort_js compare_criteria (map mk L))"
    unfolding sortBy_def map_us_def map_us_criteria L_def es_def mk_def ..
  also have "\<dots> = map c_value (sort_key (\<lambda>c. the (c_criteria c)) (map mk (filter (\<lambda>(i, k, v). it v k \<noteq> None) L)))
      @ map c_value (map mk (filter (\<lambda>(i, k, v). it v k = None) L))"
    unfolding sorted by (simp add: filter_map o_def mk case_prod_unfold)
  also have "\<dots> = map snd (map snd (sort_key (\<lambda>p. (\<lambda>(k, v). the (it v k)) (snd p)) (filter (\<lambda>p. (\<lambda>(k, v). it v k \<noteq> None) (snd p)) L)))
      @ map snd (map snd (filter (\<lambda>p. (\<lambda>(k, v). it v k = None) (snd p)) L))"
    using map_sort_key [of mk "\<lambda>c. the (c_criteria c)"]
    by (simp add: mk case_prod_unfold flip: map_sort_key)
  finally have *: "sortBy it obj = \<dots>" .
  have filt: "map snd (filter (\<lambda>p. P (snd p)) L) = filter P es" for P
    using filter_map [of P snd L] by (simp add: L_def o_def)
  show ?thesis unfolding * map_sort_key filt es_def ..
qed

section \<open>Random choice: facts\<close>

lemma random_us_bounds:
  assumes "0 \<le> r" "r < 1" "lo \<le> hi"
  shows "lo \<le> random_us r lo (Some hi) \<and> random_us r lo (Some hi) \<le> hi"
proof -
  have "0 \<le> r * of_int (hi - lo + 1)" using assms by (intro mult_nonneg_nonneg) auto
  moreover have "r * of_int (hi - lo + 1) < of_int (hi - lo + 1)" using assms by simp
  ultimately show ?thesis by (simp add: random_us_def) linarith
qed

lemma swap_random_mset:
  assumes "0 \<le> r i" "r i < 1" "i < length xs"
  shows "mset (swap_random r i xs) = mset xs \<and> length (swap_random r i xs) = length xs"
proof -
  have "int i \<le> random_us (r i) (int i) (Some (int (length xs) - 1))
      \<and> random_us (r i) (int i) (Some (int (length xs) - 1)) \<le> int (length xs) - 1"
    using assms by (intro random_us_bounds) auto
  then have "nat (random_us (r i) (int i) (Some (int (length xs) - 1))) < length xs" by linarith
  then show ?thesis using assms(3) mset_swap [of _ xs i] by (simp add: swap_random_def Let_def)
qed

lemma swap_all_mset:
  assumes "\<And>k. 0 \<le> r k \<and> r k < 1" "m \<le> length xs"
  shows "mset (fold (swap_random r) [0..<m] xs) = mset xs \<and> length (fold (swap_random r) [0..<m] xs) = length xs"
  using assms(2)
proof (induction m)
  case (Suc m)
  then show ?case using swap_random_mset [of r m "fold (swap_random r) [0..<m] xs"] assms(1) by simp
qed simp

text \<open>For values of \<open>Math.random()\<close> in the half-open unit interval, \<open>_.shuffle\<close> returns a permutation
  of the values and \<open>_.sample(n)\<close> a sub-multiset of them with \<open>n\<close> elements, clipped to the size of the
  collection.\<close>

theorem shuffle_permutation:
  assumes "\<And>k. 0 \<le> r k \<and> r k < 1"
  shows "(\<exists>ys. shuffle_us r xs = Many ys \<and> mset ys = mset xs)
    \<and> (\<exists>ys. sample_us r xs (Count n) False = Many ys \<and> mset ys \<subseteq># mset xs
             \<and> length ys = nat (max (min n (int (length xs))) 0))"
proof
  have all: "mset (fold (swap_random r) [0..<length xs] xs) = mset xs"
    "length (fold (swap_random r) [0..<length xs] xs) = length xs"
    using swap_all_mset [of r "length xs" xs] assms by auto
  then show "\<exists>ys. shuffle_us r xs = Many ys \<and> mset ys = mset xs"
    using slice_all [of "fold (swap_random r) [0..<length xs] xs"]
    by (simp add: shuffle_us_def sample_us_def)
  define m where "m = nat (max (min n (int (length xs))) 0)"
  define zs where "zs = fold (swap_random r) [0..<m] xs"
  have m: "m \<le> length xs" by (auto simp: m_def)
  have zs: "mset zs = mset xs" "length zs = length xs" using swap_all_mset [of r m xs] assms m by (auto simp: zs_def)
  have "sample_us r xs (Count n) False = Many (take m zs)"
    using slice_nat [of zs 0 m] by (simp add: sample_us_def Let_def m_def zs_def)
  moreover have "mset (take m zs) \<subseteq># mset xs"
    using zs(1) append_take_drop_id [of m zs] by (metis mset_append mset_subset_eq_add_left)
  ultimately show "\<exists>ys. sample_us r xs (Count n) False = Many ys \<and> mset ys \<subseteq># mset xs
      \<and> length ys = nat (max (min n (int (length xs))) 0)"
    using m zs(2) by (auto simp: m_def)
qed

theorem shuffle_permutation_witness:
  "\<exists>ys. shuffle_us (\<lambda>_. 1 / 2) [VInt 1, VInt 2, VInt 3] = Many ys \<and> mset ys = mset [VInt 1, VInt 2, VInt 3]"
proof -
  have "0 \<le> (1 / 2 :: rat) \<and> (1 / 2 :: rat) < 1" by simp
  then show ?thesis using shuffle_permutation [of "\<lambda>_. 1 / 2" "[VInt 1, VInt 2, VInt 3]" 0] by blast
qed

section \<open>Grouping: facts\<close>

definition values_with :: "(nat \<Rightarrow> string) \<Rightarrow> (jsval \<Rightarrow> jsval \<Rightarrow> jsval) \<Rightarrow> string \<Rightarrow> (jsval \<times> jsval) list \<Rightarrow> jsval list" where
  "values_with src it g es = map snd (filter (\<lambda>(k, v). to_string src (it v k) = g) es)"

text \<open>A loop that updates the entry of a key by its old value is one loop per key.\<close>

lemma keyed_fold:
  "map_of (fold (\<lambda>e r. dict_set (f e) (h e (map_of r (f e))) r) es acc) g
     = fold (\<lambda>e old. Some (h e old)) (filter (\<lambda>e. f e = g) es) (map_of acc g)"
  by (induction es arbitrary: acc) auto

lemma group_values_fold:
  "fold (\<lambda>(k, v) old. Some (case old of None \<Rightarrow> [v] | Some vs \<Rightarrow> vs @ [v])) es old
     = (if es = [] then old else Some ((case old of None \<Rightarrow> [] | Some vs \<Rightarrow> vs) @ map snd es))"
  by (induction es arbitrary: old) (auto split: option.splits)

lemma group_count_fold:
  "fold (\<lambda>(k, v) old. Some (case old of None \<Rightarrow> 1 | Some n \<Rightarrow> n + 1)) es old
     = (if es = [] then old else Some ((case old of None \<Rightarrow> 0 | Some n \<Rightarrow> n) + length es))" for old :: "nat option"
  by (induction es arbitrary: old) (auto split: option.splits)

lemma map_of_groupBy:
  "map_of (groupBy src it obj) g
     = (if values_with src it g (entries obj) = [] then None else Some (values_with src it g (entries obj)))"
proof -
  have "groupBy src it obj = fold (\<lambda>e r. dict_set (to_string src (it (snd e) (fst e)))
      (case map_of r (to_string src (it (snd e) (fst e))) of None \<Rightarrow> [snd e] | Some vs \<Rightarrow> vs @ [snd e]) r) (entries obj) []"
    unfolding groupBy_def group_us_def each_us_def Let_def case_prod_unfold
    by (intro arg_cong [where f = "\<lambda>F. fold F (entries obj) []"]) (auto simp: fun_eq_iff split: option.splits)
  then show ?thesis
    using keyed_fold [of "\<lambda>e. to_string src (it (snd e) (fst e))"
        "\<lambda>e old. case old of None \<Rightarrow> [snd e] | Some vs \<Rightarrow> vs @ [snd e]" "entries obj" "[]" g]
      group_values_fold [of "filter (\<lambda>e. to_string src (it (snd e) (fst e)) = g) (entries obj)" None]
    by (simp add: values_with_def case_prod_unfold)
qed

lemma map_of_countBy:
  "map_of (countBy src it obj) g
     = (if values_with src it g (entries obj) = [] then None else Some (length (values_with src it g (entries obj))))"
proof -
  have "countBy src it obj = fold (\<lambda>e r. dict_set (to_string src (it (snd e) (fst e)))
      (case map_of r (to_string src (it (snd e) (fst e))) of None \<Rightarrow> 1 | Some n \<Rightarrow> n + 1) r) (entries obj) []"
    unfolding countBy_def group_us_def each_us_def Let_def case_prod_unfold
    by (intro arg_cong [where f = "\<lambda>F. fold F (entries obj) []"]) (auto simp: fun_eq_iff split: option.splits)
  then show ?thesis
    using keyed_fold [of "\<lambda>e. to_string src (it (snd e) (fst e))"
        "\<lambda>e old. case old of None \<Rightarrow> 1 | Some n \<Rightarrow> n + (1 :: nat)" "entries obj" "[]" g]
      group_count_fold [of "filter (\<lambda>e. to_string src (it (snd e) (fst e)) = g) (entries obj)" None]
    by (simp add: values_with_def case_prod_unfold)
qed

lemma partition_fold:
  "fold (\<lambda>(k, v) (yes, no). if truthy (it v k) then (yes @ [v], no) else (yes, no @ [v])) es (ys, ns)
   = (ys @ map snd (filter (\<lambda>(k, v). truthy (it v k)) es), ns @ map snd (filter (\<lambda>(k, v). \<not> truthy (it v k)) es))"
  by (induction es arbitrary: ys ns) auto

text \<open>\<open>_.groupBy\<close> maps every criterion that occurs to the values that have it, in the order of the
  collection, \<open>_.countBy\<close> maps it to their number, and \<open>_.partition\<close> splits the values by the truth
  test, keeping their order.\<close>

theorem grouping_correct:
  "map_of (groupBy src it obj) g
     = (if values_with src it g (entries obj) = [] then None else Some (values_with src it g (entries obj)))
   \<and> map_of (countBy src it obj) g = map_option length (map_of (groupBy src it obj) g)
   \<and> partition_us it obj = (map snd (filter (\<lambda>(k, v). truthy (it v k)) (entries obj)),
                            map snd (filter (\<lambda>(k, v). \<not> truthy (it v k)) (entries obj)))"
  using partition_fold [of it "entries obj" "[]" "[]"]
  by (simp add: map_of_groupBy map_of_countBy partition_us_def group_us_def each_us_def case_prod_unfold)

end
