(* ===== verification/UnderscoreEqual.thy ===== *)
theory UnderscoreEqual
  imports JsValue
begin

text \<open>
  Deep comparison, \<open>_.isEqual\<close> of \<open>docs/_static/underscore-1.13.1.js\<close>, on an explicit store: arrays and
  objects are cells of a heap that may refer to each other in cycles, and the comparison carries
  the two stacks of cells under comparison.  Typed arrays, buffers and symbols are not among the
  cells.
\<close>

section \<open>Store\<close>

datatype hval = HUndef | HNull | HBool bool | HNum jsnum | HStr string | HRef nat

text \<open>
  The \<open>constructor\<close> property of an object: absent, or the identity of a value with a flag that tells
  whether it is a function that is an instance of itself (\<open>Object\<close> of some frame).
\<close>

datatype ctor = NoCtor | Ctor nat bool

datatype cell =
    CFun
  | CArr "hval list"
  | CObj string ctor "(string \<times> hval) list" \<comment> \<open>class, constructor, own enumerable properties\<close>
  | CStr string \<comment> \<open>\<open>new String\<close>\<close>
  | CNum jsnum \<comment> \<open>\<open>new Number\<close>\<close>
  | CBool bool \<comment> \<open>\<open>new Boolean\<close>\<close>
  | CDate jsnum
  | CRegExp string
  | CWrap hval \<comment> \<open>an Underscore wrapper and its \<open>_wrapped\<close>\<close>

type_synonym heap = "cell list"

definition cell_at :: "heap \<Rightarrow> nat \<Rightarrow> cell" where
  "cell_at h x = (if x < length h then h ! x else CFun)"

fun cell_class :: "cell \<Rightarrow> string" where
  "cell_class CFun = ''Function''"
| "cell_class (CArr _) = ''Array''"
| "cell_class (CObj c _ _) = c"
| "cell_class (CStr _) = ''String''"
| "cell_class (CNum _) = ''Number''"
| "cell_class (CBool _) = ''Boolean''"
| "cell_class (CDate _) = ''Date''"
| "cell_class (CRegExp _) = ''RegExp''"
| "cell_class (CWrap _) = ''Object''"

fun heap_class :: "heap \<Rightarrow> hval \<Rightarrow> string" where
  "heap_class h HUndef = ''Undefined''"
| "heap_class h HNull = ''Null''"
| "heap_class h (HBool _) = ''Boolean''"
| "heap_class h (HNum _) = ''Number''"
| "heap_class h (HStr _) = ''String''"
| "heap_class h (HRef x) = cell_class (cell_at h x)"

fun heap_typeof :: "heap \<Rightarrow> hval \<Rightarrow> string" where
  "heap_typeof h HUndef = ''undefined''"
| "heap_typeof h HNull = ''object''"
| "heap_typeof h (HBool _) = ''boolean''"
| "heap_typeof h (HNum _) = ''number''"
| "heap_typeof h (HStr _) = ''string''"
| "heap_typeof h (HRef x) = (if cell_at h x = CFun then ''function'' else ''object'')"

fun heap_eq :: "hval \<Rightarrow> hval \<Rightarrow> bool" where
  "heap_eq (HNum a) (HNum b) = num_eq a b"
| "heap_eq a b = (a = b)"

text \<open>\<open>'' + v\<close> and \<open>+v\<close> for the classes they are used on.\<close>

definition str_of :: "heap \<Rightarrow> hval \<Rightarrow> string" where
  "str_of h v =
     (case v of
        HStr s \<Rightarrow> s
      | HRef x \<Rightarrow> (case cell_at h x of CStr s \<Rightarrow> s | CRegExp s \<Rightarrow> s | _ \<Rightarrow> [])
      | _ \<Rightarrow> [])"

definition num_of :: "heap \<Rightarrow> hval \<Rightarrow> jsnum" where
  "num_of h v =
     (case v of
        HNum n \<Rightarrow> n
      | HBool b \<Rightarrow> Fin (if b then 1 else 0)
      | HRef x \<Rightarrow> (case cell_at h x of CNum n \<Rightarrow> n | CBool b \<Rightarrow> Fin (if b then 1 else 0) | CDate n \<Rightarrow> n | _ \<Rightarrow> NaN)
      | _ \<Rightarrow> NaN)"

definition unwrap :: "heap \<Rightarrow> hval \<Rightarrow> hval" where
  "unwrap h v = (case v of HRef x \<Rightarrow> (case cell_at h x of CWrap w \<Rightarrow> w | _ \<Rightarrow> v) | _ \<Rightarrow> v)"

fun cell_props :: "cell \<Rightarrow> (string \<times> hval) list" where
  "cell_props (CObj _ _ ps) = ps"
| "cell_props (CWrap w) = [(''_wrapped'', w)]"
| "cell_props _ = []"

fun cell_ctor :: "cell \<Rightarrow> ctor" where
  "cell_ctor (CObj _ k _) = k"
| "cell_ctor (CWrap _) = Ctor 0 False" \<comment> \<open>the function \<open>_\<close> itself\<close>
| "cell_ctor _ = NoCtor"

section \<open>Comparison\<close>

text \<open>The sign of a zero: \<open>1 / a === 1 / b\<close> for equal numbers.\<close>

definition same_zero :: "hval \<Rightarrow> hval \<Rightarrow> bool" where
  "same_zero a b =
     (case (a, b) of
        (HNum m, HNum n) \<Rightarrow> if num_eq m (Fin 0) then m = n else True
      | _ \<Rightarrow> True)"

text \<open>The classes that are compared by value; \<open>None\<close> for the others.\<close>

definition by_value :: "heap \<Rightarrow> hval \<Rightarrow> hval \<Rightarrow> bool option" where
  "by_value h a b =
     (let className = heap_class h a in
      if className = ''RegExp'' \<or> className = ''String'' then Some (str_of h a = str_of h b)
      else if className = ''Number'' then
        Some (if num_of h a = NaN then num_of h b = NaN
              else if num_eq (num_of h a) (Fin 0) then num_of h a = num_of h b
              else num_eq (num_of h a) (num_of h b))
      else if className = ''Date'' \<or> className = ''Boolean'' then
        Some (num_eq (num_of h a) (num_of h b))
      else None)"

text \<open>Objects with different constructors differ, unless both are \<open>Object\<close> of some frame or one of
  them has none.\<close>

definition ctor_differs :: "ctor \<Rightarrow> ctor \<Rightarrow> bool" where
  "ctor_differs j k =
     (case (j, k) of
        (Ctor m s, Ctor n t) \<Rightarrow> m \<noteq> n \<and> \<not> (s \<and> t)
      | _ \<Rightarrow> False)"

text \<open>
  The members two cells of one class are compared by, last one first: \<open>None\<close> if their numbers differ;
  a key the second object lacks has no second value.
\<close>

definition members :: "cell \<Rightarrow> cell \<Rightarrow> (hval \<times> hval option) list option" where
  "members c d =
     (case (c, d) of
        (CArr xs, CArr ys) \<Rightarrow>
          if length xs = length ys then Some (rev (zip xs (map Some ys))) else None
      | _ \<Rightarrow>
          if length (cell_props d) = length (cell_props c)
          then Some (rev (map (\<lambda>(k, v). (v, map_of (cell_props d) k)) (cell_props c))) else None)"

text \<open>
  Every nested comparison of cells puts a cell on the stack that was not there, so that cyclic
  structures come to an end.
\<close>

definition unvisited :: "heap \<Rightarrow> (nat \<times> nat) list \<Rightarrow> nat" where
  "unvisited h S = card ({..<length h} - fst ` set S)"

lemma unvisited_push: "x < length h \<Longrightarrow> map_of S x = None \<Longrightarrow> unvisited h ((x, y) # S) < unvisited h S"
  unfolding unvisited_def by (rule psubset_card_mono) (auto simp: map_of_eq_None_iff)

text \<open>
  \<open>eq\<close>, \<open>deepEq\<close> and its loop over the members.  The list \<open>S\<close> is the pair of stacks, top first; a
  comparison that yields false yields false for all its callers, so a stack is only read again
  after every push has been undone.  An address outside the heap is no value of the program.
\<close>

function eq_us :: "heap \<Rightarrow> hval \<Rightarrow> hval \<Rightarrow> (nat \<times> nat) list \<Rightarrow> js_error + bool"
  and deepEq :: "heap \<Rightarrow> hval \<Rightarrow> hval \<Rightarrow> (nat \<times> nat) list \<Rightarrow> js_error + bool"
  and eq_members :: "heap \<Rightarrow> (hval \<times> hval option) list \<Rightarrow> (nat \<times> nat) list \<Rightarrow> js_error + bool" where
  "eq_us h a b S =
     (if heap_eq a b then Inr (same_zero a b)
      else if a = HUndef \<or> a = HNull \<or> b = HUndef \<or> b = HNull then Inr False
      else if \<not> heap_eq a a then Inr (\<not> heap_eq b b)
      else if heap_typeof h a \<noteq> ''function'' \<and> heap_typeof h a \<noteq> ''object'' \<and> heap_typeof h b \<noteq> ''object''
      then Inr False
      else deepEq h a b S)"
| "deepEq h a0 b0 S =
     (let a = unwrap h a0; b = unwrap h b0 in
      if heap_class h a \<noteq> heap_class h b then Inr False
      else (case by_value h a b of
              Some r \<Rightarrow> Inr r
            | None \<Rightarrow>
                (case (a, b) of
                   (HNull, HNull) \<Rightarrow> Inl TypeError
                 | (HRef x, HRef y) \<Rightarrow>
                     if length h \<le> x \<or> length h \<le> y then Inr False
                     else if heap_class h a \<noteq> ''Array'' \<and>
                       (heap_typeof h a \<noteq> ''object'' \<or> heap_typeof h b \<noteq> ''object'') then Inr False
                     else if heap_class h a \<noteq> ''Array'' \<and>
                       ctor_differs (cell_ctor (h ! x)) (cell_ctor (h ! y)) then Inr False
                     else (case map_of S x of
                             Some y' \<Rightarrow> Inr (y' = y)
                           | None \<Rightarrow>
                               (case members (h ! x) (h ! y) of
                                  None \<Rightarrow> Inr False
                                | Some ms \<Rightarrow> eq_members h ms ((x, y) # S)))
                 | _ \<Rightarrow> Inr False)))"
| "eq_members h [] S = Inr True"
| "eq_members h ((u, None) # ms) S = Inr False"
| "eq_members h ((u, Some v) # ms) S =
     (case eq_us h u v S of
        Inr True \<Rightarrow> eq_members h ms S
      | r \<Rightarrow> r)"
  by pat_completeness auto

termination
proof (relation "measures
    [\<lambda>p. case p of Inl (h, a, b, S) \<Rightarrow> unvisited h S | Inr (Inl (h, a, b, S)) \<Rightarrow> unvisited h S
       | Inr (Inr (h, ms, S)) \<Rightarrow> unvisited h S,
     \<lambda>p. case p of Inl (h, a, b, S) \<Rightarrow> 1 | Inr (Inl (h, a, b, S)) \<Rightarrow> 0 | Inr (Inr (h, ms, S)) \<Rightarrow> 2 + length ms]",
    goal_cases)
qed (auto simp: unvisited_push not_le)

declare eq_us.simps [simp del] deepEq.simps [simp del]

definition isEqual :: "heap \<Rightarrow> hval \<Rightarrow> hval \<Rightarrow> js_error + bool" where
  "isEqual h a b = eq_us h a b []"

section \<open>Specification\<close>

text \<open>
  Two values are equal if they are the same value, or if a set of pairs of cells relates them in
  which related cells have the same class and constructor, the same contents, and members that are
  related again.  Such a set also describes the equality of cyclic structures.
\<close>

definition rel :: "heap \<Rightarrow> (hval \<times> hval) set \<Rightarrow> hval \<Rightarrow> hval \<Rightarrow> bool" where
  "rel h R u v \<longleftrightarrow> u = v \<or> (unwrap h u, unwrap h v) \<in> R"

definition same_members :: "heap \<Rightarrow> (hval \<times> hval) set \<Rightarrow> cell \<Rightarrow> cell \<Rightarrow> bool" where
  "same_members h R c d =
     (case (c, d) of
        (CArr xs, CArr ys) \<Rightarrow> list_all2 (rel h R) xs ys
      | _ \<Rightarrow> \<not> ctor_differs (cell_ctor c) (cell_ctor d)
            \<and> dom (map_of (cell_props c)) = dom (map_of (cell_props d))
            \<and> (\<forall>k u v. map_of (cell_props c) k = Some u \<longrightarrow> map_of (cell_props d) k = Some v \<longrightarrow> rel h R u v))"

definition content :: "heap \<Rightarrow> (hval \<times> hval) set \<Rightarrow> hval \<Rightarrow> hval \<Rightarrow> bool" where
  "content h R a b \<longleftrightarrow> heap_class h a = heap_class h b \<and>
     (by_value h a b = Some True \<or>
      by_value h a b = None \<and>
        (\<exists>x y. a = HRef x \<and> b = HRef y \<and> x < length h \<and> y < length h \<and> h ! x \<noteq> CFun \<and> h ! y \<noteq> CFun \<and>
           same_members h R (h ! x) (h ! y)))"

definition bisimulation :: "heap \<Rightarrow> (hval \<times> hval) set \<Rightarrow> bool" where
  "bisimulation h R \<longleftrightarrow> (\<forall>(a, b) \<in> R. content h R a b)"

text \<open>Objects have each key once and a class of their own.\<close>

fun cell_wf :: "cell \<Rightarrow> bool" where
  "cell_wf (CObj c k ps) \<longleftrightarrow> distinct (map fst ps) \<and>
     c \<notin> {''Array'', ''Function'', ''String'', ''Number'', ''Boolean'', ''Date'', ''RegExp'', ''Undefined'', ''Null''}"
| "cell_wf _ = True"

abbreviation heap_wf :: "heap \<Rightarrow> bool" where
  "heap_wf h \<equiv> list_all cell_wf h"

section \<open>Facts\<close>

lemma rel_mono: "R \<subseteq> R' \<Longrightarrow> rel h R u v \<Longrightarrow> rel h R' u v"
  by (auto simp: rel_def)

lemma same_members_mono: "R \<subseteq> R' \<Longrightarrow> same_members h R c d \<Longrightarrow> same_members h R' c d"
  using rel_mono [of R R' h] list_all2_mono [of "rel h R" _ _ "rel h R'"]
  by (auto simp: same_members_def split: cell.splits)

lemma content_mono: "R \<subseteq> R' \<Longrightarrow> content h R a b \<Longrightarrow> content h R' a b"
  unfolding content_def by (blast intro: same_members_mono)

lemma class_Array: "cell_wf c \<Longrightarrow> cell_class c = ''Array'' \<longleftrightarrow> (\<exists>xs. c = CArr xs)"
  by (cases c) auto

lemma distinct_cell_props: "cell_wf c \<Longrightarrow> distinct (map fst (cell_props c))"
  by (cases c) auto

lemma dom_eq_by_length:
  assumes "distinct (map fst ps)" "distinct (map fst qs)" "length qs = length ps"
    and "\<And>k. k \<in> fst ` set ps \<Longrightarrow> map_of qs k \<noteq> None"
  shows "dom (map_of ps) = dom (map_of qs)"
proof -
  have "fst ` set ps \<subseteq> fst ` set qs" using assms(4) by (force simp: map_of_eq_None_iff)
  moreover have "card (fst ` set ps) = card (fst ` set qs)"
    using distinct_card [OF assms(1)] distinct_card [OF assms(2)] assms(3) by simp
  ultimately have "fst ` set ps = fst ` set qs" by (intro card_subset_eq) auto
  then show ?thesis by (simp add: dom_map_of_conv_image_fst)
qed

abbreviation pair_ok :: "heap \<Rightarrow> (hval \<times> hval) set \<Rightarrow> hval \<times> hval option \<Rightarrow> bool" where
  "pair_ok h R m \<equiv> (case snd m of Some v \<Rightarrow> rel h R (fst m) v | None \<Rightarrow> False)"

lemma pair_ok_mono: "R \<subseteq> R' \<Longrightarrow> pair_ok h R m \<Longrightarrow> pair_ok h R' m"
  by (auto split: option.splits intro: rel_mono)

lemma members_props:
  assumes "distinct (map fst ps)" "distinct (map fst qs)"
  shows "length qs = length ps \<and> list_all (pair_ok h R) (map (\<lambda>(k, v). (v, map_of qs k)) ps)
    \<longleftrightarrow> dom (map_of ps) = dom (map_of qs) \<and>
        (\<forall>k u v. map_of ps k = Some u \<longrightarrow> map_of qs k = Some v \<longrightarrow> rel h R u v)"
proof
  assume *: "length qs = length ps \<and> list_all (pair_ok h R) (map (\<lambda>(k, v). (v, map_of qs k)) ps)"
  then have ok: "(k, u) \<in> set ps \<Longrightarrow> \<exists>v. map_of qs k = Some v \<and> rel h R u v" for k u
    by (force simp: list_all_iff split: option.splits)
  have "map_of qs k \<noteq> None" if "k \<in> fst ` set ps" for k
    using that ok by fastforce
  then have "dom (map_of ps) = dom (map_of qs)" using * by (intro dom_eq_by_length assms) auto
  moreover have "rel h R u v" if "map_of ps k = Some u" "map_of qs k = Some v" for k u v
    using ok [OF map_of_SomeD [OF that(1)]] that(2) by auto
  ultimately show "dom (map_of ps) = dom (map_of qs) \<and>
      (\<forall>k u v. map_of ps k = Some u \<longrightarrow> map_of qs k = Some v \<longrightarrow> rel h R u v)" by blast
next
  assume *: "dom (map_of ps) = dom (map_of qs) \<and>
      (\<forall>k u v. map_of ps k = Some u \<longrightarrow> map_of qs k = Some v \<longrightarrow> rel h R u v)"
  have "length qs = length ps"
    using * distinct_card [OF assms(1)] distinct_card [OF assms(2)] by (simp add: dom_map_of_conv_image_fst)
  moreover have "pair_ok h R (u, map_of qs k)" if "(k, u) \<in> set ps" for k u
    using * that assms(1) by (auto simp: dom_def set_eq_iff split: option.splits)
  ultimately show "length qs = length ps \<and> list_all (pair_ok h R) (map (\<lambda>(k, v). (v, map_of qs k)) ps)"
    by (auto simp: list_all_iff)
qed

lemma members_array:
  "length xs = length ys \<Longrightarrow> list_all (pair_ok h R) (zip xs (map Some ys)) \<longleftrightarrow> list_all2 (rel h R) xs ys"
  by (induction xs ys rule: list_induct2) auto

lemma members_same:
  assumes "cell_wf c" "cell_wf d" "cell_class c = cell_class d"
  shows "(\<exists>ms. members c d = Some ms \<and> list_all (pair_ok h R) ms)
      \<and> (cell_class c = ''Array'' \<or> \<not> ctor_differs (cell_ctor c) (cell_ctor d))
    \<longleftrightarrow> same_members h R c d"
proof (cases "\<exists>xs. c = CArr xs")
  case True
  then obtain xs ys where c: "c = CArr xs" and d: "d = CArr ys"
    using assms class_Array [of c] class_Array [of d] by auto
  then show ?thesis
    using members_array [of xs ys h R] list_all2_lengthD [of "rel h R" xs ys]
    by (auto simp: members_def same_members_def list_all_rev)
next
  case False
  then have no: "cell_class c \<noteq> ''Array''" and nd: "\<not> (\<exists>ys. d = CArr ys)"
    using assms class_Array [of c] class_Array [of d] by auto
  have "members c d = (if length (cell_props d) = length (cell_props c)
      then Some (rev (map (\<lambda>(k, v). (v, map_of (cell_props d) k)) (cell_props c))) else None)"
    using False by (auto simp: members_def split: cell.splits)
  moreover have "same_members h R c d \<longleftrightarrow> \<not> ctor_differs (cell_ctor c) (cell_ctor d)
      \<and> dom (map_of (cell_props c)) = dom (map_of (cell_props d))
      \<and> (\<forall>k u v. map_of (cell_props c) k = Some u \<longrightarrow> map_of (cell_props d) k = Some v \<longrightarrow> rel h R u v)"
    using False by (auto simp: same_members_def split: cell.splits)
  ultimately show ?thesis
    using no members_props [of "cell_props c" "cell_props d" h R] distinct_cell_props assms
    by (auto simp: list_all_rev)
qed

section \<open>Correctness\<close>

abbreviation stack_pairs :: "(nat \<times> nat) list \<Rightarrow> (hval \<times> hval) set" where
  "stack_pairs S \<equiv> (\<lambda>(x, y). (HRef x, HRef y)) ` set S"

abbreviation supported :: "heap \<Rightarrow> (hval \<times> hval) set \<Rightarrow> (nat \<times> nat) list \<Rightarrow> bool" where
  "supported h R S \<equiv> (\<forall>(u, v) \<in> R. content h (R \<union> stack_pairs S) u v)"

lemma supported_union: "supported h R S \<Longrightarrow> supported h R' S \<Longrightarrow> supported h (R \<union> R') S"
  by (blast intro: content_mono [of "R \<union> stack_pairs S"] content_mono [of "R' \<union> stack_pairs S"])

lemma wf_nth: "heap_wf h \<Longrightarrow> x < length h \<Longrightarrow> cell_wf (h ! x)"
  by (simp add: list_all_length)

lemma equal_identical: "heap_eq a b \<and> same_zero a b \<or> \<not> heap_eq a a \<and> \<not> heap_eq b b \<longleftrightarrow> a = b"
  by (cases a; cases b) (auto simp: same_zero_def num_eq_def split: if_splits)

lemma deepEq_cells:
  assumes "deepEq h a b S = Inr True" "by_value h (unwrap h a) (unwrap h b) = None"
  obtains x y where "unwrap h a = HRef x" "unwrap h b = HRef y" "x < length h" "y < length h"
    "heap_class h (HRef x) = heap_class h (HRef y)" "h ! x \<noteq> CFun" "h ! y \<noteq> CFun"
    "heap_class h (HRef x) = ''Array'' \<or> \<not> ctor_differs (cell_ctor (h ! x)) (cell_ctor (h ! y))"
    "(x, y) \<in> set S \<or> map_of S x = None \<and> (\<exists>ms. members (h ! x) (h ! y) = Some ms \<and> eq_members h ms ((x, y) # S) = Inr True)"
  using assms
  by (subst (asm) deepEq.simps)
     (auto simp: Let_def cell_at_def split: if_splits hval.splits option.splits dest!: map_of_SomeD)

lemma deepEq_sound_step:
  assumes wf: "heap_wf h" and true: "deepEq h a b S = Inr True"
    and rec: "\<And>x y ms. x < length h \<Longrightarrow> map_of S x = None \<Longrightarrow> eq_members h ms ((x, y) # S) = Inr True \<Longrightarrow>
      \<exists>R. supported h R ((x, y) # S) \<and> list_all (pair_ok h (R \<union> stack_pairs ((x, y) # S))) ms"
  shows "\<exists>R. supported h R S \<and> rel h (R \<union> stack_pairs S) a b"
proof (cases "by_value h (unwrap h a) (unwrap h b)")
  case (Some r)
  then have "r" "heap_class h (unwrap h a) = heap_class h (unwrap h b)"
    using true by (auto simp: deepEq.simps Let_def split: if_splits)
  then have "content h R (unwrap h a) (unwrap h b)" for R using Some by (simp add: content_def)
  then show ?thesis by (intro exI [of _ "{(unwrap h a, unwrap h b)}"]) (auto simp: rel_def)
next
  case None
  from deepEq_cells [OF true None] obtain x y where
    ab: "unwrap h a = HRef x" "unwrap h b = HRef y" and cells: "x < length h" "y < length h"
      "heap_class h (HRef x) = heap_class h (HRef y)" "h ! x \<noteq> CFun" "h ! y \<noteq> CFun"
      "heap_class h (HRef x) = ''Array'' \<or> \<not> ctor_differs (cell_ctor (h ! x)) (cell_ctor (h ! y))"
    and S: "(x, y) \<in> set S \<or> map_of S x = None \<and>
      (\<exists>ms. members (h ! x) (h ! y) = Some ms \<and> eq_members h ms ((x, y) # S) = Inr True)" .
  show ?thesis
  proof (cases "(x, y) \<in> set S")
    case True
    then show ?thesis by (intro exI [of _ "{}"]) (auto simp: rel_def ab)
  next
    case False
    then obtain ms where ms: "members (h ! x) (h ! y) = Some ms" "eq_members h ms ((x, y) # S) = Inr True"
      "map_of S x = None"
      using S by blast
    then obtain R where R: "supported h R ((x, y) # S)" "list_all (pair_ok h (R \<union> stack_pairs ((x, y) # S))) ms"
      using rec [OF cells(1) ms(3)] by blast
    define R' where "R' = insert (HRef x, HRef y) R"
    have eq: "R \<union> stack_pairs ((x, y) # S) = R' \<union> stack_pairs S" by (auto simp: R'_def)
    have "same_members h (R' \<union> stack_pairs S) (h ! x) (h ! y)"
      using members_same [of "h ! x" "h ! y" h "R' \<union> stack_pairs S"] wf_nth [OF wf] cells ms(1)
        R(2) [unfolded eq]
      by (auto simp: cell_at_def)
    then have "content h (R' \<union> stack_pairs S) (HRef x) (HRef y)"
      using cells None ab by (auto simp: content_def)
    then have "supported h R' S" using R(1) unfolding eq by (auto simp: R'_def)
    then show ?thesis by (intro exI [of _ R']) (auto simp: rel_def ab R'_def)
  qed
qed

lemma eq_us_True: "eq_us h a b S = Inr True \<Longrightarrow> a = b \<or> deepEq h a b S = Inr True"
  using equal_identical [of a b] by (auto simp: eq_us.simps split: if_splits)

lemma members_sound:
  assumes "\<And>u v. deepEq h u v S = Inr True \<Longrightarrow> \<exists>R. supported h R S \<and> rel h (R \<union> stack_pairs S) u v"
  shows "eq_members h ms S = Inr True \<Longrightarrow>
     \<exists>R. supported h R S \<and> list_all (pair_ok h (R \<union> stack_pairs S)) ms"
proof (induction ms)
  case (Cons m ms)
  obtain u v where m: "m = (u, Some v)" and uv: "eq_us h u v S = Inr True"
    and ms: "eq_members h ms S = Inr True"
    using Cons.prems by (cases m; cases "snd m") (auto split: sum.splits bool.splits)
  obtain R where R: "supported h R S" "rel h (R \<union> stack_pairs S) u v"
    using eq_us_True [OF uv] assms [of u v] by (auto simp: rel_def)
  obtain R' where R': "supported h R' S" "list_all (pair_ok h (R' \<union> stack_pairs S)) ms"
    using Cons.IH ms by blast
  have "list_all (pair_ok h (R \<union> R' \<union> stack_pairs S)) (m # ms)"
  proof -
    have "rel h (R \<union> R' \<union> stack_pairs S) u v" by (rule rel_mono [OF _ R(2)]) blast
    then have "pair_ok h (R \<union> R' \<union> stack_pairs S) m" by (simp add: m)
    moreover have "list_all (pair_ok h (R \<union> R' \<union> stack_pairs S)) ms"
      by (rule list.pred_mono_strong [OF R'(2)]) (erule pair_ok_mono [rotated], blast)
    ultimately show ?thesis by simp
  qed
  then show ?case using supported_union [OF R(1) R'(1)] by blast
qed auto

lemma deepEq_sound:
  assumes "heap_wf h"
  shows "deepEq h a b S = Inr True \<Longrightarrow> \<exists>R. supported h R S \<and> rel h (R \<union> stack_pairs S) a b"
proof (induction "unvisited h S" arbitrary: a b S rule: less_induct)
  case less
  show ?case
  proof (rule deepEq_sound_step [OF assms less.prems])
    fix x y ms
    assume "x < length h" "map_of S x = None" "eq_members h ms ((x, y) # S) = Inr True"
    then show "\<exists>R. supported h R ((x, y) # S) \<and> list_all (pair_ok h (R \<union> stack_pairs ((x, y) # S))) ms"
      using less.hyps unvisited_push [of x h S y] members_sound [of h "(x, y) # S" ms] by blast
  qed
qed

text \<open>C10: Deep comparison ends on every heap, cyclic ones included, and never equates different structures:
  if \<open>_.isEqual\<close> returns true then the values are equal in the sense of the specification.\<close>

theorem isEqual_sound:
  assumes "heap_wf h" "isEqual h a b = Inr True"
  shows "\<exists>R. bisimulation h R \<and> rel h R a b"
proof (cases "a = b")
  case True
  then show ?thesis by (intro exI [of _ "{}"]) (simp add: bisimulation_def rel_def)
next
  case False
  then have "deepEq h a b [] = Inr True"
    using assms(2) eq_us_True [of h a b "[]"] by (simp add: isEqual_def)
  from deepEq_sound [OF assms(1) this] show ?thesis by (auto simp: bisimulation_def)
qed

text \<open>The values a cell refers to, and heaps without cycles: a rank decreases along references.\<close>

fun cell_values :: "cell \<Rightarrow> hval list" where
  "cell_values (CArr xs) = xs"
| "cell_values c = map snd (cell_props c)"

abbreviation below :: "(nat \<Rightarrow> nat) \<Rightarrow> hval \<Rightarrow> nat \<Rightarrow> bool" where
  "below rk v n \<equiv> (\<forall>y. v = HRef y \<longrightarrow> rk y < n)"

definition ranked :: "heap \<Rightarrow> (nat \<Rightarrow> nat) \<Rightarrow> bool" where
  "ranked h rk \<longleftrightarrow> (\<forall>x < length h. \<forall>v \<in> set (cell_values (h ! x)). below rk v (rk x))"

lemma snd_image: "(a, u) \<in> A \<Longrightarrow> u \<in> snd ` A"
  by force

lemma members_values: "members c d = Some ms \<Longrightarrow> (u, v) \<in> set ms \<Longrightarrow> u \<in> set (cell_values c)"
  by (cases c; cases d)
     (auto simp: members_def split: if_splits dest: set_zip_leftD intro: snd_image)

lemma unwrap_below: "ranked h rk \<Longrightarrow> below rk v n \<Longrightarrow> below rk (unwrap h v) n"
  by (auto simp: unwrap_def cell_at_def ranked_def split: hval.splits cell.splits if_splits)

text \<open>No number object and no wrapper holds \<open>NaN\<close>.\<close>

abbreviation no_boxed_nan :: "heap \<Rightarrow> bool" where
  "no_boxed_nan h \<equiv> CNum NaN \<notin> set h \<and> CWrap (HNum NaN) \<notin> set h"

lemma content_not_nullish:
  "content h R (unwrap h a) (unwrap h b) \<Longrightarrow> a \<noteq> HUndef \<and> a \<noteq> HNull \<and> b \<noteq> HUndef \<and> b \<noteq> HNull"
  by (auto simp: content_def by_value_def unwrap_def Let_def split: if_splits)

lemma boxed_value:
  assumes "heap_class h (unwrap h b) \<noteq> ''Function''"
  obtains (prim) "unwrap h b = b" "\<And>y. b \<noteq> HRef y"
  | (ref) y where "b = HRef y" "heap_typeof h b = ''object''"
proof (cases b)
  case (HRef y)
  then have "cell_at h y \<noteq> CFun" using assms by (auto simp: unwrap_def)
  with HRef show thesis using ref by simp
qed (use prim in \<open>auto simp: unwrap_def\<close>)

lemma unwrap_prim [simp]:
  "unwrap h (HNum n) = HNum n" "unwrap h (HStr s) = HStr s" "unwrap h (HBool t) = HBool t"
  by (simp_all add: unwrap_def)

lemma num_of_prim [simp]: "num_of h (HNum n) = n" "num_of h (HBool t) = Fin (if t then 1 else 0)"
  by (simp_all add: num_of_def)

lemma str_of_prim [simp]: "str_of h (HStr s) = s"
  by (simp add: str_of_def)

lemma class_Number:
  assumes "heap_wf h" "heap_class h v = ''Number''"
  shows "(\<exists>n. v = HNum n) \<or> (\<exists>z n. v = HRef z \<and> cell_at h z = CNum n)"
proof (cases v)
  case (HRef z)
  have "cell_wf (cell_at h z)" using wf_nth [OF assms(1)] by (simp add: cell_at_def)
  then show ?thesis using HRef assms(2) by (cases "cell_at h z") auto
qed (use assms(2) in auto)

lemma number_not_nan:
  assumes "heap_wf h" "no_boxed_nan h" "heap_class h (unwrap h (HRef y)) = ''Number''"
  shows "num_of h (unwrap h (HRef y)) \<noteq> NaN"
proof -
  have n: "cell_at h y \<noteq> CNum NaN" "cell_at h y \<noteq> CWrap (HNum NaN)" for y
    using assms(2) by (auto simp: cell_at_def) (metis nth_mem)+
  from class_Number [OF assms(1,3)] consider
    (prim) m where "unwrap h (HRef y) = HNum m" | (ref) z m where "unwrap h (HRef y) = HRef z" "cell_at h z = CNum m"
    by blast
  then show ?thesis
  proof cases
    case prim
    then have "cell_at h y = CWrap (HNum m)" by (auto simp: unwrap_def split: cell.splits)
    then have "m \<noteq> NaN" using n(2) by auto
    then show ?thesis by (simp add: prim)
  next
    case ref
    then have "m \<noteq> NaN" using n(1) by auto
    then show ?thesis by (simp add: ref num_of_def)
  qed
qed

lemma content_reaches_deepEq:
  assumes wf: "heap_wf h" and nan: "no_boxed_nan h"
    and c: "content h R (unwrap h a) (unwrap h b)" and "a \<noteq> b"
  shows "eq_us h a b S = deepEq h a b S"
proof (cases a)
  case (HRef x)
  then show ?thesis
    using content_not_nullish [OF c] \<open>a \<noteq> b\<close> by (cases b) (auto simp: eq_us.simps)
next
  case (HNum n)
  have cb: "heap_class h (unwrap h b) = ''Number''" using c HNum by (simp add: content_def)
  have v: "if n = NaN then num_of h (unwrap h b) = NaN else if num_eq n (Fin 0) then n = num_of h (unwrap h b)
      else num_eq n (num_of h (unwrap h b))"
    using c HNum by (auto simp: content_def by_value_def split: if_splits)
  have "heap_class h (unwrap h b) \<noteq> ''Function''" by (simp add: cb)
  then show ?thesis
  proof (cases rule: boxed_value)
    case prim
    then obtain m where "b = HNum m" using cb by (cases b) (auto simp: unwrap_def)
    with v HNum \<open>a \<noteq> b\<close> show ?thesis
      by (auto simp: num_eq_def split: if_splits)
  next
    case (ref y)
    with v HNum number_not_nan [OF wf nan, of y] cb show ?thesis
      by (auto simp: eq_us.simps num_eq_def)
  qed
next
  case (HStr s)
  have cb: "heap_class h (unwrap h b) = ''String''" and v: "s = str_of h (unwrap h b)"
    using c HStr by (auto simp: content_def by_value_def)
  have "heap_class h (unwrap h b) \<noteq> ''Function''" by (simp add: cb)
  then show ?thesis
  proof (cases rule: boxed_value)
    case prim
    with cb v HStr \<open>a \<noteq> b\<close> show ?thesis by (cases b) auto
  qed (use HStr in \<open>auto simp: eq_us.simps\<close>)
next
  case (HBool s)
  have cb: "heap_class h (unwrap h b) = ''Boolean''" and v: "num_eq (num_of h a) (num_of h (unwrap h b))"
    using c HBool by (auto simp: content_def by_value_def)
  have "heap_class h (unwrap h b) \<noteq> ''Function''" by (simp add: cb)
  then show ?thesis
  proof (cases rule: boxed_value)
    case prim
    with cb v HBool \<open>a \<noteq> b\<close> show ?thesis
      by (cases b) (auto simp: num_eq_def split: if_splits)
  qed (use HBool in \<open>auto simp: eq_us.simps\<close>)
qed (use content_not_nullish [OF c] in auto)

lemma eq_us_identical: "eq_us h a a S = Inr True"
  by (cases a) (auto simp: eq_us.simps same_zero_def num_eq_def)

lemma eq_members_all:
  "(\<And>u v. (u, Some v) \<in> set ms \<Longrightarrow> eq_us h u v S = Inr True) \<Longrightarrow> (\<And>u. (u, None) \<notin> set ms) \<Longrightarrow>
     eq_members h ms S = Inr True"
proof (induction ms)
  case (Cons m ms)
  then show ?case by (cases m; cases "snd m") auto
qed simp

lemma deepEq_complete_step:
  assumes wf: "heap_wf h" and rk: "ranked h rk" and c: "content h R (unwrap h a) (unwrap h b)"
    and S: "\<And>x. x \<in> fst ` set S \<Longrightarrow> below rk a (rk x)"
    and rec: "\<And>x y u v. unwrap h a = HRef x \<Longrightarrow> below rk u (rk x) \<Longrightarrow> rel h R u v \<Longrightarrow> eq_us h u v ((x, y) # S) = Inr True"
  shows "deepEq h a b S = Inr True"
proof (cases "by_value h (unwrap h a) (unwrap h b)")
  case (Some r)
  then show ?thesis using c by (auto simp: deepEq.simps content_def)
next
  case None
  then obtain x y where ab: "unwrap h a = HRef x" "unwrap h b = HRef y" and
    xy: "x < length h" "y < length h" "h ! x \<noteq> CFun" "h ! y \<noteq> CFun" "same_members h R (h ! x) (h ! y)"
    "cell_class (h ! x) = cell_class (h ! y)"
    using c by (auto simp: content_def cell_at_def)
  then obtain ms where ms: "members (h ! x) (h ! y) = Some ms" "list_all (pair_ok h R) ms"
    and ctor: "cell_class (h ! x) = ''Array'' \<or> \<not> ctor_differs (cell_ctor (h ! x)) (cell_ctor (h ! y))"
    using members_same [of "h ! x" "h ! y" h R] wf_nth [OF wf] by blast
  have "x \<notin> fst ` set S"
  proof
    assume "x \<in> fst ` set S"
    then have "below rk (unwrap h a) (rk x)" using S unwrap_below [OF rk] by blast
    then show False by (simp add: ab)
  qed
  then have fresh: "map_of S x = None" by (simp add: map_of_eq_None_iff)
  have "eq_members h ms ((x, y) # S) = Inr True"
  proof (rule eq_members_all)
    fix u v assume uv: "(u, Some v) \<in> set ms"
    have "below rk u (rk x)" using rk members_values [OF ms(1) uv] xy(1) unfolding ranked_def by blast
    moreover have "rel h R u v" using uv ms(2) by (force simp: list_all_iff)
    ultimately show "eq_us h u v ((x, y) # S) = Inr True" by (rule rec [OF ab(1)])
  qed (use ms(2) in \<open>force simp: list_all_iff\<close>)
  then show ?thesis
    using None ab xy ctor ms(1) fresh by (simp add: deepEq.simps cell_at_def)
qed

lemma eq_us_complete:
  assumes "heap_wf h" "no_boxed_nan h" "ranked h rk" "bisimulation h R"
  shows "below rk a n \<Longrightarrow> rel h R a b \<Longrightarrow> (\<And>x. x \<in> fst ` set S \<Longrightarrow> below rk a (rk x)) \<Longrightarrow>
     eq_us h a b S = Inr True"
proof (induction n arbitrary: a b S rule: less_induct)
  case (less n)
  show ?case
  proof (cases "a = b")
    case False
    then have c: "content h R (unwrap h a) (unwrap h b)"
      using less.prems(2) assms(4) by (auto simp: rel_def bisimulation_def)
    have "deepEq h a b S = Inr True"
    proof (rule deepEq_complete_step [OF assms(1,3) c less.prems(3)])
      fix x y u v assume x: "unwrap h a = HRef x" and u: "below rk u (rk x)" "rel h R u v"
      have lt: "rk x < n" using unwrap_below [OF assms(3) less.prems(1)] x by blast
      show "eq_us h u v ((x, y) # S) = Inr True"
      proof (rule less.IH [OF lt u])
        fix z assume "z \<in> fst ` set ((x, y) # S)"
        then consider "z = x" | "z \<in> fst ` set S" by auto
        then show "below rk u (rk z)"
        proof cases
          case 2
          then have "rk x < rk z" using unwrap_below [OF assms(3) less.prems(3)] x by blast
          with u(1) show ?thesis by (metis less_trans)
        qed (use u in simp)
      qed
    qed
    then show ?thesis using content_reaches_deepEq [OF assms(1,2) c False] by simp
  qed (simp add: eq_us_identical)
qed

text \<open>C11: On heaps without cycles of references, deep comparison finds every equality: if the values are
  equal in the sense of the specification (and no \<open>NaN\<close> is boxed or wrapped), \<open>_.isEqual\<close> returns true.\<close>

theorem isEqual_complete:
  assumes "heap_wf h" "no_boxed_nan h" "ranked h rk" "bisimulation h R" "rel h R a b"
  shows "isEqual h a b = Inr True"
  unfolding isEqual_def
  by (rule eq_us_complete [OF assms(1-4) _ assms(5), of "case a of HRef x \<Rightarrow> Suc (rk x) | _ \<Rightarrow> 0"]) auto

text \<open>Deep comparison is not symmetric on \<open>NaN\<close>: a \<open>Number\<close> object that holds \<open>NaN\<close> equals the primitive
  \<open>NaN\<close> but not the other way round; nor is it complete on cycles of different lengths; and comparing
  two wrapped \<open>null\<close>s raises a \<open>TypeError\<close>.\<close>

theorem isEqual_limits:
  "isEqual [CNum NaN] (HRef 0) (HNum NaN) = Inr True \<and> isEqual [CNum NaN] (HNum NaN) (HRef 0) = Inr False
   \<and> isEqual [CArr [HRef 0], CArr [HRef 2], CArr [HRef 1]] (HRef 0) (HRef 1) = Inr False
   \<and> isEqual [CWrap HNull, CWrap HNull] (HRef 0) (HRef 1) = Inl TypeError"
  by (simp add: isEqual_def eq_us.simps deepEq.simps by_value_def unwrap_def cell_at_def num_of_def num_eq_def
      members_def)

text \<open>A structure that refers to itself, and a copy of it that is compared with it.\<close>

definition loop_heap :: heap where
  "loop_heap = [CArr [HNum (Fin 1), HRef 0], CArr [HNum (Fin 1), HRef 1]]"

theorem isEqual_sound_witness: "\<exists>R. bisimulation loop_heap R \<and> rel loop_heap R (HRef 0) (HRef 1)"
proof (rule isEqual_sound)
  show "heap_wf loop_heap" by (simp add: loop_heap_def)
  show "isEqual loop_heap (HRef 0) (HRef 1) = Inr True"
    by (simp add: isEqual_def loop_heap_def eq_us.simps deepEq.simps by_value_def unwrap_def cell_at_def
        num_eq_def members_def same_zero_def)
qed

definition pair_heap :: heap where
  "pair_heap = [CArr [HNum (Fin 1), HStr ''a''], CArr [HNum (Fin 1), HStr ''a'']]"

theorem isEqual_complete_witness: "isEqual pair_heap (HRef 0) (HRef 1) = Inr True"
proof (rule isEqual_complete)
  show "heap_wf pair_heap" "no_boxed_nan pair_heap" by (simp_all add: pair_heap_def)
  show "ranked pair_heap (\<lambda>_. 0)" by (auto simp: ranked_def pair_heap_def less_Suc_eq)
  show "bisimulation pair_heap {(HRef 0, HRef 1)}"
    by (simp add: bisimulation_def content_def pair_heap_def cell_at_def by_value_def same_members_def rel_def)
  show "rel pair_heap {(HRef 0, HRef 1)} (HRef 0) (HRef 1)"
    by (simp add: rel_def pair_heap_def unwrap_def cell_at_def)
qed

end
