(* ===== verification/UnderscoreFunctions.thy ===== *)
theory UnderscoreFunctions
  imports JsValue
begin

text \<open>
  The function combinators of \<open>docs/_static/underscore-1.13.1.js\<close>: argument handling, counting and
  caching wrappers, and the two rate limiters \<open>_.throttle\<close> and \<open>_.debounce\<close> as machines driven by calls,
  timer callbacks and cancellations at non-decreasing times.  A wrapped function does not call its
  wrapper again.
\<close>

section \<open>Arguments\<close>

text \<open>
  \<open>restArguments\<close>: the arguments the wrapped function receives; the last one is the array \<open>rest\<close>.  For
  a start index of \<open>-1\<close> the array is stored beside the empty argument list and not passed on; for a
  smaller one the creation of the argument list raises.
\<close>

definition rest_of :: "int option \<Rightarrow> nat \<Rightarrow> int" where
  "rest_of startIndex func_length = (case startIndex of None \<Rightarrow> int func_length - 1 | Some i \<Rightarrow> i)"

definition restArguments :: "int option \<Rightarrow> nat \<Rightarrow> nat \<Rightarrow> jsval list \<Rightarrow> js_error + jsval list" where
  "restArguments startIndex func_length fresh arguments =
     (let start = rest_of startIndex func_length;
          len = max (int (length arguments) - start) 0;
          rest = map (\<lambda>index. elem_at arguments (int index + start)) [0..<nat len] in
      if start < - 1 then Inl (ErrorMsg ''RangeError'')
      else if start = - 1 then Inr []
      else Inr (map (\<lambda>index. elem_at arguments (int index)) [0..<nat start] @ [VArr fresh rest]))"

text \<open>The arguments of a function made by \<open>_.partial\<close>; \<open>None\<close> is the placeholder.\<close>

fun fill :: "jsval option list \<Rightarrow> jsval list \<Rightarrow> jsval list" where
  "fill [] arguments = arguments"
| "fill (Some v # boundArgs) arguments = v # fill boundArgs arguments"
| "fill (None # boundArgs) arguments = elem_at arguments 0 # fill boundArgs (tl arguments)"

definition partial_us :: "(jsval list \<Rightarrow> 'r) \<Rightarrow> jsval option list \<Rightarrow> jsval list \<Rightarrow> 'r" where
  "partial_us func boundArgs arguments = func (fill boundArgs arguments)"

definition bind_us :: "(jsval \<Rightarrow> jsval list \<Rightarrow> 'r) \<Rightarrow> jsval \<Rightarrow> jsval list \<Rightarrow> jsval list \<Rightarrow> 'r" where
  "bind_us func context args callArgs = func context (args @ callArgs)"

text \<open>\<open>_.compose\<close>; without functions the call of \<open>args[-1]\<close> raises.\<close>

definition compose_us :: "(jsval list \<Rightarrow> jsval) list \<Rightarrow> jsval list \<Rightarrow> js_error + jsval" where
  "compose_us args arguments =
     (if args = [] then Inl TypeError
      else Inr (fold (\<lambda>f result. f [result]) (rev (butlast args)) (last args arguments)))"

section \<open>Counting and caching\<close>

text \<open>The counter \<open>times\<close> of \<open>_.after\<close>; the second result is what the call returns, if it runs.\<close>

definition after_call :: "('a \<Rightarrow> 'r) \<Rightarrow> 'a \<Rightarrow> int \<Rightarrow> int \<times> 'r option" where
  "after_call func arg n =
     (let times' = n - 1 in (times', if times' < 1 then Some (func arg) else None))"

record 'r before_state =
  b_times :: int
  b_memo :: "'r option"
  b_runs :: nat \<comment> \<open>how often the function was run\<close>

definition before_call :: "('a \<Rightarrow> 'r) \<Rightarrow> 'a \<Rightarrow> 'r before_state \<Rightarrow> 'r before_state \<times> 'r option" where
  "before_call func arg s =
     (let times' = b_times s - 1;
          s' = (if times' > 0 then s\<lparr>b_times := times', b_memo := Some (func arg), b_runs := b_runs s + 1\<rparr>
                else s\<lparr>b_times := times'\<rparr>) in
      (s', b_memo s'))"

definition before_init :: "int \<Rightarrow> 'r before_state" where
  "before_init n = \<lparr>b_times = n, b_memo = None, b_runs = 0\<rparr>"

definition once_init :: "'r before_state" where
  "once_init = before_init 2"

text \<open>\<open>_.memoize\<close>; the state is the cache and the arguments the function was run with.\<close>

definition memoize_call ::
  "('a \<Rightarrow> 'r) \<Rightarrow> ('a \<Rightarrow> string) \<Rightarrow> 'a \<Rightarrow> (string, 'r) dict \<times> 'a list \<Rightarrow> 'r \<times> (string, 'r) dict \<times> 'a list" where
  "memoize_call func address arg = (\<lambda>(cache, runs).
     (case map_of cache (address arg) of
        Some r \<Rightarrow> (r, cache, runs)
      | None \<Rightarrow> (func arg, dict_set (address arg) (func arg) cache, runs @ [arg])))"

section \<open>Rate limiters\<close>

datatype 'a event = Call 'a | Fire | Cancel

text \<open>
  A timer is set to a due time and may fire at any later moment; \<open>due\<close> is \<open>None\<close> if there is none.  The
  field \<open>runs\<close> records the times and arguments the wrapped function was run with.
\<close>

record 'a limiter =
  clock :: int
  due :: "int option"
  pending :: "'a option"
  previous :: int
  runs :: "(int \<times> 'a) list"

record throttle_options =
  leading :: bool
  trailing :: bool

definition limiter_init :: "'a limiter" where
  "limiter_init = \<lparr>clock = 0, due = None, pending = None, previous = 0, runs = []\<rparr>"

definition run_pending :: "int \<Rightarrow> 'a limiter \<Rightarrow> 'a limiter" where
  "run_pending t s = s\<lparr>runs := (case pending s of Some a \<Rightarrow> runs s @ [(t, a)] | None \<Rightarrow> runs s), pending := None\<rparr>"

definition throttle_later :: "throttle_options \<Rightarrow> int \<Rightarrow> 'a limiter \<Rightarrow> 'a limiter" where
  "throttle_later opt t s =
     run_pending t (s\<lparr>previous := (if \<not> leading opt then 0 else t), due := None\<rparr>)"

definition throttled :: "int \<Rightarrow> throttle_options \<Rightarrow> int \<Rightarrow> 'a \<Rightarrow> 'a limiter \<Rightarrow> 'a limiter" where
  "throttled wait opt t a s =
     (let prev = (if previous s = 0 \<and> \<not> leading opt then t else previous s);
          remaining = wait - (t - prev);
          s' = s\<lparr>previous := prev, pending := Some a\<rparr> in
      if remaining \<le> 0 \<or> remaining > wait then run_pending t (s'\<lparr>due := None, previous := t\<rparr>)
      else if due s' = None \<and> trailing opt then s'\<lparr>due := Some (t + remaining)\<rparr>
      else s')"

definition throttle_cancel :: "'a limiter \<Rightarrow> 'a limiter" where
  "throttle_cancel s = s\<lparr>previous := 0, due := None, pending := None\<rparr>"

definition debounce_later :: "int \<Rightarrow> bool \<Rightarrow> int \<Rightarrow> 'a limiter \<Rightarrow> 'a limiter" where
  "debounce_later wait immediate t s =
     (let passed = t - previous s in
      if wait > passed then s\<lparr>due := Some (t + (wait - passed))\<rparr>
      else if \<not> immediate then run_pending t (s\<lparr>due := None\<rparr>)
      else s\<lparr>due := None, pending := None\<rparr>)"

definition debounced :: "int \<Rightarrow> bool \<Rightarrow> int \<Rightarrow> 'a \<Rightarrow> 'a limiter \<Rightarrow> 'a limiter" where
  "debounced wait immediate t a s =
     (let s' = s\<lparr>pending := Some a, previous := t\<rparr> in
      if due s = None then
        (if immediate then (run_pending t (s'\<lparr>due := Some (t + wait)\<rparr>))\<lparr>pending := Some a\<rparr>
         else s'\<lparr>due := Some (t + wait)\<rparr>)
      else s')"

definition debounce_cancel :: "'a limiter \<Rightarrow> 'a limiter" where
  "debounce_cancel s = s\<lparr>due := None, pending := None\<rparr>"

text \<open>One event at time \<open>t\<close>; \<open>None\<close> if it cannot happen: time runs forward, a timer fires when due.\<close>

definition event_step ::
  "(int \<Rightarrow> 'a \<Rightarrow> 'a limiter \<Rightarrow> 'a limiter) \<Rightarrow> (int \<Rightarrow> 'a limiter \<Rightarrow> 'a limiter) \<Rightarrow> ('a limiter \<Rightarrow> 'a limiter)
     \<Rightarrow> int \<times> 'a event \<Rightarrow> 'a limiter \<Rightarrow> 'a limiter option" where
  "event_step call later cancel te s =
     (case te of (t, e) \<Rightarrow>
        if t < clock s \<or> t \<le> 0 then None
        else (let s' = s\<lparr>clock := t\<rparr> in
              case e of
                Call a \<Rightarrow> Some (call t a s')
              | Fire \<Rightarrow> (case due s of Some d \<Rightarrow> if d \<le> t then Some (later t s') else None | None \<Rightarrow> None)
              | Cancel \<Rightarrow> Some (cancel s')))"

fun run_events :: "('e \<Rightarrow> 's \<Rightarrow> 's option) \<Rightarrow> 'e list \<Rightarrow> 's \<Rightarrow> 's option" where
  "run_events step [] s = Some s"
| "run_events step (e # es) s = (case step e s of None \<Rightarrow> None | Some s' \<Rightarrow> run_events step es s')"

abbreviation throttle_step :: "int \<Rightarrow> throttle_options \<Rightarrow> int \<times> 'a event \<Rightarrow> 'a limiter \<Rightarrow> 'a limiter option" where
  "throttle_step wait opt \<equiv> event_step (throttled wait opt) (throttle_later opt) throttle_cancel"

abbreviation debounce_step :: "int \<Rightarrow> bool \<Rightarrow> int \<times> 'a event \<Rightarrow> 'a limiter \<Rightarrow> 'a limiter option" where
  "debounce_step wait immediate \<equiv> event_step (debounced wait immediate) (debounce_later wait immediate) debounce_cancel"

section \<open>Runs of machines\<close>

lemma run_events_snoc:
  "run_events step (es @ [e]) s = (case run_events step es s of None \<Rightarrow> None | Some s' \<Rightarrow> step e s')"
  by (induction es arbitrary: s) (auto split: option.splits)

text \<open>A property of the events so far and the state that every step keeps holds after every run.\<close>

lemma run_events_induct [consumes 1, case_names init step]:
  assumes "run_events step es s0 = Some s"
    and "P [] s0"
    and "\<And>es s e s'. run_events step es s0 = Some s \<Longrightarrow> P es s \<Longrightarrow> step e s = Some s' \<Longrightarrow> P (es @ [e]) s'"
  shows "P es s"
  using assms(1)
proof (induction es arbitrary: s rule: rev_induct)
  case (snoc e es)
  then obtain s' where "run_events step es s0 = Some s'" "step e s' = Some s"
    by (auto simp: run_events_snoc split: option.splits)
  then show ?case using snoc.IH assms(3) by blast
qed (use assms(2) in simp)

lemma event_step_cases [consumes 1, case_names Call Fire Cancel]:
  assumes "event_step call later cancel te s = Some s'"
  obtains (Call) t a where "te = (t, Call a)" "clock s \<le> t" "0 < t" "s' = call t a (s\<lparr>clock := t\<rparr>)"
  | (Fire) t d where "te = (t, Fire)" "clock s \<le> t" "0 < t" "due s = Some d" "d \<le> t" "s' = later t (s\<lparr>clock := t\<rparr>)"
  | (Cancel) t where "te = (t, Cancel)" "clock s \<le> t" "0 < t" "s' = cancel (s\<lparr>clock := t\<rparr>)"
  using assms
  by (cases te; cases "snd te") (auto simp: event_step_def Let_def split: if_splits option.splits)

text \<open>Times that follow each other by at least a distance.\<close>

fun spaced :: "int \<Rightarrow> int list \<Rightarrow> bool" where
  "spaced w (x # y # ts) = (x + w \<le> y \<and> spaced w (y # ts))"
| "spaced w _ = True"

lemma spaced_snoc: "spaced w (ts @ [t]) \<longleftrightarrow> spaced w ts \<and> (ts \<noteq> [] \<longrightarrow> last ts + w \<le> t)"
  by (induction w ts rule: spaced.induct) auto

section \<open>Throttling: facts\<close>

definition throttle_inv :: "int \<Rightarrow> throttle_options \<Rightarrow> 'a limiter \<Rightarrow> bool" where
  "throttle_inv wait opt s \<longleftrightarrow>
     0 \<le> previous s \<and> previous s \<le> clock s \<and> spaced wait (map fst (runs s))
     \<and> (\<forall>d. due s = Some d \<longrightarrow> d = previous s + wait \<and> (leading opt \<or> previous s \<noteq> 0))
     \<and> (runs s \<noteq> [] \<longrightarrow> fst (last (runs s)) \<le> clock s \<and> (fst (last (runs s)) \<le> previous s \<or> \<not> leading opt \<and> previous s = 0))"

abbreviation not_cancel :: "int \<times> 'a event \<Rightarrow> bool" where
  "not_cancel te \<equiv> snd te \<noteq> Cancel"

lemma throttle_inv_step:
  assumes "throttle_inv wait opt s" "throttle_step wait opt te s = Some s'" "not_cancel te"
  shows "throttle_inv wait opt s'"
  using assms(2)
proof (cases rule: event_step_cases)
  case (Call t a)
  with assms(1) show ?thesis
    by (auto simp: throttle_inv_def throttled_def Let_def run_pending_def spaced_snoc last_map)
next
  case (Fire t d)
  with assms(1) show ?thesis
    by (auto simp: throttle_inv_def throttle_later_def run_pending_def spaced_snoc last_map split: option.splits)
qed (use assms(3) in simp)

text \<open>C12: A throttled function that is not cancelled never runs twice within the waiting time, whatever the
  options, the times of the calls and the delays of the timer.\<close>

theorem throttle_rate:
  assumes "run_events (throttle_step wait opt) es limiter_init = Some s" "list_all not_cancel es"
  shows "spaced wait (map fst (runs s))"
proof -
  have "list_all not_cancel es \<longrightarrow> throttle_inv wait opt s"
    using assms(1)
  proof (induction rule: run_events_induct)
    case init
    then show ?case by (simp add: throttle_inv_def limiter_init_def)
  next
    case (step es s e s')
    then show ?case using throttle_inv_step [of wait opt s e s'] by auto
  qed
  with assms(2) show ?thesis by (simp add: throttle_inv_def)
qed

theorem throttle_rate_witness:
  "\<exists>s. run_events (throttle_step 10 \<lparr>leading = True, trailing = True\<rparr>)
       [(100, Call ''a''), (103, Call ''b''), (112, Fire)] limiter_init = Some s
     \<and> spaced 10 (map fst (runs s)) \<and> length (runs s) = 2"
proof -
  let ?es = "[(100, Call ''a''), (103, Call ''b''), (112, Fire)]"
  obtain s where s: "run_events (throttle_step 10 \<lparr>leading = True, trailing = True\<rparr>) ?es limiter_init = Some s"
    "length (runs s) = 2"
    by (simp add: event_step_def throttled_def throttle_later_def run_pending_def limiter_init_def)
  with throttle_rate [OF s(1)] show ?thesis by auto
qed

text \<open>The last call that has not been cancelled.\<close>

fun latest :: "(int \<times> 'a event) list \<Rightarrow> (int \<times> 'a) option" where
  "latest es =
     fold (\<lambda>(t, e) l. case e of Call a \<Rightarrow> Some (t, a) | Fire \<Rightarrow> l | Cancel \<Rightarrow> None) es None"

declare latest.simps [simp del]

lemma latest_snoc:
  "latest [] = None" "latest (es @ [(t, Call a)]) = Some (t, a)" "latest (es @ [(t, Fire)]) = latest es"
  "latest (es @ [(t, Cancel)]) = None"
  by (simp_all add: latest.simps)

text \<open>A request is served by a later run with its argument, or waits for a timer that is due in time.\<close>

definition served :: "int \<times> 'a \<Rightarrow> 'a limiter \<Rightarrow> bool" where
  "served req s \<longleftrightarrow> runs s \<noteq> [] \<and> snd (last (runs s)) = snd req \<and> fst req \<le> fst (last (runs s))"

definition throttle_serves :: "int \<Rightarrow> throttle_options \<Rightarrow> (int \<times> 'a event) list \<Rightarrow> 'a limiter \<Rightarrow> bool" where
  "throttle_serves wait opt es s \<longleftrightarrow>
     0 \<le> previous s \<and> previous s \<le> clock s
     \<and> (\<forall>d. due s = Some d \<longrightarrow> d = previous s + wait \<and> (leading opt \<or> previous s \<noteq> 0) \<and> pending s \<noteq> None)
     \<and> (\<forall>tc a. latest es = Some (tc, a) \<longrightarrow> tc \<le> clock s \<and>
          (served (tc, a) s \<and> due s = None \<or> pending s = Some a \<and> due s \<noteq> None \<and> previous s \<le> tc))"

lemma throttle_serves_step:
  assumes "trailing opt" "throttle_serves wait opt es s" "throttle_step wait opt te s = Some s'"
  shows "throttle_serves wait opt (es @ [te]) s'"
  using assms(3)
proof (cases rule: event_step_cases)
  case (Call t a)
  with assms(1,2) show ?thesis
    by (auto simp: throttle_serves_def throttled_def Let_def run_pending_def latest_snoc served_def)
next
  case (Fire t d)
  with assms(2) show ?thesis
    by (auto simp: throttle_serves_def throttle_later_def run_pending_def latest_snoc served_def split: option.splits)
next
  case (Cancel t)
  with assms(2) show ?thesis by (auto simp: throttle_serves_def throttle_cancel_def latest_snoc)
qed

text \<open>C13: With the trailing edge enabled, a throttled function loses no last call: unless it was cancelled,
  the last call either has been followed by a run with its argument, or its argument is pending and
  a timer is due within the waiting time after the call.\<close>

theorem throttle_trailing:
  assumes "run_events (throttle_step wait opt) es limiter_init = Some s" "trailing opt"
    and "latest es = Some (tc, a)"
  shows "served (tc, a) s \<or> pending s = Some a \<and> (\<exists>d. due s = Some d \<and> d \<le> tc + wait)"
proof -
  have "throttle_serves wait opt es s"
    using assms(1)
  proof (induction rule: run_events_induct)
    case init
    then show ?case by (simp add: throttle_serves_def limiter_init_def latest_snoc)
  next
    case (step es s e s')
    then show ?case using throttle_serves_step [OF assms(2)] by blast
  qed
  with assms(3) show ?thesis by (fastforce simp: throttle_serves_def)
qed

theorem throttle_trailing_witness:
  "\<exists>s. run_events (throttle_step 10 \<lparr>leading = True, trailing = True\<rparr>)
       [(100, Call ''a''), (103, Call ''b'')] limiter_init = Some s
     \<and> (served (103, ''b'') s \<or> pending s = Some ''b'' \<and> (\<exists>d. due s = Some d \<and> d \<le> 103 + 10))"
proof -
  let ?es = "[(100, Call ''a''), (103, Call ''b'')]"
  obtain s where s: "run_events (throttle_step 10 \<lparr>leading = True, trailing = True\<rparr>) ?es limiter_init = Some s"
    by (simp add: event_step_def throttled_def run_pending_def limiter_init_def)
  have "latest ?es = Some (103, ''b'')" by (simp add: latest.simps)
  with throttle_trailing [OF s] s show ?thesis by auto
qed

section \<open>Debouncing: facts\<close>

text \<open>The last call, cancelled or not.\<close>

definition last_call :: "(int \<times> 'a event) list \<Rightarrow> (int \<times> 'a) option" where
  "last_call es = fold (\<lambda>(t, e) l. case e of Call a \<Rightarrow> Some (t, a) | _ \<Rightarrow> l) es None"

lemma last_call_snoc:
  "last_call [] = None" "last_call (es @ [(t, Call a)]) = Some (t, a)" "last_call (es @ [(t, Fire)]) = last_call es"
  "last_call (es @ [(t, Cancel)]) = last_call es"
  by (simp_all add: last_call_def)

definition debounce_inv :: "int \<Rightarrow> (int \<times> 'a event) list \<Rightarrow> 'a limiter \<Rightarrow> bool" where
  "debounce_inv wait es s \<longleftrightarrow>
     (due s \<noteq> None \<longrightarrow> (\<exists>a. last_call es = Some (previous s, a) \<and> pending s = Some a))
     \<and> (\<forall>tc a. latest es = Some (tc, a) \<longrightarrow> last_call es = Some (tc, a) \<and>
          (due s \<noteq> None \<or> runs s \<noteq> [] \<and> snd (last (runs s)) = a \<and> tc + wait \<le> fst (last (runs s))))"

lemma debounce_inv_step:
  assumes "debounce_inv wait es s" "debounce_step wait False te s = Some s'"
  shows "debounce_inv wait (es @ [te]) s'"
  using assms(2)
proof (cases rule: event_step_cases)
  case (Call t a)
  with assms(1) show ?thesis
    by (auto simp: debounce_inv_def debounced_def Let_def latest_snoc last_call_snoc)
next
  case (Fire t d)
  with assms(1) show ?thesis
    by (auto simp: debounce_inv_def debounce_later_def Let_def run_pending_def latest_snoc last_call_snoc)
next
  case (Cancel t)
  with assms(1) show ?thesis by (auto simp: debounce_inv_def debounce_cancel_def latest_snoc last_call_snoc)
qed

lemma debounce_run_inv:
  "run_events (debounce_step wait False) es limiter_init = Some s \<Longrightarrow> debounce_inv wait es s"
proof (induction rule: run_events_induct)
  case init
  then show ?case by (simp add: debounce_inv_def limiter_init_def latest_snoc)
next
  case (step es s e s')
  then show ?case using debounce_inv_step by blast
qed

text \<open>C14: A debounced function (trailing edge) runs only from its timer, when no call has been made for the
  waiting time, and with the argument of the last call; and as long as the last call is neither
  cancelled nor followed by its run, a timer is set.\<close>

theorem debounce_trailing_edge:
  assumes "run_events (debounce_step wait False) es limiter_init = Some s"
    and "debounce_step wait False (t, e) s = Some s'"
  shows "(runs s' = runs s \<or>
          e = Fire \<and> (\<exists>tc a. last_call es = Some (tc, a) \<and> tc + wait \<le> t \<and> runs s' = runs s @ [(t, a)]))
    \<and> (\<forall>tc a. latest es = Some (tc, a) \<longrightarrow> due s \<noteq> None \<or>
          runs s \<noteq> [] \<and> snd (last (runs s)) = a \<and> tc + wait \<le> fst (last (runs s)))"
proof
  note inv = debounce_run_inv [OF assms(1)]
  show "runs s' = runs s \<or>
      e = Fire \<and> (\<exists>tc a. last_call es = Some (tc, a) \<and> tc + wait \<le> t \<and> runs s' = runs s @ [(t, a)])"
    using assms(2)
  proof (cases rule: event_step_cases)
    case (Fire t' d)
    with inv show ?thesis by (auto simp: debounce_inv_def debounce_later_def Let_def run_pending_def)
  qed (auto simp: debounced_def debounce_cancel_def Let_def)
  show "\<forall>tc a. latest es = Some (tc, a) \<longrightarrow> due s \<noteq> None \<or>
          runs s \<noteq> [] \<and> snd (last (runs s)) = a \<and> tc + wait \<le> fst (last (runs s))"
    using inv by (auto simp: debounce_inv_def)
qed

theorem debounce_trailing_edge_witness:
  "\<exists>s s'. run_events (debounce_step 10 False) [(100, Call ''a''), (105, Call ''b''), (110, Fire)] limiter_init = Some s
     \<and> debounce_step 10 False (120, Fire) s = Some s'
     \<and> (runs s' = runs s \<or> (\<exists>tc. last_call [(100, Call ''a''), (105, Call ''b''), (110, Fire)] = Some (tc, ''b'')
           \<and> tc + 10 \<le> 120 \<and> runs s' = runs s @ [(120, ''b'')]))"
proof -
  let ?es = "[(100, Call ''a''), (105, Call ''b''), (110, Fire)]"
  obtain s s' where s: "run_events (debounce_step 10 False) ?es limiter_init = Some s"
    "debounce_step 10 False (120, Fire) s = Some s'"
    by (simp add: event_step_def debounced_def debounce_later_def run_pending_def limiter_init_def)
  have "last_call ?es = Some (105, ''b'')" by (simp add: last_call_def)
  with debounce_trailing_edge [OF s] s show ?thesis by auto
qed

section \<open>Counting and caching: facts\<close>

text \<open>The results of calling a wrapper on a list of arguments.\<close>

fun memo_calls ::
  "('a \<Rightarrow> 'r) \<Rightarrow> ('a \<Rightarrow> string) \<Rightarrow> 'a list \<Rightarrow> (string, 'r) dict \<times> 'a list \<Rightarrow> 'r list \<times> (string, 'r) dict \<times> 'a list" where
  "memo_calls f h [] s = ([], s)"
| "memo_calls f h (x # xs) s =
     (let (r, s') = memoize_call f h x s; (rs, s'') = memo_calls f h xs s' in (r # rs, s''))"

lemma memo_calls_results:
  assumes "\<And>x y. h x = h y \<Longrightarrow> f x = f y"
  shows "(\<And>k r. map_of cache k = Some r \<Longrightarrow> \<exists>x. h x = k \<and> r = f x) \<Longrightarrow> set (map fst cache) = h ` set seen \<Longrightarrow>
     distinct (map h seen) \<Longrightarrow> memo_calls f h xs (cache, seen) = (rs, cache', seen') \<Longrightarrow>
     rs = map f xs \<and> distinct (map h seen') \<and> h ` set seen' = h ` set seen \<union> h ` set xs"
proof (induction xs arbitrary: cache seen rs)
  case (Cons x xs)
  show ?case
  proof (cases "map_of cache (h x)")
    case None
    then have new: "h x \<notin> h ` set seen" using Cons.prems(2) by (auto simp: map_of_eq_None_iff)
    obtain rs1 where rs1: "memo_calls f h xs (dict_set (h x) (f x) cache, seen @ [x]) = (rs1, cache', seen')"
      "rs = f x # rs1"
      using Cons.prems(4) None by (auto simp: memoize_call_def split: prod.splits)
    have keys: "set (map fst (dict_set (h x) (f x) cache)) = h ` set (seen @ [x])"
      using Cons.prems(2) None by (auto simp: dict_keys_set dict_has_iff)
    have vals: "\<exists>z. h z = k \<and> r = f z" if "map_of (dict_set (h x) (f x) cache) k = Some r" for k r
      using that Cons.prems(1) by (auto split: if_splits)
    have "distinct (map h (seen @ [x]))" using Cons.prems(3) new by auto
    from Cons.IH [OF vals keys this rs1(1)] show ?thesis using rs1(2) by auto
  next
    case (Some r)
    then obtain y where y: "h y = h x" "r = f y" using Cons.prems(1) by blast
    obtain rs1 where rs1: "memo_calls f h xs (cache, seen) = (rs1, cache', seen')" "rs = r # rs1"
      using Cons.prems(4) Some by (auto simp: memoize_call_def split: prod.splits)
    have "h x \<in> h ` set seen" using Some Cons.prems(2) by (metis map_of_SomeD fst_conv image_eqI set_map)
    then show ?thesis
      using Cons.IH [OF Cons.prems(1,2,3) rs1(1)] rs1(2) y assms [of y x] by auto
  qed
qed auto

text \<open>If arguments with the same address have the same result, a memoized function returns what the
  function returns, and runs it exactly once for every address that occurs.\<close>

theorem memoize_correct:
  assumes "\<And>x y. h x = h y \<Longrightarrow> f x = f y"
    and "memo_calls f h xs ([], []) = (rs, cache, seen)"
  shows "rs = map f xs \<and> distinct (map h seen) \<and> h ` set seen = h ` set xs"
  using memo_calls_results [where h = h and f = f and cache = "[]" and seen = "[]", OF assms(1) _ _ _ assms(2)]
  by simp

theorem memoize_correct_witness:
  "\<exists>rs cache seen. memo_calls (\<lambda>n :: nat. n * n) nat_str [3, 4, 3] ([], []) = (rs, cache, seen)
     \<and> rs = [9, 16, 9] \<and> distinct (map nat_str seen)"
proof -
  obtain rs cache seen where r: "memo_calls (\<lambda>n :: nat. n * n) nat_str [3, 4, 3] ([], []) = (rs, cache, seen)"
    by (cases "memo_calls (\<lambda>n :: nat. n * n) nat_str [3, 4, 3] ([], [])") auto
  have "x * x = y * y" if "nat_str x = nat_str y" for x y using that by (simp add: nat_str_inject)
  from memoize_correct [OF this r] r show ?thesis by simp
qed

text \<open>Calling \<open>_.before(n, f)\<close> and \<open>_.after(n, f)\<close> again and again.\<close>

fun before_calls :: "('a \<Rightarrow> 'r) \<Rightarrow> 'a list \<Rightarrow> 'r before_state \<Rightarrow> 'r option list" where
  "before_calls f [] s = []"
| "before_calls f (x # xs) s = (let (s', r) = before_call f x s in r # before_calls f xs s')"

lemma before_calls_exhausted:
  "b_times s \<le> 1 \<Longrightarrow> before_calls f xs s = map (\<lambda>_. b_memo s) xs"
  by (induction xs arbitrary: s) (auto simp: before_call_def Let_def)

lemma before_calls_nth:
  "k < length xs \<Longrightarrow> 0 < n \<Longrightarrow> b_times s = int n \<Longrightarrow>
     before_calls f xs s ! k
       = (if n = 1 then b_memo s else Some (f (xs ! min k (n - 2))))"
proof (induction xs arbitrary: s k n)
  case (Cons x xs)
  show ?case
  proof (cases "n = 1")
    case True
    then show ?thesis using Cons.prems before_calls_exhausted [of s f "x # xs"] by (cases k) auto
  next
    case False
    define s' where "s' = s\<lparr>b_times := int n - 1, b_memo := Some (f x), b_runs := b_runs s + 1\<rparr>"
    have call: "before_call f x s = (s', Some (f x))"
      using False Cons.prems by (simp add: before_call_def Let_def s'_def)
    show ?thesis
    proof (cases k)
      case (Suc j)
      have "before_calls f xs s' ! j = (if n - 1 = 1 then b_memo s' else Some (f (xs ! min j (n - 1 - 2))))"
        using Cons.IH [of j "n - 1" s'] Cons.prems False Suc by (auto simp: s'_def)
      then show ?thesis
        using False Cons.prems Suc call by (auto simp: s'_def min_def numeral_2_eq_2 Suc_diff_Suc)
    qed (use call False in simp)
  qed
qed simp

lemma length_before_calls [simp]: "length (before_calls f xs s) = length xs"
  by (induction xs arbitrary: s) (auto split: prod.splits)

fun after_calls :: "('a \<Rightarrow> 'r) \<Rightarrow> 'a list \<Rightarrow> int \<Rightarrow> 'r option list" where
  "after_calls f [] n = []"
| "after_calls f (x # xs) n = (let (n', r) = after_call f x n in r # after_calls f xs n')"

lemma after_calls_nth:
  "k < length xs \<Longrightarrow> after_calls f xs n ! k = (if int k + 1 \<ge> n then Some (f (xs ! k)) else None)"
proof (induction xs arbitrary: n k)
  case (Cons x xs)
  then show ?case by (cases k) (auto simp: after_call_def Let_def)
qed simp

text \<open>\<open>_.after(n, f)\<close> runs \<open>f\<close> on the \<open>n\<close>-th and every later call; \<open>_.before(n, f)\<close> runs it on the calls
  before the \<open>n\<close>-th and then keeps returning the last result; \<open>_.once(f)\<close> always returns the result of
  the first call.\<close>

theorem counting_correct:
  assumes "k < length xs"
  shows "after_calls f xs n ! k = (if int k + 1 \<ge> n then Some (f (xs ! k)) else None)
    \<and> (2 \<le> m \<longrightarrow> before_calls f xs (before_init (int m)) ! k = Some (f (xs ! min k (m - 2))))
    \<and> before_calls f xs once_init ! k = Some (f (xs ! 0))"
  using after_calls_nth [OF assms, of f n] before_calls_nth [OF assms, of m "before_init (int m)" f]
    before_calls_nth [OF assms, of 2 once_init f]
  by (auto simp: before_init_def once_init_def)

theorem counting_correct_witness:
  "after_calls (\<lambda>x :: nat. x) [5, 6, 7] 2 ! 1 = Some 6 \<and> before_calls (\<lambda>x :: nat. x) [5, 6, 7] once_init ! 1 = Some 5"
  using counting_correct [of 1 "[5, 6, 7 :: nat]" "\<lambda>x. x" 2 2] by simp

end
