(* ===== verification/UnderscoreText.thy ===== *)
theory UnderscoreText
  imports UnderscoreObjects
begin

text \<open>
  The text functions of \<open>docs/_static/underscore-1.13.1.js\<close>: HTML escaping, the template compiler with
  the default delimiters, and unique identifiers.
\<close>

section \<open>Escaping\<close>

text \<open>
  \<open>createEscaper\<close>: the regular expression is the alternation of the keys, so that at every position
  the first key in order that stands there is replaced.
\<close>

function replace_keys :: "(string \<times> string) list \<Rightarrow> string \<Rightarrow> string" where
  "replace_keys m [] = []"
| "replace_keys m (c # s) =
     (case find (\<lambda>(k, v). prefix k (c # s)) m of
        Some (k, v) \<Rightarrow> v @ replace_keys m (drop (length k - 1) s)
      | None \<Rightarrow> c # replace_keys m s)"
  by pat_completeness auto
termination
  by (relation "measure (\<lambda>(m, s). length s)") auto

definition createEscaper :: "(string \<times> string) list \<Rightarrow> string option \<Rightarrow> string" where
  "createEscaper m str = (let s = (case str of None \<Rightarrow> [] | Some t \<Rightarrow> t) in
     if \<exists>(k, v) \<in> set m. sublist k s then replace_keys m s else s)"

definition escapeMap :: "(string \<times> string) list" where
  "escapeMap = [(''&'', ''&amp;''), (''<'', ''&lt;''), (''>'', ''&gt;''), ([CHR 0x22], ''&quot;''),
     ([CHR 0x27], ''&#x27;''), ([CHR 0x60], ''&#x60;'')]"

definition escape_us :: "string option \<Rightarrow> string" where
  "escape_us = createEscaper escapeMap"

definition unescapeMap :: "(string \<times> string) list" where
  "unescapeMap =
     map (\<lambda>(k, v). (k, to_string (\<lambda>_. []) v))
       (invert_us (\<lambda>_. []) (VObj 0 ''Object'' (map (\<lambda>(k, v). (k, VStr v)) escapeMap)))"

definition unescape_us :: "string option \<Rightarrow> string" where
  "unescape_us = createEscaper unescapeMap"

section \<open>Templates\<close>

text \<open>
  A match of the combined delimiters at the beginning of a text, in the order of the alternatives
  \<open><%-\<dots>%>\<close>, \<open><%=\<dots>%>\<close>, \<open><%\<dots>%>\<close>: the shortest non-empty body up to \<open>%>\<close>.
\<close>

datatype piece = Lit string | Escape string | Interpolate string | Evaluate string

fun body_end :: "string \<Rightarrow> (string \<times> string) option" where
  "body_end (c # s) =
     (if prefix ''%>'' s then Some ([c], drop 2 s)
      else map_option (\<lambda>(b, r). (c # b, r)) (body_end s))"
| "body_end [] = None"

definition delimited :: "string \<Rightarrow> string \<Rightarrow> (string \<times> string) option" where
  "delimited start s = (if prefix start s then body_end (drop (length start) s) else None)"

definition match_here :: "string \<Rightarrow> (piece \<times> string) option" where
  "match_here s =
     (case delimited ''<%-'' s of
        Some (b, r) \<Rightarrow> Some (Escape b, r)
      | None \<Rightarrow>
          (case delimited ''<%='' s of
             Some (b, r) \<Rightarrow> Some (Interpolate b, r)
           | None \<Rightarrow>
               (case delimited ''<%'' s of
                  Some (b, r) \<Rightarrow> Some (Evaluate b, r)
                | None \<Rightarrow> None)))"

lemma body_end_length: "body_end s = Some (b, r) \<Longrightarrow> length r < length s"
  by (induction s arbitrary: b r) (fastforce split: if_splits)+

lemma match_here_length: "match_here s = Some (p, r) \<Longrightarrow> length r < length s"
proof -
  have "delimited d s = Some (b, r) \<Longrightarrow> length r < length s" for d b r
    by (auto simp: delimited_def split: if_splits dest!: body_end_length)
  then show "match_here s = Some (p, r) \<Longrightarrow> length r < length s"
    by (auto simp: match_here_def split: option.splits)
qed

text \<open>The calls of the replacer, as pieces; \<open>lit\<close> is the text since the last match.\<close>

function scan :: "string \<Rightarrow> string \<Rightarrow> piece list" where
  "scan lit [] = [Lit lit]"
| "scan lit (c # s) =
     (case match_here (c # s) of
        Some (p, r) \<Rightarrow> Lit lit # p # scan [] r
      | None \<Rightarrow> scan (lit @ [c]) s)"
  by pat_completeness auto
termination
  by (relation "measure (\<lambda>(lit, s). length s)") (auto dest: match_here_length)

text \<open>\<open>escapeChar\<close> and the expression it is used with; the line separators U+2028 and U+2029 lie outside
  the modelled characters.\<close>

definition escape_char :: "char \<Rightarrow> string" where
  "escape_char c =
     (if c = CHR 0x27 then [CHR 0x5C, CHR 0x27]
      else if c = CHR 0x5C then [CHR 0x5C, CHR 0x5C]
      else if c = CHR 0x0D then [CHR 0x5C, CHR ''r'']
      else if c = CHR 0x0A then [CHR 0x5C, CHR ''n'']
      else [c])"

definition escape_literal :: "string \<Rightarrow> string" where
  "escape_literal s = concat (map escape_char s)"

abbreviation nl :: string where
  "nl \<equiv> [CHR 0x0A]"

abbreviation quote :: string where
  "quote \<equiv> [CHR 0x27]"

fun piece_source :: "piece \<Rightarrow> string" where
  "piece_source (Lit s) = escape_literal s"
| "piece_source (Escape b) =
     quote @ ''+'' @ nl @ ''((__t=('' @ b @ ''))==null?'' @ quote @ quote @ '':_.escape(__t))+'' @ nl @ quote"
| "piece_source (Interpolate b) =
     quote @ ''+'' @ nl @ ''((__t=('' @ b @ ''))==null?'' @ quote @ quote @ '':__t)+'' @ nl @ quote"
| "piece_source (Evaluate b) = quote @ '';'' @ nl @ b @ nl @ ''__p+='' @ quote"

definition is_word_char :: "char \<Rightarrow> bool" where
  "is_word_char c \<longleftrightarrow> is_digit c \<or> 65 \<le> code c \<and> code c \<le> 90 \<or> 97 \<le> code c \<and> code c \<le> 122
     \<or> c = CHR ''_'' \<or> c = CHR 0x24"

text \<open>\<open>/^\s*(\w|\$)+\s*$/\<close>.\<close>

definition bareIdentifier :: "string \<Rightarrow> bool" where
  "bareIdentifier s =
     (let t = dropWhile is_space s in
      takeWhile is_word_char t \<noteq> [] \<and> list_all is_space (dropWhile is_word_char t))"

text \<open>
  \<open>template\<close> up to the creation of the function: its parameter and its source, given the setting
  \<open>variable\<close> (empty if it is not set).
\<close>

definition template_us :: "string \<Rightarrow> string \<Rightarrow> js_error + string \<times> string" where
  "template_us txt variable =
     (let source = ''__p+='' @ quote @ concat (map piece_source (scan [] txt)) @ quote @ '';'' @ nl;
          prologue = ''var __t,__p='' @ quote @ quote @ '',__j=Array.prototype.join,''
            @ ''print=function(){__p+=__j.call(arguments,'' @ quote @ quote @ '');};'' @ nl;
          epilogue = ''return __p;'' @ nl in
      if variable \<noteq> [] then
        (if \<not> bareIdentifier variable
         then Inl (ErrorMsg (''variable is not a bare identifier: '' @ variable))
         else Inr (variable, prologue @ source @ epilogue))
      else Inr (''obj'', prologue @ ''with(obj||{}){'' @ nl @ source @ ''}'' @ nl @ epilogue))"

section \<open>Identifiers\<close>

definition uniqueId :: "string \<Rightarrow> nat \<Rightarrow> string \<times> nat" where
  "uniqueId pre idCounter =
     (let n = idCounter + 1; id = nat_str n in (if pre \<noteq> [] then pre @ id else id, n))"

fun unique_ids :: "string list \<Rightarrow> nat \<Rightarrow> string list" where
  "unique_ids [] n = []"
| "unique_ids (p # ps) n = (let (i, n') = uniqueId p n in i # unique_ids ps n')"

section \<open>Escaping: facts\<close>

lemma unescapeMap_eq:
  "unescapeMap = [(''&amp;'', ''&''), (''&lt;'', ''<''), (''&gt;'', ''>''), (''&quot;'', [CHR 0x22]),
     (''&#x27;'', [CHR 0x27]), (''&#x60;'', [CHR 0x60])]"
  by (simp add: unescapeMap_def escapeMap_def invert_us_def keys_us_def isObject_def)

text \<open>What escaping does to one character.\<close>

definition entity :: "char \<Rightarrow> string" where
  "entity c = (case map_of escapeMap [c] of Some e \<Rightarrow> e | None \<Rightarrow> [c])"

lemma replace_escape: "replace_keys escapeMap s = concat (map entity s)"
proof (induction s)
  case (Cons c s)
  then show ?case by (auto simp: escapeMap_def entity_def)
qed simp

lemma escape_concat: "escape_us (Some s) = concat (map entity s)"
proof (cases "\<exists>(k, v) \<in> set escapeMap. sublist k s")
  case False
  then have "\<And>k v. (k, v) \<in> set escapeMap \<Longrightarrow> \<not> sublist k s" by blast
  then have no: "c \<in> set s \<Longrightarrow> map_of escapeMap [c] = None" for c
    by (metis map_of_SomeD not_None_eq split_list sublist_appendI append_Cons append_Nil)
  have "concat (map entity s) = s"
    using no by (induction s) (auto simp: entity_def)
  then show ?thesis using False by (simp add: escape_us_def createEscaper_def)
qed (auto simp: escape_us_def createEscaper_def replace_escape)

lemma replace_keys_none: "(\<And>k v. (k, v) \<in> set m \<Longrightarrow> \<not> sublist k s) \<Longrightarrow> replace_keys m s = s"
proof (induction s)
  case (Cons c s)
  have none: "find (\<lambda>(k, v). prefix k (c # s)) m = None"
    using Cons.prems prefix_imp_sublist by (fastforce simp: find_None_iff)
  have "\<not> sublist k s" if "(k, v) \<in> set m" for k v
    using Cons.prems [OF that] by (auto simp: sublist_Cons_right)
  with Cons.IH none show ?case by simp
qed simp

lemma createEscaper_Some: "createEscaper m (Some s) = replace_keys m s"
proof (cases "\<exists>(k, v) \<in> set m. sublist k s")
  case False
  then have "replace_keys m s = s" by (intro replace_keys_none) blast
  then show ?thesis by (simp add: createEscaper_def)
qed (auto simp: createEscaper_def)

lemma unescape_entity: "replace_keys unescapeMap (entity c @ t) = c # replace_keys unescapeMap t"
  by (cases "c \<in> {CHR ''&'', CHR ''<'', CHR ''>'', CHR 0x22, CHR 0x27, CHR 0x60}")
     (auto simp: entity_def escapeMap_def unescapeMap_eq)

lemma unescape_entities: "replace_keys unescapeMap (concat (map entity s)) = s"
  by (induction s) (auto simp: unescape_entity)

lemma entity_safe: "x \<in> set (entity c) \<Longrightarrow> x \<notin> {CHR ''<'', CHR ''>'', CHR 0x22, CHR 0x27, CHR 0x60}"
  by (auto simp: entity_def escapeMap_def split: if_splits)

text \<open>Escaped text contains none of the characters that delimit HTML tags and attribute values, and
  \<open>_.unescape\<close> gives back every text that \<open>_.escape\<close> has escaped.\<close>

theorem escape_roundtrip:
  "unescape_us (Some (escape_us (Some s))) = s
   \<and> set (escape_us (Some s)) \<inter> {CHR ''<'', CHR ''>'', CHR 0x22, CHR 0x27, CHR 0x60} = {}"
proof
  show "unescape_us (Some (escape_us (Some s))) = s"
    by (simp add: unescape_us_def createEscaper_Some escape_concat unescape_entities)
  show "set (escape_us (Some s)) \<inter> {CHR ''<'', CHR ''>'', CHR 0x22, CHR 0x27, CHR 0x60} = {}"
    using entity_safe by (fastforce simp: escape_concat)
qed

section \<open>Templates: facts\<close>

text \<open>Reading the body of a string literal between apostrophes, up to its closing apostrophe.\<close>

fun read_literal :: "string \<Rightarrow> (string \<times> string) option" where
  "read_literal [] = None"
| "read_literal (c # s) =
     (if c = CHR 0x27 then Some ([], s)
      else if c = CHR 0x0A \<or> c = CHR 0x0D then None
      else if c = CHR 0x5C then
        (case s of
           [] \<Rightarrow> None
         | e # t \<Rightarrow>
             map_option (\<lambda>(v, r). ((if e = CHR ''n'' then CHR 0x0A else if e = CHR ''r'' then CHR 0x0D else e) # v, r))
               (read_literal t))
      else map_option (\<lambda>(v, r). (c # v, r)) (read_literal s))"

lemma read_escape_literal: "read_literal (escape_literal s @ CHR 0x27 # rest) = Some (s, rest)"
  by (induction s) (auto simp: escape_literal_def escape_char_def)

text \<open>The text a piece was made from.\<close>

fun piece_text :: "piece \<Rightarrow> string" where
  "piece_text (Lit s) = s"
| "piece_text (Escape b) = ''<%-'' @ b @ ''%>''"
| "piece_text (Interpolate b) = ''<%='' @ b @ ''%>''"
| "piece_text (Evaluate b) = ''<%'' @ b @ ''%>''"

lemma body_end_text: "body_end s = Some (b, r) \<Longrightarrow> s = b @ ''%>'' @ r \<and> b \<noteq> []"
proof (induction s arbitrary: b r)
  case (Cons c s)
  then show ?case by (auto split: if_splits elim!: prefixE)
qed simp

lemma delimited_text: "delimited d s = Some (b, r) \<Longrightarrow> s = d @ b @ ''%>'' @ r"
  by (auto simp: delimited_def split: if_splits elim!: prefixE dest!: body_end_text)

lemma match_here_text: "match_here s = Some (p, r) \<Longrightarrow> s = piece_text p @ r"
  by (auto simp: match_here_def split: option.splits dest!: delimited_text)

lemma scan_text: "concat (map piece_text (scan lit s)) = lit @ s"
  by (induction lit s rule: scan.induct) (auto split: option.splits dest!: match_here_text)

lemma scan_alternates: "\<exists>l ps. scan lit s = Lit (lit @ l) # ps"
  by (induction lit s rule: scan.induct) (auto split: option.splits)

text \<open>C17: The template compiler loses nothing and cannot be broken out of by the text: the pieces make up
  the template text again, and the source of a literal piece, read as a JavaScript string literal
  up to its closing apostrophe, is that piece.\<close>

theorem template_faithful:
  "concat (map piece_text (scan [] txt)) = txt
   \<and> read_literal (piece_source (Lit l) @ CHR 0x27 # rest) = Some (l, rest)
   \<and> (\<exists>p src. template_us txt [] = Inr (p, src) \<and> sublist (concat (map piece_source (scan [] txt))) src)"
proof (intro conjI)
  show "\<exists>p src. template_us txt [] = Inr (p, src) \<and> sublist (concat (map piece_source (scan [] txt))) src"
  proof -
    obtain ps ss where "template_us txt [] = Inr (''obj'', ps @ concat (map piece_source (scan [] txt)) @ ss)"
      using that [of "''var __t,__p='' @ quote @ quote @ '',__j=Array.prototype.join,''
            @ ''print=function(){__p+=__j.call(arguments,'' @ quote @ quote @ '');};'' @ nl
            @ ''with(obj||{}){'' @ nl @ ''__p+='' @ quote" "quote @ '';'' @ nl @ ''}'' @ nl @ ''return __p;'' @ nl"]
      unfolding template_us_def Let_def append_assoc by simp
    then show ?thesis using sublist_appendI by blast
  qed
qed (simp_all add: scan_text read_escape_literal)

text \<open>A template setting \<open>variable\<close> that is not a bare identifier is rejected before any code is made
  from it: every character of an accepted one is a word character, a dollar sign or white space.\<close>

theorem template_variable_checked:
  "template_us txt variable = Inr (p, src) \<Longrightarrow> variable \<noteq> [] \<Longrightarrow>
     p = variable \<and> (\<forall>c \<in> set variable. is_word_char c \<or> is_space c)"
proof -
  assume t: "template_us txt variable = Inr (p, src)" and ne: "variable \<noteq> []"
  then have b: "bareIdentifier variable" and p: "p = variable"
    by (auto simp: template_us_def Let_def split: if_splits)
  have "is_word_char c \<or> is_space c" if "c \<in> set variable" for c
  proof -
    let ?t = "dropWhile is_space variable"
    have "c \<in> set (takeWhile is_space variable) \<or> c \<in> set (takeWhile is_word_char ?t) \<or> c \<in> set (dropWhile is_word_char ?t)"
      using that by (metis Un_iff set_append takeWhile_dropWhile_id)
    then show ?thesis
      using b by (auto simp: bareIdentifier_def Let_def list_all_iff dest: set_takeWhileD)
  qed
  with p show ?thesis by blast
qed

theorem template_variable_checked_witness:
  "\<exists>src. template_us ''x'' ''data'' = Inr (''data'', src) \<and> (\<forall>c \<in> set ''data''. is_word_char c \<or> is_space c)"
proof -
  have "\<exists>src. template_us ''x'' ''data'' = Inr (''data'', src)"
    by (simp add: template_us_def bareIdentifier_def is_space_def is_word_char_def code_def is_digit_def)
  then obtain src where "template_us ''x'' ''data'' = Inr (''data'', src)" by blast
  with template_variable_checked [OF this] show ?thesis by blast
qed

section \<open>Identifiers: facts\<close>

lemma unique_ids_nth: "k < length ps \<Longrightarrow> unique_ids ps n ! k = ps ! k @ nat_str (n + k + 1)"
  by (induction ps arbitrary: n k) (auto simp: uniqueId_def Let_def nth_Cons split: nat.splits)

lemma length_unique_ids [simp]: "length (unique_ids ps n) = length ps"
  by (induction ps arbitrary: n) (auto simp: uniqueId_def Let_def)

lemma takeWhile_digits: "list_all (\<lambda>c. \<not> is_digit c) p \<Longrightarrow> dropWhile (\<lambda>c. \<not> is_digit c) (p @ nat_str n) = nat_str n"
proof -
  assume "list_all (\<lambda>c. \<not> is_digit c) p"
  then have "dropWhile (\<lambda>c. \<not> is_digit c) (p @ nat_str n) = dropWhile (\<lambda>c. \<not> is_digit c) (nat_str n)"
    by (induction p) auto
  also have "\<dots> = nat_str n"
    using nat_str_digits [of _ n] by (cases "nat_str n") auto
  finally show ?thesis .
qed

text \<open>The identifiers generated in one session with prefixes that contain no digits are all different;
  with a prefix that ends in a digit two of them can be equal.\<close>

theorem uniqueId_distinct:
  "(list_all (list_all (\<lambda>c. \<not> is_digit c)) pres \<longrightarrow> distinct (unique_ids pres n))
   \<and> \<not> distinct (unique_ids (''1'' # replicate 10 []) 0)"
proof
  show "list_all (list_all (\<lambda>c. \<not> is_digit c)) pres \<longrightarrow> distinct (unique_ids pres n)"
  proof
    assume *: "list_all (list_all (\<lambda>c. \<not> is_digit c)) pres"
    show "distinct (unique_ids pres n)"
      unfolding distinct_conv_nth
    proof (intro allI impI)
      fix i j assume ij: "i < length (unique_ids pres n)" "j < length (unique_ids pres n)" "i \<noteq> j"
      then have "dropWhile (\<lambda>c. \<not> is_digit c) (unique_ids pres n ! k) = nat_str (n + k + 1)" if "k \<in> {i, j}" for k
        using * that takeWhile_digits [of "pres ! k"] by (auto simp: unique_ids_nth list_all_length)
      then have "unique_ids pres n ! i = unique_ids pres n ! j \<Longrightarrow> nat_str (n + i + 1) = nat_str (n + j + 1)"
        by (metis insertCI)
      then show "unique_ids pres n ! i \<noteq> unique_ids pres n ! j" using ij(3) by (auto simp: nat_str_inject)
    qed
  qed
  have "nat_str 1 = ''1''" "nat_str 11 = ''11''" by code_simp+
  then have "unique_ids (''1'' # replicate 10 []) 0 ! 0 = unique_ids (''1'' # replicate 10 []) 0 ! 10"
    by (subst (1 2) unique_ids_nth) simp_all
  moreover have "length (unique_ids (''1'' # replicate 10 []) 0) = 11"
    by (simp only: length_unique_ids length_Cons length_replicate)
  ultimately show "\<not> distinct (unique_ids (''1'' # replicate 10 []) 0)"
    using nth_eq_iff_index_eq [of "unique_ids (''1'' # replicate 10 []) 0" 0 10] by linarith
qed

theorem uniqueId_distinct_witness: "distinct (unique_ids [''a'', [], ''b''] 7)"
  using uniqueId_distinct [of "[''a'', [], ''b'']" 7] by (simp add: is_digit_def code_def)

end
