(* ===== verification/JqueryCore.thy ===== *)
theory JqueryCore
  imports UnderscoreObjects UnderscoreEqual
begin

text \<open>
  The core of \<open>docs/_static/jquery-3.6.0.js\<close>: type tests, the static list functions, the methods of a
  matched set that only handle the set, and \<open>jQuery.extend\<close>.  The list functions work on values; as
  \<open>jQuery.extend\<close> mutates objects that may be shared, it works on the heap of
  \<open>UnderscoreEqual\<close>.
\<close>

section \<open>Type tests\<close>

text \<open>\<open>toType\<close>; for an object the class of \<open>class2type\<close>, or \<open>object\<close>.\<close>

definition class2type :: "string \<Rightarrow> string option" where
  "class2type name =
     (if name \<in> {''Boolean'', ''Number'', ''String'', ''Function'', ''Array'', ''Date'', ''RegExp'', ''Object'', ''Error'', ''Symbol''}
      then Some (toLowerCase name) else None)"

definition js_typeof :: "jsval \<Rightarrow> string" where
  "js_typeof v =
     (case v of
        VUndef \<Rightarrow> ''undefined'' | VNull \<Rightarrow> ''object'' | VBool _ \<Rightarrow> ''boolean'' | VNum _ \<Rightarrow> ''number''
      | VStr _ \<Rightarrow> ''string'' | VFun _ _ \<Rightarrow> ''function'' | VArr _ _ \<Rightarrow> ''object'' | VObj _ _ _ \<Rightarrow> ''object'')"

definition toType :: "jsval \<Rightarrow> string" where
  "toType obj =
     (if nullish obj then (if obj = VNull then ''null'' else ''undefined'')
      else if js_typeof obj = ''object'' \<or> js_typeof obj = ''function''
      then (case class2type (class_tag obj) of Some t \<Rightarrow> t | None \<Rightarrow> ''object'')
      else js_typeof obj)"

definition isFunction_jq :: "jsval \<Rightarrow> bool" where
  "isFunction_jq obj =
     (js_typeof obj = ''function'' \<and> js_typeof (getProp obj ''nodeType'') \<noteq> ''number''
      \<and> js_typeof (getProp obj ''item'') \<noteq> ''function'')"

definition isWindow :: "jsval \<Rightarrow> bool" where
  "isWindow obj = (\<not> nullish obj \<and> strict_eq obj (getProp obj ''window''))"

text \<open>\<open>"length" in obj\<close> raises on a primitive that is not false.\<close>

definition isArrayLike_jq :: "jsval \<Rightarrow> js_error + bool" where
  "isArrayLike_jq obj =
     (if truthy obj \<and> \<not> isObject obj then Inl TypeError
      else (let len = (if truthy obj \<and> hasOwn obj ''length'' then getProp obj ''length'' else VBool False) in
            if isFunction_jq obj \<or> isWindow obj then Inr False
            else Inr (toType obj = ''array'' \<or> strict_eq len (VInt 0) \<or>
              (case len of VNum (Fin n) \<Rightarrow> n > 0 \<and> hasOwn obj (int_str (n - 1)) | _ \<Rightarrow> False))))"

definition isEmptyObject :: "jsval \<Rightarrow> bool" where
  "isEmptyObject obj \<longleftrightarrow> (case obj of VStr s \<Rightarrow> s = [] | _ \<Rightarrow> ownKeys obj = [])"

section \<open>List functions\<close>

text \<open>The elements a loop by index visits.\<close>

definition indexed :: "jsval \<Rightarrow> (jsval \<times> jsval) list" where
  "indexed obj =
     (case getProp obj ''length'' of
        VNum (Fin n) \<Rightarrow> map (\<lambda>i. (VInt (int i), getProp obj (nat_str i))) [0..<nat n]
      | _ \<Rightarrow> [])"

definition keyed :: "jsval \<Rightarrow> (jsval \<times> jsval) list" where
  "keyed obj = map (\<lambda>k. (VStr k, getProp obj k)) (ownKeys obj)"

text \<open>\<open>jQuery.each\<close>: a callback gets key and value and ends the loop by returning \<open>false\<close>.\<close>

fun each_loop :: "(jsval \<Rightarrow> jsval \<Rightarrow> 's \<Rightarrow> jsval \<times> 's) \<Rightarrow> (jsval \<times> jsval) list \<Rightarrow> 's \<Rightarrow> 's" where
  "each_loop f [] s = s"
| "each_loop f ((k, v) # es) s =
     (let (r, s') = f k v s in if strict_eq r (VBool False) then s' else each_loop f es s')"

definition each_jq :: "(jsval \<Rightarrow> jsval \<Rightarrow> 's \<Rightarrow> jsval \<times> 's) \<Rightarrow> jsval \<Rightarrow> 's \<Rightarrow> js_error + 's" where
  "each_jq f obj s =
     (case isArrayLike_jq obj of
        Inl e \<Rightarrow> Inl e
      | Inr True \<Rightarrow> Inr (each_loop f (indexed obj) s)
      | Inr False \<Rightarrow> Inr (each_loop f (keyed obj) s))"

definition merge_jq :: "'a list \<Rightarrow> 'a list \<Rightarrow> 'a list" where
  "merge_jq first second = fold (\<lambda>j acc. acc @ [second ! j]) [0..<length second] first"

text \<open>\<open>makeArray\<close>: \<open>Object(arr)\<close> wraps a primitive, so that a string is one element.\<close>

definition makeArray :: "jsval \<Rightarrow> jsval list \<Rightarrow> jsval list" where
  "makeArray arr results =
     (if nullish arr then results
      else (case arr of
              VStr s \<Rightarrow> merge_jq results [arr]
            | _ \<Rightarrow>
                if \<not> isObject arr then results @ [arr]
                else (case isArrayLike_jq arr of
                        Inr True \<Rightarrow> merge_jq results (map snd (indexed arr))
                      | _ \<Rightarrow> results @ [arr])))"

text \<open>\<open>inArray\<close>: \<open>Array.prototype.indexOf\<close>, whose equality is \<open>===\<close>.\<close>

definition inArray :: "jsval \<Rightarrow> jsval list option \<Rightarrow> int \<Rightarrow> int" where
  "inArray elem arr i =
     (case arr of
        None \<Rightarrow> - 1
      | Some xs \<Rightarrow>
          index_loop elem 1 xs (int (length xs)) (if i \<ge> 0 then i else max (int (length xs) + i) 0))"

fun grep_loop :: "('a \<Rightarrow> nat \<Rightarrow> bool) \<Rightarrow> bool \<Rightarrow> nat \<Rightarrow> 'a list \<Rightarrow> 'a list" where
  "grep_loop callback expect i [] = []"
| "grep_loop callback expect i (x # xs) =
     (if (\<not> callback x i) \<noteq> expect then x # grep_loop callback expect (i + 1) xs
      else grep_loop callback expect (i + 1) xs)"

definition grep_jq :: "'a list \<Rightarrow> ('a \<Rightarrow> nat \<Rightarrow> bool) \<Rightarrow> bool \<Rightarrow> 'a list" where
  "grep_jq elems callback invert = grep_loop callback (\<not> invert) 0 elems"

text \<open>\<open>jQuery.map\<close>: null results are dropped and one level of nested arrays is flattened.\<close>

definition flat_one :: "jsval \<Rightarrow> jsval list" where
  "flat_one v = (case v of VArr a xs \<Rightarrow> xs | _ \<Rightarrow> [v])"

fun map_results :: "(jsval \<Rightarrow> jsval \<Rightarrow> 's \<Rightarrow> jsval \<times> 's) \<Rightarrow> (jsval \<times> jsval) list \<Rightarrow> 's \<Rightarrow> jsval list \<times> 's" where
  "map_results f [] s = ([], s)"
| "map_results f ((k, v) # es) s =
     (let (r, s') = f v k s; (rs, s'') = map_results f es s' in (if nullish r then rs else r # rs, s''))"

definition map_jq :: "(jsval \<Rightarrow> jsval \<Rightarrow> 's \<Rightarrow> jsval \<times> 's) \<Rightarrow> jsval \<Rightarrow> 's \<Rightarrow> js_error + jsval list \<times> 's" where
  "map_jq f elems s =
     (case isArrayLike_jq elems of
        Inl e \<Rightarrow> Inl e
      | Inr b \<Rightarrow>
          (let (rs, s') = map_results f (if b then indexed elems else keyed elems) s in
           Inr (concat (map flat_one rs), s')))"

section \<open>Matched sets\<close>

text \<open>A matched set: its elements and the set it was derived from.\<close>

datatype 'e jq = JQ (elems: "'e list") (prevObject: "'e jq option")

definition toArray_fn :: "'e jq \<Rightarrow> 'e list" where
  "toArray_fn this = slice (elems this) 0 None"

definition get_fn :: "int \<Rightarrow> 'e jq \<Rightarrow> 'e option" where
  "get_fn num this =
     (let i = (if num < 0 then num + int (length (elems this)) else num) in
      if 0 \<le> i \<and> i < int (length (elems this)) then Some (elems this ! nat i) else None)"

definition pushStack :: "'e list \<Rightarrow> 'e jq \<Rightarrow> 'e jq" where
  "pushStack es this = JQ (merge_jq [] es) (Some this)"

definition map_fn :: "(nat \<Rightarrow> 'e \<Rightarrow> 'e list) \<Rightarrow> 'e jq \<Rightarrow> 'e jq" where
  "map_fn callback this =
     pushStack (concat (map (\<lambda>(i, e). callback i e) (enumerate 0 (elems this)))) this"

definition slice_fn :: "int \<Rightarrow> int option \<Rightarrow> 'e jq \<Rightarrow> 'e jq" where
  "slice_fn start stop this = pushStack (slice (elems this) start stop) this"

definition eq_fn :: "int \<Rightarrow> 'e jq \<Rightarrow> 'e jq" where
  "eq_fn i this =
     (let len = int (length (elems this)); j = i + (if i < 0 then len else 0) in
      pushStack (if 0 \<le> j \<and> j < len then [elems this ! nat j] else []) this)"

definition first_fn :: "'e jq \<Rightarrow> 'e jq" where
  "first_fn this = eq_fn 0 this"

definition last_fn :: "'e jq \<Rightarrow> 'e jq" where
  "last_fn this = eq_fn (- 1) this"

definition even_fn :: "'e jq \<Rightarrow> 'e jq" where
  "even_fn this = pushStack (grep_jq (elems this) (\<lambda>_ i. (i + 1) mod 2 \<noteq> 0) False) this"

definition odd_fn :: "'e jq \<Rightarrow> 'e jq" where
  "odd_fn this = pushStack (grep_jq (elems this) (\<lambda>_ i. i mod 2 \<noteq> 0) False) this"

definition end_fn :: "'e jq \<Rightarrow> 'e jq" where
  "end_fn this = (case prevObject this of Some p \<Rightarrow> p | None \<Rightarrow> JQ [] None)"

section \<open>Extending objects\<close>

definition is_array :: "heap \<Rightarrow> hval \<Rightarrow> bool" where
  "is_array h v = (case v of HRef x \<Rightarrow> (case cell_at h x of CArr _ \<Rightarrow> True | _ \<Rightarrow> False) | _ \<Rightarrow> False)"

text \<open>
  \<open>isPlainObject\<close>: an object of class \<open>Object\<close> without prototype, or whose constructor is the function
  \<open>Object\<close> of some frame.
\<close>

definition isPlainObject :: "heap \<Rightarrow> hval \<Rightarrow> bool" where
  "isPlainObject h v =
     (case v of
        HRef x \<Rightarrow>
          (case cell_at h x of
             CObj c k ps \<Rightarrow> c = ''Object'' \<and> (case k of NoCtor \<Rightarrow> True | Ctor _ self \<Rightarrow> self)
           | _ \<Rightarrow> False)
      | _ \<Rightarrow> False)"

text \<open>The keys \<open>for (name in options)\<close> visits, and reading and writing a property of a cell.\<close>

definition cell_keys :: "cell \<Rightarrow> string list" where
  "cell_keys c =
     (case c of
        CArr xs \<Rightarrow> map nat_str [0..<length xs]
      | CStr s \<Rightarrow> map nat_str [0..<length s]
      | _ \<Rightarrow> map fst (cell_props c))"

definition get_cell :: "cell \<Rightarrow> string \<Rightarrow> hval" where
  "get_cell c k =
     (case c of
        CArr xs \<Rightarrow> (case index_of_key k of Some i \<Rightarrow> if i < length xs then xs ! i else HUndef | None \<Rightarrow> HUndef)
      | CStr s \<Rightarrow> (case index_of_key k of Some i \<Rightarrow> if i < length s then HStr [s ! i] else HUndef | None \<Rightarrow> HUndef)
      | _ \<Rightarrow> (case map_of (cell_props c) k of Some v \<Rightarrow> v | None \<Rightarrow> HUndef))"

definition set_cell :: "string \<Rightarrow> hval \<Rightarrow> cell \<Rightarrow> cell" where
  "set_cell k v c =
     (case c of
        CArr xs \<Rightarrow>
          (case index_of_key k of
             Some i \<Rightarrow> CArr ((xs @ replicate (Suc i - length xs) HUndef) [i := v])
           | None \<Rightarrow> c)
      | CObj cl ct ps \<Rightarrow> CObj cl ct (dict_set k v ps)
      | _ \<Rightarrow> c)"

definition write_prop :: "nat \<Rightarrow> string \<Rightarrow> hval \<Rightarrow> heap \<Rightarrow> heap" where
  "write_prop t k v h = h [t := set_cell k v (cell_at h t)]"

definition new_object :: cell where
  "new_object = CObj ''Object'' (Ctor 1 True) []"

text \<open>
  The object a nested copy goes into: what the target has, if its type fits, else a new array or
  object.
\<close>

definition clone_target :: "heap \<Rightarrow> hval \<Rightarrow> hval \<Rightarrow> heap \<times> nat" where
  "clone_target h src copy =
     (if is_array h copy \<and> \<not> is_array h src then (h @ [CArr []], length h)
      else if \<not> is_array h copy \<and> \<not> isPlainObject h src then (h @ [new_object], length h)
      else (h, case src of HRef x \<Rightarrow> x | _ \<Rightarrow> length h))"

text \<open>
  \<open>jQuery.extend\<close> of the target cell by the properties \<open>names\<close> of one source; the fuel bounds the depth
  of nested copies.
\<close>

fun extend_props :: "nat \<Rightarrow> bool \<Rightarrow> nat \<Rightarrow> nat \<Rightarrow> string list \<Rightarrow> heap \<Rightarrow> heap option" where
  "extend_props n deep t src [] h = Some h"
| "extend_props n deep t src (name # names) h =
     (let copy = get_cell (cell_at h src) name in
      if name = ''__proto__'' \<or> copy = HRef t then extend_props n deep t src names h
      else if deep \<and> (isPlainObject h copy \<or> is_array h copy) then
        (case n of
           0 \<Rightarrow> None
         | Suc m \<Rightarrow>
             (case (clone_target h (get_cell (cell_at h t) name) copy, copy) of
                ((h1, c), HRef y) \<Rightarrow>
                  (case extend_props m deep c y (cell_keys (cell_at h1 y)) h1 of
                     None \<Rightarrow> None
                   | Some h2 \<Rightarrow> extend_props n deep t src names (write_prop t name (HRef c) h2))
              | _ \<Rightarrow> None))
      else if copy \<noteq> HUndef then extend_props n deep t src names (write_prop t name copy h)
      else extend_props n deep t src names h)"

text \<open>
  The loop over the sources; \<open>null\<close> and \<open>undefined\<close> are skipped, a string gives its characters, and
  other primitives have no properties to enumerate.
\<close>

fun extend_sources :: "nat \<Rightarrow> bool \<Rightarrow> nat \<Rightarrow> hval list \<Rightarrow> heap \<Rightarrow> heap option" where
  "extend_sources n deep t [] h = Some h"
| "extend_sources n deep t (HRef y # options) h =
     (case extend_props n deep t y (cell_keys (cell_at h y)) h of
        None \<Rightarrow> None
      | Some h' \<Rightarrow> extend_sources n deep t options h')"
| "extend_sources n deep t (HStr s # options) h =
     extend_sources n deep t options
       (fold (\<lambda>i. write_prop t (nat_str i) (HStr [s ! i])) [0..<length s] h)"
| "extend_sources n deep t (_ # options) h = extend_sources n deep t options h"

text \<open>
  The arguments: an initial \<open>true\<close> asks for a deep copy (an initial \<open>false\<close> is replaced by a new target
  like any other false value); a target that is no object is replaced by a new one; when only the target
  is given it becomes the source and \<open>this\<close> is extended.
\<close>

definition as_target :: "hval \<Rightarrow> heap \<Rightarrow> heap \<times> nat" where
  "as_target v h = (case v of HRef x \<Rightarrow> (h, x) | _ \<Rightarrow> (h @ [new_object], length h))"

definition extend_jq :: "nat \<Rightarrow> nat \<Rightarrow> hval list \<Rightarrow> heap \<Rightarrow> (heap \<times> nat) option" where
  "extend_jq n this args h =
     (let deep = (case args of HBool True # _ \<Rightarrow> True | _ \<Rightarrow> False);
          i = (if deep then 1 else 0);
          (h1, t) = as_target (if i < length args then args ! i else HUndef) h;
          (target, options) = (if i + 1 = length args then (this, drop i args) else (t, drop (i + 1) args)) in
      map_option (\<lambda>h2. (h2, target)) (extend_sources n deep target options h1))"

section \<open>Extending objects: facts\<close>

text \<open>References stay inside the heap.\<close>

definition closed_heap :: "heap \<Rightarrow> bool" where
  "closed_heap h \<longleftrightarrow> (\<forall>c \<in> set h. \<forall>y. HRef y \<in> set (cell_values c) \<longrightarrow> y < length h)"

text \<open>The values that a deep copy goes into.\<close>

abbreviation container :: "heap \<Rightarrow> hval \<Rightarrow> bool" where
  "container h v \<equiv> isPlainObject h v \<or> is_array h v"

text \<open>
  A heap in the course of a deep copy: the old cells are unchanged, and a new cell is an array or
  object that refers to containers among the new cells only.
\<close>

definition isolated :: "heap \<Rightarrow> heap \<Rightarrow> bool" where
  "isolated h0 h \<longleftrightarrow> length h0 \<le> length h \<and> take (length h0) h = h0 \<and>
     (\<forall>x y. length h0 \<le> x \<longrightarrow> x < length h \<longrightarrow> HRef y \<in> set (cell_values (h ! x)) \<longrightarrow>
        y < length h \<and> (container h (HRef y) \<longrightarrow> length h0 \<le> y))"

lemma isolatedI:
  assumes "length h0 \<le> length h" "take (length h0) h = h0"
    and "\<And>x y. length h0 \<le> x \<Longrightarrow> x < length h \<Longrightarrow> HRef y \<in> set (cell_values (h ! x)) \<Longrightarrow>
      y < length h \<and> (container h (HRef y) \<longrightarrow> length h0 \<le> y)"
  shows "isolated h0 h"
  unfolding isolated_def using assms by blast

lemma isolatedD:
  assumes "isolated h0 h"
  shows "length h0 \<le> length h" "take (length h0) h = h0"
    and "length h0 \<le> x \<Longrightarrow> x < length h \<Longrightarrow> HRef y \<in> set (cell_values (h ! x)) \<Longrightarrow> y < length h"
    and "length h0 \<le> x \<Longrightarrow> x < length h \<Longrightarrow> HRef y \<in> set (cell_values (h ! x)) \<Longrightarrow> container h (HRef y) \<Longrightarrow> length h0 \<le> y"
  using assms unfolding isolated_def by blast+

lemma isolated_old: "isolated h0 h \<Longrightarrow> x < length h0 \<Longrightarrow> cell_at h x = h0 ! x \<and> x < length h"
  unfolding isolated_def cell_at_def by (metis nth_take order_less_le_trans)

lemma container_HRef: "container h v \<Longrightarrow> \<exists>y. v = HRef y \<and> y < length h"
  by (auto simp: isPlainObject_def is_array_def cell_at_def split: hval.splits if_splits)

lemma container_cong: "cell_at h y = cell_at h' y \<Longrightarrow> container h (HRef y) = container h' (HRef y)"
  by (simp add: isPlainObject_def is_array_def)

lemma get_cell_values: "get_cell c k = HRef y \<Longrightarrow> HRef y \<in> set (cell_values c)"
  by (cases c; auto simp: get_cell_def split: option.splits if_splits dest!: map_of_SomeD intro: snd_image;
      metis nth_mem)

lemma set_cell_values: "set (cell_values (set_cell k v c)) \<subseteq> insert v (insert HUndef (set (cell_values c)))"
proof (cases c)
  case (CArr xs)
  then show ?thesis
    by (auto simp: set_cell_def split: option.splits dest!: set_update_subset_insert [THEN subsetD])
next
  case (CObj cl ct ps)
  then show ?thesis using dict_set_values [of k v ps] by (auto simp: set_cell_def)
qed (auto simp: set_cell_def)

lemma set_cell_container: "container (h [t := set_cell k v (h ! t)]) (HRef y) = container h (HRef y)"
proof (cases "y = t \<and> t < length h")
  case True
  then show ?thesis
    by (cases "h ! t")
       (auto simp: set_cell_def isPlainObject_def is_array_def cell_at_def split: option.splits)
next
  case False
  then show ?thesis by (intro container_cong) (auto simp: cell_at_def)
qed

lemma isolated_write:
  assumes "isolated h0 h" "length h0 \<le> t" "t < length h"
    and "\<And>y. v = HRef y \<Longrightarrow> y < length h \<and> (container h v \<longrightarrow> length h0 \<le> y)"
  shows "isolated h0 (write_prop t k v h)"
proof -
  have w: "write_prop t k v h = h [t := set_cell k v (h ! t)]" using assms(3) by (simp add: write_prop_def cell_at_def)
  show ?thesis
    unfolding w
  proof (rule isolatedI)
    show "take (length h0) (h [t := set_cell k v (h ! t)]) = h0"
      using isolatedD(2) [OF assms(1)] assms(2) by simp
  next
    fix x y
    assume x: "length h0 \<le> x" "x < length (h [t := set_cell k v (h ! t)])"
      and y: "HRef y \<in> set (cell_values (h [t := set_cell k v (h ! t)] ! x))"
    have "HRef y = v \<or> HRef y \<in> set (cell_values (h ! x))"
      using y x assms(3) set_cell_values [of k v "h ! t"] by (cases "x = t") auto
    then have "y < length h \<and> (container h (HRef y) \<longrightarrow> length h0 \<le> y)"
      using assms(4) [of y] isolatedD(3,4) [OF assms(1) x(1)] x(2) by auto
    then show "y < length (h [t := set_cell k v (h ! t)])
        \<and> (container (h [t := set_cell k v (h ! t)]) (HRef y) \<longrightarrow> length h0 \<le> y)"
      unfolding set_cell_container length_list_update .
  qed (use isolatedD(1) [OF assms(1)] in simp)
qed

lemma isolated_alloc:
  assumes "isolated h0 h" "cell_values c = []"
  shows "isolated h0 (h @ [c])"
proof (rule isolatedI)
  fix x y
  assume x: "length h0 \<le> x" "x < length (h @ [c])" and y: "HRef y \<in> set (cell_values ((h @ [c]) ! x))"
  then have lt: "x < length h" and y': "HRef y \<in> set (cell_values (h ! x))"
    using assms(2) by (cases "x = length h"; simp add: nth_append)+
  have "cell_at (h @ [c]) y = cell_at h y"
    using isolatedD(3) [OF assms(1) x(1) lt y'] by (simp add: cell_at_def nth_append)
  then have "container (h @ [c]) (HRef y) = container h (HRef y)" by (rule container_cong)
  then show "y < length (h @ [c]) \<and> (container (h @ [c]) (HRef y) \<longrightarrow> length h0 \<le> y)"
    using isolatedD(3,4) [OF assms(1) x(1) lt y'] by simp
qed (use isolatedD(1,2) [OF assms(1)] in simp_all)

lemma clone_target_isolated:
  assumes "isolated h0 h" "length h0 \<le> t" "t < length h"
    and "clone_target h (get_cell (cell_at h t) name) copy = (h1, c)"
  shows "isolated h0 h1 \<and> length h0 \<le> c \<and> c < length h1 \<and> length h \<le> length h1"
proof -
  let ?s = "get_cell (cell_at h t) name"
  consider (arr) "h1 = h @ [CArr []]" "c = length h" | (obj) "h1 = h @ [new_object]" "c = length h"
    | (old) "h1 = h" "?s = HRef c" "container h (HRef c)"
    using assms(4) container_HRef [of h ?s] by (auto simp: clone_target_def split: if_splits)
  then show ?thesis
  proof cases
    case arr
    then show ?thesis using isolated_alloc [OF assms(1), of "CArr []"] assms(2,3) by simp
  next
    case obj
    then show ?thesis using isolated_alloc [OF assms(1), of new_object] assms(2,3) by (simp add: new_object_def)
  next
    case old
    then have "HRef c \<in> set (cell_values (h ! t))"
      using get_cell_values [of "cell_at h t" name] assms(3) by (simp add: cell_at_def)
    then show ?thesis using old(1,3) assms(1) isolatedD(3,4) [OF assms(1-3)] by blast
  qed
qed


lemma closed_heapD:
  "closed_heap h \<Longrightarrow> x < length h \<Longrightarrow> HRef y \<in> set (cell_values (h ! x)) \<Longrightarrow> y < length h"
  unfolding closed_heap_def by (meson nth_mem)

lemma copy_old:
  assumes "isolated h0 h" "closed_heap h0" "src < length h0" "get_cell (cell_at h src) name = HRef y"
  shows "y < length h0"
  using assms closed_heapD [OF assms(2,3)] get_cell_values [of "h0 ! src" name] isolated_old [OF assms(1,3)] by simp

text \<open>A deep extension of a new cell leaves the old cells alone and links no old container.\<close>

lemma extend_props_isolated:
  assumes "extend_props n True t src names h = Some h'" "isolated h0 h" "closed_heap h0"
    and "length h0 \<le> t" "t < length h" "src < length h0"
  shows "isolated h0 h' \<and> length h \<le> length h'"
  using assms
proof (induction n arbitrary: t src names h h' rule: less_induct)
  case (less n)
  note nested = less.IH
  from less.prems show ?case
  proof (induction names arbitrary: h)
    case (Cons name names)
    let ?copy = "get_cell (cell_at h src) name"
    note copy = copy_old [OF Cons.prems(2,3,6)]
    consider (none) "extend_props n True t src names h = Some h'"
      | (leaf) "\<not> container h ?copy" "extend_props n True t src names (write_prop t name ?copy h) = Some h'"
      | (deep) y h1 c m h2 where "?copy = HRef y" "n = Suc m"
          "clone_target h (get_cell (cell_at h t) name) ?copy = (h1, c)"
          "extend_props m True c y (cell_keys (cell_at h1 y)) h1 = Some h2"
          "extend_props n True t src names (write_prop t name (HRef c) h2) = Some h'"
      using Cons.prems(1)
      by (auto simp: Let_def split: if_splits nat.splits option.splits hval.splits prod.splits)
    then show ?case
    proof cases
      case none
      then show ?thesis using Cons by blast
    next
      case leaf
      have "isolated h0 (write_prop t name ?copy h)"
        using Cons.prems leaf(1) copy isolatedD(1) [OF Cons.prems(2)] by (intro isolated_write) force+
      then show ?thesis using Cons.IH [OF leaf(2)] Cons.prems by (simp add: write_prop_def)
    next
      case deep
      note c = clone_target_isolated [OF Cons.prems(2,4,5) deep(3)]
      have h2: "isolated h0 h2 \<and> length h1 \<le> length h2"
        using nested [OF _ deep(4)] deep(2) c Cons.prems(3) copy [OF deep(1)] by simp
      then have "isolated h0 (write_prop t name (HRef c) h2)"
        using Cons.prems c by (intro isolated_write) auto
      then show ?thesis using Cons.IH [OF deep(5)] Cons.prems c h2 by (simp add: write_prop_def)
    qed
  qed simp
qed

text \<open>
  On a heap with a rank, that is one without cycles, the rank of the source is fuel enough.
\<close>

lemma copy_ranked:
  assumes "isolated h0 h" "ranked h0 rk" "src < length h0" "get_cell (cell_at h src) name = HRef y"
  shows "rk y < rk src"
  using assms get_cell_values [of "h0 ! src" name y] isolated_old [OF assms(1,3)]
  unfolding ranked_def by simp

lemma extend_props_total:
  assumes "isolated h0 h" "closed_heap h0" "ranked h0 rk" "rk src \<le> n"
    and "length h0 \<le> t" "t < length h" "src < length h0"
  shows "\<exists>h'. extend_props n True t src names h = Some h'"
  using assms
proof (induction n arbitrary: t src names h rule: less_induct)
  case (less n)
  note nested = less.IH
  from less.prems show ?case
  proof (induction names arbitrary: h)
    case (Cons name names)
    let ?copy = "get_cell (cell_at h src) name"
    note copy = copy_old [OF Cons.prems(1,2,7)] copy_ranked [OF Cons.prems(1,3,7)]
    show ?case
    proof (cases "name \<noteq> ''__proto__'' \<and> ?copy \<noteq> HRef t \<and> container h ?copy")
      case True
      then obtain y where y: "?copy = HRef y" using container_HRef by blast
      obtain m where n: "n = Suc m" "rk y \<le> m" using copy(2) [OF y] Cons.prems(4) by (cases n) auto
      obtain h1 c where c: "clone_target h (get_cell (cell_at h t) name) ?copy = (h1, c)" by fastforce
      note k = clone_target_isolated [OF Cons.prems(1,5,6) c]
      obtain h2 where h2: "extend_props m True c y (cell_keys (cell_at h1 y)) h1 = Some h2"
        using nested [of m h1 y c] n k Cons.prems(2,3) copy(1) [OF y] by blast
      have i2: "isolated h0 h2 \<and> length h1 \<le> length h2"
        using extend_props_isolated [OF h2] k Cons.prems(2) copy(1) [OF y] by blast
      then have "isolated h0 (write_prop t name (HRef c) h2)"
        using Cons.prems k by (intro isolated_write) auto
      then show ?thesis
        using Cons.IH [of "write_prop t name (HRef c) h2"] Cons.prems k i2 True y n c h2
        by (auto simp: Let_def write_prop_def)
    next
      case False
      have "isolated h0 (write_prop t name ?copy h)" if "\<not> container h ?copy"
        using Cons.prems that copy(1) isolatedD(1) [OF Cons.prems(1)] by (intro isolated_write) force+
      then show ?thesis
        using False Cons.IH [of h] Cons.IH [of "write_prop t name ?copy h"] Cons.prems
        by (auto simp: Let_def write_prop_def)
    qed
  qed simp
qed

lemma isolated_chars: "isolated h0 h \<Longrightarrow> length h0 \<le> t \<Longrightarrow> t < length h \<Longrightarrow>
    isolated h0 (fold (\<lambda>i. write_prop t (nat_str i) (HStr [s ! i])) is h)
    \<and> length (fold (\<lambda>i. write_prop t (nat_str i) (HStr [s ! i])) is h) = length h"
proof (induction "is" arbitrary: h)
  case (Cons i "is")
  have "isolated h0 (write_prop t (nat_str i) (HStr [s ! i]) h)" using Cons.prems by (intro isolated_write) auto
  then show ?case using Cons.IH [of "write_prop t (nat_str i) (HStr [s ! i]) h"] Cons.prems
    by (simp add: write_prop_def)
qed simp

lemma extend_sources_isolated:
  assumes "isolated h0 h" "closed_heap h0" "ranked h0 rk" "length h0 \<le> t" "t < length h"
    and "\<And>y. HRef y \<in> set options \<Longrightarrow> y < length h0 \<and> rk y \<le> n"
  shows "\<exists>h'. extend_sources n True t options h = Some h' \<and> isolated h0 h' \<and> length h \<le> length h'"
  using assms
proof (induction options arbitrary: h)
  case (Cons v options)
  show ?case
  proof (cases v)
    case (HRef y)
    obtain h1 where h1: "extend_props n True t y (cell_keys (cell_at h y)) h = Some h1"
      using extend_props_total [OF Cons.prems(1-3)] Cons.prems HRef by fastforce
    have "isolated h0 h1 \<and> length h \<le> length h1"
      using extend_props_isolated [OF h1 Cons.prems(1,2,4,5)] Cons.prems(6) HRef by auto
    then show ?thesis using Cons.IH [of h1] Cons.prems h1 HRef by fastforce
  next
    case (HStr s)
    then show ?thesis
      using isolated_chars [OF Cons.prems(1,4,5), of s "[0..<length s]"] Cons.prems(2-6)
        Cons.IH [of "fold (\<lambda>i. write_prop t (nat_str i) (HStr [s ! i])) [0..<length s] h"] by simp
  qed (use Cons in simp_all)
qed simp

text \<open>C37:
  \<open>jQuery.extend(true, {}, ...)\<close> of objects without cycles returns, changes no object that existed
  before, and the arrays and plain objects that its result refers to are all new: no later change of
  the copy reaches the originals.
\<close>

theorem extend_deep_isolated:
  assumes "closed_heap h" "ranked h rk" "options \<noteq> []"
    and "\<And>y. HRef y \<in> set options \<Longrightarrow> y < length h \<and> rk y \<le> n"
  shows "\<exists>h'. extend_jq n this (HBool True # HRef (length h) # options) (h @ [new_object]) = Some (h', length h)
    \<and> take (length h) h' = h
    \<and> (\<forall>x y. length h \<le> x \<longrightarrow> x < length h' \<longrightarrow> HRef y \<in> set (cell_values (h' ! x)) \<longrightarrow> container h' (HRef y) \<longrightarrow> length h \<le> y)"
proof -
  have "isolated h h" using assms(1) by (auto simp: isolated_def)
  then have "isolated h (h @ [new_object])" by (rule isolated_alloc) (simp add: new_object_def)
  from extend_sources_isolated [OF this assms(1,2) _ _ assms(4), of "length h"]
  obtain h' where h': "extend_sources n True (length h) options (h @ [new_object]) = Some h'" "isolated h h'"
    by auto
  have "extend_jq n this (HBool True # HRef (length h) # options) (h @ [new_object]) = Some (h', length h)"
    using h'(1) assms(3) by (simp add: extend_jq_def as_target_def)
  then show ?thesis using isolatedD(2,4) [OF h'(2)] by blast
qed

definition nested_heap :: heap where
  "nested_heap = [CObj ''Object'' (Ctor 1 True) [(''a'', HRef 1), (''b'', HRef 2)], CArr [HNum (Fin 7), HRef 2], CDate (Fin 0)]"

lemma nested_heap_deep: "extend_jq 2 0 [HBool True, HRef 3, HRef 0] (nested_heap @ [new_object]) =
   Some (nested_heap @ [CObj ''Object'' (Ctor 1 True) [(''a'', HRef 4), (''b'', HRef 2)], CArr [HNum (Fin 7), HRef 2]], 3)"
  by code_simp

theorem extend_deep_isolated_witness:
  "\<exists>h'. extend_jq 2 0 [HBool True, HRef 3, HRef 0] (nested_heap @ [new_object]) = Some (h', 3)
    \<and> take 3 h' = nested_heap"
proof -
  have len: "length nested_heap = 3" by (simp add: nested_heap_def)
  have "closed_heap nested_heap" by (auto simp: closed_heap_def nested_heap_def)
  moreover have "ranked nested_heap (\<lambda>x. 2 - x)" by (auto simp: ranked_def nested_heap_def less_Suc_eq)
  ultimately show ?thesis
    using extend_deep_isolated [of nested_heap "\<lambda>x. 2 - x" "[HRef 0]" 2 0] unfolding len by auto
qed

section \<open>Matched sets: facts\<close>

lemma merge_jq_append [simp]: "merge_jq xs ys = xs @ ys"
proof -
  have "fold (\<lambda>j acc. acc @ [ys ! j]) [0..<n] xs = xs @ take n ys" if "n \<le> length ys" for n
    using that by (induction n) (simp_all add: take_Suc_conv_app_nth)
  from this [of "length ys"] show ?thesis by (simp add: merge_jq_def)
qed

lemma grep_loop_nths:
  "grep_loop f b i xs = nths xs {j. j < length xs \<and> f (xs ! j) (i + j) = b}"
proof (induction xs arbitrary: i)
  case (Cons x xs)
  have "{j. Suc j < length (x # xs) \<and> f ((x # xs) ! Suc j) (i + Suc j) = b} = {j. j < length xs \<and> f (xs ! j) (Suc i + j) = b}"
    by simp
  then show ?case using Cons.IH [of "Suc i"] by (simp add: nths_Cons)
qed simp

lemma nths_bounded: "nths xs {j. j < length xs \<and> P j} = nths xs {j. P j}"
proof (induction xs arbitrary: P)
  case (Cons x xs)
  then show ?case using Cons.IH [of "\<lambda>j. P (Suc j)"] by (simp add: nths_Cons)
qed simp

text \<open>\<open>even\<close> and \<open>odd\<close> keep the elements at even and at odd positions in order; \<open>eq\<close> keeps the element \<open>get\<close>
  returns, counting from the end for a negative index, and no element for an index out of range; each of
  them is undone by \<open>end\<close>.
\<close>

theorem selection_correct:
  "elems (even_fn s) = nths (elems s) {i. even i} \<and> elems (odd_fn s) = nths (elems s) {i. odd i}
   \<and> elems (eq_fn i s) = (case get_fn i s of Some e \<Rightarrow> [e] | None \<Rightarrow> [])
   \<and> get_fn i s = (if 0 \<le> i \<and> i < int (length (elems s)) then Some (elems s ! nat i)
     else if - int (length (elems s)) \<le> i \<and> i < 0 then Some (elems s ! (length (elems s) - nat (- i))) else None)
   \<and> end_fn (even_fn s) = s \<and> end_fn (odd_fn s) = s \<and> end_fn (eq_fn i s) = s"
proof (intro conjI)
  have "((j + 1) mod 2 \<noteq> 0) = even j" for j :: nat by presburger
  then show "elems (even_fn s) = nths (elems s) {i. even i}"
    using nths_bounded [of "elems s" even] by (simp add: even_fn_def pushStack_def grep_jq_def grep_loop_nths)
  have "(j mod 2 \<noteq> 0) = odd j" for j :: nat by presburger
  then show "elems (odd_fn s) = nths (elems s) {i. odd i}"
    using nths_bounded [of "elems s" odd] by (simp add: odd_fn_def pushStack_def grep_jq_def grep_loop_nths)
  show "elems (eq_fn i s) = (case get_fn i s of Some e \<Rightarrow> [e] | None \<Rightarrow> [])"
    by (simp add: eq_fn_def get_fn_def pushStack_def Let_def)
  show "get_fn i s = (if 0 \<le> i \<and> i < int (length (elems s)) then Some (elems s ! nat i)
     else if - int (length (elems s)) \<le> i \<and> i < 0 then Some (elems s ! (length (elems s) - nat (- i))) else None)"
    by (auto simp: get_fn_def Let_def nat_diff_distrib nat_minus_as_int intro!: arg_cong [of _ _ "(!) (elems s)"])
qed (simp_all add: end_fn_def even_fn_def odd_fn_def eq_fn_def pushStack_def Let_def)

end
