(* ===== verification/JqueryCallbacks.thy ===== *)
theory JqueryCallbacks
  imports JsString
begin

text \<open>
  Callback lists, \<open>jQuery.Callbacks\<close> of \<open>docs/_static/jquery-3.6.0.js\<close>.  A callback is known by a name;
  what it does when it is called (the operations it performs on the same list, and whether it
  returns \<open>false\<close>, another value or raises) is an argument of the model that may depend on all calls
  made before.  The context and the arguments of a call are one value.
\<close>

section \<open>State\<close>

record cb_options =
  o_once :: bool
  o_memory :: bool
  o_unique :: bool
  o_stopOnFalse :: bool

text \<open>\<open>createOptions\<close>: the words of the option string; \<open>rnothtmlwhite\<close> matches them.\<close>

definition html_white :: "char \<Rightarrow> bool" where
  "html_white c \<longleftrightarrow> code c \<in> {32, 9, 13, 10, 12}"

definition html_words :: "string \<Rightarrow> string list" where
  "html_words s = filter (\<lambda>w. w \<noteq> []) (split_class html_white s)"

definition createOptions :: "string \<Rightarrow> cb_options" where
  "createOptions options =
     (let object = fold (\<lambda>flag. dict_set flag True) (html_words options) [] in
      \<lparr>o_once = dict_has object ''once'', o_memory = dict_has object ''memory'',
       o_unique = dict_has object ''unique'', o_stopOnFalse = dict_has object ''stopOnFalse''\<rparr>)"

text \<open>
  The variables of a callback list.  A value of \<open>memory\<close> is \<open>None\<close> where the code has a false value, and
  \<open>lst\<close> is \<open>None\<close> where \<open>list\<close> is the empty string of a spent list.  The field \<open>calls\<close> records the calls made.
\<close>

record ('f, 'a) callbacks =
  firing :: bool
  memory :: "'a option"
  fired :: bool
  locked :: bool
  lst :: "'f list option"
  queue :: "'a list"
  firingIndex :: int
  calls :: "('f \<times> 'a) list"

definition new_callbacks :: "('f, 'a) callbacks" where
  "new_callbacks = \<lparr>firing = False, memory = None, fired = False, locked = False, lst = Some [],
     queue = [], firingIndex = - 1, calls = []\<rparr>"

section \<open>Operations\<close>

datatype 'f cb_arg = Fn 'f | Nested "'f cb_arg list" | Other

datatype ('f, 'a) cb_op = Add "'f cb_arg list" | Remove "'f list" | Empty | Disable | Lock | FireWith 'a

datatype outcome = ReturnFalse | Return | Throw

text \<open>\<open>add\<close> on its arguments, arrays recursively.\<close>

fun add_arg :: "bool \<Rightarrow> 'f cb_arg \<Rightarrow> 'f list \<Rightarrow> 'f list" where
  "add_arg unique (Fn f) l = (if \<not> unique \<or> f \<notin> set l then l @ [f] else l)"
| "add_arg unique (Nested args) l = fold (add_arg unique) args l"
| "add_arg unique Other l = l"

text \<open>\<open>remove\<close> of one callback: every occurrence is cut out, and the firing index follows.\<close>

function remove_loop :: "'f \<Rightarrow> nat \<Rightarrow> 'f list \<times> int \<Rightarrow> 'f list \<times> int" where
  "remove_loop f from (l, i) =
     (case find (\<lambda>k. from \<le> k \<and> l ! k = f) [0..<length l] of
        None \<Rightarrow> (l, i)
      | Some index \<Rightarrow>
          remove_loop f index (take index l @ drop (Suc index) l, if int index \<le> i then i - 1 else i))"
  by pat_completeness auto
termination
  by (relation "measure (\<lambda>(f, from, l, i). length l)") (auto simp: find_Some_iff)

declare remove_loop.simps [simp del]

definition remove_cb :: "'f \<Rightarrow> ('f, 'a) callbacks \<Rightarrow> ('f, 'a) callbacks" where
  "remove_cb f s =
     (case lst s of
        None \<Rightarrow> s
      | Some l \<Rightarrow> (let (l', i) = remove_loop f 0 (l, firingIndex s) in s\<lparr>lst := Some l', firingIndex := i\<rparr>))"

definition has_cb :: "'f option \<Rightarrow> ('f, 'a) callbacks \<Rightarrow> bool" where
  "has_cb fn s =
     (case fn of
        Some f \<Rightarrow> (case lst s of None \<Rightarrow> False | Some l \<Rightarrow> f \<in> set l)
      | None \<Rightarrow> (case lst s of None \<Rightarrow> False | Some l \<Rightarrow> l \<noteq> []))"

text \<open>The operations up to their call of \<open>fire\<close>; the second result tells whether it follows.\<close>

definition add_op :: "cb_options \<Rightarrow> 'f cb_arg list \<Rightarrow> ('f, 'a) callbacks \<Rightarrow> ('f, 'a) callbacks \<times> bool" where
  "add_op opt args s =
     (case lst s of
        None \<Rightarrow> (s, False)
      | Some l \<Rightarrow>
          (let refire = (memory s \<noteq> None \<and> \<not> firing s);
               s1 = (if refire then s\<lparr>firingIndex := int (length l) - 1, queue := queue s @ [the (memory s)]\<rparr> else s) in
           (s1\<lparr>lst := Some (fold (add_arg (o_unique opt)) args l)\<rparr>, refire)))"

definition empty_op :: "('f, 'a) callbacks \<Rightarrow> ('f, 'a) callbacks" where
  "empty_op s = (if lst s \<noteq> None then s\<lparr>lst := Some []\<rparr> else s)"

definition disable_op :: "('f, 'a) callbacks \<Rightarrow> ('f, 'a) callbacks" where
  "disable_op s = s\<lparr>locked := True, queue := [], lst := None, memory := None\<rparr>"

definition lock_op :: "('f, 'a) callbacks \<Rightarrow> ('f, 'a) callbacks" where
  "lock_op s =
     (let s1 = s\<lparr>locked := True, queue := []\<rparr> in
      if memory s1 = None \<and> \<not> firing s1 then s1\<lparr>lst := None, memory := None\<rparr> else s1)"

definition fireWith_op :: "'a \<Rightarrow> ('f, 'a) callbacks \<Rightarrow> ('f, 'a) callbacks \<times> bool" where
  "fireWith_op args s =
     (if \<not> locked s then (s\<lparr>queue := queue s @ [args]\<rparr>, \<not> firing s) else (s, False))"

fun cb_op_step :: "cb_options \<Rightarrow> ('f, 'a) cb_op \<Rightarrow> ('f, 'a) callbacks \<Rightarrow> ('f, 'a) callbacks \<times> bool" where
  "cb_op_step opt (Add args) s = add_op opt args s"
| "cb_op_step opt (Remove fs) s = (fold remove_cb fs s, False)"
| "cb_op_step opt Empty s = (empty_op s, False)"
| "cb_op_step opt Disable s = (disable_op s, False)"
| "cb_op_step opt Lock s = (lock_op s, False)"
| "cb_op_step opt (FireWith args) s = fireWith_op args s"

section \<open>Firing\<close>

text \<open>What a callback does, given the calls made before.\<close>

type_synonym ('f, 'a) behaviour = "('f \<times> 'a) list \<Rightarrow> 'f \<Rightarrow> 'a \<Rightarrow> ('f, 'a) cb_op list \<times> outcome"

text \<open>
  One call: the callback's own operations find the list firing, so that none of them fires.
\<close>

definition call_cb :: "cb_options \<Rightarrow> ('f, 'a) behaviour \<Rightarrow> 'f \<Rightarrow> 'a \<Rightarrow> ('f, 'a) callbacks \<Rightarrow> ('f, 'a) callbacks \<times> outcome" where
  "call_cb opt beh f m s =
     (let (ops, r) = beh (calls s) f m in
      (fold (\<lambda>op s. fst (cb_op_step opt op s)) ops (s\<lparr>calls := calls s @ [(f, m)]\<rparr>), r))"

definition finish_firing :: "cb_options \<Rightarrow> ('f, 'a) callbacks \<Rightarrow> ('f, 'a) callbacks" where
  "finish_firing opt s =
     (let s1 = (if \<not> o_memory opt then s\<lparr>memory := None\<rparr> else s)\<lparr>firing := False\<rparr> in
      if locked s1 then s1\<lparr>lst := (if memory s1 \<noteq> None then Some [] else None)\<rparr> else s1)"

text \<open>
  The two loops of \<open>fire\<close>; \<open>inner\<close> tells which one is at its head.  A callback may add callbacks and
  fire again for ever, so the number of steps is bounded by fuel.  The flag of the result tells
  whether a callback raised, which leaves the function at once.
\<close>

fun fire_loop :: "cb_options \<Rightarrow> ('f, 'a) behaviour \<Rightarrow> nat \<Rightarrow> bool \<Rightarrow> ('f, 'a) callbacks \<Rightarrow> (('f, 'a) callbacks \<times> bool) option" where
  "fire_loop opt beh 0 inner s = None"
| "fire_loop opt beh (Suc n) False s =
     (case queue s of
        [] \<Rightarrow> Some (finish_firing opt s, False)
      | m # q \<Rightarrow> fire_loop opt beh n True (s\<lparr>memory := Some m, queue := q\<rparr>))"
| "fire_loop opt beh (Suc n) True s =
     (let i = firingIndex s + 1; s1 = s\<lparr>firingIndex := i\<rparr> in
      case (lst s1, memory s1) of
        (Some l, Some m) \<Rightarrow>
          if i < int (length l) then
            (case call_cb opt beh (l ! nat i) m s1 of
               (s2, Throw) \<Rightarrow> Some (s2, True)
             | (s2, r) \<Rightarrow>
                 fire_loop opt beh n True
                   (if r = ReturnFalse \<and> o_stopOnFalse opt
                    then s2\<lparr>firingIndex := (case lst s2 of Some l' \<Rightarrow> int (length l') | None \<Rightarrow> 0), memory := None\<rparr>
                    else s2))
          else fire_loop opt beh n False (s1\<lparr>firingIndex := - 1\<rparr>)
      | _ \<Rightarrow> fire_loop opt beh n False (s1\<lparr>firingIndex := - 1\<rparr>))"

definition start_firing :: "cb_options \<Rightarrow> ('f, 'a) callbacks \<Rightarrow> ('f, 'a) callbacks" where
  "start_firing opt s = s\<lparr>locked := locked s \<or> o_once opt, fired := True, firing := True\<rparr>"

definition fire_cb :: "cb_options \<Rightarrow> ('f, 'a) behaviour \<Rightarrow> nat \<Rightarrow> ('f, 'a) callbacks \<Rightarrow> (('f, 'a) callbacks \<times> bool) option" where
  "fire_cb opt beh n s = fire_loop opt beh n False (start_firing opt s)"

text \<open>One operation from outside, and a sequence of them; a raise is caught by the caller.\<close>

definition perform :: "cb_options \<Rightarrow> ('f, 'a) behaviour \<Rightarrow> nat \<Rightarrow> ('f, 'a) cb_op \<Rightarrow> ('f, 'a) callbacks \<Rightarrow> ('f, 'a) callbacks option" where
  "perform opt beh n op s =
     (case cb_op_step opt op s of
        (s', True) \<Rightarrow> map_option fst (fire_cb opt beh n s')
      | (s', False) \<Rightarrow> Some s')"

fun perform_all :: "cb_options \<Rightarrow> ('f, 'a) behaviour \<Rightarrow> nat \<Rightarrow> ('f, 'a) cb_op list \<Rightarrow> ('f, 'a) callbacks \<Rightarrow> ('f, 'a) callbacks option" where
  "perform_all opt beh n [] s = Some s"
| "perform_all opt beh n (op # ops) s =
     (case perform opt beh n op s of None \<Rightarrow> None | Some s' \<Rightarrow> perform_all opt beh n ops s')"

section \<open>Facts\<close>

lemma fire_loop_inner:
  assumes "lst s = Some l" "memory s = Some m" "firingIndex s = int k - 1" "k < length l"
  shows "fire_loop opt beh (Suc n) True s =
     (case call_cb opt beh (l ! k) m (s\<lparr>firingIndex := int k\<rparr>) of
        (s2, Throw) \<Rightarrow> Some (s2, True)
      | (s2, r) \<Rightarrow>
          fire_loop opt beh n True
            (if r = ReturnFalse \<and> o_stopOnFalse opt
             then s2\<lparr>firingIndex := (case lst s2 of Some l' \<Rightarrow> int (length l') | None \<Rightarrow> 0), memory := None\<rparr>
             else s2))"
  using assms by (auto split: prod.splits outcome.splits)

lemma fire_loop_end:
  assumes "lst s = Some l" "firingIndex s = int (length l) - 1"
  shows "fire_loop opt beh (Suc n) True s = fire_loop opt beh n False (s\<lparr>firingIndex := - 1\<rparr>)"
  using assms by (cases "memory s") simp_all

declare fire_loop.simps(3) [simp del]

subsection \<open>Callbacks that leave the list alone\<close>

definition idle_cbs :: "cb_options \<Rightarrow> ('f, 'a) behaviour \<Rightarrow> bool" where
  "idle_cbs opt beh \<longleftrightarrow> (\<forall>log f m. fst (beh log f m) = [] \<and> snd (beh log f m) \<noteq> Throw
     \<and> (o_stopOnFalse opt \<longrightarrow> snd (beh log f m) \<noteq> ReturnFalse))"

lemma call_passive:
  "idle_cbs opt beh \<Longrightarrow> \<exists>r. call_cb opt beh f m s = (s\<lparr>calls := calls s @ [(f, m)]\<rparr>, r) \<and> r \<noteq> Throw
     \<and> (o_stopOnFalse opt \<longrightarrow> r \<noteq> ReturnFalse)"
  by (auto simp: idle_cbs_def call_cb_def case_prod_unfold Let_def)

lemma fire_loop_passive:
  assumes "idle_cbs opt beh"
  shows "lst s = Some l \<Longrightarrow> memory s = Some m \<Longrightarrow> firingIndex s = int k - 1 \<Longrightarrow> k \<le> length l \<Longrightarrow>
     fire_loop opt beh (Suc (length l - k) + n) True s
       = fire_loop opt beh n False (s\<lparr>firingIndex := - 1, calls := calls s @ map (\<lambda>f. (f, m)) (drop k l)\<rparr>)"
proof (induction "length l - k" arbitrary: k s)
  case 0
  then show ?case using fire_loop_end [of s l opt beh n] by simp
next
  case (Suc d)
  then have k: "k < length l" by simp
  obtain r where r: "call_cb opt beh (l ! k) m (s\<lparr>firingIndex := int k\<rparr>)
      = (s\<lparr>firingIndex := int k, calls := calls s @ [(l ! k, m)]\<rparr>, r)" "r \<noteq> Throw"
      "o_stopOnFalse opt \<longrightarrow> r \<noteq> ReturnFalse"
    using call_passive [OF assms, of "l ! k" m "s\<lparr>firingIndex := int k\<rparr>"] by auto
  have "fire_loop opt beh (Suc (length l - k) + n) True s
      = fire_loop opt beh (Suc (length l - Suc k) + n) True (s\<lparr>firingIndex := int k, calls := calls s @ [(l ! k, m)]\<rparr>)"
    using fire_loop_inner [OF Suc.prems(1,2,3) k, of opt beh "length l - k + n"] r k
    by (cases r) (auto simp: Suc_diff_Suc)
  also have "\<dots> = fire_loop opt beh n False (s\<lparr>firingIndex := - 1,
      calls := calls s @ [(l ! k, m)] @ map (\<lambda>f. (f, m)) (drop (Suc k) l)\<rparr>)"
    using Suc.hyps(1) [of "Suc k" "s\<lparr>firingIndex := int k, calls := calls s @ [(l ! k, m)]\<rparr>"] Suc.hyps(2) Suc.prems k
    by simp
  finally show ?case using k by (simp add: Cons_nth_drop_Suc [symmetric])
qed

lemma fire_passive:
  assumes "idle_cbs opt beh" "lst s = Some l" "queue s = [m]" "firingIndex s = int k - 1" "k \<le> length l"
    and "length l - k + 3 \<le> n"
  shows "fire_cb opt beh n s = Some (finish_firing opt (s\<lparr>locked := locked s \<or> o_once opt, fired := True,
      firing := True, memory := Some m, queue := [], firingIndex := - 1,
      calls := calls s @ map (\<lambda>f. (f, m)) (drop k l)\<rparr>), False)"
proof -
  obtain j where "n = length l - k + 3 + j" using le_Suc_ex [OF assms(6)] by blast
  then have n: "n = Suc (Suc (length l - k) + Suc j)" by simp
  define s1 where "s1 = s\<lparr>locked := locked s \<or> o_once opt, fired := True, firing := True, memory := Some m, queue := []\<rparr>"
  have "fire_cb opt beh n s = fire_loop opt beh (Suc (length l - k) + Suc j) True s1"
    using assms(3) by (simp add: fire_cb_def start_firing_def n s1_def)
  also have "\<dots> = fire_loop opt beh (Suc j) False
      (s1\<lparr>firingIndex := - 1, calls := calls s1 @ map (\<lambda>f. (f, m)) (drop k l)\<rparr>)"
    using assms by (intro fire_loop_passive) (auto simp: s1_def)
  finally show ?thesis by (simp add: s1_def)
qed

text \<open>The functions among the arguments of \<open>add\<close>.\<close>

fun arg_fns :: "'f cb_arg \<Rightarrow> 'f list" where
  "arg_fns (Fn f) = [f]"
| "arg_fns (Nested args) = concat (map arg_fns args)"
| "arg_fns Other = []"

lemma add_arg_plain: "add_arg False a l = l @ arg_fns a"
proof (induction a arbitrary: l)
  case (Nested args)
  have "(\<And>a. a \<in> set as \<Longrightarrow> a \<in> set args) \<Longrightarrow> fold (add_arg False) as l = l @ concat (map arg_fns as)" for as l
    using Nested by (induction as arbitrary: l) auto
  then show ?case by simp
qed auto

lemma add_args_plain: "fold (add_arg False) as l = l @ concat (map arg_fns as)"
  by (induction as arbitrary: l) (auto simp: add_arg_plain)

subsection \<open>One-shot lists with memory\<close>

text \<open>The callbacks that a sequence of operations adds, and the first value it fires.\<close>

fun op_adds :: "('f, 'a) cb_op \<Rightarrow> 'f list" where
  "op_adds (Add args) = concat (map arg_fns args)"
| "op_adds _ = []"

fun first_fired :: "('f, 'a) cb_op list \<Rightarrow> 'a option" where
  "first_fired [] = None"
| "first_fired (FireWith v # ops) = Some v"
| "first_fired (_ # ops) = first_fired ops"

fun add_or_fire :: "('f, 'a) cb_op \<Rightarrow> bool" where
  "add_or_fire (Add _) = True"
| "add_or_fire (FireWith _) = True"
| "add_or_fire _ = False"

abbreviation once_memory :: cb_options where
  "once_memory \<equiv> \<lparr>o_once = True, o_memory = True, o_unique = False, o_stopOnFalse = False\<rparr>"

text \<open>The states of a one-shot list between operations, before and after it was fired with a value.\<close>

definition waiting :: "'f list \<Rightarrow> ('f, 'a) callbacks \<Rightarrow> bool" where
  "waiting fs s \<longleftrightarrow> \<not> firing s \<and> memory s = None \<and> \<not> locked s \<and> lst s = Some fs \<and> queue s = []
     \<and> firingIndex s = - 1 \<and> calls s = []"

definition settled :: "'a \<Rightarrow> 'f list \<Rightarrow> ('f, 'a) callbacks \<Rightarrow> bool" where
  "settled v fs s \<longleftrightarrow> \<not> firing s \<and> memory s = Some v \<and> locked s \<and> lst s = Some [] \<and> queue s = []
     \<and> firingIndex s = - 1 \<and> calls s = map (\<lambda>f. (f, v)) fs"

lemma waiting_add:
  "waiting fs s \<Longrightarrow> \<exists>s'. perform once_memory beh n (Add args) s = Some s' \<and> waiting (fs @ op_adds (Add args)) s'"
  by (auto simp: waiting_def perform_def add_op_def add_args_plain)

lemma waiting_fire:
  assumes "waiting fs s" "idle_cbs once_memory beh" "length fs + 3 \<le> n"
  shows "\<exists>s'. perform once_memory beh n (FireWith v) s = Some s' \<and> settled v fs s'"
  using fire_passive [OF assms(2), of "s\<lparr>queue := [v]\<rparr>" fs v 0 n] assms(1,3)
  by (auto simp: waiting_def settled_def perform_def fireWith_op_def finish_firing_def)

lemma settled_add:
  assumes "settled v fs s" "idle_cbs once_memory beh" "length (op_adds (Add args)) + 3 \<le> n"
  shows "\<exists>s'. perform once_memory beh n (Add args) s = Some s' \<and> settled v (fs @ op_adds (Add args)) s'"
  using fire_passive [OF assms(2), of "s\<lparr>firingIndex := - 1, queue := [v], lst := Some (op_adds (Add args))\<rparr>"
      "op_adds (Add args)" v 0 n] assms(1,3)
  by (auto simp: settled_def perform_def add_op_def finish_firing_def add_args_plain)

lemma settled_fire: "settled v fs s \<Longrightarrow> perform once_memory beh n (FireWith w) s = Some s"
  by (auto simp: settled_def perform_def fireWith_op_def)

lemma settled_run:
  assumes "idle_cbs once_memory beh"
  shows "settled v fs s \<Longrightarrow> list_all add_or_fire ops \<Longrightarrow> length (concat (map op_adds ops)) + 3 \<le> n \<Longrightarrow>
     \<exists>s'. perform_all once_memory beh n ops s = Some s' \<and> settled v (fs @ concat (map op_adds ops)) s'"
proof (induction ops arbitrary: fs s)
  case (Cons op ops)
  show ?case
  proof (cases op)
    case (Add args)
    obtain s1 where "perform once_memory beh n op s = Some s1" "settled v (fs @ op_adds op) s1"
      using settled_add [OF Cons.prems(1) assms, of args n] Cons.prems(3) Add by auto
    then show ?thesis using Cons.IH [of "fs @ op_adds op" s1] Cons.prems by auto
  next
    case (FireWith w)
    then show ?thesis using Cons settled_fire [OF Cons.prems(1)] by auto
  qed (use Cons.prems(2) in auto)
qed auto

text \<open>A callback list with the options \<open>once\<close> and \<open>memory\<close>, the ones of a Deferred, calls every callback
  exactly once with the first value it is fired with, in the order of addition, whether the callback
  was added before or after the firing; before any firing it calls nothing.\<close>

theorem once_memory_calls:
  assumes "idle_cbs once_memory beh" "list_all add_or_fire ops" "length (concat (map op_adds ops)) + 3 \<le> n"
  shows "\<exists>s. perform_all once_memory beh n ops new_callbacks = Some s \<and>
     calls s = (case first_fired ops of
                  None \<Rightarrow> []
                | Some v \<Rightarrow> map (\<lambda>f. (f, v)) (concat (map op_adds ops)))"
proof -
  have "waiting fs s \<Longrightarrow> list_all add_or_fire ops \<Longrightarrow> length (fs @ concat (map op_adds ops)) + 3 \<le> n \<Longrightarrow>
     \<exists>s'. perform_all once_memory beh n ops s = Some s' \<and>
       calls s' = (case first_fired ops of None \<Rightarrow> [] | Some v \<Rightarrow> map (\<lambda>f. (f, v)) (fs @ concat (map op_adds ops)))"
    for fs s
  proof (induction ops arbitrary: fs s)
    case Nil
    then show ?case by (auto simp: waiting_def)
  next
    case (Cons op ops)
    show ?case
    proof (cases op)
      case (Add args)
      obtain s1 where "perform once_memory beh n op s = Some s1" "waiting (fs @ op_adds op) s1"
        using waiting_add [OF Cons.prems(1)] Add by blast
      then show ?thesis using Cons.IH [of "fs @ op_adds op" s1] Cons.prems Add by (auto split: option.splits)
    next
      case (FireWith v)
      obtain s1 where s1: "perform once_memory beh n op s = Some s1" "settled v fs s1"
        using waiting_fire [OF Cons.prems(1) assms(1), of n v] Cons.prems(3) FireWith by auto
      obtain s2 where "perform_all once_memory beh n ops s1 = Some s2" "settled v (fs @ concat (map op_adds ops)) s2"
        using settled_run [OF assms(1) s1(2), of ops n] Cons.prems by auto
      then show ?thesis using s1 FireWith by (auto simp: settled_def)
    qed (use Cons.prems(2) in auto)
  qed
  from this [of "[]" new_callbacks] show ?thesis using assms by (auto simp: waiting_def new_callbacks_def split: option.splits)
qed

theorem once_memory_calls_witness:
  "\<exists>s. perform_all once_memory (\<lambda>_ _ _. ([], Return)) 9 [Add [Fn (1 :: nat)], FireWith ''v'', Add [Nested [Fn 2], Other], FireWith ''w''] new_callbacks = Some s
     \<and> calls s = [(1, ''v''), (2, ''v'')]"
  using once_memory_calls [of "\<lambda>_ _ _. ([], Return)" "[Add [Fn (1 :: nat)], FireWith ''v'', Add [Nested [Fn 2], Other], FireWith ''w'']" 9]
  by (simp add: idle_cbs_def)

subsection \<open>Callbacks that remove callbacks\<close>

lemma remove_loop_none: "f \<notin> set (drop k l) \<Longrightarrow> remove_loop f k (l, i) = (l, i)"
proof -
  assume "f \<notin> set (drop k l)"
  moreover have "l ! j \<in> set (drop k l)" if "k \<le> j" "j < length l" for j
    using that nth_mem [of "j - k" "drop k l"] by simp
  ultimately have "find (\<lambda>j. k \<le> j \<and> l ! j = f) [0..<length l] = None"
    by (auto simp: find_None_iff)
  then show ?thesis by (simp add: remove_loop.simps)
qed

lemma remove_loop_first:
  assumes "f \<notin> set ys" "k \<le> length ys"
  shows "remove_loop f k (ys @ f # zs, i) = remove_loop f (length ys) (ys @ zs, if int (length ys) \<le> i then i - 1 else i)"
proof -
  have "find (\<lambda>j. k \<le> j \<and> (ys @ f # zs) ! j = f) [0..<length (ys @ f # zs)] = Some (length ys)"
    unfolding find_Some_iff
    using assms by (intro exI [of _ "length ys"]) (auto simp: nth_append in_set_conv_nth)
  then show ?thesis by (simp add: remove_loop.simps [of f k])
qed

text \<open>Removing cuts out every occurrence and keeps the firing index on the same element.\<close>

lemma remove_loop_filter:
  "f \<notin> set (take k (pre @ post)) \<Longrightarrow> k \<le> length (pre @ post) \<Longrightarrow>
     remove_loop f k (pre @ post, int (length pre) - 1)
       = (filter (\<lambda>g. g \<noteq> f) (pre @ post), int (length (filter (\<lambda>g. g \<noteq> f) pre)) - 1)"
proof (induction "length (pre @ post)" arbitrary: k pre post rule: less_induct)
  case less
  show ?case
  proof (cases "f \<in> set (pre @ post)")
    case False
    then have "filter (\<lambda>g. g \<noteq> f) pre = pre" "filter (\<lambda>g. g \<noteq> f) post = post" by (auto intro: filter_True)
    then show ?thesis using False remove_loop_none [of f k "pre @ post"] by (auto dest: in_set_dropD)
  next
    case True
    have early: "k \<le> length ys" if "pre @ post = ys @ f # zs" for ys zs
    proof (rule ccontr)
      assume "\<not> k \<le> length ys"
      then have "f \<in> set (take k (ys @ f # zs))" by (cases "k - length ys") auto
      then show False using less.prems(1) that by simp
    qed
    show ?thesis
    proof (cases "f \<in> set pre")
      case True
      then obtain ys pre' where pre: "pre = ys @ f # pre'" "f \<notin> set ys" by (meson split_list_first)
      have "remove_loop f (length ys) ((ys @ pre') @ post, int (length (ys @ pre')) - 1)
          = (filter (\<lambda>g. g \<noteq> f) ((ys @ pre') @ post), int (length (filter (\<lambda>g. g \<noteq> f) (ys @ pre'))) - 1)"
        using pre(2) by (intro less.hyps) (auto simp: pre)
      then show ?thesis
        using remove_loop_first [OF pre(2), of k "pre' @ post" "int (length pre) - 1"] early [of ys "pre' @ post"] by (simp add: pre)
    next
      case False
      then obtain post' zs where post: "post = post' @ f # zs" "f \<notin> set (pre @ post')"
        using True split_list_first [of f post] by auto
      have "remove_loop f (length (pre @ post')) (pre @ post' @ zs, int (length pre) - 1)
          = (filter (\<lambda>g. g \<noteq> f) (pre @ post' @ zs), int (length (filter (\<lambda>g. g \<noteq> f) pre)) - 1)"
        using post(2) by (intro less.hyps) (auto simp: post)
      then show ?thesis
        using remove_loop_first [OF post(2), of k zs "int (length pre) - 1"] early [of "pre @ post'" zs] by (simp add: post)
    qed
  qed
qed

text \<open>The loop a reader expects: call the first callback, drop what it removed, go on with the rest.\<close>

fun removed :: "('f, 'a) cb_op list \<Rightarrow> 'f set" where
  "removed [] = {}"
| "removed (Remove fs # ops) = set fs \<union> removed ops"
| "removed (_ # ops) = removed ops"

function fire_ref :: "('f, 'a) behaviour \<Rightarrow> 'a \<Rightarrow> ('f \<times> 'a) list \<Rightarrow> 'f list \<Rightarrow> ('f \<times> 'a) list" where
  "fire_ref beh m log [] = log"
| "fire_ref beh m log (f # fs) =
     fire_ref beh m (log @ [(f, m)]) (filter (\<lambda>g. g \<notin> removed (fst (beh log f m))) fs)"
  by pat_completeness auto
termination
  by (relation "measure (\<lambda>(beh, m, log, fs). length fs)") (auto simp: le_imp_less_Suc)

definition removing :: "cb_options \<Rightarrow> ('f, 'a) behaviour \<Rightarrow> bool" where
  "removing opt beh \<longleftrightarrow> (\<forall>log f m. (\<forall>op \<in> set (fst (beh log f m)). \<exists>fs. op = Remove fs)
     \<and> snd (beh log f m) \<noteq> Throw \<and> (o_stopOnFalse opt \<longrightarrow> snd (beh log f m) \<noteq> ReturnFalse))"

text \<open>The firing index points at the last of the callbacks that have had their turn.\<close>

definition at_turn :: "'f list \<Rightarrow> 'f list \<Rightarrow> ('f, 'a) callbacks \<Rightarrow> bool" where
  "at_turn pre post s \<longleftrightarrow> lst s = Some (pre @ post) \<and> firingIndex s = int (length pre) - 1"

lemma at_turn_remove:
  "at_turn pre post s \<Longrightarrow> remove_cb f s = s\<lparr>lst := lst (remove_cb f s), firingIndex := firingIndex (remove_cb f s)\<rparr>
     \<and> at_turn (filter (\<lambda>g. g \<noteq> f) pre) (filter (\<lambda>g. g \<noteq> f) post) (remove_cb f s)"
  using remove_loop_filter [of f 0 pre post] by (auto simp: at_turn_def remove_cb_def)

lemma unchanged: "\<exists>l i. s = s\<lparr>lst := l, firingIndex := i\<rparr>" for s :: "('f, 'a) callbacks"
  by (cases s) auto

lemma at_turn_remove_all:
  "at_turn pre post s \<Longrightarrow> \<exists>l i. fold remove_cb fs s = s\<lparr>lst := l, firingIndex := i\<rparr>
     \<and> at_turn (filter (\<lambda>g. g \<notin> set fs) pre) (filter (\<lambda>g. g \<notin> set fs) post) (fold remove_cb fs s)"
proof (induction fs arbitrary: s pre post)
  case Nil
  then show ?case using unchanged [of s] by simp
next
  case (Cons f fs)
  note r = at_turn_remove [OF Cons.prems, of f]
  from Cons.IH [OF conjunct2 [OF r]] obtain l i where
    li: "fold remove_cb fs (remove_cb f s) = (remove_cb f s)\<lparr>lst := l, firingIndex := i\<rparr>"
    "at_turn (filter (\<lambda>g. g \<notin> set fs) (filter (\<lambda>g. g \<noteq> f) pre)) (filter (\<lambda>g. g \<notin> set fs) (filter (\<lambda>g. g \<noteq> f) post))
      (fold remove_cb fs (remove_cb f s))" by blast
  have "fold remove_cb (f # fs) s = s\<lparr>lst := l, firingIndex := i\<rparr>"
  proof -
    obtain a b where ab: "remove_cb f s = s\<lparr>lst := a, firingIndex := b\<rparr>" using r by blast
    have "fold remove_cb (f # fs) s = (remove_cb f s)\<lparr>lst := l, firingIndex := i\<rparr>" by (simp add: li(1))
    also have "\<dots> = s\<lparr>lst := l, firingIndex := i\<rparr>" by (simp add: ab)
    finally show ?thesis .
  qed
  moreover have "at_turn (filter (\<lambda>g. g \<notin> set (f # fs)) pre) (filter (\<lambda>g. g \<notin> set (f # fs)) post) (fold remove_cb (f # fs) s)"
    using li(2) by (simp add: filter_filter conj_commute)
  ultimately show ?case by blast
qed

lemma at_turn_ops:
  "at_turn pre post s \<Longrightarrow> \<forall>op \<in> set ops. \<exists>fs. op = Remove fs \<Longrightarrow>
     \<exists>l i. fold (\<lambda>op s. fst (cb_op_step opt op s)) ops s = s\<lparr>lst := l, firingIndex := i\<rparr>
     \<and> at_turn (filter (\<lambda>g. g \<notin> removed ops) pre) (filter (\<lambda>g. g \<notin> removed ops) post)
         (fold (\<lambda>op s. fst (cb_op_step opt op s)) ops s)"
proof (induction ops arbitrary: s pre post)
  case Nil
  then show ?case using unchanged [of s] by simp
next
  case (Cons op ops)
  then obtain fs where op: "op = Remove fs" by auto
  obtain l i where 1: "fold remove_cb fs s = s\<lparr>lst := l, firingIndex := i\<rparr>"
    "at_turn (filter (\<lambda>g. g \<notin> set fs) pre) (filter (\<lambda>g. g \<notin> set fs) post) (fold remove_cb fs s)"
    using at_turn_remove_all [OF Cons.prems(1)] by blast
  from Cons.IH [OF 1(2)] Cons.prems(2) obtain l' i' where
    2: "fold (\<lambda>op s. fst (cb_op_step opt op s)) ops (fold remove_cb fs s) = (fold remove_cb fs s)\<lparr>lst := l', firingIndex := i'\<rparr>"
    "at_turn (filter (\<lambda>g. g \<notin> removed ops) (filter (\<lambda>g. g \<notin> set fs) pre)) (filter (\<lambda>g. g \<notin> removed ops) (filter (\<lambda>g. g \<notin> set fs) post))
      (fold (\<lambda>op s. fst (cb_op_step opt op s)) ops (fold remove_cb fs s))" by auto
  show ?case
    using 2 1(1) by (auto simp: op filter_filter conj_commute)
qed

lemma call_removing:
  assumes "removing opt beh" "at_turn pre (f # post) s"
  shows "\<exists>s2 r. call_cb opt beh f m (s\<lparr>firingIndex := int (length pre)\<rparr>) = (s2, r) \<and> r \<noteq> Throw
    \<and> (o_stopOnFalse opt \<longrightarrow> r \<noteq> ReturnFalse) \<and> (\<exists>l i. s2 = s\<lparr>calls := calls s @ [(f, m)], lst := l, firingIndex := i\<rparr>)
    \<and> (\<exists>pre'. at_turn pre' (filter (\<lambda>g. g \<notin> removed (fst (beh (calls s) f m))) post) s2)"
proof -
  define s1 where "s1 = s\<lparr>firingIndex := int (length pre), calls := calls s @ [(f, m)]\<rparr>"
  have "at_turn (pre @ [f]) post s1" using assms(2) by (simp add: at_turn_def s1_def)
  moreover have "\<forall>op \<in> set (fst (beh (calls s) f m)). \<exists>fs. op = Remove fs" using assms(1) by (auto simp: removing_def)
  ultimately obtain l i where
    "fold (\<lambda>op s. fst (cb_op_step opt op s)) (fst (beh (calls s) f m)) s1 = s1\<lparr>lst := l, firingIndex := i\<rparr>"
    "at_turn (filter (\<lambda>g. g \<notin> removed (fst (beh (calls s) f m))) (pre @ [f]))
       (filter (\<lambda>g. g \<notin> removed (fst (beh (calls s) f m))) post)
       (fold (\<lambda>op s. fst (cb_op_step opt op s)) (fst (beh (calls s) f m)) s1)"
    using at_turn_ops [of "pre @ [f]" post s1 "fst (beh (calls s) f m)" opt] by blast
  then show ?thesis
    using assms(1) by (auto simp: call_cb_def s1_def Let_def case_prod_unfold removing_def)
qed

lemma fire_loop_removing:
  assumes "removing opt beh"
  shows "at_turn pre post s \<Longrightarrow> memory s = Some m \<Longrightarrow> length post < n \<Longrightarrow> queue s = [] \<Longrightarrow>
     \<exists>s'. fire_loop opt beh (Suc n) True s = Some (s', False) \<and> calls s' = fire_ref beh m (calls s) post"
proof (induction "length post" arbitrary: pre post s n rule: less_induct)
  case less
  show ?case
  proof (cases post)
    case Nil
    then obtain k where "n = Suc k" using less.prems(3) by (cases n) auto
    then show ?thesis
      using less.prems Nil fire_loop_end [of s pre opt beh n] by (auto simp: at_turn_def finish_firing_def Let_def)
  next
    case (Cons f post')
    obtain s2 r l i pre' where c: "call_cb opt beh f m (s\<lparr>firingIndex := int (length pre)\<rparr>) = (s2, r)" "r \<noteq> Throw"
      "o_stopOnFalse opt \<longrightarrow> r \<noteq> ReturnFalse" "s2 = s\<lparr>calls := calls s @ [(f, m)], lst := l, firingIndex := i\<rparr>"
      "at_turn pre' (filter (\<lambda>g. g \<notin> removed (fst (beh (calls s) f m))) post') s2"
      using call_removing [OF assms, of pre f post' s m] less.prems(1) Cons by blast
    let ?rest = "filter (\<lambda>g. g \<notin> removed (fst (beh (calls s) f m))) post'"
    obtain k where k: "n = Suc k" using less.prems(3) by (cases n) auto
    have "length ?rest \<le> length post'" by simp
    then have lt: "length ?rest < length post" "length ?rest < k"
      using less.prems(3) k Cons by (simp_all only: length_Cons le_imp_less_Suc Suc_less_eq le_less_trans)
    have "fire_loop opt beh (Suc n) True s = fire_loop opt beh (Suc k) True s2"
      using fire_loop_inner [of s "pre @ post" m "length pre" opt beh n] less.prems Cons c(1-3) k
      by (cases r) (auto simp: at_turn_def)
    moreover have "\<exists>s'. fire_loop opt beh (Suc k) True s2 = Some (s', False) \<and> calls s' = fire_ref beh m (calls s2) ?rest"
      using less.prems c(4) by (intro less.hyps [OF lt(1) c(5) _ lt(2)]) auto
    ultimately show ?thesis using c(4) Cons by auto
  qed
qed

text \<open>A list whose callbacks remove callbacks (themselves or others) while it fires calls nothing twice
  and skips nothing: the calls are those of the plain loop that calls the first callback, drops what
  it removed from the rest and goes on.\<close>

theorem fire_removals:
  assumes "removing opt beh" "lst s = Some fs" "\<not> firing s" "\<not> locked s" "queue s = []" "firingIndex s = - 1"
    and "length fs + 3 \<le> n"
  shows "\<exists>s'. perform opt beh n (FireWith m) s = Some s' \<and> calls s' = fire_ref beh m (calls s) fs"
proof -
  obtain k where n: "n = Suc (Suc k)" "length fs < k" using assms(7) by (cases n; cases "n - 1") auto
  define s1 where "s1 = s\<lparr>locked := o_once opt, fired := True, firing := True, memory := Some m, queue := []\<rparr>"
  have "at_turn [] fs s1" using assms by (simp add: at_turn_def s1_def)
  then obtain s' where "fire_loop opt beh (Suc k) True s1 = Some (s', False)" "calls s' = fire_ref beh m (calls s1) fs"
    using fire_loop_removing [OF assms(1), of "[]" fs s1 m k] assms(5) n(2) by (auto simp: s1_def)
  then show ?thesis
    using assms(3-5) n(1) by (auto simp: perform_def fireWith_op_def fire_cb_def start_firing_def s1_def)
qed

theorem fire_removals_witness:
  "\<exists>s'. perform \<lparr>o_once = False, o_memory = False, o_unique = False, o_stopOnFalse = False\<rparr>
       (\<lambda>_ f _. ([Remove [f, 2]], Return)) 9 (FireWith ''v'') (new_callbacks\<lparr>lst := Some [1 :: nat, 2, 3]\<rparr>) = Some s'
     \<and> calls s' = [(1, ''v''), (3, ''v'')]"
  using fire_removals [of "\<lparr>o_once = False, o_memory = False, o_unique = False, o_stopOnFalse = False\<rparr>"
      "\<lambda>_ f _. ([Remove [f, 2]], Return)" "new_callbacks\<lparr>lst := Some [1 :: nat, 2, 3]\<rparr>" "[1, 2, 3]" 9 "''v''"]
  by (simp add: removing_def new_callbacks_def)

subsection \<open>Callbacks that raise\<close>

lemma cb_op_step_firing: "firing (fst (cb_op_step opt op s)) = firing s"
proof -
  have "firing (fold remove_cb fs s) = firing s" for fs
    by (induction fs arbitrary: s) (auto simp: remove_cb_def split: option.splits prod.splits)
  then show ?thesis
    by (cases op) (auto simp: add_op_def empty_op_def disable_op_def lock_op_def fireWith_op_def Let_def split: option.splits)
qed

lemma cb_op_step_calls: "calls (fst (cb_op_step opt op s)) = calls s"
proof -
  have "calls (fold remove_cb fs s) = calls s" for fs
    by (induction fs arbitrary: s) (auto simp: remove_cb_def split: option.splits prod.splits)
  then show ?thesis
    by (cases op) (auto simp: add_op_def empty_op_def disable_op_def lock_op_def fireWith_op_def Let_def split: option.splits)
qed

lemma cb_op_step_no_fire: "firing s \<Longrightarrow> \<not> snd (cb_op_step opt op s)"
  by (cases op) (auto simp: add_op_def fireWith_op_def Let_def split: option.splits)

lemma call_cb_firing: "firing (fst (call_cb opt beh f m s)) = firing s" for s :: "('f, 'a) callbacks"
proof -
  have "firing (fold (\<lambda>op s. fst (cb_op_step opt op s)) ops s) = firing s" for ops and s :: "('f, 'a) callbacks"
    by (induction ops arbitrary: s) (auto simp: cb_op_step_firing)
  then show ?thesis by (simp add: call_cb_def Let_def case_prod_unfold)
qed

lemma fire_loop_raised: "fire_loop opt beh n inner s = Some (s', True) \<Longrightarrow> firing s \<Longrightarrow> firing s'"
proof (induction n arbitrary: inner s)
  case (Suc n)
  show ?case
  proof (cases inner)
    case False
    then show ?thesis using Suc by (auto split: list.splits)
  next
    case True
    have "firing s2" if "call_cb opt beh f m (s\<lparr>firingIndex := i\<rparr>) = (s2, r)" for f m i s2 r
      using call_cb_firing [of opt beh f m "s\<lparr>firingIndex := i\<rparr>"] that Suc.prems(2) by simp
    then show ?thesis
      using Suc True
      by (auto simp: fire_loop.simps(3) Let_def split: option.splits if_splits prod.splits outcome.splits)
  qed
qed simp

text \<open>Once a callback has raised, the list stays marked as firing and is dead: whatever operations are
  performed on it later, firing it included, no callback is called any more.\<close>

theorem raise_jams_list:
  assumes "fire_cb opt beh n s = Some (s', True)"
  shows "\<exists>s''. perform_all opt beh k ops s' = Some s'' \<and> calls s'' = calls s'"
proof -
  have "firing s'" using assms fire_loop_raised by (fastforce simp: fire_cb_def start_firing_def)
  then show ?thesis
  proof (induction ops arbitrary: s')
    case (Cons op ops)
    obtain s1 where s1: "cb_op_step opt op s' = (s1, False)"
      using cb_op_step_no_fire [OF Cons.prems, of opt op] by (cases "cb_op_step opt op s'") auto
    then have "firing s1" "calls s1 = calls s'"
      using cb_op_step_firing [of opt op s'] cb_op_step_calls [of opt op s'] Cons.prems by auto
    then show ?case using Cons.IH [of s1] s1 by (simp add: perform_def)
  qed simp
qed

theorem raise_jams_list_witness:
  "\<exists>s' s''. fire_cb once_memory (\<lambda>_ _ _. ([], Throw)) 9 (new_callbacks\<lparr>lst := Some [1 :: nat, 2], queue := [''v'']\<rparr>) = Some (s', True)
     \<and> perform_all once_memory (\<lambda>_ _ _. ([], Throw)) 9 [FireWith ''w'', Add [Fn 3]] s' = Some s'' \<and> calls s'' = calls s'"
proof -
  obtain s' where s: "fire_cb once_memory (\<lambda>_ _ _. ([], Throw)) 9 (new_callbacks\<lparr>lst := Some [1 :: nat, 2], queue := [''v'']\<rparr>) = Some (s', True)"
    by (simp add: fire_cb_def start_firing_def new_callbacks_def eval_nat_numeral fire_loop.simps(3) call_cb_def)
  from raise_jams_list [OF s, of 9 "[FireWith ''w'', Add [Fn 3]]"] s show ?thesis by blast
qed

section \<open>Firing, one turn at a time\<close>

text \<open>
  The same loops cut at the calls, for lists whose callbacks act on other lists: a turn ends with a
  call, at the head of a loop, or with the end of \<open>fire\<close>.
\<close>

datatype ('f, 'a) turn = Call 'f 'a | Inner | Outer | Done

definition fire_turn :: "cb_options \<Rightarrow> bool \<Rightarrow> ('f, 'a) callbacks \<Rightarrow> ('f, 'a) callbacks \<times> ('f, 'a) turn" where
  "fire_turn opt inner s =
     (if inner then
        (let i = firingIndex s + 1; s1 = s\<lparr>firingIndex := i\<rparr> in
         case (lst s1, memory s1) of
           (Some l, Some m) \<Rightarrow>
             if i < int (length l) then (s1\<lparr>calls := calls s1 @ [(l ! nat i, m)]\<rparr>, Call (l ! nat i) m)
             else (s1\<lparr>firingIndex := - 1\<rparr>, Outer)
         | _ \<Rightarrow> (s1\<lparr>firingIndex := - 1\<rparr>, Outer))
      else
        (case queue s of
           [] \<Rightarrow> (finish_firing opt s, Done)
         | m # q \<Rightarrow> (s\<lparr>memory := Some m, queue := q\<rparr>, Inner)))"

lemma fire_loop_turn:
  "fire_loop opt beh (Suc n) inner s =
     (case fire_turn opt inner s of
        (s1, Done) \<Rightarrow> Some (s1, False)
      | (s1, Inner) \<Rightarrow> fire_loop opt beh n True s1
      | (s1, Outer) \<Rightarrow> fire_loop opt beh n False s1
      | (s1, Call f m) \<Rightarrow>
          (let (ops, r) = beh (calls s) f m; s2 = fold (\<lambda>op s. fst (cb_op_step opt op s)) ops s1 in
           if r = Throw then Some (s2, True)
           else fire_loop opt beh n True
             (if r = ReturnFalse \<and> o_stopOnFalse opt
              then s2\<lparr>firingIndex := (case lst s2 of Some l' \<Rightarrow> int (length l') | None \<Rightarrow> 0), memory := None\<rparr>
              else s2)))"
  by (cases inner)
     (auto simp: fire_turn_def fire_loop.simps(3) call_cb_def Let_def split: list.splits option.splits prod.splits outcome.splits)

end
