(* ===== verification/JqueryDeferred.thy ===== *)
theory JqueryDeferred
  imports JqueryCallbacks
begin

text \<open>
  \<open>jQuery.Deferred\<close>, \<open>then\<close> and \<open>jQuery.when\<close> of \<open>docs/_static/jquery-3.6.0.js\<close>, on the callback lists of
  \<open>JqueryCallbacks\<close>.  Callbacks of one list act on others and on other deferred objects, may be entered
  again while they run, and raise through all of it; so the code is a machine with an explicit stack of
  activations.  User code is an argument of the machine: at every point it is asked for its next action
  and may depend on the whole state.  The context of a call (\<open>this\<close>) is left out, as are the debugging
  hooks for stack traces and exceptions.
\<close>

section \<open>State\<close>

datatype slot = Notify | Resolve | Reject \<comment> \<open>the three tuples, by their action\<close>

datatype kind = Cbs | Handlers \<comment> \<open>\<open>tuple[2]\<close> and \<open>tuple[3]\<close>\<close>

datatype dstate = Pending | Resolved | Rejected

text \<open>
  The functions that get around: user code, the actions of a deferred object, the closures made by
  \<open>then\<close> (its number, the depth, the handler and whether \<open>special\<close> is given), by \<open>pipe\<close> and by \<open>when\<close>.
\<close>

datatype closure =
    User nat
  | Action nat slot
  | Process nat nat handler bool
  | PipeTo "closure option" slot nat
  | Update nat nat
and handler = Handler closure | Identity | Thrower

text \<open>The functions that a deferred object adds to its own lists.\<close>

datatype internal = SetState dstate | DisableList slot kind | LockList slot kind | FireList slot

datatype fn = Internal internal | Closure closure

datatype val =
    Undef
  | Plain nat
  | TypeErr
  | Promise nat \<comment> \<open>the promise of a deferred object\<close>
  | DeferredObj nat \<comment> \<open>the deferred object itself\<close>
  | Thenable closure \<comment> \<open>another object, with this \<open>then\<close> method\<close>
  | Args "val list" \<comment> \<open>several values as one array\<close>
  | Fun closure

type_synonym cblist = "(fn, val list) callbacks"

record deferred =
  dstate :: dstate
  cbl :: "slot \<Rightarrow> kind \<Rightarrow> cblist"

record then_vars =
  newDefer :: nat
  maxDepth :: nat

record when_vars =
  remaining :: int
  resolveValues :: "val list"
  primary :: nat

text \<open>
  All deferred objects, with the number of the next one, the variables of the calls of \<open>then\<close> and
  \<open>when\<close>, and the functions given to \<open>window.setTimeout\<close>.
\<close>

record dworld =
  dfr :: "nat \<Rightarrow> deferred"
  nextDfr :: nat
  thens :: "nat \<Rightarrow> then_vars"
  nextThen :: nat
  whens :: "nat \<Rightarrow> when_vars"
  nextWhen :: nat
  timers :: "(closure \<times> val list) list"

definition list_options :: "slot \<Rightarrow> cb_options" where
  "list_options s = createOptions (if s = Notify then ''memory'' else ''once memory'')"

fun final_state :: "slot \<Rightarrow> dstate" where
  "final_state Notify = Pending"
| "final_state Resolve = Resolved"
| "final_state Reject = Rejected"

fun other :: "slot \<Rightarrow> slot" where
  "other Notify = Notify"
| "other Resolve = Reject"
| "other Reject = Resolve"

text \<open>What \<open>jQuery.Deferred\<close> adds to the callbacks of a tuple.\<close>

definition state_fns :: "slot \<Rightarrow> fn list" where
  "state_fns s =
     (if s = Notify then []
      else map Internal [SetState (final_state s), DisableList (other s) Cbs, DisableList (other s) Handlers,
        LockList Notify Cbs, LockList Notify Handlers])"

definition new_list :: "slot \<Rightarrow> kind \<Rightarrow> cblist" where
  "new_list s k =
     (if k = Cbs
      then fst (add_op (list_options s) [Fn (Internal (FireList s))]
             (fst (add_op (list_options s) (map Fn (state_fns s)) new_callbacks)))
      else new_callbacks)"

definition new_deferred :: deferred where
  "new_deferred = \<lparr>dstate = Pending, cbl = new_list\<rparr>"

definition set_list :: "nat \<Rightarrow> slot \<Rightarrow> kind \<Rightarrow> cblist \<Rightarrow> dworld \<Rightarrow> dworld" where
  "set_list d s k c w =
     w\<lparr>dfr := (dfr w)(d := (dfr w d)\<lparr>cbl := (cbl (dfr w d))(s := (cbl (dfr w d) s)(k := c))\<rparr>)\<rparr>"

abbreviation list_of :: "dworld \<Rightarrow> nat \<Rightarrow> slot \<Rightarrow> kind \<Rightarrow> cblist" where
  "list_of w d s k \<equiv> cbl (dfr w d) s k"

section \<open>The machine\<close>

datatype stage = AwaitHandler | AwaitThen

datatype action =
    AddTo nat slot kind "closure list" \<comment> \<open>\<open>list.add\<close>\<close>
  | CallFn closure "val list"
  | Adopt val closure nat bool \<comment> \<open>\<open>adoptValue\<close>\<close>
  | WhenReturn nat nat

text \<open>
  Activations: the loops of \<open>fire\<close>, a user function with the number of actions it has done and whether
  the last one is guarded by \<open>try\<close>, \<open>process\<close>, the function of \<open>pipe\<close>, \<open>adoptValue\<close>, and statements to be
  done.
\<close>

datatype frame =
    Fire nat slot kind bool
  | UserCode nat "val list" nat bool
  | Processing nat nat handler bool "val list" stage
  | Piping slot nat
  | Adopting nat
  | Todo "action list"

text \<open>Whether the top activation is to go on, has got a result, or an exception.\<close>

datatype signal = Go | Ret val | Exn val

type_synonym dconfig = "dworld \<times> frame list \<times> signal"

datatype user_op =
    NewDeferred "closure option"
  | AddListeners nat slot "closure list" \<comment> \<open>\<open>progress\<close>, \<open>done\<close>, \<open>fail\<close>\<close>
  | Always nat "closure list"
  | Then nat "closure option" "closure option" "closure option"
  | Catch nat "closure option"
  | Pipe nat "closure option" "closure option" "closure option"
  | When "val list"
  | Invoke closure "val list"

datatype user_next = Do bool user_op | Finish val | Raise val

type_synonym user = "dworld \<Rightarrow> nat \<Rightarrow> val list \<Rightarrow> nat \<Rightarrow> user_next"

subsection \<open>Operations on lists\<close>

definition fire_with :: "nat \<Rightarrow> slot \<Rightarrow> kind \<Rightarrow> val list \<Rightarrow> dworld \<Rightarrow> frame list \<Rightarrow> dconfig" where
  "fire_with d s k args w st =
     (case fireWith_op args (list_of w d s k) of
        (c, True) \<Rightarrow> (set_list d s k (start_firing (list_options s) c) w, Fire d s k False # st, Go)
      | (c, False) \<Rightarrow> (set_list d s k c w, st, Ret Undef))"

definition add_to :: "nat \<Rightarrow> slot \<Rightarrow> kind \<Rightarrow> closure list \<Rightarrow> dworld \<Rightarrow> frame list \<Rightarrow> dconfig" where
  "add_to d s k fs w st =
     (case add_op (list_options s) (map (\<lambda>f. Fn (Closure f)) fs) (list_of w d s k) of
        (c, True) \<Rightarrow> (set_list d s k (start_firing (list_options s) c) w, Fire d s k False # st, Go)
      | (c, False) \<Rightarrow> (set_list d s k c w, st, Ret Undef))"

fun call_internal :: "nat \<Rightarrow> internal \<Rightarrow> val list \<Rightarrow> dworld \<Rightarrow> frame list \<Rightarrow> dconfig" where
  "call_internal d (SetState x) args w st = (w\<lparr>dfr := (dfr w)(d := (dfr w d)\<lparr>dstate := x\<rparr>)\<rparr>, st, Go)"
| "call_internal d (DisableList s k) args w st = (set_list d s k (disable_op (list_of w d s k)) w, st, Go)"
| "call_internal d (LockList s k) args w st = (set_list d s k (lock_op (list_of w d s k)) w, st, Go)"
| "call_internal d (FireList s) args w st = fire_with d s Handlers args w st"

subsection \<open>Calling a function\<close>

definition arg0 :: "val list \<Rightarrow> val" where
  "arg0 args = (case args of [] \<Rightarrow> Undef | v # _ \<Rightarrow> v)"

definition arguments_value :: "val list \<Rightarrow> val" where
  "arguments_value args = (if length args > 1 then Args args else arg0 args)"

text \<open>JavaScript arrays grow when they are written past their end.\<close>

definition store_value :: "nat \<Rightarrow> val \<Rightarrow> val list \<Rightarrow> val list" where
  "store_value i v xs = (xs @ replicate (Suc i - length xs) Undef) [i := v]"

text \<open>\<open>process\<close> up to the return of the handler; \<open>Identity\<close> returns and \<open>Thrower\<close> raises its argument.\<close>

fun call_closure :: "closure \<Rightarrow> val list \<Rightarrow> dworld \<Rightarrow> frame list \<Rightarrow> dconfig"
  and call_handler :: "handler \<Rightarrow> val list \<Rightarrow> dworld \<Rightarrow> frame list \<Rightarrow> dconfig" where
  "call_closure (User f) args w st = (w, UserCode f args 0 False # st, Go)"
| "call_closure (Action d s) args w st = fire_with d s Cbs args w st"
| "call_closure (Process t depth h special) args w st =
     (if depth = 0 then (w\<lparr>timers := timers w @ [(Process t depth h special, args)]\<rparr>, st, Ret Undef)
      else if depth < maxDepth (thens w t) then (w, st, Ret Undef)
      else call_handler h args w (Processing t depth h special args AwaitHandler # st))"
| "call_closure (PipeTo fn s d) args w st =
     (case fn of
        None \<Rightarrow> fire_with d s Cbs args w st
      | Some f \<Rightarrow> call_closure f args w (Piping s d # st))"
| "call_closure (Update n i) args w st =
     (let v = whens w n;
          v' = v\<lparr>resolveValues := store_value i (arguments_value args) (resolveValues v), remaining := remaining v - 1\<rparr>;
          w' = w\<lparr>whens := (whens w)(n := v')\<rparr> in
      if remaining v' = 0 then fire_with (primary v') Resolve Cbs (resolveValues v') w' st
      else (w', st, Ret Undef))"
| "call_handler (Handler f) args w st = call_closure f args w st"
| "call_handler Identity args w st = (w, st, Ret (arg0 args))"
| "call_handler Thrower args w st = (w, st, Exn (arg0 args))"

text \<open>A function given to \<open>setTimeout\<close> runs \<open>process\<close> itself.\<close>

definition run_timer :: "closure \<Rightarrow> val list \<Rightarrow> dworld \<Rightarrow> dconfig" where
  "run_timer f args w =
     (case f of
        Process t depth h special \<Rightarrow>
          if depth < maxDepth (thens w t) then (w, [], Ret Undef)
          else call_handler h args w [Processing t depth h special args AwaitHandler]
      | _ \<Rightarrow> (w, [], Ret Undef))"

subsection \<open>Making promises\<close>

text \<open>
  \<open>jQuery.Deferred()\<close>: the next number, whose object is in its initial state.  User code that names an
  object before it was made is more than JavaScript allows; the theorems hold for it too.
\<close>

definition make_deferred :: "dworld \<Rightarrow> dworld \<times> nat" where
  "make_deferred w = (w\<lparr>nextDfr := nextDfr w + 1\<rparr>, nextDfr w)"

definition or_else :: "closure option \<Rightarrow> handler \<Rightarrow> handler" where
  "or_else f h = (case f of Some c \<Rightarrow> Handler c | None \<Rightarrow> h)"

definition then_call :: "nat \<Rightarrow> closure option \<Rightarrow> closure option \<Rightarrow> closure option \<Rightarrow> dworld \<Rightarrow> frame list \<Rightarrow> dconfig" where
  "then_call d onFulfilled onRejected onProgress w st =
     (let (w1, nd) = make_deferred w; t = nextThen w1;
          w2 = w1\<lparr>thens := (thens w1)(t := \<lparr>newDefer = nd, maxDepth = 0\<rparr>), nextThen := t + 1\<rparr> in
      (w2, Todo
         [AddTo d Notify Handlers [Process t 0 (or_else onProgress Identity) True],
          AddTo d Resolve Handlers [Process t 0 (or_else onFulfilled Identity) False],
          AddTo d Reject Handlers [Process t 0 (or_else onRejected Thrower) False]] # st, Go))"

definition pipe_call :: "nat \<Rightarrow> closure option \<Rightarrow> closure option \<Rightarrow> closure option \<Rightarrow> dworld \<Rightarrow> frame list \<Rightarrow> dconfig" where
  "pipe_call d fnDone fnFail fnProgress w st =
     (let (w1, nd) = make_deferred w in
      (w1, Todo
         [AddTo d Notify Cbs [PipeTo fnProgress Notify nd],
          AddTo d Resolve Cbs [PipeTo fnDone Resolve nd],
          AddTo d Reject Cbs [PipeTo fnFail Reject nd]] # st, Go))"

text \<open>The call of the \<open>then\<close> method of a value.\<close>

fun thenable :: "val \<Rightarrow> bool" where
  "thenable (Promise d) = True"
| "thenable (DeferredObj d) = True"
| "thenable (Thenable f) = True"
| "thenable _ = False"

fun value_then :: "val \<Rightarrow> closure \<Rightarrow> closure \<Rightarrow> closure option \<Rightarrow> dworld \<Rightarrow> frame list \<Rightarrow> dconfig" where
  "value_then (Promise d) f g p w st = then_call d (Some f) (Some g) p w st"
| "value_then (DeferredObj d) f g p w st = then_call d (Some f) (Some g) p w st"
| "value_then (Thenable c) f g p w st =
     call_closure c ([Fun f, Fun g] @ (case p of Some q \<Rightarrow> [Fun q] | None \<Rightarrow> [])) w st"
| "value_then _ f g p w st = (w, st, Ret Undef)"

text \<open>\<open>process\<close> after the return of the handler.\<close>

definition handler_returned :: "nat \<Rightarrow> nat \<Rightarrow> handler \<Rightarrow> bool \<Rightarrow> val list \<Rightarrow> val \<Rightarrow> dworld \<Rightarrow> frame list \<Rightarrow> dconfig" where
  "handler_returned t depth h special args returned w st =
     (let v = thens w t; d = newDefer v; st1 = Processing t depth h special args AwaitThen # st in
      if returned = Promise d then (w, st1, Exn TypeErr)
      else if thenable returned then
        (if special then
           value_then returned (Process t (maxDepth v) Identity special) (Process t (maxDepth v) Thrower special) None w st1
         else
           (let m = maxDepth v + 1 in
            value_then returned (Process t m Identity special) (Process t m Thrower special) (Some (Process t m Identity True))
              (w\<lparr>thens := (thens w)(t := v\<lparr>maxDepth := m\<rparr>)\<rparr>) st1))
      else fire_with d (if special then Notify else Resolve) Cbs (if h \<noteq> Identity then [returned] else args) w st1)"

text \<open>The \<open>catch\<close> of \<open>process\<close>.\<close>

definition process_raised :: "nat \<Rightarrow> nat \<Rightarrow> handler \<Rightarrow> bool \<Rightarrow> val list \<Rightarrow> val \<Rightarrow> dworld \<Rightarrow> frame list \<Rightarrow> dconfig" where
  "process_raised t depth h special args e w st =
     (if special then (w, st, Exn e)
      else if depth + 1 \<ge> maxDepth (thens w t) then
        fire_with (newDefer (thens w t)) Reject Cbs (if h \<noteq> Thrower then [e] else args) w st
      else (w, st, Ret Undef))"

fun piped :: "slot \<Rightarrow> nat \<Rightarrow> val \<Rightarrow> dworld \<Rightarrow> frame list \<Rightarrow> dconfig" where
  "piped s nd (Promise d) w st =
     (w, Todo [AddTo d Notify Cbs [Action nd Notify], AddTo d Resolve Cbs [Action nd Resolve], AddTo d Reject Cbs [Action nd Reject]] # st, Go)"
| "piped s nd (DeferredObj d) w st =
     (w, Todo [AddTo d Notify Cbs [Action nd Notify], AddTo d Resolve Cbs [Action nd Resolve], AddTo d Reject Cbs [Action nd Reject]] # st, Go)"
| "piped s nd v w st = fire_with nd s Cbs [v] w st"

subsection \<open>Adopting values\<close>

text \<open>\<open>adoptValue(value, resolve, reject, noValue)\<close>, where \<open>reject\<close> is that of the deferred object \<open>d\<close>.\<close>

fun adopt_value :: "val \<Rightarrow> closure \<Rightarrow> nat \<Rightarrow> bool \<Rightarrow> dworld \<Rightarrow> frame list \<Rightarrow> dconfig" where
  "adopt_value (Promise p) f d noValue w st =
     (w, Todo [AddTo p Resolve Cbs [f], AddTo p Reject Cbs [Action d Reject]] # Adopting d # st, Go)"
| "adopt_value (DeferredObj p) f d noValue w st =
     (w, Todo [AddTo p Resolve Cbs [f], AddTo p Reject Cbs [Action d Reject]] # Adopting d # st, Go)"
| "adopt_value (Thenable c) f d noValue w st =
     call_closure c [Fun f, Fun (Action d Reject)] w (Adopting d # st)"
| "adopt_value v f d noValue w st = call_closure f (if noValue then [] else [v]) w (Adopting d # st)"

text \<open>The last loop of \<open>when\<close>, and the function up to its test whether to return \<open>primary.then()\<close>.\<close>

definition adopt_all :: "nat \<Rightarrow> nat \<Rightarrow> dworld \<Rightarrow> action list" where
  "adopt_all n i w =
     map (\<lambda>j. Adopt (resolveValues (whens w n) ! j) (Update n j) (primary (whens w n)) False) (rev [0..<i])"

definition when_call :: "val list \<Rightarrow> dworld \<Rightarrow> frame list \<Rightarrow> dconfig" where
  "when_call vals w st =
     (let (w1, p) = make_deferred w; n = nextWhen w1; i = length vals;
          w2 = w1\<lparr>whens := (whens w1)(n := \<lparr>remaining = int i, resolveValues = vals, primary = p\<rparr>), nextWhen := n + 1\<rparr> in
      (w2,
       Todo (if i \<le> 1
             then [AddTo p Resolve Cbs [Update n i], Adopt (arg0 vals) (Action p Resolve) p (i = 0), WhenReturn n i]
             else adopt_all n i w2) # st, Go))"

definition when_return :: "nat \<Rightarrow> nat \<Rightarrow> dworld \<Rightarrow> frame list \<Rightarrow> dconfig" where
  "when_return n i w st =
     (let v = whens w n in
      if dstate (dfr w (primary v)) = Pending \<or> (i < length (resolveValues v) \<and> thenable (resolveValues v ! i))
      then then_call (primary v) None None None w st
      else (w, Todo (adopt_all n i w) # st, Go))"

subsection \<open>Turns\<close>

fun do_action :: "action \<Rightarrow> dworld \<Rightarrow> frame list \<Rightarrow> dconfig" where
  "do_action (AddTo d s k fs) w st = add_to d s k fs w st"
| "do_action (CallFn f args) w st = call_closure f args w st"
| "do_action (Adopt v f d noValue) w st = adopt_value v f d noValue w st"
| "do_action (WhenReturn n i) w st = when_return n i w st"

fun do_op :: "user_op \<Rightarrow> dworld \<Rightarrow> frame list \<Rightarrow> dconfig" where
  "do_op (NewDeferred func) w st =
     (let (w', d) = make_deferred w in
      case func of None \<Rightarrow> (w', st, Ret (DeferredObj d)) | Some f \<Rightarrow> call_closure f [DeferredObj d] w' st)"
| "do_op (AddListeners d s fs) w st = add_to d s Cbs fs w st"
| "do_op (Always d fs) w st = (w, Todo [AddTo d Resolve Cbs fs, AddTo d Reject Cbs fs] # st, Go)"
| "do_op (Then d f g p) w st = then_call d f g p w st"
| "do_op (Catch d g) w st = then_call d None g None w st"
| "do_op (Pipe d f g p) w st = pipe_call d f g p w st"
| "do_op (When vals) w st = when_call vals w st"
| "do_op (Invoke f args) w st = call_closure f args w st"

text \<open>The top activation goes on.\<close>

fun fire_go :: "nat \<Rightarrow> slot \<Rightarrow> kind \<Rightarrow> bool \<Rightarrow> dworld \<Rightarrow> frame list \<Rightarrow> dconfig" where
  "fire_go d s k inner w st =
     (case fire_turn (list_options s) inner (list_of w d s k) of
        (c, Done) \<Rightarrow> (set_list d s k c w, st, Ret Undef)
      | (c, Inner) \<Rightarrow> (set_list d s k c w, Fire d s k True # st, Go)
      | (c, Outer) \<Rightarrow> (set_list d s k c w, Fire d s k False # st, Go)
      | (c, Call (Internal g) m) \<Rightarrow> call_internal d g m (set_list d s k c w) (Fire d s k True # st)
      | (c, Call (Closure g) m) \<Rightarrow> call_closure g m (set_list d s k c w) (Fire d s k True # st))"

fun proceed :: "user \<Rightarrow> frame \<Rightarrow> dworld \<Rightarrow> frame list \<Rightarrow> dconfig" where
  "proceed user (Fire d s k inner) w st = fire_go d s k inner w st"
| "proceed user (UserCode f args n guarded) w st =
     (case user w f args n of
        Finish v \<Rightarrow> (w, st, Ret v)
      | Raise e \<Rightarrow> (w, st, Exn e)
      | Do guard op \<Rightarrow> do_op op w (UserCode f args (n + 1) guard # st))"
| "proceed user (Todo []) w st = (w, st, Ret Undef)"
| "proceed user (Todo (a # as)) w st = do_action a w (Todo as # st)"
| "proceed user _ w st = (w, st, Ret Undef)"

text \<open>The top activation gets the result of what it called.\<close>

fun returned :: "frame \<Rightarrow> val \<Rightarrow> dworld \<Rightarrow> frame list \<Rightarrow> dconfig" where
  "returned (Processing t depth h special args AwaitHandler) v w st = handler_returned t depth h special args v w st"
| "returned (Processing t depth h special args AwaitThen) v w st = (w, st, Ret Undef)"
| "returned (Piping s d) v w st = piped s d v w st"
| "returned (Adopting d) v w st = (w, st, Ret Undef)"
| "returned f v w st = (w, f # st, Go)"

text \<open>The top activation gets an exception.\<close>

fun raised :: "frame \<Rightarrow> val \<Rightarrow> dworld \<Rightarrow> frame list \<Rightarrow> dconfig" where
  "raised (Processing t depth h special args stage) e w st = process_raised t depth h special args e w st"
| "raised (UserCode f args n guarded) e w st = (if guarded then (w, UserCode f args n False # st, Go) else (w, st, Exn e))"
| "raised (Adopting d) e w st = fire_with d Reject Cbs [e] w st"
| "raised f e w st = (w, st, Exn e)"

fun turn_of :: "user \<Rightarrow> dconfig \<Rightarrow> dconfig" where
  "turn_of user (w, f # st, Go) = proceed user f w st"
| "turn_of user (w, f # st, Ret v) = returned f v w st"
| "turn_of user (w, f # st, Exn e) = raised f e w st"
| "turn_of user (w, [], sg) = (w, [], Go)"

text \<open>
  A step of the machine: a turn of the running code or, when none is running, user code entered by
  the browser or the first function of the timer queue.
\<close>

inductive dstep :: "user \<Rightarrow> dconfig \<Rightarrow> dconfig \<Rightarrow> bool" for user where
  turn: "st \<noteq> [] \<Longrightarrow> dstep user (w, st, sg) (turn_of user (w, st, sg))"
| enter: "dstep user (w, [], sg) (w, [UserCode f args 0 False], Go)"
| timer: "timers w = (f, args) # ts \<Longrightarrow> dstep user (w, [], sg) (run_timer f args (w\<lparr>timers := ts\<rparr>))"

definition start_world :: dworld where
  "start_world = \<lparr>dfr = \<lambda>_. new_deferred, nextDfr = 0, thens = \<lambda>_. \<lparr>newDefer = 0, maxDepth = 0\<rparr>, nextThen = 0,
     whens = \<lambda>_. \<lparr>remaining = 0, resolveValues = [], primary = 0\<rparr>, nextWhen = 0, timers = []\<rparr>"

inductive dreach :: "user \<Rightarrow> dconfig \<Rightarrow> bool" for user where
  start: "dreach user (start_world, [], Go)"
| step: "dreach user c \<Longrightarrow> dstep user c c' \<Longrightarrow> dreach user c'"

section \<open>Invariants\<close>

subsection \<open>Lists\<close>

lemma list_options_simps [simp]:
  "o_once (list_options s) \<longleftrightarrow> s \<noteq> Notify" "o_memory (list_options s)"
proof -
  have "createOptions ''memory'' = \<lparr>o_once = False, o_memory = True, o_unique = False, o_stopOnFalse = False\<rparr>"
    "createOptions ''once memory'' = \<lparr>o_once = True, o_memory = True, o_unique = False, o_stopOnFalse = False\<rparr>"
    by code_simp+
  then show "o_once (list_options s) \<longleftrightarrow> s \<noteq> Notify" "o_memory (list_options s)" by (simp_all add: list_options_def)
qed

lemma list_options_unique [simp]: "\<not> o_unique (list_options s)"
proof -
  have "\<not> o_unique (createOptions ''memory'')" "\<not> o_unique (createOptions ''once memory'')" by code_simp+
  then show ?thesis by (simp add: list_options_def)
qed

lemma other_simps [simp]: "other (other s) = s" "other s = Notify \<longleftrightarrow> s = Notify" "other s = s \<longleftrightarrow> s = Notify"
    "s = other s \<longleftrightarrow> s = Notify"
  by (cases s; simp)+

lemma other_cases: "s' = Notify \<or> s' = s \<or> s' = other s" if "s \<noteq> Notify"
  using that by (cases s; cases s') auto

lemma final_state_eq [simp]: "final_state s = Pending \<longleftrightarrow> s = Notify"
  by (cases s) auto

lemma final_state_inj: "s \<noteq> Notify \<Longrightarrow> final_state s = final_state s' \<Longrightarrow> s = s'"
  by (cases s; cases s') auto

lemma add_plain [simp]: "fold (add_arg False) (map (\<lambda>f. Fn (g f)) fs) l = l @ map g fs"
  by (induction fs arbitrary: l) auto

lemma add_plain' [simp]: "fold (add_arg False) (map Fn fs) l = l @ fs"
  by (induction fs arbitrary: l) auto

definition own_fns :: "slot \<Rightarrow> kind \<Rightarrow> fn list" where
  "own_fns s k = (if k = Cbs then state_fns s @ [Internal (FireList s)] else [])"

lemma new_list_fields: "new_list s k = new_callbacks\<lparr>lst := Some (own_fns s k)\<rparr>"
  by (simp add: new_list_def own_fns_def add_op_def new_callbacks_def)

lemma list_set_list [simp]:
  "list_of (set_list d s k c w) d' s' k' = (if d' = d \<and> s' = s \<and> k' = k then c else list_of w d' s' k')"
  "dstate (dfr (set_list d s k c w) d') = dstate (dfr w d')"
  by (simp_all add: set_list_def)

definition fresh :: "slot \<Rightarrow> kind \<Rightarrow> cblist \<Rightarrow> bool" where
  "fresh s k c \<longleftrightarrow> (\<exists>fs. c = new_callbacks\<lparr>lst := Some (own_fns s k @ map Closure fs)\<rparr>)"

definition spent :: "cblist \<Rightarrow> bool" where
  "spent c \<longleftrightarrow> locked c \<and> lst c = None \<and> memory c = None \<and> queue c = []"

definition carries :: "val list \<Rightarrow> cblist \<Rightarrow> bool" where
  "carries m c \<longleftrightarrow> set (queue c) \<subseteq> {m} \<and> (memory c = None \<or> memory c = Some m)"

text \<open>A list holds functions from outside and the functions that belong there.\<close>

definition own_only :: "slot \<Rightarrow> kind \<Rightarrow> cblist \<Rightarrow> bool" where
  "own_only s k c \<longleftrightarrow> - 1 \<le> firingIndex c \<and> (\<forall>l. lst c = Some l \<longrightarrow> set l \<subseteq> range Closure \<union> set (own_fns s k))"

subsection \<open>Objects\<close>

definition fires_only :: "nat \<Rightarrow> slot set \<Rightarrow> frame list \<Rightarrow> bool" where
  "fires_only d S st \<longleftrightarrow> (\<forall>s k b. Fire d s k b \<in> set st \<longrightarrow> s = Notify \<or> s \<in> S)"

definition pending :: "dworld \<Rightarrow> frame list \<Rightarrow> nat \<Rightarrow> bool" where
  "pending w st d \<longleftrightarrow> dstate (dfr w d) = Pending \<and> fires_only d {} st
     \<and> (\<forall>s k. s \<noteq> Notify \<longrightarrow> fresh s k (list_of w d s k))"

definition settled_with :: "slot \<Rightarrow> val list \<Rightarrow> dworld \<Rightarrow> frame list \<Rightarrow> nat \<Rightarrow> bool" where
  "settled_with s m w st d \<longleftrightarrow> s \<noteq> Notify \<and> dstate (dfr w d) = final_state s \<and> fires_only d {s} st
     \<and> (\<forall>k. spent (list_of w d (other s) k)) \<and> (\<forall>k. carries m (list_of w d s k))
     \<and> locked (list_of w d s Cbs) \<and> memory (list_of w d s Cbs) = Some m"

text \<open>The turns between the start of an action and the moment when everything is in place.\<close>

definition settling :: "slot \<Rightarrow> val list \<Rightarrow> nat \<Rightarrow> dworld \<Rightarrow> frame list \<Rightarrow> nat \<Rightarrow> bool" where
  "settling s m j w st d \<longleftrightarrow> s \<noteq> Notify \<and> j < 4
     \<and> (\<exists>st'. st = Fire d s Cbs (0 < j) # st' \<and> fires_only d {} st')
     \<and> (\<exists>fs cs. list_of w d s Cbs = \<lparr>firing = True, memory = (if j = 0 then None else Some m), fired = True, locked = True,
          lst = Some (own_fns s Cbs @ map Closure fs), queue = (if j = 0 then [m] else []),
          firingIndex = max (- 1) (int j - 2), calls = cs\<rparr>)
     \<and> fresh s Handlers (list_of w d s Handlers)
     \<and> (if j < 3 then fresh (other s) Cbs (list_of w d (other s) Cbs) else spent (list_of w d (other s) Cbs))
     \<and> fresh (other s) Handlers (list_of w d (other s) Handlers)
     \<and> dstate (dfr w d) = (if j < 2 then Pending else final_state s)"

text \<open>
  The invariant, relative to what is known: an object in the domain of \<open>K\<close> is known to be settled, by
  which action and with which arguments.
\<close>

type_synonym knowledge = "nat \<rightharpoonup> slot \<times> val list"

definition steady :: "knowledge \<Rightarrow> dworld \<Rightarrow> frame list \<Rightarrow> nat \<Rightarrow> bool" where
  "steady K w st d \<longleftrightarrow> (\<forall>s k. own_only s k (list_of w d s k)) \<and>
     (case K d of
        None \<Rightarrow> pending w st d \<or> (\<exists>s m. settled_with s m w st d)
      | Some (s, m) \<Rightarrow> settled_with s m w st d)"

definition obeys :: "knowledge \<Rightarrow> dconfig \<Rightarrow> bool" where
  "obeys K c = (case c of (w, st, sg) \<Rightarrow> \<forall>d. steady K w st d \<or>
     (\<forall>s k. own_only s k (list_of w d s k)) \<and> sg = Go \<and>
     (case K d of
        None \<Rightarrow> \<exists>s m j. settling s m j w st d
      | Some (s, m) \<Rightarrow> \<exists>j \<ge> 2. settling s m j w st d))"

subsection \<open>Frame rules\<close>

lemma fires_only_Nil [simp]: "fires_only d S []"
  by (simp add: fires_only_def)

lemma fires_only_Cons [simp]:
  "fires_only d S (f # st) \<longleftrightarrow> (\<forall>s k b. f = Fire d s k b \<longrightarrow> s = Notify \<or> s \<in> S) \<and> fires_only d S st"
  unfolding fires_only_def set_simps by blast

lemmas phase_defs = steady_def pending_def settled_with_def

lemma steady_cong:
  assumes "\<And>s k. list_of w' d s k = list_of w d s k" "dstate (dfr w' d) = dstate (dfr w d)"
    and "\<And>S. fires_only d S st' = fires_only d S st"
  shows "steady K w' st' d = steady K w st d"
proof -
  have "pending w' st' d = pending w st d" "settled_with s m w' st' d = settled_with s m w st d" for s m
    using assms by (simp_all add: pending_def settled_with_def)
  then show ?thesis using assms(1) by (simp add: steady_def split: option.split)
qed

lemma steady_world: "dfr w' = dfr w \<Longrightarrow> steady K w' st d = steady K w st d"
  by (rule steady_cong) simp_all

lemma steady_frames:
  "(\<And>S. fires_only d S st' = fires_only d S st) \<Longrightarrow> steady K w st' d = steady K w st d"
  by (rule steady_cong) simp_all

lemma steady_push: "(\<And>s k b. f \<noteq> Fire d s k b) \<Longrightarrow> steady K w (f # st) d = steady K w st d"
  by (rule steady_frames) simp

lemma steady_other: "d' \<noteq> d \<Longrightarrow> steady K (set_list d s k c w) st d' = steady K w st d'"
  by (rule steady_cong) simp_all

lemma steady_notify:
  "steady K w st d \<Longrightarrow> own_only Notify k c \<Longrightarrow> steady K (set_list d Notify k c w) st d"
  by (auto simp: phase_defs split: option.splits)

lemma steady_notify_fire: "steady K w (Fire d Notify k b # st) d' = steady K w st d'"
  by (rule steady_frames) simp

lemma set_list_same [simp]: "set_list d s k (list_of w d s k) w = w"
  by (simp add: set_list_def)

lemma steady_own: "steady K w st d \<Longrightarrow> own_only s k (list_of w d s k)"
  by (simp add: steady_def)

lemma settled_unique: "settled_with s m w st d \<Longrightarrow> settled_with s' m' w st' d \<Longrightarrow> s = s' \<and> m = m'"
  by (auto simp: settled_with_def dest: final_state_inj)

lemma settled_not_pending: "settled_with s m w st d \<Longrightarrow> \<not> pending w st' d"
  by (auto simp: settled_with_def pending_def)

text \<open>A change of a list of the slot by which an object is settled.\<close>

lemma steady_settled:
  assumes "steady K w st d" "settled_with s m w st d" "own_only s k c" "carries m c"
    and "k = Cbs \<Longrightarrow> locked c \<and> memory c = Some m" "fires_only d {s} st'"
  shows "steady K (set_list d s k c w) st' d"
proof -
  have "settled_with s m (set_list d s k c w) st' d"
    using assms(2-6) by (auto simp: settled_with_def)
  moreover have "K d = None \<or> K d = Some (s, m)"
    using assms(1,2) settled_unique by (fastforce simp: steady_def split: option.splits)
  ultimately show ?thesis using assms(1,3) by (auto simp: steady_def split: option.splits)
qed

text \<open>What is known of an object that is neither settled nor about to be.\<close>

lemma steady_cases:
  assumes "steady K w st d"
  obtains (pending) "pending w st d" "K d = None" | (settled) s m where "settled_with s m w st d"
  using assms by (auto simp: steady_def split: option.splits)

lemma obeysI: "(\<And>d. steady K w st d) \<Longrightarrow> obeys K (w, st, sg)"
  by (simp add: obeys_def)

lemma obeys_settling:
  assumes "\<And>d'. d' \<noteq> d \<Longrightarrow> steady K w st d'" "\<And>s k. own_only s k (list_of w d s k)"
    and "settling s m j w st d" "K d = None \<or> K d = Some (s, m) \<and> 2 \<le> j"
  shows "obeys K (w, st, Go)"
proof -
  have "case K d of None \<Rightarrow> \<exists>s m j. settling s m j w st d | Some (s, m) \<Rightarrow> \<exists>j \<ge> 2. settling s m j w st d"
    using assms(3,4) by (elim disjE conjE) (simp_all, blast+)
  then have "steady K w st d' \<or> (\<forall>s k. own_only s k (list_of w d' s k)) \<and>
      (case K d' of None \<Rightarrow> \<exists>s m j. settling s m j w st d' | Some (s, m) \<Rightarrow> \<exists>j \<ge> 2. settling s m j w st d')" for d'
    using assms(1,2) by (cases "d' = d") blast+
  then show ?thesis unfolding obeys_def by simp
qed

lemma own_only_start [simp]: "own_only s k (start_firing opt c) = own_only s k c"
  by (simp add: own_only_def start_firing_def)

subsection \<open>Operations on lists\<close>

lemma fire_with_settled:
  assumes "\<And>d. steady K w st d" "settled_with s m w st d" "s' = other s \<or> s' = s \<and> k = Cbs"
  shows "fire_with d s' k args w st = (w, st, Ret Undef)"
proof -
  have "locked (list_of w d s' k)" using assms(2,3) by (auto simp: settled_with_def spent_def)
  then show ?thesis by (simp add: fire_with_def fireWith_op_def)
qed

lemma fire_with_notify:
  assumes "\<And>d. steady K w st d"
  shows "obeys K (fire_with d Notify k args w st)"
proof -
  have "own_only Notify k c" if "fireWith_op args (list_of w d Notify k) = (c, b)" for c b
    using that steady_own [OF assms, of Notify k d] by (auto simp: fireWith_op_def own_only_def split: if_splits)
  then have "steady K (set_list d Notify k c w) st d'" "steady K (set_list d Notify k (start_firing opt c) w) st d'"
    if "fireWith_op args (list_of w d Notify k) = (c, b)" for c b opt d'
    using that assms by (cases "d' = d"; simp add: steady_notify steady_other)+
  then show ?thesis
    by (auto simp: fire_with_def steady_notify_fire intro!: obeysI split: prod.splits bool.splits)
qed

lemma fire_with_pending:
  assumes "\<And>d. steady K w st d" "pending w st d" "s \<noteq> Notify"
  shows "obeys K (fire_with d s Cbs args w st)"
proof -
  let ?w = "set_list d s Cbs (start_firing (list_options s) ((list_of w d s Cbs)\<lparr>queue := [args]\<rparr>)) w"
  have fresh: "fresh s' k (list_of w d s' k)" if "s' \<noteq> Notify" for s' k using assms(2) that by (simp add: pending_def)
  then obtain fs where fs: "list_of w d s Cbs = new_callbacks\<lparr>lst := Some (own_fns s Cbs @ map Closure fs)\<rparr>"
    using assms(3) unfolding fresh_def by blast
  have c: "fire_with d s Cbs args w st = (?w, Fire d s Cbs False # st, Go)"
    by (simp add: fire_with_def fireWith_op_def fs new_callbacks_def)
  have none: "K d = None" using assms(1) [of d] settled_not_pending [of _ _ w st d] assms(2)
    by (auto simp: steady_def split: option.splits)
  have own: "own_only s' k (list_of ?w d s' k)" for s' k
    using steady_own [OF assms(1), of s' k d] by (auto simp: own_only_def start_firing_def)
  have "settling s args 0 ?w (Fire d s Cbs False # st) d"
    using assms(2,3) fresh by (auto simp: settling_def pending_def fs start_firing_def new_callbacks_def)
  moreover have "steady K ?w (Fire d s Cbs False # st) d'" if "d' \<noteq> d" for d'
    using assms(1) [of d'] that by (simp add: steady_push steady_other)
  ultimately show ?thesis unfolding c using own none by (intro obeys_settling) auto
qed

lemma fire_with_obeys:
  assumes "\<And>d. steady K w st d"
  shows "obeys K (fire_with d s Cbs args w st)"
proof (cases "s = Notify")
  case True
  then show ?thesis using fire_with_notify [OF assms] by simp
next
  case False
  from assms [of d] show ?thesis
  proof (cases rule: steady_cases)
    case pending
    then show ?thesis using fire_with_pending [OF assms] False by blast
  next
    case (settled s' m)
    then show ?thesis
      using fire_with_settled [OF assms settled, of s Cbs args] other_cases [of s' s] False assms
      by (auto simp: settled_with_def intro!: obeysI)
  qed
qed

lemma add_to_obeys:
  assumes "\<And>d. steady K w st d"
  shows "obeys K (add_to d s k fs w st)"
proof -
  let ?l = "list_of w d s k"
  obtain c b where cb: "add_op (list_options s) (map (\<lambda>f. Fn (Closure f)) fs) ?l = (c, b)" by fastforce
  have own: "own_only s k c" "lst ?l = None \<Longrightarrow> c = ?l \<and> \<not> b"
  proof -
    have "own_only s k ?l" by (rule steady_own [OF assms])
    moreover have "lst c = map_option (\<lambda>l. l @ map Closure fs) (lst ?l)" "firingIndex c = firingIndex ?l \<or> - 1 \<le> firingIndex c"
      using cb by (auto simp: add_op_def Let_def split: option.splits if_splits)
    ultimately show "own_only s k c" by (auto simp: own_only_def)
    show "lst ?l = None \<Longrightarrow> c = ?l \<and> \<not> b" using cb by (simp add: add_op_def)
  qed
  let ?fire = "steady K (set_list d s k (start_firing (list_options s) c) w) (Fire d s k False # st) d"
  have keep: "steady K (set_list d s k c w) st d \<and> (b \<longrightarrow> ?fire)"
  proof -
    have "(pending w st d \<and> K d = None) \<or> (\<exists>s m. settled_with s m w st d)"
      using assms [of d] by (auto elim: steady_cases)
    then consider (n) "s = Notify" | (p) "s \<noteq> Notify" "pending w st d" "K d = None" | (s) s' m where "s \<noteq> Notify" "settled_with s' m w st d"
      by (cases "s = Notify") auto
    then show ?thesis
    proof cases
      case n
      then show ?thesis
        using steady_notify [OF assms [of d], of k] own(1) by (simp_all add: steady_notify_fire)
    next
      case p
      then obtain gs where gs: "?l = new_callbacks\<lparr>lst := Some (own_fns s k @ map Closure gs)\<rparr>"
        unfolding pending_def fresh_def by blast
      then have c: "c = new_callbacks\<lparr>lst := Some (own_fns s k @ map Closure (gs @ fs))\<rparr>" "\<not> b"
        using cb by (auto simp: add_op_def new_callbacks_def)
      have "fresh s k c" unfolding c(1) fresh_def by blast
      then have "pending (set_list d s k c w) st d" using p(2) by (simp add: pending_def)
      then show ?thesis using p(3) own(1) assms [of d] c(2) by (simp add: steady_def)
    next
      case (s s' m)
      show ?thesis
      proof (cases "s' = s")
        case True
        then have old: "carries m ?l" "k = Cbs \<Longrightarrow> locked ?l \<and> memory ?l = Some m" "fires_only d {s} st"
          using s by (auto simp: settled_with_def)
        then have "carries m c" "k = Cbs \<Longrightarrow> locked c \<and> memory c = Some m"
          using cb by (auto simp: add_op_def carries_def Let_def split: option.splits if_splits)
        then show ?thesis
          using True s(2) own(1) old(3) by (auto intro!: steady_settled [OF assms] simp: carries_def start_firing_def own_only_def)
      next
        case False
        then have "s = other s'" using s other_cases [of s' s] by (auto simp: settled_with_def)
        then have "lst ?l = None" using s(2) by (auto simp: settled_with_def spent_def)
        then show ?thesis
          using own(2) assms by simp_all
      qed
    qed
  qed
  have "steady K (set_list d s k c w) st d'" "b \<Longrightarrow> steady K (set_list d s k (start_firing (list_options s) c) w) (Fire d s k False # st) d'" for d'
    using keep assms [of d'] by (cases "d' = d"; simp add: steady_other steady_push)+
  then show ?thesis by (auto simp: add_to_def cb intro!: obeysI split: bool.splits)
qed

subsection \<open>Everything that is not a turn of a list\<close>

lemma steady_more [simp]:
  "steady K (w\<lparr>timers := x1\<rparr>) st d = steady K w st d"
  "steady K (w\<lparr>whens := x2\<rparr>) st d = steady K w st d"
  "steady K (w\<lparr>nextWhen := n\<rparr>) st d = steady K w st d"
  "steady K (w\<lparr>thens := x3\<rparr>) st d = steady K w st d"
  "steady K (w\<lparr>nextThen := n\<rparr>) st d = steady K w st d"
  "steady K (w\<lparr>nextDfr := n\<rparr>) st d = steady K w st d"
  by (rule steady_world, simp)+

lemma steady_plain [simp]:
  "steady K w (UserCode f args n g # st) d = steady K w st d"
  "steady K w (Processing t depth h sp args stage # st) d = steady K w st d"
  "steady K w (Piping s nd # st) d = steady K w st d"
  "steady K w (Adopting nd # st) d = steady K w st d"
  "steady K w (Todo as # st) d = steady K w st d"
  by (simp_all add: steady_push)

lemma call_obeys:
  "(\<And>d. steady K w st d) \<Longrightarrow> obeys K (call_closure f args w st)"
  "(\<And>d. steady K w st d) \<Longrightarrow> obeys K (call_handler h args w st)"
proof (induction f args w st and h args w st rule: call_closure_call_handler.induct)
  case (2 d s args w st)
  then show ?case using fire_with_obeys by simp
next
  case (3 t depth h special args w st)
  then show ?case by (cases "depth = 0") (simp_all add: obeysI)
next
  case (4 fn s d args w st)
  then show ?case using fire_with_obeys [of K w st] by (cases fn) simp_all
next
  case (5 n i args w st)
  then show ?case by (simp add: Let_def fire_with_obeys obeysI)
qed (simp_all add: obeysI)

lemma then_call_obeys: "(\<And>d. steady K w st d) \<Longrightarrow> obeys K (then_call d f g p w st)"
  by (auto simp: then_call_def make_deferred_def Let_def intro!: obeysI)

lemma value_then_obeys: "(\<And>d. steady K w st d) \<Longrightarrow> obeys K (value_then v f g p w st)"
  by (cases v) (auto intro!: obeysI then_call_obeys call_obeys)

lemma handler_returned_obeys: "(\<And>d. steady K w st d) \<Longrightarrow> obeys K (handler_returned t depth h sp args v w st)"
  unfolding handler_returned_def Let_def by (auto intro!: obeysI value_then_obeys fire_with_obeys)

lemma process_raised_obeys: "(\<And>d. steady K w st d) \<Longrightarrow> obeys K (process_raised t depth h sp args e w st)"
  unfolding process_raised_def by (auto intro!: obeysI fire_with_obeys)

lemma piped_obeys: "(\<And>d. steady K w st d) \<Longrightarrow> obeys K (piped s nd v w st)"
  by (cases v) (auto intro!: obeysI fire_with_obeys)

lemma adopt_value_obeys: "(\<And>d. steady K w st d) \<Longrightarrow> obeys K (adopt_value v f d nv w st)"
  by (cases v) (auto intro!: obeysI call_obeys)

lemma do_action_obeys: "(\<And>d. steady K w st d) \<Longrightarrow> obeys K (do_action a w st)"
  by (cases a) (auto simp: when_return_def Let_def intro!: obeysI add_to_obeys call_obeys adopt_value_obeys then_call_obeys)

lemma do_op_obeys: "(\<And>d. steady K w st d) \<Longrightarrow> obeys K (do_op op w st)"
  by (cases op)
     (auto simp: when_call_def pipe_call_def make_deferred_def Let_def split: option.splits
       intro!: obeysI add_to_obeys call_obeys then_call_obeys)

lemma returned_obeys: "(\<And>d. steady K w (f # st) d) \<Longrightarrow> obeys K (returned f v w st)"
  by (cases "(f, v, w, st)" rule: returned.cases)
     (auto intro!: obeysI handler_returned_obeys piped_obeys)

lemma steady_pop: "steady K w (f # st) d \<Longrightarrow> steady K w st d"
  by (auto simp: phase_defs split: option.splits)

lemma raised_obeys: "(\<And>d. steady K w (f # st) d) \<Longrightarrow> obeys K (raised f e w st)"
  by (cases "(f, e, w, st)" rule: raised.cases)
     (auto intro!: obeysI process_raised_obeys fire_with_obeys intro: steady_pop)

subsection \<open>Turns of a list\<close>

lemma turn_fields:
  assumes "fire_turn (list_options s) b c = (c', t)"
  shows "locked c' = locked c"
    and "own_only s k c \<Longrightarrow> own_only s k c'"
    and "carries m c \<Longrightarrow> carries m c'"
    and "memory c = Some m \<Longrightarrow> carries m c \<Longrightarrow> memory c' = Some m"
    and "own_only s k c \<Longrightarrow> t = Call f v \<Longrightarrow> memory c = Some v \<and> (\<exists>l. lst c = Some l \<and> f \<in> set l)"
  using assms
  by (auto simp: fire_turn_def finish_firing_def own_only_def carries_def Let_def nat_less_iff
      split: if_splits list.splits option.splits)

lemma own_internal:
  assumes "Internal g \<in> set (own_fns s k)"
  shows "k = Cbs" "g = FireList s \<or> s \<noteq> Notify \<and>
    (g = SetState (final_state s) \<or> (\<exists>k. g = DisableList (other s) k) \<or> (\<exists>k. g = LockList Notify k))"
  using assms by (auto simp: own_fns_def state_fns_def split: if_splits)

lemma steady_set_state:
  assumes "\<And>d. steady K w st d" "settled_with s m w st d"
  shows "steady K (w\<lparr>dfr := (dfr w)(d := (dfr w d)\<lparr>dstate := final_state s\<rparr>)\<rparr>) st d'"
  using assms(1) [of d'] by (subst steady_cong [of _ _ w]) (use assms(2) in \<open>auto simp: settled_with_def\<close>)

lemma steady_disable:
  assumes "\<And>d. steady K w st d" "settled_with s m w st d"
  shows "steady K (set_list d (other s) k (disable_op (list_of w d (other s) k)) w) st d'"
proof (cases "d' = d")
  case True
  let ?w = "set_list d (other s) k (disable_op (list_of w d (other s) k)) w"
  have ne: "s \<noteq> Notify" "other s \<noteq> s" using assms(2) by (auto simp: settled_with_def)
  have "settled_with s m ?w st d"
    using assms(2) ne by (auto simp: settled_with_def spent_def disable_op_def)
  moreover have "K d = None \<or> K d = Some (s, m)"
    using assms(1) [of d] settled_unique [OF assms(2)] by (fastforce simp: steady_def split: option.splits)
  moreover have "own_only s' k' (list_of ?w d s' k')" for s' k'
    using steady_own [OF assms(1), of s' k' d] by (auto simp: own_only_def disable_op_def)
  ultimately show ?thesis using True by (auto simp: steady_def split: option.splits)
qed (use assms(1) [of d'] in \<open>simp add: steady_other\<close>)

lemma steady_lock:
  assumes "\<And>d. steady K w st d"
  shows "steady K (set_list d Notify k (lock_op (list_of w d Notify k)) w) st d'"
proof (cases "d' = d")
  case True
  have "own_only Notify k (lock_op (list_of w d Notify k))"
    using steady_own [OF assms, of Notify k d] by (auto simp: own_only_def lock_op_def Let_def)
  then show ?thesis using steady_notify [OF assms] True by simp
qed (use assms [of d'] in \<open>simp add: steady_other\<close>)

lemma fire_with_handlers:
  assumes "\<And>d. steady K w st d" "settled_with s m w st d"
  shows "obeys K (fire_with d s Handlers m w st)"
proof -
  let ?l = "list_of w d s Handlers"
  obtain c b where cb: "fireWith_op m ?l = (c, b)" by fastforce
  have c: "own_only s Handlers c" "carries m c"
  proof -
    have "carries m ?l" using assms(2) by (simp add: settled_with_def)
    then show "own_only s Handlers c" "carries m c" using cb steady_own [OF assms(1), of s Handlers d]
      by (auto simp: fireWith_op_def own_only_def carries_def split: if_splits)
  qed
  have st: "fires_only d {s} (Fire d s Handlers False # st)" "fires_only d {s} st" using assms(2) by (auto simp: settled_with_def)
  have "steady K (set_list d s Handlers c w) st d"
    by (rule steady_settled [OF assms(1,2) c]) (use st in auto)
  moreover have "steady K (set_list d s Handlers (start_firing (list_options s) c) w) (Fire d s Handlers False # st) d"
    by (rule steady_settled [OF assms(1,2)]) (use st c in \<open>auto simp: carries_def start_firing_def own_only_def\<close>)
  ultimately have "steady K (set_list d s Handlers c w) st d'"
    "steady K (set_list d s Handlers (start_firing (list_options s) c) w) (Fire d s Handlers False # st) d'" for d'
    using assms(1) [of d'] by (cases "d' = d"; simp add: steady_other steady_push)+
  then show ?thesis by (auto simp: fire_with_def cb intro!: obeysI split: bool.splits)
qed

lemma call_internal_obeys:
  assumes "\<And>d. steady K w st d" "settled_with s m w st d" "Internal g \<in> set (own_fns s k)"
  shows "obeys K (call_internal d g m w st)"
proof -
  consider "g = FireList s" | "g = SetState (final_state s)" | k' where "g = DisableList (other s) k'"
    | k' where "g = LockList Notify k'" using own_internal(2) [OF assms(3)] by blast
  then show ?thesis
    by cases (use fire_with_handlers [OF assms(1,2)] steady_set_state [OF assms(1,2)] steady_disable [OF assms(1,2)]
        steady_lock [OF assms(1)] in \<open>auto intro!: obeysI\<close>)
qed

lemma fire_go_steady:
  assumes all: "\<And>d. steady K w (Fire d0 s k b # st) d"
  shows "obeys K (fire_go d0 s k b w st)"
proof -
  let ?l = "list_of w d0 s k"
  obtain c t where ct: "fire_turn (list_options s) b ?l = (c, t)" by fastforce
  let ?w = "set_list d0 s k c w"
  note f = turn_fields [OF ct]
  have own: "own_only s k c" by (rule f(2)) (rule steady_own [OF all])
  show ?thesis
  proof (cases "s = Notify")
    case True
    have w: "steady K ?w st d" for d
      using steady_notify [OF steady_pop [OF all], of k] own steady_pop [OF all, of d] True
      by (cases "d = d0") (simp_all add: steady_other)
    have "g = FireList Notify" if "t = Call (Internal g) m" for g m
      using f(5) [OF steady_own [OF all] that] steady_own [OF all, of s k d0] own_internal(2) [of g s k] True
      by (auto simp: own_only_def)
    then show ?thesis using w True fire_with_notify [of K ?w "Fire d0 s k True # st"]
      by (auto simp: ct [unfolded True] steady_notify_fire intro!: obeysI call_obeys split: turn.splits fn.splits)
  next
    case False
    obtain m where m: "settled_with s m w (Fire d0 s k b # st) d0"
      using all [of d0] by (cases rule: steady_cases) (auto simp: pending_def settled_with_def False)
    then have "carries m ?l" "k = Cbs \<Longrightarrow> locked ?l \<and> memory ?l = Some m" by (auto simp: settled_with_def)
    then have c: "carries m c" "k = Cbs \<Longrightarrow> locked c \<and> memory c = Some m" using f(1,3,4) by auto
    have fo: "fires_only d0 {s} (Fire d0 s k x # st)" "fires_only d0 {s} st" for x using m by (auto simp: settled_with_def)
    have "steady K ?w (Fire d0 s k x # st) d0" "steady K ?w st d0" for x
      by (rule steady_settled [OF all m own c(1)]; use c(2) fo in auto)+
    then have w: "steady K ?w (Fire d0 s k x # st) d" "steady K ?w st d" for x d
      using all [of d] steady_pop [OF all, of d] by (cases "d = d0"; simp add: steady_other steady_push)+
    have m': "settled_with s m ?w (Fire d0 s k x # st) d0" for x
      using m c fo by (auto simp: settled_with_def)
    have "Internal g \<in> set (own_fns s k) \<and> v = m" if "t = Call (Internal g) v" for g v
      using f(5) [OF steady_own [OF all] that] steady_own [OF all, of s k d0] \<open>carries m ?l\<close>
      by (auto simp: own_only_def carries_def)
    then show ?thesis using w call_internal_obeys [OF w(1) m']
      by (auto simp: ct intro!: obeysI call_obeys split: turn.splits fn.splits)
  qed
qed

lemma own_fns_settle:
  "s \<noteq> Notify \<Longrightarrow> own_fns s Cbs = map Internal [SetState (final_state s), DisableList (other s) Cbs,
     DisableList (other s) Handlers, LockList Notify Cbs, LockList Notify Handlers, FireList s]"
  by (simp add: own_fns_def state_fns_def)

lemma spent_disable [simp]: "spent (disable_op c)"
  by (simp add: spent_def disable_op_def)

lemma own_only_disable [simp]: "own_only s k (disable_op c) = (- 1 \<le> firingIndex c)"
  by (simp add: own_only_def disable_op_def)

lemma fresh_index [simp]: "fresh s k c \<Longrightarrow> - 1 \<le> firingIndex c"
  by (auto simp: fresh_def new_callbacks_def)

lemma fresh_carries: "fresh s k c \<Longrightarrow> carries m c"
  by (auto simp: fresh_def new_callbacks_def carries_def)

text \<open>The turns of an object that is being settled.\<close>

lemma fire_go_settling:
  assumes set: "settling s m j w (Fire d s Cbs b # st) d" and own: "\<And>s k. own_only s k (list_of w d s k)"
    and rest: "\<And>d'. d' \<noteq> d \<Longrightarrow> steady K w (Fire d s Cbs b # st) d'" and K: "K d = None \<or> K d = Some (s, m) \<and> 2 \<le> j"
  shows "obeys K (fire_go d s Cbs b w st)"
proof -
  let ?l = "list_of w d s Cbs"
  have ne: "s \<noteq> Notify" "other s \<noteq> s" "b = (0 < j)" "j < 4" and quiet: "fires_only d {} st"
    using set by (auto simp: settling_def)
  obtain fs cs where l: "?l = \<lparr>firing = True, memory = (if j = 0 then None else Some m), fired = True, locked = True,
      lst = Some (own_fns s Cbs @ map Closure fs), queue = (if j = 0 then [m] else []),
      firingIndex = max (- 1) (int j - 2), calls = cs\<rparr>" using set by (auto simp: settling_def)
  note old = set [unfolded settling_def]
  define c where "c = fst (fire_turn (list_options s) b ?l)"
  have own_c: "own_only s Cbs c" using turn_fields(2) [of s b ?l c _ Cbs] own c_def by (metis prod.collapse)
  let ?w = "set_list d s Cbs c w"
  have others: "steady K w' (Fire d s Cbs x # st) d'" if "d' \<noteq> d" "dfr w' d' = dfr w d'" for w' x d'
    using rest [OF that(1)] that by (subst steady_cong [of _ _ w]) (auto simp: fires_only_def)
  have dfr: "dfr ?w d' = dfr w d'" if "d' \<noteq> d" for c d' using that by (simp add: set_list_def)
  consider "j = 0" | "j = 1" | "j = 2" | "j = 3" using ne by linarith
  then show ?thesis
  proof cases
    case 1
    have t: "fire_turn (list_options s) b ?l = (?l\<lparr>memory := Some m, queue := []\<rparr>, Inner)"
      using 1 ne by (simp add: l fire_turn_def)
    have "settling s m 1 ?w (Fire d s Cbs True # st) d"
      using old 1 ne quiet unfolding settling_def c_def t by (auto simp: l)
    then show ?thesis
      using 1 K own own_c others dfr by (simp add: t c_def) (rule obeys_settling, auto)
  next
    case 2
    have t: "fire_turn (list_options s) b ?l = (c, Call (Internal (SetState (final_state s))) m)"
      and c: "c = ?l\<lparr>firingIndex := 0, calls := cs @ [(Internal (SetState (final_state s)), m)]\<rparr>"
      using 2 ne by (simp_all add: c_def l fire_turn_def own_fns_settle)
    let ?w' = "?w\<lparr>dfr := (dfr ?w)(d := (dfr ?w d)\<lparr>dstate := final_state s\<rparr>)\<rparr>"
    have "settling s m 2 ?w' (Fire d s Cbs True # st) d"
      using old 2 ne quiet unfolding settling_def by (auto simp: l c)
    moreover have "steady K ?w' (Fire d s Cbs True # st) d'" if "d' \<noteq> d" for d'
      using that dfr by (intro others) simp_all
    moreover have "own_only s' k (list_of ?w' d s' k)" for s' k using own own_c by simp
    ultimately have "obeys K (?w', Fire d s Cbs True # st, Go)" using 2 K by (intro obeys_settling) auto
    then show ?thesis by (simp add: t)
  next
    case 3
    have t: "fire_turn (list_options s) b ?l = (c, Call (Internal (DisableList (other s) Cbs)) m)"
      and c: "c = ?l\<lparr>firingIndex := 1, calls := cs @ [(Internal (DisableList (other s) Cbs), m)]\<rparr>"
      using 3 ne by (simp_all add: c_def l fire_turn_def own_fns_settle)
    let ?w' = "set_list d (other s) Cbs (disable_op (list_of ?w d (other s) Cbs)) ?w"
    have "settling s m 3 ?w' (Fire d s Cbs True # st) d"
      using old 3 ne quiet unfolding settling_def by (auto simp: l c)
    moreover have "steady K ?w' (Fire d s Cbs True # st) d'" if "d' \<noteq> d" for d'
      using that dfr by (intro others) (simp_all add: set_list_def)
    moreover have "own_only s' k (list_of ?w' d s' k)" for s' k
      using own [of s' k] own_c ne by (auto simp: own_only_def disable_op_def)
    moreover have "K d = None \<or> K d = Some (s, m)" using K by blast
    ultimately have "obeys K (?w', Fire d s Cbs True # st, Go)" by (intro obeys_settling) auto
    then show ?thesis by (simp add: t)
  next
    case 4
    have t: "fire_turn (list_options s) b ?l = (c, Call (Internal (DisableList (other s) Handlers)) m)"
      and c: "c = ?l\<lparr>firingIndex := 2, calls := cs @ [(Internal (DisableList (other s) Handlers), m)]\<rparr>"
      using 4 ne by (simp_all add: c_def l fire_turn_def own_fns_settle)
    let ?w' = "set_list d (other s) Handlers (disable_op (list_of ?w d (other s) Handlers)) ?w"
    have "carries m (list_of w d s Handlers)" using old fresh_carries by blast
    then have carries: "carries m (list_of ?w' d s k)" for k
      using 4 ne by (cases k) (simp_all add: c l carries_def)
    have spent: "spent (list_of ?w' d (other s) k)" for k
      using old 4 ne by (cases k) simp_all
    have "settled_with s m ?w' (Fire d s Cbs True # st) d"
      using old 4 ne quiet carries spent unfolding settled_with_def by (auto simp: l c fires_only_def)
    moreover have "own_only s' k (list_of ?w' d s' k)" for s' k
      using own [of s' k] own_c ne by (auto simp: own_only_def disable_op_def)
    moreover have "K d = None \<or> K d = Some (s, m)" using K by blast
    ultimately have "steady K ?w' (Fire d s Cbs True # st) d" by (auto simp: steady_def)
    moreover have "steady K ?w' (Fire d s Cbs True # st) d'" if "d' \<noteq> d" for d'
      using that dfr by (intro others) (simp_all add: set_list_def)
    ultimately have "obeys K (?w', Fire d s Cbs True # st, Go)" by (intro obeysI) metis
    then show ?thesis by (simp add: t)
  qed
qed

subsection \<open>Steps\<close>

lemma settling_top: "settling s m j w st d \<Longrightarrow> \<exists>b st'. st = Fire d s Cbs b # st'"
  by (auto simp: settling_def)

lemma obeysD:
  "obeys K (w, st, sg) \<Longrightarrow> steady K w st d \<or> (\<forall>s k. own_only s k (list_of w d s k)) \<and> sg = Go \<and>
     (case K d of None \<Rightarrow> \<exists>s m j. settling s m j w st d | Some (s, m) \<Rightarrow> \<exists>j \<ge> 2. settling s m j w st d)"
  by (simp add: obeys_def)

lemma obeys_own: "obeys K (w, st, sg) \<Longrightarrow> own_only s k (list_of w d s k)"
  using obeysD [of K w st sg d] by (auto dest: steady_own)

lemma obeys_known:
  "obeys K (w, st, sg) \<Longrightarrow> K d = Some (s, m) \<Longrightarrow> settled_with s m w st d \<or> sg = Go \<and> (\<exists>j \<ge> 2. settling s m j w st d)"
  using obeysD [of K w st sg d] by (simp add: steady_def) blast

lemma obeys_unknown:
  "obeys K (w, st, sg) \<Longrightarrow> K d = None \<Longrightarrow>
     pending w st d \<or> (\<exists>s m. settled_with s m w st d \<or> sg = Go \<and> (\<exists>j. settling s m j w st d))"
  using obeysD [of K w st sg d] by (simp add: steady_def) blast

lemma obeys_cases:
  assumes "obeys K (w, st, sg)"
  obtains (steady) "\<And>d. steady K w st d"
  | (settling) d s m j b st' where "sg = Go" "st = Fire d s Cbs b # st'" "settling s m j w st d"
      "\<And>s k. own_only s k (list_of w d s k)" "K d = None \<or> K d = Some (s, m) \<and> 2 \<le> j"
      "\<And>d'. d' \<noteq> d \<Longrightarrow> steady K w st d'"
proof (cases "\<forall>d. steady K w st d")
  case False
  then obtain d where d: "\<not> steady K w st d" by blast
  then obtain s m j where sm: "sg = Go" "settling s m j w st d" "K d = None \<or> K d = Some (s, m) \<and> 2 \<le> j"
    using obeysD [OF assms, of d] by (cases "K d") auto
  then obtain b st' where st: "st = Fire d s Cbs b # st'" using settling_top by blast
  have "steady K w st d'" if "d' \<noteq> d" for d'
  proof (rule ccontr)
    assume "\<not> steady K w st d'"
    then obtain s m j where "settling s m j w st d'" using obeysD [OF assms, of d'] by (cases "K d'") auto
    then show False using st that by (auto dest!: settling_top)
  qed
  then show ?thesis using that(2) [OF sm(1) st sm(2) obeys_own [OF assms] sm(3)] by blast
qed (use that(1) in blast)

lemma steady_proceed:
  assumes "\<And>d. steady K w (f # st) d"
  shows "obeys K (proceed user f w st)"
proof (cases f)
  case (Fire d s k b)
  then show ?thesis using fire_go_steady assms by simp
next
  case (Todo as)
  then show ?thesis using assms by (cases as) (auto intro!: obeysI do_action_obeys)
qed (use assms in \<open>auto intro!: obeysI do_op_obeys split: user_next.splits\<close>)

lemma obeys_empty: "obeys K (w, [], sg) \<Longrightarrow> steady K w [] d"
  by (erule obeys_cases) simp_all

lemma dstep_obeys:
  assumes "obeys K c" "dstep user c c'"
  shows "obeys K c'"
  using assms(2,1)
proof cases
  case (turn st w sg)
  then obtain f st' where st: "st = f # st'" by (cases st) auto
  from assms(1) [unfolded turn(1)] show ?thesis
  proof (cases rule: obeys_cases)
    case steady
    then show ?thesis
      using turn st steady_proceed returned_obeys raised_obeys by (cases sg) auto
  next
    case (settling d s m j b st'')
    then show ?thesis using turn st fire_go_settling by auto
  qed
next
  case (enter w sg f args)
  then have "steady K w [] d" for d using obeys_empty assms(1) by simp
  then show ?thesis unfolding enter by (intro obeysI) simp
next
  case (timer w f args ts sg)
  then have "steady K w [] d" for d using obeys_empty assms(1) by simp
  then show ?thesis unfolding timer by (auto simp: run_timer_def intro!: obeysI call_obeys split: closure.splits)
qed

lemma start_obeys: "obeys (\<lambda>_. None) (start_world, [], Go)"
proof (rule obeysI)
  fix d
  have "fresh s k (new_list s k)" for s k unfolding fresh_def new_list_fields by (rule exI [of _ "[]"]) simp
  then show "steady (\<lambda>_. None) start_world [] d"
    by (simp add: steady_def pending_def start_world_def new_deferred_def own_only_def new_list_fields new_callbacks_def)
qed

lemma dreach_obeys: "dreach user c \<Longrightarrow> obeys (\<lambda>_. None) c"
  by (induction rule: dreach.induct) (auto intro: start_obeys dstep_obeys)

lemma dsteps_obeys: "(dstep user)\<^sup>*\<^sup>* c c' \<Longrightarrow> obeys K c \<Longrightarrow> obeys K c'"
  by (induction rule: rtranclp_induct) (auto intro: dstep_obeys)

section \<open>Properties\<close>

text \<open>The arguments an object was settled with.\<close>

definition settlement :: "dworld \<Rightarrow> nat \<Rightarrow> val list option" where
  "settlement w d =
     (case dstate (dfr w d) of
        Pending \<Rightarrow> None
      | Resolved \<Rightarrow> memory (list_of w d Resolve Cbs)
      | Rejected \<Rightarrow> memory (list_of w d Reject Cbs))"

lemma settlement_known:
  assumes "obeys K (w, st, sg)" "K d = Some (s, m)"
  shows "dstate (dfr w d) = final_state s \<and> settlement w d = Some m"
proof -
  have "settled_with s m w st d \<or> (\<exists>j \<ge> 2. settling s m j w st d)"
    using obeys_known [OF assms] by blast
  then show ?thesis by (cases s) (auto simp: settled_with_def settling_def settlement_def)
qed

lemma know_settled:
  assumes "obeys (\<lambda>_. None) (w, st, sg)" "dstate (dfr w d) \<noteq> Pending"
  obtains s m where "obeys ((\<lambda>_. None)(d := Some (s, m))) (w, st, sg)"
proof -
  have "\<not> pending w st d" "settling s m j w st d \<Longrightarrow> 2 \<le> j" for s m j
    using assms(2) by (auto simp: pending_def settling_def split: if_splits)
  then obtain s m where sm: "settled_with s m w st d \<or> sg = Go \<and> (\<exists>j \<ge> 2. settling s m j w st d)"
    using obeys_unknown [OF assms(1)] by blast
  let ?K = "(\<lambda>_. None)(d := Some (s, m))"
  have "obeys ?K (w, st, sg)"
    unfolding obeys_def prod.case
  proof
    fix d'
    show "steady ?K w st d' \<or> (\<forall>s k. own_only s k (list_of w d' s k)) \<and> sg = Go \<and>
        (case ?K d' of None \<Rightarrow> \<exists>s m j. settling s m j w st d' | Some (s, m) \<Rightarrow> \<exists>j \<ge> 2. settling s m j w st d')"
      using obeysD [OF assms(1), of d'] obeys_own [OF assms(1)] sm by (cases "d' = d") (auto simp: steady_def)
  qed
  then show ?thesis by (rule that)
qed

text \<open>C34:
  A deferred object is settled at most once: whatever user code, callbacks, thenables and timers do and
  raise, once its state is resolved or rejected neither the state nor the arguments it was settled with
  change again.
\<close>

theorem settle_once:
  assumes "dreach user (w, st, sg)" "(dstep user)\<^sup>*\<^sup>* (w, st, sg) (w', st', sg')" "dstate (dfr w d) \<noteq> Pending"
  shows "dstate (dfr w' d) = dstate (dfr w d) \<and> settlement w' d = settlement w d \<and> settlement w d \<noteq> None"
proof -
  obtain s m where K: "obeys ((\<lambda>_. None)(d := Some (s, m))) (w, st, sg)"
    using know_settled [OF dreach_obeys [OF assms(1)] assms(3)] by blast
  then have "obeys ((\<lambda>_. None)(d := Some (s, m))) (w', st', sg')" by (rule dsteps_obeys [OF assms(2)])
  then show ?thesis using settlement_known [OF K] settlement_known by fastforce
qed

text \<open>A run of turns, for examples.\<close>

fun run_turns :: "user \<Rightarrow> nat \<Rightarrow> dconfig \<Rightarrow> dconfig" where
  "run_turns user (Suc n) (w, f # st, sg) = run_turns user n (turn_of user (w, f # st, sg))"
| "run_turns user n c = c"

lemma run_turns_steps: "(dstep user)\<^sup>*\<^sup>* c (run_turns user n c)"
proof (induction user n c rule: run_turns.induct)
  case (1 user n w f st sg)
  have "dstep user (w, f # st, sg) (turn_of user (w, f # st, sg))" by (rule dstep.turn) simp
  then show ?case using 1 by (simp add: converse_rtranclp_into_rtranclp)
qed simp_all

lemma dreach_steps: "(dstep user)\<^sup>*\<^sup>* c c' \<Longrightarrow> dreach user c \<Longrightarrow> dreach user c'"
  by (induction rule: rtranclp_induct) (auto intro: dreach.step)

definition script_user :: "user_op list \<Rightarrow> user" where
  "script_user ops w f args n = (if f = 0 \<and> n < length ops then Do False (ops ! n) else Finish (arg0 args))"

definition script_start :: dconfig where
  "script_start = (start_world, [UserCode 0 [] 0 False], Go)"

lemma script_reach: "dreach user (run_turns user n script_start)"
  unfolding script_start_def by (rule dreach_steps [OF run_turns_steps]) (auto intro: dreach.intros dstep.enter)

definition contest :: user where
  "contest = script_user [AddListeners 0 Reject [Action 0 Resolve], Invoke (Action 0 Resolve) [Plain 1], Invoke (Action 0 Reject) [Plain 2]]"

theorem settle_once_witness:
  "settlement (fst (run_turns contest 30 (run_turns contest 12 script_start))) 0 = Some [Plain 1]
   \<and> dstate (dfr (fst (run_turns contest 30 (run_turns contest 12 script_start))) 0) = Resolved"
proof -
  let ?c = "run_turns contest 12 script_start"
  have "dstate (dfr (fst ?c) 0) = Resolved" "settlement (fst ?c) 0 = Some [Plain 1]" by code_simp+
  then show ?thesis
    using settle_once [of contest "fst ?c" "fst (snd ?c)" "snd (snd ?c)" "fst (run_turns contest 30 ?c)"
        "fst (snd (run_turns contest 30 ?c))" "snd (snd (run_turns contest 30 ?c))" 0]
      script_reach [of contest 12] run_turns_steps [of contest ?c 30] by simp
qed

text \<open>C35:
  Listeners match the outcome: a function added with \<open>done\<close> or as the first handler of \<open>then\<close> is only ever
  called by an object that is resolved, one added with \<open>fail\<close> or as a second handler by one that is
  rejected, and always with exactly the arguments the object was settled with.
\<close>

theorem listeners_match:
  assumes "dreach user (w, Fire d s k True # st, Go)" "s \<noteq> Notify"
    and "fire_turn (list_options s) True (list_of w d s k) = (c, Call (Closure f) v)"
  shows "dstate (dfr w d) = final_state s \<and> settlement w d = Some v"
proof -
  let ?st = "Fire d s k True # st"
  note o = dreach_obeys [OF assms(1)]
  note mem = turn_fields(5) [OF assms(3) obeys_own [OF o] refl]
  have "\<not> pending w ?st d" using assms(2) by (auto simp: pending_def)
  moreover have False if "settling s' m j w ?st d" for s' m j
  proof -
    have "k = Cbs" "s' = s" "j < 4" "0 < j" and "\<exists>fs cs. list_of w d s Cbs = \<lparr>firing = True, memory = Some m, fired = True, locked = True,
      lst = Some (own_fns s Cbs @ map Closure fs), queue = [], firingIndex = max (- 1) (int j - 2), calls = cs\<rparr>"
      using that by (auto simp: settling_def)
    moreover have "j = 1 \<or> j = 2 \<or> j = 3" using calculation by linarith
    ultimately show False using assms(2,3) by (auto simp: fire_turn_def own_fns_settle)
  qed
  ultimately obtain s' m where sm: "settled_with s' m w ?st d" using obeys_unknown [OF o] by blast
  then have s': "s' = s" using assms(2) by (auto simp: settled_with_def)
  have "carries m (list_of w d s k)" using sm s' by (auto simp: settled_with_def)
  then have "v = m" using mem by (auto simp: carries_def)
  then show ?thesis using sm s' by (cases s) (auto simp: settled_with_def settlement_def)
qed

definition waiting_user :: user where
  "waiting_user = script_user [AddListeners 0 Resolve [User 1], Invoke (Action 0 Resolve) [Plain 1]]"

theorem listeners_match_witness:
  "\<exists>w st. run_turns waiting_user 14 script_start = (w, Fire 0 Resolve Cbs True # st, Go)
     \<and> dstate (dfr w 0) = Resolved \<and> settlement w 0 = Some [Plain 1]"
proof -
  let ?c = "run_turns waiting_user 14 script_start"
  obtain w st sg where c: "?c = (w, st, sg)" by (cases ?c)
  have "sg = snd (snd ?c)" "st = fst (snd ?c)" "w = fst ?c" using c by simp_all
  moreover have "snd (snd ?c) = Go" "fst (snd ?c) = [Fire 0 Resolve Cbs True, UserCode 0 [] 2 False]"
    "snd (fire_turn (list_options Resolve) True (list_of (fst ?c) 0 Resolve Cbs)) = Call (Closure (User 1)) [Plain 1]"
    by code_simp+
  ultimately show ?thesis
    using listeners_match [of waiting_user w 0 Resolve Cbs "[UserCode 0 [] 2 False]"
        "fst (fire_turn (list_options Resolve) True (list_of w 0 Resolve Cbs))" "User 1" "[Plain 1]"]
      script_reach [of waiting_user 14] c by (metis final_state.simps(2) prod.collapse slot.distinct(1))
qed

subsection \<open>Handlers of \<open>then\<close> run later\<close>

text \<open>Activations of \<open>process\<close> at depth 0, that is for the promise's own outcome.\<close>

fun first_level :: "frame \<Rightarrow> bool" where
  "first_level (Processing t depth h sp args stage) = (depth = 0)"
| "first_level _ = False"

abbreviation no_first :: "frame list \<Rightarrow> bool" where
  "no_first st \<equiv> list_all (\<lambda>f. \<not> first_level f) st"

definition grows :: "frame list \<Rightarrow> dconfig \<Rightarrow> bool" where
  "grows st c \<longleftrightarrow> (\<exists>pre. fst (snd c) = pre @ st \<and> no_first pre)"

lemma grows_same [simp]: "grows st (w, st, sg)"
  by (auto simp: grows_def intro: exI [of _ "[]"])

lemma grows_push: "grows (f # st) c \<Longrightarrow> \<not> first_level f \<Longrightarrow> grows st c"
proof -
  assume "grows (f # st) c" "\<not> first_level f"
  then obtain pre where "fst (snd c) = (pre @ [f]) @ st" "no_first (pre @ [f])" by (auto simp: grows_def)
  then show "grows st c" unfolding grows_def by blast
qed

lemma grows_frame [simp]: "\<not> first_level f \<Longrightarrow> grows st (w, f # st, sg)"
  by (rule grows_push [of f]) simp_all

lemma fire_with_grows [simp]: "grows st (fire_with d s k args w st)"
  by (simp add: fire_with_def split: prod.split bool.split)

lemma add_to_grows [simp]: "grows st (add_to d s k fs w st)"
  by (simp add: add_to_def split: prod.split bool.split)

lemma call_internal_grows [simp]: "grows st (call_internal d g args w st)"
  by (cases g) simp_all

lemma call_grows [simp]: "grows st (call_closure f args w st)" "grows st (call_handler h args w st)"
proof (induction f args w st and h args w st rule: call_closure_call_handler.induct)
  case (3 t depth h special args w st)
  then show ?case using grows_push [of "Processing t depth h special args AwaitHandler" st] by auto
next
  case (4 fn s d args w st)
  then show ?case by (cases fn) (auto intro: grows_push)
qed (simp_all add: Let_def)

lemma then_call_grows [simp]: "grows st (then_call d f g p w st)"
  by (simp add: then_call_def make_deferred_def Let_def)

lemma value_then_grows [simp]: "grows st (value_then v f g p w st)"
  by (cases v) simp_all

lemma piped_grows [simp]: "grows st (piped s nd v w st)"
  by (cases v) simp_all

lemma adopt_value_grows [simp]: "grows st (adopt_value v f d nv w st)"
  by (cases v) (auto intro: grows_push [of "Adopting d"])

lemma do_action_grows [simp]: "grows st (do_action a w st)"
  by (cases a) (simp_all add: when_return_def Let_def)

lemma do_op_grows [simp]: "grows st (do_op op w st)"
  by (cases op) (simp_all add: when_call_def pipe_call_def make_deferred_def Let_def split: option.split)

lemma handler_returned_grows:
  "grows (Processing t depth h sp args AwaitThen # st) (handler_returned t depth h sp args v w st)"
  by (simp add: handler_returned_def Let_def)

lemma process_raised_grows [simp]: "grows st (process_raised t depth h sp args e w st)"
  by (simp add: process_raised_def)

lemma fire_go_grows [simp]: "grows st (fire_go d s k b w st)"
  by (simp split: prod.split turn.split fn.split) (auto intro: grows_push [of "Fire d s k True"])

lemma proceed_grows: "grows st (proceed user f w st)"
proof (cases "(user, f, w, st)" rule: proceed.cases)
  case (1 user d s k inner w st)
  then show ?thesis by (simp del: fire_go.simps)
next
  case (2 user f args n guarded w st)
  then show ?thesis using grows_push [OF do_op_grows] by (auto split: user_next.split)
next
  case (4 user a as w st)
  then show ?thesis using grows_push [OF do_action_grows] by auto
qed simp_all

text \<open>At depth 0 \<open>process\<close> is the outermost activation.\<close>

definition outermost :: "frame list \<Rightarrow> bool" where
  "outermost st \<longleftrightarrow> no_first (butlast st)"

lemma outermost_simps [simp]:
  "outermost []" "outermost (f # st) \<longleftrightarrow> st = [] \<or> \<not> first_level f \<and> outermost st"
  by (auto simp: outermost_def)

lemma outermost_grows: "grows st c \<Longrightarrow> outermost st \<Longrightarrow> outermost (fst (snd c))"
  by (cases "st = []") (auto simp: grows_def outermost_def butlast_append list_all_iff dest: in_set_butlastD)

lemma turn_outermost:
  assumes "outermost (f # st)"
  shows "outermost (fst (snd (turn_of user (w, f # st, sg))))"
proof -
  have st: "outermost st" using assms by auto
  show ?thesis
  proof (cases sg)
    case Go
    then show ?thesis using outermost_grows [OF proceed_grows st] by simp
  next
    case (Ret v)
    show ?thesis
    proof (cases "(f, v, w, st)" rule: returned.cases)
      case (1 t depth h special args v w st')
      then show ?thesis using Ret assms outermost_grows [OF handler_returned_grows] by simp
    next
      case (3 s d v w st')
      then show ?thesis using Ret st outermost_grows [OF piped_grows] by simp
    qed (use Ret assms in auto)
  next
    case (Exn e)
    then show ?thesis
      using st assms outermost_grows [OF process_raised_grows st] outermost_grows [OF fire_with_grows st]
      by (cases f) auto
  qed
qed

lemma dreach_outermost: "dreach user c \<Longrightarrow> outermost (fst (snd c))"
proof (induction rule: dreach.induct)
  case (step c c')
  from step(2,3) show ?case
  proof cases
    case (turn st w sg)
    then show ?thesis using step(3) turn_outermost by (cases st) auto
  next
    case (timer w f args ts sg)
    have "outermost (fst (snd (call_handler h args w' [Processing t n h sp args AwaitHandler])))" for w' t n h sp
      using outermost_grows [OF call_grows(2)] by simp
    then show ?thesis using timer by (auto simp: run_timer_def split: closure.split)
  qed simp
qed simp

text \<open>C36:
  The handlers of \<open>then\<close> never run inside other code: whenever the processing of a promise's own outcome is
  active it is the outermost activation, started by the timer and not by the code that settled the promise
  or called \<open>then\<close>.
\<close>

theorem then_asynchronous:
  assumes "dreach user (w, st, sg)" "Processing t 0 h special args stage \<in> set st"
  shows "\<exists>pre. st = pre @ [Processing t 0 h special args stage] \<and> no_first pre"
proof -
  have "no_first (butlast st)" using dreach_outermost [OF assms(1)] by (simp add: outermost_def)
  moreover have "st \<noteq> []" using assms(2) by auto
  moreover have "last st = Processing t 0 h special args stage"
    using assms(2) calculation by (metis append_butlast_last_id first_level.simps(1) in_set_conv_decomp list_all_iff rotate1.simps(2) set_ConsD set_rotate1)
  ultimately show ?thesis by (metis append_butlast_last_id)
qed

definition later_user :: user where
  "later_user = script_user [Then 0 (Some (User 1)) None None, Invoke (Action 0 Resolve) [Plain 1]]"

theorem then_asynchronous_witness:
  "\<exists>w. dreach later_user (w, [UserCode 1 [Plain 1] 0 False, Processing 0 0 (Handler (User 1)) False [Plain 1] AwaitHandler], Go)
   \<and> (\<exists>pre. [UserCode 1 [Plain 1] 0 False, Processing 0 0 (Handler (User 1)) False [Plain 1] AwaitHandler]
         = pre @ [Processing 0 0 (Handler (User 1)) False [Plain 1] AwaitHandler] \<and> no_first pre)"
proof -
  let ?c = "run_turns later_user 40 script_start"
  let ?st = "[UserCode 1 [Plain 1] 0 False, Processing 0 0 (Handler (User 1)) False [Plain 1] AwaitHandler]"
  have c: "fst (snd ?c) = []" "timers (fst ?c) = [(Process 0 0 (Handler (User 1)) False, [Plain 1])]"
    "maxDepth (thens (fst ?c) 0) = 0" by code_simp+
  let ?w = "(fst ?c)\<lparr>timers := []\<rparr>"
  have "run_timer (Process 0 0 (Handler (User 1)) False) [Plain 1] ?w = (?w, ?st, Go)"
    using c(3) by (simp add: run_timer_def)
  then have "dstep later_user ?c (?w, ?st, Go)"
    using dstep.timer [OF c(2), of later_user "snd (snd ?c)"] c(1) by (metis prod.collapse)
  then have r: "dreach later_user (?w, ?st, Go)" using dreach.step [OF script_reach] by blast
  show ?thesis using r then_asynchronous [OF r, of 0 "Handler (User 1)" False "[Plain 1]" AwaitHandler] by (intro exI [of _ ?w]) simp
qed

end
