(* ===== verification/JqueryClasses.thy ===== *)
theory JqueryClasses
  imports JqueryCallbacks
begin

text \<open>
  The class functions of \<open>docs/_static/jquery-3.6.0.js\<close>: \<open>addClass\<close>, \<open>removeClass\<close>, \<open>toggleClass\<close> and
  \<open>hasClass\<close>.  The code edits the class attribute as a string padded with spaces; the specification is
  a list of words without white space.
\<close>

section \<open>Model\<close>

text \<open>
  A node of a matched set: whether it is an element, its class attribute, and what \<open>toggleClass\<close> has
  stored in the private data.
\<close>

record cnode =
  is_elem :: bool
  class_attr :: "string option"
  saved_class :: "string option"

datatype class_arg = ClassStr string | ClassArr "string list" | ClassUndef | ClassBool bool | ClassOther

definition stripAndCollapse :: "string \<Rightarrow> string" where
  "stripAndCollapse value = join '' '' (html_words value)"

definition getClass :: "cnode \<Rightarrow> string" where
  "getClass elem = (case class_attr elem of None \<Rightarrow> [] | Some s \<Rightarrow> s)"

definition classesToArray :: "class_arg \<Rightarrow> string list" where
  "classesToArray value = (case value of ClassArr cs \<Rightarrow> cs | ClassStr s \<Rightarrow> html_words s | _ \<Rightarrow> [])"

text \<open>The loop over the classes ends at an empty string.\<close>

definition loop_classes :: "string list \<Rightarrow> string list" where
  "loop_classes classes = takeWhile (\<lambda>c. c \<noteq> []) classes"

definition spaced :: "string \<Rightarrow> string" where
  "spaced c = '' '' @ c @ '' ''"

definition add_token :: "string \<Rightarrow> string \<Rightarrow> string" where
  "add_token clazz cur = (if indexOf cur (spaced clazz) < 0 then cur @ clazz @ '' '' else cur)"

text \<open>Every round of the inner loop of \<open>removeClass\<close> shortens the string.\<close>

function remove_token :: "string \<Rightarrow> string \<Rightarrow> string" where
  "remove_token clazz cur =
     (if indexOf cur (spaced clazz) > - 1 then remove_token clazz (replace_first (spaced clazz) '' '' cur) else cur)"
  by pat_completeness auto
termination
proof (relation "measure (\<lambda>(clazz, cur). length cur)")
  fix clazz cur
  assume "- 1 < indexOf cur (spaced clazz)"
  then obtain i where i: "sub_index (spaced clazz) cur = Some i" by (auto simp: indexOf_def split: option.splits)
  then show "((clazz, replace_first (spaced clazz) '' '' cur), clazz, cur) \<in> measure (\<lambda>(clazz, cur). length cur)"
    using sub_index_bound [OF i] by (auto simp: replace_first_def spaced_def)
qed simp

declare remove_token.simps [simp del]

definition edit_classes :: "(string \<Rightarrow> string \<Rightarrow> string) \<Rightarrow> string list \<Rightarrow> cnode \<Rightarrow> cnode" where
  "edit_classes token classes elem =
     (if is_elem elem then
        (let curValue = getClass elem;
             cur = fold token (loop_classes classes) (spaced (stripAndCollapse curValue));
             finalValue = stripAndCollapse cur in
         if curValue \<noteq> finalValue then elem\<lparr>class_attr := Some finalValue\<rparr> else elem)
      else elem)"

definition addClass :: "class_arg \<Rightarrow> cnode list \<Rightarrow> cnode list" where
  "addClass value this =
     (let classes = classesToArray value in
      if classes \<noteq> [] then map (edit_classes add_token classes) this else this)"

text \<open>\<open>removeClass\<close> of no argument empties the attribute; \<open>attr\<close> writes to elements only.\<close>

definition removeClass :: "class_arg option \<Rightarrow> cnode list \<Rightarrow> cnode list" where
  "removeClass value this =
     (case value of
        None \<Rightarrow> map (\<lambda>e. if is_elem e then e\<lparr>class_attr := Some []\<rparr> else e) this
      | Some v \<Rightarrow>
          (let classes = classesToArray v in
           if classes \<noteq> [] then map (edit_classes remove_token classes) this else this))"

definition hasClass :: "string \<Rightarrow> cnode list \<Rightarrow> bool" where
  "hasClass selector this =
     list_ex (\<lambda>e. is_elem e \<and> indexOf (spaced (stripAndCollapse (getClass e))) (spaced selector) > - 1) this"

text \<open>The forms that take a function call it per node with the index and the current classes.\<close>

definition each_with_class :: "(nat \<Rightarrow> string \<Rightarrow> class_arg) \<Rightarrow> (class_arg \<Rightarrow> cnode list \<Rightarrow> cnode list) \<Rightarrow> cnode list \<Rightarrow> cnode list" where
  "each_with_class f op this = concat (map (\<lambda>(j, e). op (f j (getClass e)) [e]) (enumerate 0 this))"

definition toggle_names :: "string list \<Rightarrow> cnode list \<Rightarrow> cnode list" where
  "toggle_names classNames self =
     fold (\<lambda>c self. if hasClass c self then removeClass (Some (ClassStr c)) self else addClass (ClassStr c) self)
       (loop_classes classNames) self"

definition toggle_whole :: "bool \<Rightarrow> cnode \<Rightarrow> cnode" where
  "toggle_whole is_false e =
     (let className = getClass e;
          e1 = (if className \<noteq> [] then e\<lparr>saved_class := Some className\<rparr> else e) in
      if is_elem e
      then e1\<lparr>class_attr := Some (if className \<noteq> [] \<or> is_false then [] else (case saved_class e1 of Some s \<Rightarrow> s | None \<Rightarrow> []))\<rparr>
      else e1)"

definition toggleClass :: "class_arg \<Rightarrow> bool option \<Rightarrow> cnode list \<Rightarrow> cnode list" where
  "toggleClass value stateVal this =
     (let isValidValue = (case value of ClassStr _ \<Rightarrow> True | ClassArr _ \<Rightarrow> True | _ \<Rightarrow> False) in
      case (stateVal, isValidValue) of
        (Some b, True) \<Rightarrow> if b then addClass value this else removeClass (Some value) this
      | (_, True) \<Rightarrow> concat (map (\<lambda>e. toggle_names (classesToArray value) [e]) this)
      | (_, False) \<Rightarrow>
          (case value of
             ClassUndef \<Rightarrow> map (toggle_whole False) this
           | ClassBool b \<Rightarrow> map (toggle_whole (\<not> b)) this
           | _ \<Rightarrow> this))"

section \<open>Words\<close>

text \<open>The words of a string by recursion over its characters.\<close>

fun words_from :: "(char \<Rightarrow> bool) \<Rightarrow> string \<Rightarrow> string \<Rightarrow> string list" where
  "words_from P acc [] = (if acc = [] then [] else [acc])"
| "words_from P acc (c # cs) =
     (if P c then (if acc = [] then [] else [acc]) @ words_from P [] cs else words_from P (acc @ [c]) cs)"

lemma words_from_plain:
  "\<forall>c \<in> set w. \<not> P c \<Longrightarrow> words_from P acc w = (if acc @ w = [] then [] else [acc @ w])"
  by (induction w arbitrary: acc) auto

lemma words_from_append:
  "P c \<Longrightarrow> words_from P acc (xs @ c # ys) = words_from P acc xs @ words_from P [] ys"
  by (induction xs arbitrary: acc) auto

lemma words_from_dropWhile: "words_from P [] (dropWhile P s) = words_from P [] s"
  by (induction s) auto

lemma split_class_words: "filter (\<lambda>w. w \<noteq> []) (split_class P s) = words_from P [] s"
proof (induction P s rule: split_class.induct)
  case (1 P s)
  show ?case
  proof (cases "dropWhile (\<lambda>c. \<not> P c) s")
    case Nil
    then have "\<forall>c \<in> set s. \<not> P c" by (simp add: dropWhile_eq_Nil_conv)
    then show ?thesis using words_from_plain [of s P "[]"] split_class_Nil [OF Nil] by simp
  next
    case (Cons d ds)
    then have d: "P d" "s = takeWhile (\<lambda>c. \<not> P c) s @ d # ds"
      by (metis dropWhile_eq_Cons_conv, metis takeWhile_dropWhile_id)
    have "words_from P [] s = words_from P [] (takeWhile (\<lambda>c. \<not> P c) s) @ words_from P [] ds"
      using words_from_append [of P d "[]" "takeWhile (\<lambda>c. \<not> P c) s" ds] d by metis
    moreover have "words_from P [] (takeWhile (\<lambda>c. \<not> P c) s)
        = (if takeWhile (\<lambda>c. \<not> P c) s = [] then [] else [takeWhile (\<lambda>c. \<not> P c) s])"
      using words_from_plain [of "takeWhile (\<lambda>c. \<not> P c) s" P "[]"] set_takeWhileD by fastforce
    ultimately show ?thesis using 1 [OF Cons] Cons words_from_dropWhile [of P ds]
      by (simp add: split_class.simps [of P s])
  qed
qed

lemma html_words_eq: "html_words s = words_from html_white [] s"
  by (simp add: html_words_def split_class_words)

definition is_word :: "string \<Rightarrow> bool" where
  "is_word c \<longleftrightarrow> c \<noteq> [] \<and> (\<forall>x \<in> set c. \<not> html_white x)"

lemma html_words_word: "w \<in> set (html_words s) \<Longrightarrow> is_word w"
  by (auto simp: html_words_def is_word_def dest: split_class_sep_free)

lemma white_space [simp]: "html_white (CHR '' '')"
  by (simp add: html_white_def code_def)

lemma html_words_Nil [simp]: "html_words [] = []"
  by (simp add: html_words_eq)

lemma html_words_single [simp]: "is_word c \<Longrightarrow> html_words c = [c]"
  using words_from_plain [of c html_white "[]"] by (simp add: html_words_eq is_word_def)

lemma html_words_space [simp]: "html_words (xs @ CHR '' '' # ys) = html_words xs @ html_words ys"
  using words_from_append [of html_white "CHR '' ''" "[]" xs ys] by (simp add: html_words_eq)

lemma html_words_space1 [simp]: "html_words (CHR '' '' # ys) = html_words ys"
  using html_words_space [of "[]" ys] by simp

lemma html_words_space2 [simp]: "html_words (xs @ '' '') = html_words xs"
  using html_words_space [of xs "[]"] by simp

lemma html_words_concat:
  "\<forall>w \<in> set ys. is_word w \<Longrightarrow> html_words (xs @ concat (map (\<lambda>z. '' '' @ z) ys)) = html_words xs @ ys"
proof (induction ys arbitrary: xs)
  case (Cons z zs)
  have "html_words (xs @ CHR '' '' # z @ concat (map (\<lambda>z. '' '' @ z) zs)) = html_words xs @ html_words (z @ concat (map (\<lambda>z. '' '' @ z) zs))"
    by (rule html_words_space)
  then show ?case using Cons.IH [of z] Cons.prems by simp
qed simp

lemma html_words_join: "\<forall>w \<in> set ws. is_word w \<Longrightarrow> html_words (join '' '' ws) = ws"
  by (cases ws) (simp_all add: join_def html_words_concat del: append_Cons append_Nil)

lemma html_words_collapse [simp]: "html_words (stripAndCollapse s) = html_words s"
  by (simp add: stripAndCollapse_def html_words_join html_words_word)

lemma words_from_occurs:
  "c \<in> set (words_from P acc s) \<Longrightarrow>
     \<exists>pre suf. acc @ s = pre @ c @ suf \<and> (pre = [] \<or> P (last pre)) \<and> (suf = [] \<or> P (hd suf))"
proof (induction s arbitrary: acc)
  case Nil
  then show ?case by (intro exI [of _ "[]"]) (simp split: if_splits)
next
  case (Cons x xs)
  show ?case
  proof (cases "P x")
    case True
    then consider "c = acc" | "c \<in> set (words_from P [] xs)" using Cons.prems by (auto split: if_splits)
    then show ?thesis
    proof cases
      case 1
      then show ?thesis using True by (intro exI [of _ "[]"] exI [of _ "x # xs"]) simp
    next
      case 2
      then obtain pre suf where "xs = pre @ c @ suf" "pre = [] \<or> P (last pre)" "suf = [] \<or> P (hd suf)"
        using Cons.IH [of "[]"] by auto
      then show ?thesis using True by (intro exI [of _ "acc @ x # pre"] exI [of _ suf]) auto
    qed
  next
    case False
    then show ?thesis using Cons.IH [of "acc @ [x]"] Cons.prems by simp
  qed
qed

section \<open>Padded strings\<close>

text \<open>A string that starts and ends with a space and has no other white space.\<close>

definition tidy :: "string \<Rightarrow> bool" where
  "tidy cur \<longleftrightarrow> cur \<noteq> [] \<and> hd cur = CHR '' '' \<and> last cur = CHR '' '' \<and> (\<forall>x \<in> set cur. html_white x \<longrightarrow> x = CHR '' '')"

lemma tidy_collapse: "tidy (spaced (stripAndCollapse s))"
proof -
  have "\<forall>x \<in> set (join '' '' ws). html_white x \<longrightarrow> x = CHR '' ''" if "\<forall>w \<in> set ws. is_word w" for ws
    using that by (cases ws) (auto simp: join_def is_word_def)
  then show ?thesis using html_words_word unfolding stripAndCollapse_def by (auto simp: tidy_def spaced_def)
qed

lemma word_ends: "is_word c \<Longrightarrow> c \<noteq> [] \<and> hd c \<noteq> CHR '' '' \<and> last c \<noteq> CHR '' ''"
  unfolding is_word_def using white_space hd_in_set last_in_set by metis

lemma spaced_occurs:
  assumes "tidy cur" "is_word c"
  shows "sublist (spaced c) cur \<longleftrightarrow> c \<in> set (html_words cur)"
proof
  assume "sublist (spaced c) cur"
  then obtain pre suf where "cur = pre @ CHR '' '' # c @ CHR '' '' # suf" by (auto simp: sublist_def spaced_def)
  then show "c \<in> set (html_words cur)" using assms(2) by simp
next
  assume "c \<in> set (html_words cur)"
  then obtain pre suf where p: "cur = pre @ c @ suf" "pre = [] \<or> html_white (last pre)" "suf = [] \<or> html_white (hd suf)"
    using words_from_occurs [of c html_white "[]" cur] by (auto simp: html_words_eq)
  have "pre \<noteq> []" "suf \<noteq> []"
    using assms(1) p(1) word_ends [OF assms(2)] by (auto simp: tidy_def hd_append last_append split: if_splits)
  then have "last pre = CHR '' ''" "hd suf = CHR '' ''" using assms(1) p by (auto simp: tidy_def)
  then have "cur = butlast pre @ spaced c @ tl suf"
    using p(1) \<open>pre \<noteq> []\<close> \<open>suf \<noteq> []\<close> append_butlast_last_id [of pre] by (cases suf) (auto simp: spaced_def)
  then show "sublist (spaced c) cur" by (auto simp: sublist_def)
qed

lemma add_token_words:
  assumes "tidy cur" "is_word c"
  shows "tidy (add_token c cur) \<and>
    html_words (add_token c cur) = (if c \<in> set (html_words cur) then html_words cur else html_words cur @ [c])"
proof -
  have neg: "indexOf cur (spaced c) < 0 \<longleftrightarrow> c \<notin> set (html_words cur)"
    using spaced_occurs [OF assms] indexOf_nonneg_iff [of cur "spaced c"] by linarith
  obtain mid where mid: "cur = mid @ '' ''" using assms(1) append_butlast_last_id [of cur] unfolding tidy_def by metis
  have "html_words (cur @ c @ '' '') = html_words cur @ [c]"
    using assms(2) html_words_space [of mid "c @ '' ''"] by (simp add: mid)
  moreover have "tidy (cur @ c @ '' '')" using assms by (auto simp: tidy_def is_word_def)
  ultimately show ?thesis using assms(1) neg by (simp add: add_token_def)
qed

lemma remove_token_words:
  "tidy cur \<Longrightarrow> is_word c \<Longrightarrow> tidy (remove_token c cur) \<and> html_words (remove_token c cur) = filter (\<lambda>w. w \<noteq> c) (html_words cur)"
proof (induction c cur rule: remove_token.induct)
  case (1 c cur)
  show ?case
  proof (cases "indexOf cur (spaced c) > - 1")
    case True
    then obtain i where i: "sub_index (spaced c) cur = Some i" by (auto simp: indexOf_def split: option.splits)
    obtain pre suf where cur: "cur = pre @ spaced c @ suf" "pre = take i cur" "suf = drop (i + length (spaced c)) cur"
      using indexOf_decompose [OF i] by blast
    have rep: "replace_first (spaced c) '' '' cur = pre @ '' '' @ suf"
      using i cur(2,3) by (simp add: replace_first_def)
    have "tidy (pre @ '' '' @ suf)"
      using 1(2) unfolding cur(1) by (auto simp: tidy_def spaced_def hd_append last_append split: if_splits)
    then have "tidy (remove_token c (pre @ '' '' @ suf)) \<and>
        html_words (remove_token c (pre @ '' '' @ suf)) = filter (\<lambda>w. w \<noteq> c) (html_words (pre @ '' '' @ suf))"
      using 1(1) [OF True] 1(3) rep by simp
    moreover have "remove_token c cur = remove_token c (pre @ '' '' @ suf)"
      using True rep by (simp add: remove_token.simps [of c cur])
    moreover have "filter (\<lambda>w. w \<noteq> c) (html_words cur) = filter (\<lambda>w. w \<noteq> c) (html_words (pre @ '' '' @ suf))"
      using 1(3) by (simp add: cur(1) spaced_def)
    ultimately show ?thesis by simp
  next
    case False
    then have "c \<notin> set (html_words cur)"
      using spaced_occurs [OF 1(2,3)] indexOf_found_iff [of cur "spaced c"] by simp
    then have "filter (\<lambda>w. w \<noteq> c) (html_words cur) = html_words cur" by (metis (mono_tags, lifting) filter_True)
    then show ?thesis using False 1(2) by (simp add: remove_token.simps [of c cur])
  qed
qed

section \<open>The specification\<close>

definition class_words :: "cnode \<Rightarrow> string list" where
  "class_words e = html_words (getClass e)"

definition add_word_spec :: "string \<Rightarrow> string list \<Rightarrow> string list" where
  "add_word_spec c ws = (if c \<in> set ws then ws else ws @ [c])"

text \<open>An edit of the padded string that implements an edit of the words.\<close>

locale token_edit =
  fixes token :: "string \<Rightarrow> string \<Rightarrow> string" and spec :: "string \<Rightarrow> string list \<Rightarrow> string list"
  assumes edit: "tidy cur \<Longrightarrow> is_word c \<Longrightarrow> tidy (token c cur) \<and> html_words (token c cur) = spec c (html_words cur)"
begin

lemma fold_words:
  "\<forall>c \<in> set cs. is_word c \<Longrightarrow> tidy cur \<Longrightarrow>
     tidy (fold token cs cur) \<and> html_words (fold token cs cur) = fold spec cs (html_words cur)"
  by (induction cs arbitrary: cur) (auto simp: edit)

lemma edit_words:
  assumes "\<forall>c \<in> set cs. is_word c"
  shows "class_words (edit_classes token cs e) = (if is_elem e then fold spec cs (class_words e) else class_words e)"
proof -
  have "loop_classes cs = cs" using assms by (simp add: loop_classes_def is_word_def takeWhile_eq_all_conv)
  then have "getClass (edit_classes token cs e) =
      (if is_elem e then stripAndCollapse (fold token cs (spaced (stripAndCollapse (getClass e)))) else getClass e)"
    by (simp add: edit_classes_def Let_def getClass_def [of "_\<lparr>class_attr := _\<rparr>"])
  moreover have "html_words (fold token cs (spaced (stripAndCollapse (getClass e)))) = fold spec cs (class_words e)"
    using fold_words [OF assms tidy_collapse [of "getClass e"]] by (simp add: class_words_def spaced_def)
  ultimately show ?thesis by (simp add: class_words_def)
qed

end

interpretation adding: token_edit add_token add_word_spec
  by unfold_locales (simp add: add_token_words add_word_spec_def)

interpretation removing: token_edit remove_token "\<lambda>c. filter (\<lambda>w. w \<noteq> c)"
  by unfold_locales (simp add: remove_token_words)

lemma fold_filter: "fold (\<lambda>c. filter (\<lambda>w. w \<noteq> c)) cs ws = filter (\<lambda>w. w \<notin> set cs) ws"
  by (induction cs arbitrary: ws) (auto intro: filter_cong)

text \<open>Seen as lists of words, the class functions do what they say: \<open>addClass\<close> appends the words that are
  missing, once each and in order; \<open>removeClass\<close> drops every occurrence of the given words and nothing
  else (no word that merely contains one of them); \<open>hasClass\<close> is membership of the word in one of the
  elements; \<open>toggleClass\<close> of a word removes it where it is and appends it where it is not.  Nodes that are
  no elements are left alone.
\<close>

theorem class_functions_refine:
  assumes "is_word c"
  shows "map class_words (addClass (ClassStr s) es)
      = map (\<lambda>e. if is_elem e then fold add_word_spec (html_words s) (class_words e) else class_words e) es
    \<and> map class_words (removeClass (Some (ClassStr s)) es)
      = map (\<lambda>e. if is_elem e then filter (\<lambda>w. w \<notin> set (html_words s)) (class_words e) else class_words e) es
    \<and> (hasClass c es \<longleftrightarrow> (\<exists>e \<in> set es. is_elem e \<and> c \<in> set (class_words e)))
    \<and> map class_words (toggleClass (ClassStr c) None es)
      = map (\<lambda>e. if \<not> is_elem e then class_words e
           else if c \<in> set (class_words e) then filter (\<lambda>w. w \<noteq> c) (class_words e) else class_words e @ [c]) es"
proof -
  have all: "\<forall>w \<in> set (html_words s). is_word w" for s using html_words_word by blast
  have add: "map class_words (addClass (ClassStr s) es)
      = map (\<lambda>e. if is_elem e then fold add_word_spec (html_words s) (class_words e) else class_words e) es" for s es
    using adding.edit_words [OF all] by (auto simp: addClass_def classesToArray_def Let_def)
  have rem: "map class_words (removeClass (Some (ClassStr s)) es)
      = map (\<lambda>e. if is_elem e then filter (\<lambda>w. w \<notin> set (html_words s)) (class_words e) else class_words e) es" for s es
    using removing.edit_words [OF all] by (auto simp: removeClass_def classesToArray_def Let_def fold_filter)
  have has: "hasClass c es \<longleftrightarrow> (\<exists>e \<in> set es. is_elem e \<and> c \<in> set (class_words e))" for es
  proof -
    have "indexOf (spaced (stripAndCollapse (getClass e))) (spaced c) > - 1 \<longleftrightarrow> c \<in> set (class_words e)" for e
      using spaced_occurs [OF tidy_collapse assms] by (simp add: indexOf_found_iff class_words_def spaced_def)
    then show ?thesis by (auto simp: hasClass_def list_ex_iff)
  qed
  have len: "length (addClass v [e]) = 1" "length (removeClass (Some v) [e]) = 1" for v e
    by (auto simp: addClass_def removeClass_def Let_def)
  have "map class_words (toggle_names [c] [e]) = [if \<not> is_elem e then class_words e
      else if c \<in> set (class_words e) then filter (\<lambda>w. w \<noteq> c) (class_words e) else class_words e @ [c]]" for e
    using add [of c "[e]"] rem [of c "[e]"] has [of "[e]"] assms word_ends [OF assms]
    by (auto simp: toggle_names_def loop_classes_def add_word_spec_def)
  then have "map class_words (toggleClass (ClassStr c) None es)
      = map (\<lambda>e. if \<not> is_elem e then class_words e
           else if c \<in> set (class_words e) then filter (\<lambda>w. w \<noteq> c) (class_words e) else class_words e @ [c]) es"
    using assms by (induction es) (auto simp: toggleClass_def classesToArray_def)
  then show ?thesis using add rem has by blast
qed

theorem class_functions_refine_witness:
  "map class_words (removeClass (Some (ClassStr ''btn x'')) [\<lparr>is_elem = True, class_attr = Some ''btn btn-x  btn'', saved_class = None\<rparr>]) = [[''btn-x'']]"
proof -
  have "class_words \<lparr>is_elem = True, class_attr = Some ''btn btn-x  btn'', saved_class = None\<rparr> = [''btn'', ''btn-x'', ''btn'']"
    "html_words ''btn x'' = [''btn'', ''x'']" by code_simp+
  moreover have "is_word ''btn''" by code_simp
  ultimately show ?thesis using class_functions_refine [of "''btn''" "''btn x''"] by simp
qed

end
