(* ===== verification/JqueryData.thy ===== *)
theory JqueryData
  imports JqueryCallbacks JsValue
begin

text \<open>
  Data attached to objects, and the function queues built on it, of \<open>docs/_static/jquery-3.6.0.js\<close>:
  \<open>camelCase\<close>, \<open>Data\<close>, \<open>dataAttr\<close>, \<open>fn.data\<close>, \<open>queue\<close> and \<open>dequeue\<close>.  Names of \<open>Object.prototype\<close> are no
  keys of the model's caches.
\<close>

section \<open>Names\<close>

definition ascii_lower :: "char \<Rightarrow> bool" where
  "ascii_lower c \<longleftrightarrow> 97 \<le> code c \<and> code c \<le> 122"

definition ascii_upper :: "char \<Rightarrow> bool" where
  "ascii_upper c \<longleftrightarrow> 65 \<le> code c \<and> code c \<le> 90"

definition fcamelCase :: "char \<Rightarrow> char" where
  "fcamelCase letter = char_of (code letter - 32)"

fun dash_alpha :: "string \<Rightarrow> string" where
  "dash_alpha (a # b # cs) =
     (if a = CHR ''-'' \<and> ascii_lower b then fcamelCase b # dash_alpha cs else a # dash_alpha (b # cs))"
| "dash_alpha cs = cs"

definition camelCase :: "string \<Rightarrow> string" where
  "camelCase s = dash_alpha (if prefix ''-ms-'' s then drop 1 s else s)"

text \<open>The name of the attribute that \<open>dataAttr\<close> looks up for a key, without \<open>data-\<close>.\<close>

definition attr_name :: "string \<Rightarrow> string" where
  "attr_name key = toLowerCase (concat (map (\<lambda>c. if ascii_upper c then [CHR ''-'', c] else [c]) key))"

section \<open>Data\<close>

text \<open>
  An object that data is attached to: its \<open>nodeType\<close> (\<open>None\<close> if it is no node), its attributes, and the
  caches that \<open>dataUser\<close> and \<open>dataPriv\<close> keep under their expandos (\<open>None\<close> if undefined).
\<close>

type_synonym cache = "(string \<times> jsval) list"

record owner =
  nodeType :: "int option"
  attributes :: "(string \<times> string) list"
  user_cache :: "cache option"
  priv_cache :: "cache option"

text \<open>An instance of \<open>Data\<close>: the property of the owner that it uses.\<close>

datatype store = UserData | PrivData

definition expando :: "store \<Rightarrow> owner \<Rightarrow> cache option" where
  "expando this owner = (case this of UserData \<Rightarrow> user_cache owner | PrivData \<Rightarrow> priv_cache owner)"

definition set_expando :: "store \<Rightarrow> cache option \<Rightarrow> owner \<Rightarrow> owner" where
  "set_expando this c owner =
     (case this of UserData \<Rightarrow> owner\<lparr>user_cache := c\<rparr> | PrivData \<Rightarrow> owner\<lparr>priv_cache := c\<rparr>)"

definition acceptData :: "owner \<Rightarrow> bool" where
  "acceptData owner \<longleftrightarrow> nodeType owner = Some 1 \<or> nodeType owner = Some 9 \<or> nodeType owner = None \<or> nodeType owner = Some 0"

definition cache_data :: "store \<Rightarrow> owner \<Rightarrow> owner \<times> cache" where
  "cache_data this owner =
     (case expando this owner of
        Some value \<Rightarrow> (owner, value)
      | None \<Rightarrow> (if acceptData owner then set_expando this (Some []) owner else owner, []))"

text \<open>Writing to a cache that \<open>cache\<close> returned: it is lost if the owner does not accept data.\<close>

definition write_cache :: "store \<Rightarrow> cache \<Rightarrow> owner \<Rightarrow> owner" where
  "write_cache this c owner = (if expando this owner = None then owner else set_expando this (Some c) owner)"

definition set_data :: "store \<Rightarrow> string \<Rightarrow> jsval \<Rightarrow> owner \<Rightarrow> owner" where
  "set_data this data value owner =
     (let (owner1, cache) = cache_data this owner in write_cache this (dict_set (camelCase data) value cache) owner1)"

definition set_all :: "store \<Rightarrow> (string \<times> jsval) list \<Rightarrow> owner \<Rightarrow> owner" where
  "set_all this data owner =
     (let (owner1, cache) = cache_data this owner in
      write_cache this (fold (\<lambda>(prop, v). dict_set (camelCase prop) v) data cache) owner1)"

definition lookup :: "cache \<Rightarrow> string \<Rightarrow> jsval" where
  "lookup c k = (case map_of c k of Some v \<Rightarrow> v | None \<Rightarrow> VUndef)"

definition get_data :: "store \<Rightarrow> string \<Rightarrow> owner \<Rightarrow> jsval" where
  "get_data this key owner =
     (case expando this owner of None \<Rightarrow> VUndef | Some c \<Rightarrow> lookup c (camelCase key))"

text \<open>\<open>access\<close> with a string key.\<close>

definition access_data :: "store \<Rightarrow> string \<Rightarrow> jsval \<Rightarrow> owner \<Rightarrow> owner \<times> jsval" where
  "access_data this key value owner =
     (if key \<noteq> [] \<and> value = VUndef then (owner, get_data this key owner)
      else (set_data this key value owner, if value \<noteq> VUndef then value else VStr key))"

datatype remove_key = RemoveAll | RemoveStr string | RemoveArr "string list"

definition del_keys :: "string list \<Rightarrow> cache \<Rightarrow> cache" where
  "del_keys ks c = filter (\<lambda>(k, v). k \<notin> set ks) c"

definition remove_data :: "store \<Rightarrow> remove_key \<Rightarrow> owner \<Rightarrow> owner" where
  "remove_data this key owner =
     (case expando this owner of
        None \<Rightarrow> owner
      | Some cache \<Rightarrow>
          (let keys = (case key of
                 RemoveAll \<Rightarrow> []
               | RemoveArr ks \<Rightarrow> map camelCase ks
               | RemoveStr k \<Rightarrow> (let k' = camelCase k in if dict_has cache k' then [k'] else html_words k'));
               cache1 = del_keys keys cache in
           set_expando this (if key = RemoveAll \<or> cache1 = [] then None else Some cache1) owner))"

definition hasData :: "store \<Rightarrow> owner \<Rightarrow> bool" where
  "hasData this owner = (case expando this owner of None \<Rightarrow> False | Some c \<Rightarrow> c \<noteq> [])"

subsection \<open>Attributes\<close>

text \<open>
  \<open>getData\<close>; the conversions of the engine are arguments: the number a string is the text of, if any, and
  \<open>JSON.parse\<close>, which is tried on \<open>{...}\<close> and \<open>[...]\<close> (\<open>None\<close> where it raises; the caller then keeps the string).
\<close>

definition rbrace :: "string \<Rightarrow> bool" where
  "rbrace s \<longleftrightarrow> length s \<ge> 2 \<and> (hd s = CHR ''{'' \<and> last s = CHR ''}'' \<or> hd s = CHR ''['' \<and> last s = CHR '']'')"

definition getData :: "(string \<Rightarrow> jsval option) \<Rightarrow> (string \<Rightarrow> jsval option) \<Rightarrow> string \<Rightarrow> jsval" where
  "getData number json data =
     (if data = ''true'' then VBool True
      else if data = ''false'' then VBool False
      else if data = ''null'' then VNull
      else (case number data of
              Some n \<Rightarrow> n
            | None \<Rightarrow> if rbrace data then (case json data of Some v \<Rightarrow> v | None \<Rightarrow> VStr data) else VStr data))"

definition dataAttr :: "(string \<Rightarrow> jsval) \<Rightarrow> string \<Rightarrow> jsval \<Rightarrow> owner \<Rightarrow> owner \<times> jsval" where
  "dataAttr convert key data elem =
     (if data = VUndef \<and> nodeType elem = Some 1 then
        (case map_of (attributes elem) (''data-'' @ attr_name key) of
           Some s \<Rightarrow> (set_data UserData key (convert s) elem, convert s)
         | None \<Rightarrow> (elem, VUndef))
      else (elem, data))"

text \<open>\<open>fn.data(key)\<close> on the first element.\<close>

definition data_read :: "(string \<Rightarrow> jsval) \<Rightarrow> string \<Rightarrow> owner \<Rightarrow> owner \<times> jsval" where
  "data_read convert key elem =
     (let data = get_data UserData key elem in
      if data \<noteq> VUndef then (elem, data) else dataAttr convert key VUndef elem)"

text \<open>\<open>fn.data()\<close>: every \<open>data-\<close> attribute is read, the last one first, against the cache object obtained at
  the start, which the reads themselves fill.\<close>

definition data_all :: "(string \<Rightarrow> jsval) \<Rightarrow> owner \<Rightarrow> owner \<times> cache" where
  "data_all convert elem =
     (let (elem1, _) = cache_data UserData elem;
          elem2 =
            (if nodeType elem1 = Some 1 \<and> \<not> truthy (get_data PrivData ''hasDataAttrs'' elem1) then
               set_data PrivData ''hasDataAttrs'' (VBool True)
                 (fold (\<lambda>(a, _) e.
                    if prefix ''data-'' a then
                      (let name = camelCase (drop 5 a);
                           data = (case user_cache e of Some c \<Rightarrow> lookup c name | None \<Rightarrow> VUndef) in
                       fst (dataAttr convert name data e))
                    else e) (rev (attributes elem1)) elem1)
             else elem1) in
      (elem2, case user_cache elem2 of Some c \<Rightarrow> c | None \<Rightarrow> []))"

definition data_write :: "string \<Rightarrow> jsval \<Rightarrow> owner list \<Rightarrow> owner list" where
  "data_write key value this = map (set_data UserData key value) this"

definition removeData :: "remove_key \<Rightarrow> owner list \<Rightarrow> owner list" where
  "removeData key this = map (remove_data UserData key) this"

section \<open>Names: facts\<close>

lemma camel_letter:
  assumes "ascii_lower b"
  shows "ascii_upper (fcamelCase b)" "lower_char (fcamelCase b) = b"
proof -
  have b: "97 \<le> code b" "code b \<le> 122" using assms by (auto simp: ascii_lower_def)
  then have c: "code (fcamelCase b) = code b - 32" by (simp add: fcamelCase_def)
  then show "ascii_upper (fcamelCase b)" unfolding ascii_upper_def using b by linarith
  have "is_upper (fcamelCase b)" unfolding is_upper_def c using b by linarith
  then show "lower_char (fcamelCase b) = b" using b c by (simp add: lower_char_def)
qed

lemma dash_not_upper [simp]: "\<not> ascii_upper (CHR ''-'')" "lower_char (CHR ''-'') = CHR ''-''"
  by code_simp+

lemma attr_name_Cons: "attr_name (c # cs) = (if ascii_upper c then [CHR ''-'', lower_char c] else [lower_char c]) @ attr_name cs"
  by (simp add: attr_name_def toLowerCase_def)

lemma attr_name_Nil [simp]: "attr_name [] = []"
  by (simp add: attr_name_def toLowerCase_def)

lemma not_upper: "\<not> is_upper c \<Longrightarrow> \<not> ascii_upper c \<and> lower_char c = c"
  by (auto simp: is_upper_def ascii_upper_def lower_char_def)

lemma attr_name_dash_alpha: "\<forall>c \<in> set s. \<not> is_upper c \<Longrightarrow> attr_name (dash_alpha s) = s"
  by (induction s rule: dash_alpha.induct) (auto simp: attr_name_Cons camel_letter not_upper)

lemma attr_name_lower: "\<forall>c \<in> set s. \<not> is_upper c \<Longrightarrow> attr_name s = s"
  by (induction s) (auto simp: attr_name_Cons not_upper)

lemma dash_alpha_attr_name:
  "\<forall>c \<in> set s. ascii_lower c \<or> ascii_upper c \<or> is_digit c \<Longrightarrow> dash_alpha (attr_name s) = s"
proof (induction s)
  case (Cons c cs)
  have plain: "dash_alpha (x # t) = x # dash_alpha t" if "x \<noteq> CHR ''-''" for x t
    using that by (cases t) auto
  show ?case
  proof (cases "ascii_upper c")
    case True
    then have c: "65 \<le> code c" "code c \<le> 90" by (auto simp: ascii_upper_def)
    then have "code (lower_char c) = code c + 32" by (simp add: lower_char_def is_upper_def)
    then have "ascii_lower (lower_char c)" "fcamelCase (lower_char c) = c"
      using c by (simp_all add: ascii_lower_def fcamelCase_def)
    then show ?thesis using Cons True by (simp add: attr_name_Cons)
  next
    case False
    then have "lower_char c = c" "c \<noteq> CHR ''-''"
      using Cons.prems by (auto simp: lower_char_def is_upper_def ascii_lower_def is_digit_def code_def)
    then show ?thesis using Cons False plain by (simp add: attr_name_Cons)
  qed
qed simp

lemma camel_attr_name:
  assumes "\<forall>c \<in> set k. ascii_lower c \<or> ascii_upper c \<or> is_digit c" "\<not> prefix ''-ms-'' (attr_name k)"
  shows "camelCase (attr_name k) = k"
  using assms by (simp add: camelCase_def dash_alpha_attr_name)

text \<open>The two spellings of a data name go back and forth: a name without capitals (as attribute names are)
  that does not start with \<open>-ms-\<close> is found again from its camel case form, and a camel case key of letters
  and digits is found again from the attribute name that is looked up for it, unless that starts with
  \<open>-ms-\<close>.
\<close>

theorem data_names_roundtrip:
  assumes "\<forall>c \<in> set s. \<not> is_upper c" "\<not> prefix ''-ms-'' s"
    and "\<forall>c \<in> set k. ascii_lower c \<or> ascii_upper c \<or> is_digit c" "\<not> prefix ''-ms-'' (attr_name k)"
  shows "attr_name (camelCase s) = s \<and> camelCase (attr_name k) = k"
  using assms by (simp add: camel_attr_name) (simp add: camelCase_def attr_name_dash_alpha)

theorem data_names_roundtrip_witness:
  "attr_name (camelCase ''last-value2'') = ''last-value2'' \<and> camelCase (attr_name ''lastValue2'') = ''lastValue2''"
proof (rule data_names_roundtrip)
  show "\<forall>c \<in> set ''last-value2''. \<not> is_upper c" "\<not> prefix ''-ms-'' ''last-value2''"
    "\<forall>c \<in> set ''lastValue2''. ascii_lower c \<or> ascii_upper c \<or> is_digit c" "\<not> prefix ''-ms-'' (attr_name ''lastValue2'')"
    by code_simp+
qed

text \<open>The exception: the data of an attribute \<open>data--ms-x\<close> is looked for under another name.\<close>

lemma ms_name_lost: "camelCase ''-ms-x'' = ''msX'' \<and> attr_name ''msX'' = ''ms-x''"
  by code_simp

section \<open>Data: facts\<close>

lemma expando_set [simp]: "expando t (set_expando t' c o') = (if t = t' then c else expando t o')"
  by (cases t; cases t') (simp_all add: expando_def set_expando_def)

lemma set_expando_fields [simp]:
  "nodeType (set_expando t c o') = nodeType o'" "attributes (set_expando t c o') = attributes o'"
  by (cases t; simp add: set_expando_def)+

lemma set_data_expando:
  "expando t' (set_data t k v o') =
     (if t = t' \<and> (acceptData o' \<or> expando t o' \<noteq> None)
      then Some (dict_set (camelCase k) v (case expando t o' of None \<Rightarrow> [] | Some c \<Rightarrow> c)) else expando t' o')"
  by (auto simp: set_data_def cache_data_def write_cache_def split: option.splits)

lemma map_of_del_keys: "map_of (del_keys ks c) k = (if k \<in> set ks then None else map_of c k)"
  by (induction c) (auto simp: del_keys_def)

lemma remove_data_get:
  "get_data t k (remove_data t (RemoveArr ks) o') = (if camelCase k \<in> set (map camelCase ks) then VUndef else get_data t k o')"
proof (cases "expando t o'")
  case (Some c)
  let ?c = "del_keys (map camelCase ks) c"
  have "lookup ?c (camelCase k) = (if camelCase k \<in> set (map camelCase ks) then VUndef else lookup c (camelCase k))"
    by (simp only: lookup_def map_of_del_keys) simp
  moreover have "lookup [] (camelCase k) = VUndef" by (simp add: lookup_def)
  ultimately show ?thesis using Some by (cases "?c = []") (auto simp: get_data_def remove_data_def Let_def split: if_splits)
qed (simp add: get_data_def remove_data_def)

text \<open>Data is a map on camel case names: what was set is read back under every spelling of its name, other
  names and the private data are not touched, and removed names read as undefined.  A node that accepts no
  data and has none (a text node, say) stays as it is.
\<close>

theorem data_laws:
  assumes "acceptData o' \<or> expando t o' \<noteq> None"
  shows "get_data t' k' (set_data t k v o')
      = (if t' = t \<and> camelCase k' = camelCase k then v else get_data t' k' o')
    \<and> get_data t k' (remove_data t (RemoveArr ks) (set_data t k v o'))
      = (if camelCase k' \<in> camelCase ` set ks then VUndef
         else if camelCase k' = camelCase k then v else get_data t k' o')
    \<and> hasData t (set_data t k v o')"
proof -
  have get: "get_data t' k' (set_data t k v o') = (if t' = t \<and> camelCase k' = camelCase k then v else get_data t' k' o')" for t' k'
    using assms by (auto simp: get_data_def set_data_expando lookup_def split: option.splits)
  have "dict_set (camelCase k) v c \<noteq> []" for c using dict_has_set [of "camelCase k" v c "camelCase k"] by fastforce
  then have "hasData t (set_data t k v o')" using assms by (auto simp: hasData_def set_data_expando)
  then show ?thesis using get by (simp add: remove_data_get)
qed

definition a_div :: owner where
  "a_div = \<lparr>nodeType = Some 1, attributes = [(''data-last-value'', ''5'')], user_cache = None, priv_cache = None\<rparr>"

theorem data_laws_witness: "get_data UserData ''fooBar'' (set_data UserData ''foo-bar'' (VStr ''x'') a_div) = VStr ''x''"
proof -
  have "acceptData a_div" by code_simp
  moreover have "camelCase ''fooBar'' = camelCase ''foo-bar''" by code_simp
  ultimately show ?thesis using data_laws [of a_div UserData UserData "''fooBar''" "''foo-bar''" "VStr ''x''" "[]"] by simp
qed

text \<open>The value of a data attribute is read once: the first read of a name converts the attribute of the
  element (unless data is set already) and stores the result, and from then on the reads return it, however
  the attributes change.
\<close>

theorem data_attribute_once:
  assumes "nodeType e = Some 1" "get_data UserData key e = VUndef"
    and "map_of (attributes e) (''data-'' @ attr_name key) = Some s" "convert s \<noteq> VUndef"
  shows "snd (data_read convert key e) = convert s
    \<and> snd (data_read convert' key ((fst (data_read convert key e))\<lparr>attributes := as\<rparr>)) = convert s"
proof -
  have acc: "acceptData e" using assms(1) by (simp add: acceptData_def)
  have r: "data_read convert key e = (set_data UserData key (convert s) e, convert s)"
    using assms by (simp add: data_read_def dataAttr_def)
  have "get_data UserData key (set_data UserData key (convert s) e) = convert s"
    using acc by (auto simp: get_data_def set_data_expando lookup_def split: option.splits)
  then have "get_data UserData key ((set_data UserData key (convert s) e)\<lparr>attributes := as\<rparr>) = convert s"
    by (simp add: get_data_def expando_def)
  then show ?thesis using assms(4) unfolding r by (simp add: data_read_def Let_def)
qed

theorem data_attribute_once_witness:
  "snd (data_read VStr ''lastValue'' ((fst (data_read VStr ''lastValue'' a_div))\<lparr>attributes := []\<rparr>)) = VStr ''5''"
proof -
  have "nodeType a_div = Some 1" "get_data UserData ''lastValue'' a_div = VUndef"
    "map_of (attributes a_div) (''data-'' @ attr_name ''lastValue'') = Some ''5''" by code_simp+
  then show ?thesis using data_attribute_once [of a_div "''lastValue''" "''5''" VStr VStr "[]"] by simp
qed

end
