(* ===== verification/JqueryQueue.thy ===== *)
theory JqueryQueue
  imports JqueryData
begin

text \<open>
  Function queues of \<open>docs/_static/jquery-3.6.0.js\<close>: \<open>queue\<close>, \<open>dequeue\<close>, \<open>clearQueue\<close> and the hooks that clean
  up when a queue has run empty, for one element and one queue type.
\<close>

section \<open>Model\<close>

datatype item = InProgress | Job nat

text \<open>
  The queue and the hooks as stored in the private data (\<open>None\<close> and \<open>False\<close> if there are none), the
  jobs that have been started, how often the queue was reported empty, and, for the specification, the
  jobs that were queued and not cleared.
\<close>

record qstate =
  queued :: "item list option"
  hooked :: bool
  started :: "nat list"
  emptied :: nat
  accepted :: "nat list"

definition no_queue :: qstate where
  "no_queue = \<lparr>queued = None, hooked = False, started = [], emptied = 0, accepted = []\<rparr>"

text \<open>\<open>jQuery.queue\<close>: look up, append one function, or replace by an empty array.\<close>

definition queue_get :: "qstate \<Rightarrow> item list" where
  "queue_get s = (case queued s of Some q \<Rightarrow> q | None \<Rightarrow> [])"

definition queue_push :: "item \<Rightarrow> qstate \<Rightarrow> qstate" where
  "queue_push data s =
     (let s1 = s\<lparr>accepted := accepted s @ (case data of Job f \<Rightarrow> [f] | InProgress \<Rightarrow> [])\<rparr> in
      case queued s of None \<Rightarrow> s1\<lparr>queued := Some [data]\<rparr> | Some q \<Rightarrow> s1\<lparr>queued := Some (q @ [data])\<rparr>)"

definition queue_clear :: "qstate \<Rightarrow> qstate" where
  "queue_clear s = s\<lparr>queued := Some [], accepted := started s\<rparr>"

text \<open>The array that \<open>jQuery.queue\<close> returned is changed in place, if it is the stored one.\<close>

definition write_queue :: "item list \<Rightarrow> qstate \<Rightarrow> qstate" where
  "write_queue q s = (if queued s = None then s else s\<lparr>queued := Some q\<rparr>)"

definition queueHooks :: "qstate \<Rightarrow> qstate" where
  "queueHooks s = s\<lparr>hooked := True\<rparr>"

text \<open>\<open>hooks.empty.fire()\<close>: the queue and its hooks are removed from the private data.\<close>

definition empty_fire :: "qstate \<Rightarrow> qstate" where
  "empty_fire s = s\<lparr>queued := None, hooked := False, emptied := emptied s + 1\<rparr>"

text \<open>What a job does before it returns; \<open>Next\<close> is the call of \<open>next\<close> or of \<open>dequeue\<close>.\<close>

datatype qop = Next | Push nat | Clear

text \<open>\<open>dequeue\<close> up to the call of the function, and the function with its array position.\<close>

definition dequeue_take :: "bool \<Rightarrow> qstate \<Rightarrow> qstate \<times> nat option \<times> nat" where
  "dequeue_take fx s =
     (let queue = queue_get s;
          startLength = length queue;
          (queue1, fn) = (case queue of [] \<Rightarrow> ([], None) | x # xs \<Rightarrow> (xs, Some x));
          s1 = queueHooks s;
          (queue2, fn2, startLength2) =
            (if fn = Some InProgress
             then (case queue1 of [] \<Rightarrow> ([], None, startLength - 1) | x # xs \<Rightarrow> (xs, Some x, startLength - 1))
             else (queue1, fn, startLength)) in
      case fn2 of
        Some (Job f) \<Rightarrow>
          (write_queue (if fx then InProgress # queue2 else queue2) s1\<lparr>started := started s1 @ [f]\<rparr>, Some f, startLength2)
      | _ \<Rightarrow> (write_queue queue2 s1, None, startLength2))"

text \<open>
  The three entry points, with fuel for the nested calls of jobs; jobs are functions of the number of
  jobs started before.
\<close>

fun run_ops :: "nat \<Rightarrow> (nat \<Rightarrow> nat \<Rightarrow> qop list) \<Rightarrow> bool \<Rightarrow> qop list \<Rightarrow> qstate \<Rightarrow> qstate option" where
  "run_ops n jobs fx [] s = Some s"
| "run_ops 0 jobs fx (op # ops) s = None"
| "run_ops (Suc n) jobs fx (Next # ops) s =
     (case dequeue_take fx s of
        (s1, fn, startLength) \<Rightarrow>
          (case (case fn of None \<Rightarrow> Some s1 | Some f \<Rightarrow> run_ops n jobs fx (jobs (length (started s)) f) s1) of
             None \<Rightarrow> None
           | Some s2 \<Rightarrow> run_ops n jobs fx ops (if startLength = 0 then empty_fire s2 else s2)))"
| "run_ops (Suc n) jobs fx (Push f # ops) s =
     (let s1 = queueHooks (queue_push (Job f) s) in
      if fx \<and> (case queue_get s1 of x # _ \<Rightarrow> x \<noteq> InProgress | [] \<Rightarrow> True)
      then run_ops n jobs fx (Next # ops) s1
      else run_ops n jobs fx ops s1)"
| "run_ops (Suc n) jobs fx (Clear # ops) s =
     (let s1 = queueHooks (queue_clear s) in
      if fx then run_ops n jobs fx (Next # ops) s1 else run_ops n jobs fx ops s1)"

section \<open>Facts\<close>

fun jobs_of :: "item list \<Rightarrow> nat list" where
  "jobs_of [] = []"
| "jobs_of (InProgress # xs) = jobs_of xs"
| "jobs_of (Job f # xs) = f # jobs_of xs"

lemma jobs_of_append [simp]: "jobs_of (xs @ ys) = jobs_of xs @ jobs_of ys"
  by (induction xs rule: jobs_of.induct) auto

text \<open>The sentinel is only ever the first entry, and only of the queue \<open>fx\<close>.\<close>

definition sentinel_ok :: "bool \<Rightarrow> item list \<Rightarrow> bool" where
  "sentinel_ok fx q \<longleftrightarrow> InProgress \<notin> set (tl q) \<and> (\<not> fx \<longrightarrow> InProgress \<notin> set q)"


definition queue_inv :: "bool \<Rightarrow> qstate \<Rightarrow> bool" where
  "queue_inv fx s \<longleftrightarrow> started s @ jobs_of (queue_get s) = accepted s \<and> sentinel_ok fx (queue_get s)"

lemma jobs_of_plain: "InProgress \<notin> set q \<Longrightarrow> jobs_of q = [] \<longleftrightarrow> q = []"
  by (cases q rule: jobs_of.cases) auto

lemmas take_defs = dequeue_take_def queue_get_def write_queue_def queueHooks_def

text \<open>One call of \<open>dequeue\<close> up to the call of the job.\<close>

lemma dequeue_take_inv:
  assumes "queue_inv fx s" "dequeue_take fx s = (s1, fn, n)"
  shows "queue_inv fx s1" "n = 0 \<longleftrightarrow> fn = None" "fn = None \<Longrightarrow> jobs_of (queue_get s1) = []"
    and "fn \<noteq> None \<Longrightarrow> jobs_of (queue_get s) = the fn # jobs_of (queue_get s1)"
proof -
  consider (none) "queued s = None" | (nil) "queued s = Some []" | (job) f q where "queued s = Some (Job f # q)" "InProgress \<notin> set q"
    | (idle) "queued s = Some [InProgress]" "fx" | (busy) f q where "queued s = Some (InProgress # Job f # q)" "fx" "InProgress \<notin> set q"
  proof (cases "queued s")
    case (Some q)
    have "sentinel_ok fx q" using assms(1) Some by (simp add: queue_inv_def queue_get_def)
    then have tl: "InProgress \<notin> set (tl q)" "\<not> fx \<longrightarrow> InProgress \<notin> set q" by (auto simp: sentinel_ok_def)
    show thesis
    proof (cases q rule: jobs_of.cases)
      case (2 r)
      then have "fx" using tl(2) by auto
      show thesis
      proof (cases r rule: jobs_of.cases)
        case (3 f r')
        then show thesis using that(5) [of f r'] Some 2 tl(1) \<open>fx\<close> by simp
      qed (use that(4) Some 2 tl(1) \<open>fx\<close> in simp_all)
    qed (use that(2,3) Some tl in simp_all)
  qed (use that(1) in blast)
  then have "queue_inv fx s1 \<and> (n = 0 \<longleftrightarrow> fn = None) \<and> (fn = None \<longrightarrow> jobs_of (queue_get s1) = [])
      \<and> (fn \<noteq> None \<longrightarrow> jobs_of (queue_get s) = the fn # jobs_of (queue_get s1))"
  proof cases
    case none
    then have "s1 = queueHooks s" "fn = None" "n = 0" using assms(2) by (simp_all add: dequeue_take_def queue_get_def write_queue_def queueHooks_def)
    then show ?thesis using assms(1) none by (simp add: queue_inv_def queue_get_def queueHooks_def)
  next
    case nil
    then have "s1 = s\<lparr>hooked := True, queued := Some []\<rparr>" "fn = None" "n = 0" using assms(2) by (simp_all add: take_defs)
    then show ?thesis using assms(1) nil by (simp add: queue_inv_def queue_get_def)
  next
    case (job f q)
    then have "s1 = s\<lparr>hooked := True, queued := Some (if fx then InProgress # q else q), started := started s @ [f]\<rparr>" "fn = Some f" "n = Suc (length q)"
      using assms(2) by (simp_all add: take_defs)
    then show ?thesis using assms(1) job by (cases q) (simp_all add: queue_inv_def queue_get_def sentinel_ok_def)
  next
    case idle
    then have "s1 = s\<lparr>hooked := True, queued := Some []\<rparr>" "fn = None" "n = 0" using assms(2) by (simp_all add: take_defs)
    then show ?thesis using assms(1) idle by (simp add: queue_inv_def queue_get_def sentinel_ok_def)
  next
    case (busy f q)
    then have "s1 = s\<lparr>hooked := True, queued := Some (InProgress # q), started := started s @ [f]\<rparr>" "fn = Some f" "n = Suc (length q)"
      using assms(2) by (simp_all add: take_defs)
    then show ?thesis using assms(1) busy by (simp add: queue_inv_def queue_get_def sentinel_ok_def)
  qed
  then show "queue_inv fx s1" "n = 0 \<longleftrightarrow> fn = None" "fn = None \<Longrightarrow> jobs_of (queue_get s1) = []"
    "fn \<noteq> None \<Longrightarrow> jobs_of (queue_get s) = the fn # jobs_of (queue_get s1)" by simp_all
qed

lemma push_inv: "queue_inv fx s \<Longrightarrow> queue_inv fx (queueHooks (queue_push (Job f) s))"
  by (auto simp: queue_inv_def queue_push_def queueHooks_def queue_get_def sentinel_ok_def Let_def tl_append split: option.splits list.splits)

lemma clear_inv: "queue_inv fx (queueHooks (queue_clear s))"
  by (simp add: queue_inv_def queue_clear_def queueHooks_def queue_get_def sentinel_ok_def)

lemma empty_fire_inv: "queue_inv fx s \<Longrightarrow> jobs_of (queue_get s) = [] \<Longrightarrow> queue_inv fx (empty_fire s)"
  by (simp add: queue_inv_def empty_fire_def queue_get_def [of "_\<lparr>queued := None, hooked := _, emptied := _\<rparr>"] sentinel_ok_def)

lemma run_ops_inv:
  assumes "queue_inv fx s" "run_ops n jobs fx ops s = Some s'"
  shows "queue_inv fx s'"
  using assms
proof (induction n jobs fx ops s arbitrary: s' rule: run_ops.induct)
  case (3 n jobs fx ops s)
  obtain s1 fn k where t: "dequeue_take fx s = (s1, fn, k)" by (cases "dequeue_take fx s") auto
  note inv = dequeue_take_inv [OF 3(3) t]
  obtain s2 where s2: "(case fn of None \<Rightarrow> Some s1 | Some f \<Rightarrow> run_ops n jobs fx (jobs (length (started s)) f) s1) = Some s2"
    and rest: "run_ops n jobs fx ops (if k = 0 then empty_fire s2 else s2) = Some s'"
    using 3(4) t by (auto split: option.splits)
  have "queue_inv fx (if k = 0 then empty_fire s2 else s2)"
    using s2 inv 3(1) [OF t [symmetric] refl] empty_fire_inv by (cases fn) auto
  then show ?case using 3(2) [OF t [symmetric] refl s2] rest by blast
next
  case (4 n jobs fx f ops s)
  then show ?case using push_inv [OF 4(3), of f] by (auto simp: Let_def split: if_splits)
next
  case (5 n jobs fx ops s)
  then show ?case using clear_inv [of fx s] by (auto simp: Let_def split: if_splits)
qed auto

text \<open>Queues are first in, first out, with nothing lost and nothing run twice: whatever jobs do while they run
  (call \<open>next\<close> at once, more than once or not at all, queue further jobs, clear the queue), the jobs
  started so far followed by the jobs still queued are exactly the jobs that were queued and not cleared, in
  the order they were queued; the marker of the effects queue is only ever its first entry.
\<close>

theorem queue_fifo:
  assumes "run_ops n jobs fx ops no_queue = Some s'"
  shows "started s' @ jobs_of (queue_get s') = accepted s' \<and> sentinel_ok fx (queue_get s')"
proof -
  have "queue_inv fx no_queue" by (simp add: queue_inv_def no_queue_def queue_get_def sentinel_ok_def)
  then show ?thesis using run_ops_inv [OF _ assms] by (simp add: queue_inv_def)
qed

theorem queue_fifo_witness:
  "\<exists>s'. run_ops 9 (\<lambda>_ f. if f = 1 then [Push 3, Next] else []) True [Push 1, Push 2] no_queue = Some s'
     \<and> started s' @ jobs_of (queue_get s') = accepted s' \<and> started s' = [1, 3] \<and> queue_get s' = [InProgress, Job 2]"
proof -
  have r: "run_ops 9 (\<lambda>_ f. if f = 1 then [Push 3, Next] else []) True [Push 1, Push 2] no_queue
      = Some \<lparr>queued = Some [InProgress, Job 2], hooked = True, started = [1, 3], emptied = 0, accepted = [1, 3, 2]\<rparr>"
    by code_simp
  from queue_fifo [OF r] show ?thesis unfolding r by (simp add: queue_get_def)
qed

section \<open>Termination\<close>

text \<open>Fuel for a sequence of operations when every job calls \<open>next\<close> at most once and does nothing else.\<close>

fun op_fuel :: "qop list \<Rightarrow> nat" where
  "op_fuel [] = 0"
| "op_fuel (Next # ops) = 2 + op_fuel ops"
| "op_fuel (op # ops) = 4 + op_fuel ops"

abbreviation backlog :: "qstate \<Rightarrow> nat" where
  "backlog s \<equiv> length (jobs_of (queue_get s))"

lemma backlog_clear: "backlog (queueHooks (queue_clear s)) = 0"
  by (simp add: queue_clear_def queueHooks_def queue_get_def)

lemma backlog_push: "backlog (queueHooks (queue_push (Job f) s)) = Suc (backlog s)"
  by (simp add: queue_push_def queueHooks_def queue_get_def Let_def split: option.splits)

lemma backlog_empty: "backlog (empty_fire s) = 0"
  by (simp add: empty_fire_def queue_get_def)

text \<open>Queues whose jobs call \<open>next\<close> at most once come to rest: every sequence of operations returns, and no
  more jobs are waiting at the end than were waiting before and have been queued by it.
\<close>

theorem queue_returns:
  assumes "\<forall>i f. jobs i f = [] \<or> jobs i f = [Next]" "queue_inv fx s" "op_fuel ops + backlog s \<le> n"
  shows "\<exists>s'. run_ops n jobs fx ops s = Some s' \<and> backlog s' \<le> backlog s + length (filter (\<lambda>op. op \<noteq> Next) ops)"
  using assms
proof (induction n jobs fx ops s rule: run_ops.induct)
  case (2 jobs fx op ops s)
  then show ?case by (cases op) auto
next
  case (3 n jobs fx ops s)
  obtain s1 fn k where t: "dequeue_take fx s = (s1, fn, k)" by (cases "dequeue_take fx s") auto
  note inv = dequeue_take_inv [OF 3(4) t]
  have "\<exists>s2. (case fn of None \<Rightarrow> Some s1 | Some f \<Rightarrow> run_ops n jobs fx (jobs (length (started s)) f) s1) = Some s2
      \<and> backlog s2 \<le> backlog s \<and> queue_inv fx s2"
  proof (cases fn)
    case None
    then show ?thesis using inv by simp
  next
    case (Some f)
    have "op_fuel (jobs (length (started s)) f) \<le> 2" "filter (\<lambda>op. op \<noteq> Next) (jobs (length (started s)) f) = []"
      using 3(3) [rule_format, of "length (started s)" f] by auto
    moreover have "backlog s = Suc (backlog s1)" using inv(4) Some by simp
    ultimately obtain s2 where "run_ops n jobs fx (jobs (length (started s)) f) s1 = Some s2" "backlog s2 \<le> backlog s1"
      using 3(1) [OF t [symmetric] refl Some 3(3) inv(1)] 3(5) by auto
    then show ?thesis using run_ops_inv [OF inv(1)] Some \<open>backlog s = Suc (backlog s1)\<close> by auto
  qed
  then obtain s2 where s2: "(case fn of None \<Rightarrow> Some s1 | Some f \<Rightarrow> run_ops n jobs fx (jobs (length (started s)) f) s1) = Some s2"
    "backlog s2 \<le> backlog s" "queue_inv fx s2" by blast
  let ?s3 = "if k = 0 then empty_fire s2 else s2"
  have "k = 0 \<Longrightarrow> s2 = s1" using inv(2) s2(1) by simp
  then have "queue_inv fx ?s3" using empty_fire_inv [of fx s1] inv s2(3) by auto
  moreover have "backlog ?s3 \<le> backlog s" using s2(2) by (simp add: backlog_empty)
  moreover have "op_fuel ops + backlog ?s3 \<le> n" using 3(5) calculation(2) by simp
  ultimately show ?case using 3(2) [OF t [symmetric] refl s2(1) 3(3)] t s2(1) by fastforce
next
  case (4 n jobs fx f ops s)
  then show ?case using push_inv [OF 4(4), of f] backlog_push [of f s] by (auto simp: Let_def)
next
  case (5 n jobs fx ops s)
  then show ?case using clear_inv [of fx s] backlog_clear [of s] by (auto simp: Let_def)
qed auto

theorem queue_returns_witness:
  "\<exists>s'. run_ops 20 (\<lambda>_ _. [Next]) True [Push 1, Push 2, Next] no_queue = Some s' \<and> backlog s' \<le> 2"
proof -
  have "queue_inv True no_queue" "op_fuel [Push 1, Push 2, Next] + backlog no_queue \<le> 20"
    "length (filter (\<lambda>op. op \<noteq> Next) [Push 1, Push 2, Next]) = 2" "backlog no_queue = 0" by code_simp+
  then show ?thesis using queue_returns [of "\<lambda>_ _. [Next]" True no_queue "[Push 1, Push 2, Next]" 20]
    by (simp add: numeral_2_eq_2)
qed

end
