(* ===== verification/JqueryFx.thy ===== *)
theory JqueryFx
  imports Prelude
begin

text \<open>
  The clock of animations in \<open>docs/_static/jquery-3.6.0.js\<close>: the list \<open>jQuery.timers\<close>, \<open>jQuery.fx.tick\<close>, which calls all timers, and
  \<open>schedule\<close>, which asks the browser to be called again.  What a timer does is an argument: it tells whether it goes on,
  and may start and stop animations.
\<close>

section \<open>Model\<close>

record fx_timer =
  ft_id :: nat
  ft_elem :: nat
  ft_queue :: string

text \<open>\<open>fx_frames\<close>: the calls of \<open>schedule\<close> that the browser still has to make.\<close>

record fx_state =
  fx_timers :: "fx_timer list"
  inProgress :: bool
  fx_frames :: nat

text \<open>
  What a timer may do.  While a timer runs \<open>inProgress\<close> is set, so that \<open>jQuery.fx.timer\<close> only adds to the list; \<open>stop\<close> takes
  timers of an element, or those of one of its queues, out of it.
\<close>

datatype fx_action = FxAdd fx_timer | FxStop nat "string option"

definition fx_stopped :: "nat \<Rightarrow> string option \<Rightarrow> fx_timer \<Rightarrow> bool" where
  "fx_stopped elem q t \<longleftrightarrow> ft_elem t = elem \<and> (q = None \<or> q = Some (ft_queue t))"

fun fx_act :: "fx_action \<Rightarrow> fx_state \<Rightarrow> fx_state" where
  "fx_act (FxAdd t) s = s\<lparr>fx_timers := fx_timers s @ [t]\<rparr>"
| "fx_act (FxStop elem q) s = s\<lparr>fx_timers := filter (\<lambda>t. \<not> fx_stopped elem q t) (fx_timers s)\<rparr>"

type_synonym fx_behaviour = "fx_timer \<Rightarrow> fx_state \<Rightarrow> bool \<times> fx_action list"

text \<open>The loop of \<open>tick\<close>; it need not end when timers keep adding others, so that there is fuel.\<close>

fun tick_loop :: "nat \<Rightarrow> fx_behaviour \<Rightarrow> nat \<Rightarrow> fx_state \<Rightarrow> fx_timer list \<Rightarrow> (fx_state \<times> fx_timer list) option" where
  "tick_loop 0 beh i s log = None"
| "tick_loop (Suc n) beh i s log =
     (if length (fx_timers s) \<le> i then Some (s, log)
      else
        (case beh (fx_timers s ! i) s of
           (alive, acts) \<Rightarrow>
             (let timer = fx_timers s ! i; s' = fold fx_act acts s in
              if \<not> alive \<and> i < length (fx_timers s') \<and> fx_timers s' ! i = timer then
                tick_loop n beh i (s'\<lparr>fx_timers := take i (fx_timers s') @ drop (Suc i) (fx_timers s')\<rparr>) (log @ [timer])
              else tick_loop n beh (Suc i) s' (log @ [timer]))))"

definition fx_stop :: "fx_state \<Rightarrow> fx_state" where
  "fx_stop s = s\<lparr>inProgress := False\<rparr>"

definition fx_tick :: "nat \<Rightarrow> fx_behaviour \<Rightarrow> fx_state \<Rightarrow> (fx_state \<times> fx_timer list) option" where
  "fx_tick n beh s =
     map_option (\<lambda>(s', log). (if fx_timers s' = [] then fx_stop s' else s', log)) (tick_loop n beh 0 s [])"

text \<open>The next call is asked for before the timers run.\<close>

definition schedule :: "nat \<Rightarrow> fx_behaviour \<Rightarrow> fx_state \<Rightarrow> (fx_state \<times> fx_timer list) option" where
  "schedule n beh s = (if inProgress s then fx_tick n beh (s\<lparr>fx_frames := fx_frames s + 1\<rparr>) else Some (s, []))"

definition fx_start :: "nat \<Rightarrow> fx_behaviour \<Rightarrow> fx_state \<Rightarrow> (fx_state \<times> fx_timer list) option" where
  "fx_start n beh s = (if inProgress s then Some (s, []) else schedule n beh (s\<lparr>inProgress := True\<rparr>))"

definition fx_timer_fn :: "nat \<Rightarrow> fx_behaviour \<Rightarrow> fx_timer \<Rightarrow> fx_state \<Rightarrow> (fx_state \<times> fx_timer list) option" where
  "fx_timer_fn n beh t s = fx_start n beh (s\<lparr>fx_timers := fx_timers s @ [t]\<rparr>)"

text \<open>The page: animations are started and stopped at any time, and the browser makes a call that is due.\<close>

inductive fx_step :: "fx_state \<Rightarrow> fx_state \<Rightarrow> bool" where
  add: "fx_timer_fn n beh t s = Some (s', log) \<Longrightarrow> fx_step s s'"
| stop: "fx_step s (fx_act (FxStop elem q) s)"
| frame: "0 < fx_frames s \<Longrightarrow> schedule n beh (s\<lparr>fx_frames := fx_frames s - 1\<rparr>) = Some (s', log) \<Longrightarrow> fx_step s s'"

definition fx_initial :: fx_state where
  "fx_initial = \<lparr>fx_timers = [], inProgress = False, fx_frames = 0\<rparr>"

inductive fx_reachable :: "fx_state \<Rightarrow> bool" where
  start: "fx_reachable fx_initial"
| step: "fx_reachable s \<Longrightarrow> fx_step s s' \<Longrightarrow> fx_reachable s'"

section \<open>A tick\<close>

lemma fx_acts_frame: "inProgress (fold fx_act acts s) = inProgress s" "fx_frames (fold fx_act acts s) = fx_frames s"
proof -
  have "inProgress (fx_act a s) = inProgress s \<and> fx_frames (fx_act a s) = fx_frames s" for a s by (cases a) simp_all
  then show "inProgress (fold fx_act acts s) = inProgress s" "fx_frames (fold fx_act acts s) = fx_frames s"
    by (induction acts arbitrary: s) simp_all
qed

lemma tick_loop_frame: "tick_loop n beh i s log = Some (s', log') \<Longrightarrow> inProgress s' = inProgress s \<and> fx_frames s' = fx_frames s"
  by (induction n beh i s log rule: tick_loop.induct) (auto simp: Let_def fx_acts_frame split: if_splits prod.splits)

lemma fx_tick_frame:
  "fx_tick n beh s = Some (s', log) \<Longrightarrow> fx_frames s' = fx_frames s \<and> inProgress s' = (inProgress s \<and> fx_timers s' \<noteq> [])"
proof -
  assume "fx_tick n beh s = Some (s', log)"
  then obtain s1 where s1: "tick_loop n beh 0 s [] = Some (s1, log)" "s' = (if fx_timers s1 = [] then fx_stop s1 else s1)"
    by (auto simp: fx_tick_def)
  then show ?thesis using tick_loop_frame [OF s1(1)] by (cases "fx_timers s1 = []") (simp_all add: fx_stop_def)
qed

text \<open>
  Timers that start and stop nothing: each is called once, in order, and those that have ended are gone, the others kept in order.
\<close>

lemma tick_loop_exact:
  assumes "\<And>t s. snd (beh t s) = []" "\<And>t s s'. fst (beh t s) = fst (beh t s')"
  shows "length (fx_timers s) - i < n \<Longrightarrow> i \<le> length (fx_timers s) \<Longrightarrow>
    tick_loop n beh i s log =
      Some (s\<lparr>fx_timers := take i (fx_timers s) @ filter (\<lambda>t. fst (beh t s)) (drop i (fx_timers s))\<rparr>, log @ drop i (fx_timers s))"
proof (induction n arbitrary: i s log)
  case (Suc n)
  show ?case
  proof (cases "length (fx_timers s) \<le> i")
    case True
    then show ?thesis using Suc.prems by simp
  next
    case False
    define t where "t = fx_timers s ! i"
    have drop: "drop i (fx_timers s) = t # drop (Suc i) (fx_timers s)" using False by (simp add: t_def Cons_nth_drop_Suc)
    have b: "beh t s = (fst (beh t s), [])" using assms(1) [of t s] by (metis prod.collapse)
    have fst_eq: "(\<lambda>t. fst (beh t s')) = (\<lambda>t. fst (beh t s))" for s' using assms(2) by blast
    show ?thesis
    proof (cases "fst (beh t s)")
      case True
      then have "beh (fx_timers s ! i) s = (True, [])" using b by (simp add: t_def)
      then have "tick_loop (Suc n) beh i s log = tick_loop n beh (Suc i) s (log @ [t])" using False by (simp add: t_def)
      then show ?thesis using Suc.IH [of s "Suc i" "log @ [t]"] Suc.prems False True drop by (simp add: take_Suc_conv_app_nth t_def)
    next
      case ended: False
      define s' where "s' = s\<lparr>fx_timers := take i (fx_timers s) @ drop (Suc i) (fx_timers s)\<rparr>"
      have "beh (fx_timers s ! i) s = (False, [])" using b ended by (simp add: t_def)
      then have "tick_loop (Suc n) beh i s log = tick_loop n beh i s' (log @ [t])" using False by (simp add: t_def s'_def)
      moreover have "take i (fx_timers s') = take i (fx_timers s)" "drop i (fx_timers s') = drop (Suc i) (fx_timers s)"
        "length (fx_timers s') - i < n" "i \<le> length (fx_timers s')" using Suc.prems False by (simp_all add: s'_def)
      ultimately show ?thesis using Suc.IH [of s' i "log @ [t]"] drop ended fst_eq [of s'] by (simp add: s'_def)
    qed
  qed
qed simp

section \<open>The clock\<close>

definition clock_runs :: "fx_state \<Rightarrow> bool" where
  "clock_runs s \<longleftrightarrow> (fx_timers s \<noteq> [] \<longrightarrow> inProgress s) \<and> (inProgress s \<longrightarrow> 0 < fx_frames s)"

lemma schedule_runs:
  "schedule n beh s = Some (s', log) \<Longrightarrow> fx_timers s \<noteq> [] \<longrightarrow> inProgress s \<Longrightarrow> clock_runs s'"
  by (auto simp: schedule_def clock_runs_def dest!: fx_tick_frame split: if_splits)

lemma clock_step: "fx_step s s' \<Longrightarrow> clock_runs s \<Longrightarrow> clock_runs s'"
proof (induction rule: fx_step.induct)
  case (add n beh t s s' log)
  then show ?case
  proof (cases "inProgress s")
    case True
    then show ?thesis using add by (auto simp: fx_timer_fn_def fx_start_def clock_runs_def)
  next
    case False
    then show ?thesis using add schedule_runs [of n beh "s\<lparr>fx_timers := fx_timers s @ [t], inProgress := True\<rparr>" s' log]
      by (simp add: fx_timer_fn_def fx_start_def)
  qed
next
  case (stop s elem q)
  then show ?case by (auto simp: clock_runs_def)
next
  case (frame s n beh s' log)
  then show ?case using schedule_runs [OF frame(2)] by (simp add: clock_runs_def)
qed

text \<open>A state with any number of calls under way.\<close>

lemma frames_pile_up: "\<exists>s. fx_reachable s \<and> fx_frames s = k \<and> fx_timers s = [] \<and> \<not> inProgress s"
proof (induction k)
  case 0
  then show ?case using fx_reachable.start by (auto simp: fx_initial_def)
next
  case (Suc k)
  then obtain s where s: "fx_reachable s" "fx_frames s = k" "fx_timers s = []" "\<not> inProgress s" by blast
  let ?t = "\<lparr>ft_id = 0, ft_elem = 0, ft_queue = []\<rparr>" and ?s = "s\<lparr>fx_frames := Suc k\<rparr>"
  have "fx_timer_fn 2 (\<lambda>t s. (False, [])) ?t s = Some (?s, [?t])"
    using s by (simp add: fx_timer_fn_def fx_start_def schedule_def fx_tick_def fx_stop_def numeral_2_eq_2)
  then have "fx_reachable ?s" using fx_reachable.step [OF s(1)] fx_step.add by blast
  then show ?case using s by (intro exI [of _ ?s]) simp
qed

text \<open>C30: 
  Animations go on: whenever there are timers, the clock is marked as running and a call of \<open>schedule\<close> is due.  But calls are never
  taken back: an animation that is started after the last one has ended, and before the call that was still due, adds another
  one, and while the clock runs no call is lost, so that any number of them can run side by side, each calling all timers.
\<close>

theorem fx_clock:
  "(\<forall>s. fx_reachable s \<longrightarrow> fx_timers s \<noteq> [] \<longrightarrow> inProgress s \<and> 0 < fx_frames s) \<and>
   (\<forall>k. \<exists>s. fx_reachable s \<and> fx_timers s \<noteq> [] \<and> k < fx_frames s) \<and>
   (\<forall>s n beh s' log. inProgress s \<longrightarrow> 0 < fx_frames s \<longrightarrow> schedule n beh (s\<lparr>fx_frames := fx_frames s - 1\<rparr>) = Some (s', log) \<longrightarrow>
      fx_frames s' = fx_frames s)"
proof (intro conjI allI impI)
  have runs: "clock_runs s" if "fx_reachable s" for s
    using that
  proof (induction rule: fx_reachable.induct)
    case start
    then show ?case by (simp add: clock_runs_def fx_initial_def)
  next
    case (step s s')
    then show ?case using clock_step by blast
  qed
  show "inProgress s" "0 < fx_frames s" if "fx_reachable s" "fx_timers s \<noteq> []" for s using runs [OF that(1)] that(2) by (auto simp: clock_runs_def)
  show "\<exists>s. fx_reachable s \<and> fx_timers s \<noteq> [] \<and> k < fx_frames s" for k
  proof -
    obtain s where s: "fx_reachable s" "fx_frames s = k" "fx_timers s = []" "\<not> inProgress s" using frames_pile_up by blast
    let ?t = "\<lparr>ft_id = 0, ft_elem = 0, ft_queue = []\<rparr>"
    let ?s = "s\<lparr>fx_timers := [?t], inProgress := True, fx_frames := Suc k\<rparr>"
    have "fx_timer_fn 2 (\<lambda>t s. (True, [])) ?t s = Some (?s, [?t])"
      using s by (simp add: fx_timer_fn_def fx_start_def schedule_def fx_tick_def numeral_2_eq_2 Let_def)
    then have "fx_reachable ?s" using fx_reachable.step [OF s(1)] fx_step.add by blast
    then show ?thesis by (intro exI [of _ ?s]) simp
  qed
  show "fx_frames s' = fx_frames s"
    if "inProgress s" "0 < fx_frames s" "schedule n beh (s\<lparr>fx_frames := fx_frames s - 1\<rparr>) = Some (s', log)" for s n beh s' log
    using that fx_tick_frame [of n beh _ s' log] by (auto simp: schedule_def)
qed

theorem fx_clock_witness:
  "\<exists>s. fx_reachable s \<and> fx_timers s \<noteq> [] \<and> 1 < fx_frames s \<and> inProgress s"
  using fx_clock by blast

end
