(* ===== verification/UrlParams.thy ===== *)
theory UrlParams
  imports JqueryCore
begin

text \<open>
  Query strings: \<open>jQuery.param\<close> of \<open>docs/_static/jquery-3.6.0.js\<close> writes them, \<open>jQuery.getQueryParameters\<close>
  of \<open>docs/_static/_sphinx_javascript_frameworks_compat.js\<close> reads them.  Characters are code units below
  U+0100, as in the rest of the development; \<open>decodeURIComponent\<close> gives \<open>None\<close> where it raises and where the
  result has other characters.
\<close>

section \<open>The encoding of the language\<close>

definition uri_unreserved :: "char \<Rightarrow> bool" where
  "uri_unreserved c \<longleftrightarrow> 48 \<le> code c \<and> code c \<le> 57 \<or> 65 \<le> code c \<and> code c \<le> 90 \<or> 97 \<le> code c \<and> code c \<le> 122
     \<or> c \<in> set ''-_.!~*()'' \<or> code c = 39"

definition hex_digit :: "nat \<Rightarrow> char" where
  "hex_digit n = (if n < 10 then char_of (48 + n) else char_of (55 + n))"

definition percent :: "nat \<Rightarrow> string" where
  "percent n = [CHR ''%'', hex_digit (n div 16), hex_digit (n mod 16)]"

text \<open>A character as UTF-8, one or two bytes.\<close>

definition encode_char :: "char \<Rightarrow> string" where
  "encode_char c =
     (if uri_unreserved c then [c]
      else if code c < 128 then percent (code c)
      else percent (192 + code c div 64) @ percent (128 + code c mod 64))"

definition encodeURIComponent :: "string \<Rightarrow> string" where
  "encodeURIComponent s = concat (map encode_char s)"

definition hex_value :: "char \<Rightarrow> nat option" where
  "hex_value c =
     (if 48 \<le> code c \<and> code c \<le> 57 then Some (code c - 48)
      else if 65 \<le> code c \<and> code c \<le> 70 then Some (code c - 55)
      else if 97 \<le> code c \<and> code c \<le> 102 then Some (code c - 87)
      else None)"

definition hex_byte :: "char \<Rightarrow> char \<Rightarrow> nat option" where
  "hex_byte a b = (case (hex_value a, hex_value b) of (Some x, Some y) \<Rightarrow> Some (16 * x + y) | _ \<Rightarrow> None)"

fun decodeURIComponent :: "string \<Rightarrow> string option" where
  "decodeURIComponent [] = Some []"
| "decodeURIComponent (c # cs) =
     (if c \<noteq> CHR ''%'' then map_option (Cons c) (decodeURIComponent cs)
      else (case cs of
              a # b # rest \<Rightarrow>
                (case hex_byte a b of
                   None \<Rightarrow> None
                 | Some n \<Rightarrow>
                     if n < 128 then map_option (Cons (char_of n)) (decodeURIComponent rest)
                     else if n = 194 \<or> n = 195 then
                       (case rest of
                          p # a' # b' # rest' \<Rightarrow>
                            if p = CHR ''%'' then
                              (case hex_byte a' b' of
                                 Some n' \<Rightarrow>
                                   if 128 \<le> n' \<and> n' < 192
                                   then map_option (Cons (char_of ((n - 192) * 64 + (n' - 128)))) (decodeURIComponent rest')
                                   else None
                               | None \<Rightarrow> None)
                            else None
                        | _ \<Rightarrow> None)
                     else None)
            | _ \<Rightarrow> None))"

section \<open>Reading: the compatibility layer\<close>

definition urldecode :: "string \<Rightarrow> string option" where
  "urldecode x = (if x = [] then Some x else decodeURIComponent (replaceAll (CHR ''+'') '' '' x))"

text \<open>
  \<open>getQueryParameters\<close>; the value of a part without \<open>=\<close> is \<open>undefined\<close>, here \<open>None\<close>.  The result maps each
  key to its values in order.  \<open>key in result\<close> also finds the names of \<open>Object.prototype\<close>; the value there is no
  array, and calling its \<open>push\<close> raises a \<open>TypeError\<close>.  \<open>None\<close> is an exception, \<open>URIError\<close> or \<open>TypeError\<close>.
\<close>

definition parse_part :: "string \<Rightarrow> (string \<times> string option) option" where
  "parse_part p =
     (case take 2 (split_char (CHR ''='') p) of
        [k, v] \<Rightarrow> (case (urldecode k, urldecode v) of (Some k', Some v') \<Rightarrow> Some (k', Some v') | _ \<Rightarrow> None)
      | k # _ \<Rightarrow> map_option (\<lambda>k'. (k', None)) (urldecode k)
      | [] \<Rightarrow> None)"

fun parse_parts :: "string list \<Rightarrow> (string \<times> string option list) list \<Rightarrow> (string \<times> string option list) list option" where
  "parse_parts [] result = Some result"
| "parse_parts (p # ps) result =
     (case parse_part p of
        None \<Rightarrow> None
      | Some (key, value) \<Rightarrow>
          (case map_of result key of
             Some vs \<Rightarrow> parse_parts ps (dict_set key (vs @ [value]) result)
           | None \<Rightarrow>
               if key \<in> set object_prototype_names then None
               else parse_parts ps (dict_set key [value] result)))"

definition getQueryParameters :: "string \<Rightarrow> (string \<times> string option list) list option" where
  "getQueryParameters s =
     parse_parts (split_char (CHR ''&'') (substr_from s (indexOf s ''?'' + 1))) []"

section \<open>Writing: jQuery\<close>

text \<open>
  \<open>buildParams\<close>, as the list of the keys and values it adds.  A prefix that ends in \<open>[]\<close> is kept for the
  items of an array.
\<close>

definition rbracket :: "string \<Rightarrow> bool" where
  "rbracket s \<longleftrightarrow> suffix ''[]'' s"

fun buildParams :: "bool \<Rightarrow> string \<Rightarrow> jsval \<Rightarrow> (string \<times> jsval) list"
  and build_items :: "bool \<Rightarrow> string \<Rightarrow> nat \<Rightarrow> jsval list \<Rightarrow> (string \<times> jsval) list"
  and build_props :: "bool \<Rightarrow> string \<Rightarrow> (string \<times> jsval) list \<Rightarrow> (string \<times> jsval) list" where
  "buildParams traditional prf (VArr a xs) = build_items traditional prf 0 xs"
| "buildParams traditional prf (VObj a c ps) =
     (if \<not> traditional \<and> toType (VObj a c ps) = ''object'' then build_props traditional prf ps
      else [(prf, VObj a c ps)])"
| "buildParams traditional prf v = [(prf, v)]"
| "build_items traditional prf i [] = []"
| "build_items traditional prf i (v # vs) =
     (if traditional \<or> rbracket prf then [(prf, v)]
      else buildParams traditional
             (prf @ ''['' @ (if js_typeof v = ''object'' \<and> v \<noteq> VNull then nat_str i else []) @ '']'') v)
     @ build_items traditional prf (i + 1) vs"
| "build_props traditional prf [] = []"
| "build_props traditional prf ((name, v) # ps) =
     buildParams traditional (prf @ ''['' @ name @ '']'') v @ build_props traditional prf ps"

text \<open>
  \<open>jQuery.param\<close>.  Values that are functions are called (\<open>call\<close> gives their results by address); \<open>src\<close> is the
  text of a function.  Matched sets as arguments are left out.
\<close>

definition add_param :: "(nat \<Rightarrow> jsval) \<Rightarrow> (nat \<Rightarrow> string) \<Rightarrow> string \<times> jsval \<Rightarrow> string" where
  "add_param call src = (\<lambda>(key, v).
     (let value = (case v of VFun f n \<Rightarrow> call f | _ \<Rightarrow> v) in
      encodeURIComponent key @ ''='' @ encodeURIComponent (if nullish value then [] else to_string src value)))"

definition param :: "(nat \<Rightarrow> jsval) \<Rightarrow> (nat \<Rightarrow> string) \<Rightarrow> bool \<Rightarrow> jsval \<Rightarrow> string" where
  "param call src traditional a =
     (if nullish a then []
      else join ''&'' (map (add_param call src)
        (case a of
           VArr _ xs \<Rightarrow> map (\<lambda>e. (to_string src (getProp e ''name''), getProp e ''value'')) xs
         | _ \<Rightarrow> concat (map (\<lambda>k. buildParams traditional k (getProp a k)) (ownKeys a)))))"

section \<open>Round trips\<close>

lemma hex_value_digit: "n < 16 \<Longrightarrow> hex_value (hex_digit n) = Some n"
  by (cases "n < 10") (auto simp: hex_value_def hex_digit_def)

lemma hex_byte_percent: "n < 256 \<Longrightarrow> hex_byte (hex_digit (n div 16)) (hex_digit (n mod 16)) = Some n"
  by (simp add: hex_byte_def hex_value_digit)

lemma unreserved_plain: "uri_unreserved c \<Longrightarrow> c \<notin> set ''%&=?+''"
  by (auto simp: uri_unreserved_def code_def)

lemma decode_encode_char: "decodeURIComponent (encode_char c @ s) = map_option (Cons c) (decodeURIComponent s)"
proof -
  consider (plain) "uri_unreserved c" | (ascii) "\<not> uri_unreserved c" "code c < 128" | (two) "\<not> uri_unreserved c" "128 \<le> code c"
    by linarith
  then show ?thesis
  proof cases
    case plain
    then show ?thesis using unreserved_plain by (auto simp: encode_char_def)
  next
    case ascii
    then show ?thesis by (simp add: encode_char_def percent_def hex_byte_percent)
  next
    case two
    have lt: "code c < 256" by simp
    have "code c div 64 < 4" using lt by (intro less_mult_imp_div_less) simp
    moreover have "2 \<le> code c div 64" using div_le_mono [OF two(2), of 64] by simp
    ultimately have n: "code c div 64 = 2 \<or> code c div 64 = 3" by linarith
    then have "(code c div 64) * 64 + code c mod 64 = code c" by simp
    moreover have "128 + code c mod 64 < 192" "192 + code c div 64 < 256" using n by auto
    ultimately show ?thesis using two n by (auto simp: encode_char_def percent_def hex_byte_percent)
  qed
qed

lemma decode_encode: "decodeURIComponent (encodeURIComponent s) = Some s"
  by (induction s) (simp_all add: encodeURIComponent_def decode_encode_char)

lemma hex_digit_chars: "n < 16 \<Longrightarrow> hex_digit n \<notin> set ''&=?+''"
proof -
  assume "n < 16"
  then have "code (hex_digit n) \<ge> 48 \<and> code (hex_digit n) \<le> 57 \<or> code (hex_digit n) \<ge> 65"
    by (auto simp: hex_digit_def)
  then show ?thesis by (auto simp: code_def)
qed

lemma percent_chars: "n < 256 \<Longrightarrow> set (percent n) \<inter> set ''&=?+'' = {}"
  using hex_digit_chars [of "n div 16"] hex_digit_chars [of "n mod 16"] by (auto simp: percent_def)

lemma encode_chars: "c \<in> set (encodeURIComponent s) \<Longrightarrow> c \<notin> set ''&=?+''"
proof -
  have "set (encode_char x) \<inter> set ''&=?+'' = {}" for x
  proof (cases "uri_unreserved x")
    case True
    then show ?thesis using unreserved_plain [of x] by (auto simp: encode_char_def)
  next
    case False
    have "code x div 64 < 4" using code_less_256 [of x] by (intro less_mult_imp_div_less) simp
    then have "192 + code x div 64 < 256" "128 + code x mod 64 < 256" by (simp, simp add: trans_less_add1 add.commute)
    then show ?thesis
      using False percent_chars [of "code x"] percent_chars [of "192 + code x div 64"] percent_chars [of "128 + code x mod 64"]
      unfolding encode_char_def by (auto simp del: set_simps)
  qed
  then show "c \<in> set (encodeURIComponent s) \<Longrightarrow> c \<notin> set ''&=?+''" by (auto simp: encodeURIComponent_def)
qed

lemma split_char_append: "split_char d (xs @ d # ys) = split_char d xs @ split_char d ys"
  by (induction xs) (auto split: list.split)

lemma split_char_plain: "d \<notin> set xs \<Longrightarrow> split_char d xs = [xs]"
  by (induction xs) auto

lemma split_char_concat:
  "\<forall>p \<in> set ys. d \<notin> set p \<Longrightarrow> d \<notin> set x \<Longrightarrow> split_char d (x @ concat (map (\<lambda>z. [d] @ z) ys)) = x # ys"
proof (induction ys arbitrary: x)
  case (Cons z zs)
  have "split_char d (x @ d # z @ concat (map (\<lambda>z. [d] @ z) zs)) = split_char d x @ split_char d (z @ concat (map (\<lambda>z. [d] @ z) zs))"
    by (rule split_char_append)
  then show ?case using Cons split_char_plain [of d x] by simp
qed (simp add: split_char_plain)

lemma split_char_join: "ps \<noteq> [] \<Longrightarrow> \<forall>p \<in> set ps. d \<notin> set p \<Longrightarrow> split_char d (join [d] ps) = ps"
  by (cases ps) (simp_all add: join_def split_char_concat del: append_Cons append_Nil)

lemma urldecode_encode: "urldecode (encodeURIComponent s) = Some s"
proof -
  have "replaceAll (CHR ''+'') '' '' (encodeURIComponent s) = encodeURIComponent s"
    using encode_chars [of "CHR ''+''" s] unfolding replaceAll_def by (subst map_cong [OF refl, of _ _ "\<lambda>x. [x]"]) auto
  moreover have "encodeURIComponent s = [] \<Longrightarrow> s = []" using decode_encode [of s] by simp
  ultimately show ?thesis by (cases "encodeURIComponent s = []") (simp_all add: urldecode_def decode_encode)
qed

lemma parse_part_encoded: "parse_part (encodeURIComponent k @ ''='' @ encodeURIComponent v) = Some (k, Some v)"
proof -
  have "split_char (CHR ''='') (encodeURIComponent x) = [encodeURIComponent x]" for x
    using encode_chars [of "CHR ''=''" x] by (intro split_char_plain) auto
  then have "split_char (CHR ''='') (encodeURIComponent k @ CHR ''='' # encodeURIComponent v) = [encodeURIComponent k, encodeURIComponent v]"
    by (simp add: split_char_append)
  then show ?thesis by (simp add: parse_part_def urldecode_encode numeral_2_eq_2)
qed

lemma parse_parts_encoded:
  "distinct (map fst (result @ ps)) \<Longrightarrow> \<forall>(k, v) \<in> set ps. k \<notin> set object_prototype_names \<Longrightarrow>
     parse_parts (map (\<lambda>(k, v). encodeURIComponent k @ ''='' @ encodeURIComponent v) ps) (map (\<lambda>(k, v). (k, [Some v])) result)
       = Some (map (\<lambda>(k, v). (k, [Some v])) (result @ ps))"
proof (induction ps arbitrary: result)
  case (Cons p ps)
  obtain k v where p: "p = (k, v)" by fastforce
  have none: "map_of (map (\<lambda>(k, v). (k, [Some v])) result) k = None"
    using Cons.prems p by (force simp: map_of_eq_None_iff)
  have "dict_set k [Some v] (map (\<lambda>(k, v). (k, [Some v])) result) = map (\<lambda>(k, v). (k, [Some v])) (result @ [(k, v)])"
    using Cons.prems p by (induction result) auto
  then show ?case using Cons.IH [of "result @ [(k, v)]"] Cons.prems none p parse_part_encoded [of k v] by simp
qed simp

lemma join_chars: "(\<And>p. p \<in> set ps \<Longrightarrow> c \<notin> set p) \<Longrightarrow> c \<notin> set d \<Longrightarrow> c \<notin> set (join d ps)"
  by (cases ps) (auto simp: join_def)

text \<open>The parts of a query string are found again.\<close>

lemma getQueryParameters_encoded:
  assumes "ps \<noteq> []"
  shows "getQueryParameters (join ''&'' (map (\<lambda>(k, v). encodeURIComponent k @ ''='' @ encodeURIComponent v) ps)) =
    parse_parts (map (\<lambda>(k, v). encodeURIComponent k @ ''='' @ encodeURIComponent v) ps) []"
proof -
  let ?enc = "\<lambda>(k, v). encodeURIComponent k @ ''='' @ encodeURIComponent v"
  have clean: "CHR ''&'' \<notin> set p" "CHR ''?'' \<notin> set p" if "p \<in> set (map ?enc ps)" for p
    using that encode_chars [of "CHR ''&''"] encode_chars [of "CHR ''?''"] by auto
  then have "CHR ''?'' \<notin> set (join ''&'' (map ?enc ps))" by (intro join_chars) auto
  then have "\<not> sublist ''?'' (join ''&'' (map ?enc ps))" by (auto simp: sublist_def)
  then have "indexOf (join ''&'' (map ?enc ps)) ''?'' = - 1"
    by (simp add: indexOf_def sub_index_None_iff [symmetric])
  moreover have "split_char (CHR ''&'') (join ''&'' (map ?enc ps)) = map ?enc ps"
    using clean(1) assms by (intro split_char_join) auto
  ultimately show ?thesis by (simp add: getQueryParameters_def substr_from_def)
qed

lemma concat_singletons:
  "(\<And>k v. (k, v) \<in> set ps \<Longrightarrow> f k = [(k, g v)]) \<Longrightarrow> concat (map f (map fst ps)) = map (\<lambda>(k, v). (k, g v)) ps"
  by (induction ps) auto

text \<open>What \<open>jQuery.param\<close> writes for an object of strings, the page reads back with
  \<open>jQuery.getQueryParameters\<close>: every name with its one value, in order, whatever characters they contain, as long as
  no name is one of \<open>Object.prototype\<close>.
\<close>

theorem param_roundtrip:
  assumes "distinct (map fst ps)" "ps \<noteq> []" "\<forall>(k, v) \<in> set ps. k \<notin> set object_prototype_names"
  shows "getQueryParameters (param call src traditional (VObj a ''Object'' (map (\<lambda>(k, v). (k, VStr v)) ps)))
    = Some (map (\<lambda>(k, v). (k, [Some v])) ps)"
proof -
  let ?enc = "\<lambda>(k, v). encodeURIComponent k @ ''='' @ encodeURIComponent v"
  let ?o = "VObj a ''Object'' (map (\<lambda>(k, v). (k, VStr v)) ps)"
  have "buildParams traditional k (getProp ?o k) = [(k, VStr v)]" if "(k, v) \<in> set ps" for k v
  proof -
    have "map_of (map (\<lambda>(k, v). (k, VStr v)) ps) k = Some (VStr v)"
      using that assms(1) by (intro map_of_is_SomeI) (force simp: comp_def case_prod_unfold)+
    then show ?thesis by simp
  qed
  from concat_singletons [OF this]
  have "concat (map (\<lambda>k. buildParams traditional k (getProp ?o k)) (ownKeys ?o)) = map (\<lambda>(k, v). (k, VStr v)) ps"
    by (simp add: comp_def case_prod_unfold)
  then have written: "param call src traditional ?o = join ''&'' (map ?enc ps)"
    by (simp add: param_def nullish_def add_param_def comp_def case_prod_unfold)
  then show ?thesis using getQueryParameters_encoded [OF assms(2)] parse_parts_encoded [of "[]" ps] assms(1,3) by simp
qed

theorem param_roundtrip_witness:
  "getQueryParameters (param (\<lambda>_. VUndef) (\<lambda>_. []) False (VObj 0 ''Object'' [(''q'', VStr ''a&b=c d+e''), (''%?'', VStr [])]))
    = Some [(''q'', [Some ''a&b=c d+e'']), (''%?'', [Some []])]"
  using param_roundtrip [of "[(''q'', ''a&b=c d+e''), (''%?'', [])]" "\<lambda>_. VUndef" "\<lambda>_. []" False 0]
  by (simp add: object_prototype_names_def)

text \<open>The limits: an empty object, and a value that was not encoded.\<close>

lemma getQueryParameters_limits:
  "getQueryParameters (param call src traditional (VObj a ''Object'' [])) = Some [([], [None])]"
  "getQueryParameters ''?q=a=b'' = Some [(''q'', [Some ''a''])]"
  "getQueryParameters ''?constructor=1'' = None"
  by (simp_all add: param_def nullish_def join_def getQueryParameters_def substr_from_def indexOf_def parse_part_def urldecode_def numeral_2_eq_2
      object_prototype_names_def) code_simp+

end
