(* ===== verification/JqueryForms.thy ===== *)
theory JqueryForms
  imports JqueryClasses UrlParams
begin

text \<open>
  Attributes and the values of form controls in \<open>docs/_static/jquery-3.6.0.js\<close>: \<open>jQuery.attr\<close> with the hooks of boolean attributes,
  \<open>removeAttr\<close>, \<open>val\<close> with the hooks of selection lists, options, radio buttons and check boxes, and \<open>serialize\<close>, which writes the values of
  forms as query strings.  What the browser does when an
  option is selected is modelled after the standard: a list for one selection deselects the other options, and a drop down list
  without a selection selects its first option that is not disabled.
\<close>

section \<open>Attributes\<close>

text \<open>
  A node: its type, whether \<open>jQuery.isXMLDoc\<close> holds for it, whether its document is an XML document, and its attributes.
\<close>

record attr_node =
  an_type :: nat
  an_xml :: bool
  an_xmldoc :: bool
  an_attrs :: "(string \<times> string) list"

text \<open>\<open>matchExpr.bool\<close>.\<close>

definition boolean_names :: "string list" where
  "boolean_names = [''checked'', ''selected'', ''async'', ''autofocus'', ''autoplay'', ''controls'', ''defer'', ''disabled'', ''hidden'',
     ''ismap'', ''loop'', ''multiple'', ''open'', ''readonly'', ''required'', ''scoped'']"

definition is_boolean :: "string \<Rightarrow> bool" where
  "is_boolean name \<longleftrightarrow> toLowerCase name \<in> set boolean_names"

text \<open>Names of attributes of HTML elements have no case.\<close>

definition attr_key :: "attr_node \<Rightarrow> string \<Rightarrow> string" where
  "attr_key el name = (if an_xml el then name else toLowerCase name)"

definition setAttribute :: "string \<Rightarrow> string \<Rightarrow> attr_node \<Rightarrow> attr_node" where
  "setAttribute name v el = el\<lparr>an_attrs := dict_set (attr_key el name) v (an_attrs el)\<rparr>"

definition removeAttribute :: "string \<Rightarrow> attr_node \<Rightarrow> attr_node" where
  "removeAttribute name el = el\<lparr>an_attrs := filter (\<lambda>p. fst p \<noteq> attr_key el name) (an_attrs el)\<rparr>"

definition node_attribute :: "attr_node \<Rightarrow> string \<Rightarrow> string option" where
  "node_attribute el name = map_of (an_attrs el) (attr_key el name)"

definition removeAttr :: "attr_node \<Rightarrow> string \<Rightarrow> attr_node" where
  "removeAttr el value = (if an_type el = 1 then fold removeAttribute (html_words value) el else el)"

text \<open>The values that are set; \<open>undefined\<close> asks for the value instead.\<close>

datatype attr_arg = AttrNull | AttrBool bool | AttrNum int | AttrText string

fun attr_text :: "attr_arg \<Rightarrow> string" where
  "attr_text AttrNull = ''null''"
| "attr_text (AttrBool b) = (if b then ''true'' else ''false'')"
| "attr_text (AttrNum n) = int_str n"
| "attr_text (AttrText s) = s"

definition boolHook :: "attr_node \<Rightarrow> attr_arg \<Rightarrow> string \<Rightarrow> attr_node" where
  "boolHook el value name = (if value = AttrBool False then removeAttr el name else setAttribute name name el)"

definition attr_set :: "attr_node \<Rightarrow> string \<Rightarrow> attr_arg \<Rightarrow> attr_node" where
  "attr_set el name value =
     (if an_type el \<in> {3, 8, 2} then el
      else if value = AttrNull then removeAttr el name
      else if (an_type el \<noteq> 1 \<or> \<not> an_xml el) \<and> is_boolean name then boolHook el value name
      else setAttribute name (attr_text value) el)"

text \<open>\<open>jQuery.find.attr\<close> with the handles of boolean attributes.\<close>

definition find_attr :: "attr_node \<Rightarrow> string \<Rightarrow> string option" where
  "find_attr el name =
     (if is_boolean name \<and> \<not> an_xmldoc el then
        (if node_attribute el name \<noteq> None then Some (toLowerCase name) else None)
      else node_attribute el name)"

definition attr_get :: "attr_node \<Rightarrow> string \<Rightarrow> string option" where
  "attr_get el name = (if an_type el \<in> {3, 8, 2} then None else find_attr el name)"

section \<open>Options and selection lists\<close>

record option_node =
  op_value :: "string option"
  op_text :: string
  op_selected :: bool
  op_disabled :: bool
  op_group_disabled :: bool

record select_node =
  sel_multiple :: bool
  sel_dropdown :: bool
  sel_options :: "option_node list"

definition option_get :: "option_node \<Rightarrow> string" where
  "option_get opt = (case op_value opt of Some v \<Rightarrow> v | None \<Rightarrow> stripAndCollapse (op_text opt))"

definition op_enabled :: "option_node \<Rightarrow> bool" where
  "op_enabled opt \<longleftrightarrow> \<not> op_disabled opt \<and> \<not> op_group_disabled opt"

definition select_flags :: "(nat \<Rightarrow> bool) \<Rightarrow> select_node \<Rightarrow> select_node" where
  "select_flags f s = s\<lparr>sel_options := map (\<lambda>(i, opt). opt\<lparr>op_selected := f i\<rparr>) (enumerate 0 (sel_options s))\<rparr>"

definition flag :: "select_node \<Rightarrow> nat \<Rightarrow> bool" where
  "flag s i \<longleftrightarrow> i < length (sel_options s) \<and> op_selected (sel_options s ! i)"

text \<open>\<open>selectedIndex\<close>, with \<open>None\<close> for \<open>-1\<close>.\<close>

fun first_where :: "('a \<Rightarrow> bool) \<Rightarrow> 'a list \<Rightarrow> nat option" where
  "first_where P [] = None"
| "first_where P (x # xs) = (if P x then Some 0 else map_option Suc (first_where P xs))"

definition selectedIndex :: "select_node \<Rightarrow> nat option" where
  "selectedIndex s = first_where op_selected (sel_options s)"

text \<open>The assignment to \<open>selected\<close> of an option.\<close>

definition set_selected :: "nat \<Rightarrow> bool \<Rightarrow> select_node \<Rightarrow> select_node" where
  "set_selected i b s =
     (if sel_multiple s then select_flags (\<lambda>k. if k = i then b else flag s k) s
      else if b then select_flags (\<lambda>k. k = i) s
      else
        (let s' = select_flags (\<lambda>k. k \<noteq> i \<and> flag s k) s in
         if selectedIndex s' = None \<and> sel_dropdown s then
           (case first_where op_enabled (sel_options s') of Some j \<Rightarrow> select_flags (\<lambda>k. k = j) s' | None \<Rightarrow> s')
         else s'))"

definition clear_selected :: "select_node \<Rightarrow> select_node" where
  "clear_selected s = select_flags (\<lambda>_. False) s"

text \<open>\<open>valHooks.select\<close>.\<close>

datatype form_value = NoValue | OneValue string | Values "string list"

definition select_get :: "select_node \<Rightarrow> form_value" where
  "select_get s =
     (case selectedIndex s of
        None \<Rightarrow> if sel_multiple s then Values [] else NoValue
      | Some index \<Rightarrow>
          if sel_multiple s then
            Values (map (option_get \<circ> snd) (filter (\<lambda>(i, opt). (op_selected opt \<or> i = index) \<and> op_enabled opt) (enumerate 0 (sel_options s))))
          else (let opt = sel_options s ! index in if op_enabled opt then OneValue (option_get opt) else NoValue))"

fun select_loop :: "string list \<Rightarrow> nat \<Rightarrow> bool \<Rightarrow> select_node \<Rightarrow> bool \<times> select_node" where
  "select_loop values 0 optionSet s = (optionSet, s)"
| "select_loop values (Suc i) optionSet s =
     (let m = option_get (sel_options s ! i) \<in> set values in select_loop values i (optionSet \<or> m) (set_selected i m s))"

definition select_set :: "string list \<Rightarrow> select_node \<Rightarrow> select_node" where
  "select_set values s =
     (case select_loop values (length (sel_options s)) False s of
        (optionSet, s') \<Rightarrow> if optionSet then s' else clear_selected s')"

section \<open>val\<close>

text \<open>Controls: selection lists, options, radio buttons and check boxes, and fields with a value of their own.\<close>

datatype control = Select select_node | Opt option_node | Checkable bool string | Field string

datatype val_arg = ValNull | ValNum int | ValText string | ValList "string option list"

fun val_get :: "control \<Rightarrow> form_value" where
  "val_get (Select s) = select_get s"
| "val_get (Opt opt) = OneValue (option_get opt)"
| "val_get (Checkable c v) = OneValue (filter (\<lambda>x. x \<noteq> CHR 0x0D) v)"
| "val_get (Field v) = OneValue (filter (\<lambda>x. x \<noteq> CHR 0x0D) v)"

text \<open>The texts of an argument, and the text that a list becomes when it is assigned to \<open>value\<close>.\<close>

fun val_texts :: "val_arg \<Rightarrow> string list" where
  "val_texts ValNull = [[]]"
| "val_texts (ValNum n) = [int_str n]"
| "val_texts (ValText s) = [s]"
| "val_texts (ValList vs) = map (\<lambda>v. case v of Some s \<Rightarrow> s | None \<Rightarrow> []) vs"

fun val_text :: "val_arg \<Rightarrow> string" where
  "val_text (ValList vs) = join '','' (val_texts (ValList vs))"
| "val_text v = hd (val_texts v)"

fun val_set :: "val_arg \<Rightarrow> control \<Rightarrow> control" where
  "val_set a (Select s) = Select (select_set (val_texts a) s)"
| "val_set a (Opt opt) = Opt (opt\<lparr>op_value := Some (val_text a)\<rparr>)"
| "val_set a (Checkable c v) =
     (case a of
        ValList vs \<Rightarrow> Checkable (filter (\<lambda>x. x \<noteq> CHR 0x0D) v \<in> set (val_texts a)) v
      | _ \<Rightarrow> Checkable c (val_text a))"
| "val_set a (Field v) = Field (val_text a)"

section \<open>Forms\<close>

record form_field =
  ff_name :: string
  ff_type :: string
  ff_nodeName :: string
  ff_disabled :: bool
  ff_control :: control

text \<open>Elements of a matched set: forms, with the fields in \<open>elements\<close>, and others.\<close>

datatype form_item = FormItem "form_field list" | FieldItem form_field

fun item_fields :: "form_item \<Rightarrow> form_field list" where
  "item_fields (FormItem fs) = fs"
| "item_fields (FieldItem f) = [f]"

fun checked :: "control \<Rightarrow> bool" where
  "checked (Checkable c v) = c"
| "checked _ = False"

definition submittable :: "form_field \<Rightarrow> bool" where
  "submittable f \<longleftrightarrow> ff_name f \<noteq> [] \<and> \<not> ff_disabled f \<and>
     list_ex (\<lambda>p. prefix p (toLowerCase (ff_nodeName f))) [''input'', ''select'', ''textarea'', ''keygen''] \<and>
     toLowerCase (ff_type f) \<notin> set [''submit'', ''button'', ''image'', ''reset'', ''file''] \<and>
     (checked (ff_control f) \<or> toLowerCase (ff_type f) \<notin> set [''checkbox'', ''radio''])"

text \<open>\<open>replace( rCRLF, "\r\n" )\<close>: line ends become pairs of carriage return and line feed.\<close>

fun crlf :: "string \<Rightarrow> string" where
  "crlf [] = []"
| "crlf (c # s) =
     (if c = CHR 0x0A then CHR 0x0D # CHR 0x0A # crlf s
      else if c = CHR 0x0D \<and> s \<noteq> [] \<and> hd s = CHR 0x0A then CHR 0x0D # CHR 0x0A # crlf (tl s)
      else c # crlf s)"

definition field_values :: "form_field \<Rightarrow> string list" where
  "field_values f = (case val_get (ff_control f) of NoValue \<Rightarrow> [] | OneValue v \<Rightarrow> [crlf v] | Values vs \<Rightarrow> map crlf vs)"

definition serializeArray :: "form_item list \<Rightarrow> (string \<times> string) list" where
  "serializeArray items = concat (map (\<lambda>f. map (Pair (ff_name f)) (field_values f)) (filter submittable (concat (map item_fields items))))"

definition serialize :: "(nat \<Rightarrow> jsval) \<Rightarrow> (nat \<Rightarrow> string) \<Rightarrow> form_item list \<Rightarrow> string" where
  "serialize call src items =
     param call src False (VArr 0 (map (\<lambda>(name, v). VObj 0 ''Object'' [(''name'', VStr name), (''value'', VStr v)]) (serializeArray items)))"

section \<open>Attributes are kept\<close>

lemma dict_set_lookup [simp]: "map_of (dict_set k v m) k' = (if k' = k then Some v else map_of m k')"
  by (induction m) auto

lemma map_of_remove: "map_of (filter (\<lambda>p. fst p \<noteq> k) m) k' = (if k' = k then None else map_of m k')"
  by (induction m) auto

text \<open>One name, without white space.\<close>

definition plain_name :: "string \<Rightarrow> bool" where
  "plain_name name \<longleftrightarrow> html_words name = [name]"

lemma node_attribute_updates [simp]:
  "node_attribute (setAttribute name v el) name' = (if attr_key el name' = attr_key el name then Some v else node_attribute el name')"
  "node_attribute (removeAttribute name el) name' = (if attr_key el name' = attr_key el name then None else node_attribute el name')"
  "an_type (setAttribute name v el) = an_type el" "an_type (removeAttribute name el) = an_type el"
  "an_xmldoc (setAttribute name v el) = an_xmldoc el" "an_xmldoc (removeAttribute name el) = an_xmldoc el"
  by (simp_all add: node_attribute_def setAttribute_def removeAttribute_def attr_key_def map_of_remove)

lemma removeAttr_plain: "plain_name name \<Longrightarrow> an_type el = 1 \<Longrightarrow> removeAttr el name = removeAttribute name el"
  by (simp add: removeAttr_def plain_name_def)

text \<open>
  Attributes of HTML elements: after \<open>attr\<close> has set a value, \<open>attr\<close> returns it as text, for boolean attributes the name in lower case;
  \<open>null\<close>, and \<open>false\<close> for boolean attributes, remove the attribute.  Other attributes are as they were, and the case of names does not matter.
\<close>

theorem attr_roundtrip:
  assumes "an_type el = 1" "\<not> an_xml el" "\<not> an_xmldoc el" "plain_name name"
  shows "attr_get (attr_set el name value) name' =
    (if toLowerCase name' \<noteq> toLowerCase name then attr_get el name'
     else if value = AttrNull then None
     else if is_boolean name then (if value = AttrBool False then None else Some (toLowerCase name))
     else Some (attr_text value))"
proof -
  have key: "attr_key el n = toLowerCase n" for n using assms(2) by (simp add: attr_key_def)
  have same: "is_boolean name' = is_boolean name" if "toLowerCase name' = toLowerCase name" using that by (simp add: is_boolean_def)
  show ?thesis using assms(1-3) removeAttr_plain [OF assms(4,1)] key same
    by (auto simp: attr_get_def attr_set_def find_attr_def boolHook_def)
qed

theorem attr_roundtrip_witness:
  "attr_get (attr_set \<lparr>an_type = 1, an_xml = False, an_xmldoc = False, an_attrs = [(''id'', ''a'')]\<rparr> ''Hidden'' (AttrBool True)) ''hidden'' = Some ''hidden''"
proof -
  have "plain_name ''Hidden''" by code_simp
  then show ?thesis
    using attr_roundtrip [of "\<lparr>an_type = 1, an_xml = False, an_xmldoc = False, an_attrs = [(''id'', ''a'')]\<rparr>" "''Hidden''" "AttrBool True" "''hidden''"]
    by (simp add: is_boolean_def boolean_names_def toLowerCase_def) code_simp
qed

section \<open>Selections are kept\<close>

lemma select_flags_simps [simp]:
  "sel_multiple (select_flags f s) = sel_multiple s" "sel_dropdown (select_flags f s) = sel_dropdown s"
  "length (sel_options (select_flags f s)) = length (sel_options s)"
  "i < length (sel_options s) \<Longrightarrow> sel_options (select_flags f s) ! i = (sel_options s ! i)\<lparr>op_selected := f i\<rparr>"
  by (simp_all add: select_flags_def nth_enumerate_eq)

lemma option_get_selected [simp]: "option_get (opt\<lparr>op_selected := b\<rparr>) = option_get opt" "op_enabled (opt\<lparr>op_selected := b\<rparr>) = op_enabled opt"
  by (simp_all add: option_get_def op_enabled_def split: option.split)

text \<open>All but the selection is the same.\<close>

definition same_options :: "select_node \<Rightarrow> select_node \<Rightarrow> bool" where
  "same_options s s' \<longleftrightarrow> sel_multiple s' = sel_multiple s \<and> sel_dropdown s' = sel_dropdown s \<and> length (sel_options s') = length (sel_options s) \<and>
     (\<forall>i < length (sel_options s). option_get (sel_options s' ! i) = option_get (sel_options s ! i) \<and> op_enabled (sel_options s' ! i) = op_enabled (sel_options s ! i))"

lemma same_flags: "same_options s (select_flags f s)"
  by (simp add: same_options_def)

lemma same_trans: "same_options s s' \<Longrightarrow> same_options s' s'' \<Longrightarrow> same_options s s''"
  by (simp add: same_options_def)

lemma same_set_selected: "same_options s (set_selected i b s)"
  using same_flags same_trans by (fastforce simp: set_selected_def Let_def split: option.split)

lemma flag_flags [simp]: "flag (select_flags f s) i \<longleftrightarrow> i < length (sel_options s) \<and> f i"
  by (auto simp: flag_def)

lemma first_where_None: "first_where P xs = None \<longleftrightarrow> (\<forall>x \<in> set xs. \<not> P x)"
  by (induction xs) auto

lemma first_where_Some: "first_where P xs = Some i \<longleftrightarrow> i < length xs \<and> P (xs ! i) \<and> (\<forall>j < i. \<not> P (xs ! j))"
proof (induction xs arbitrary: i)
  case (Cons x xs)
  then show ?case by (cases i) (auto simp: less_Suc_eq_0_disj)
qed simp

lemma selectedIndex_flag: "selectedIndex s = None \<longleftrightarrow> (\<forall>i. \<not> flag s i)"
  by (auto simp: selectedIndex_def first_where_None flag_def all_set_conv_all_nth)

text \<open>An option of a list for one selection that is set or unset while another is selected.\<close>

lemma set_selected_one:
  assumes "\<not> sel_multiple s" "i < length (sel_options s)"
  shows "flag (set_selected i True s) k \<longleftrightarrow> k = i"
    and "flag s j \<Longrightarrow> j \<noteq> i \<Longrightarrow> flag (set_selected i False s) k \<longleftrightarrow> k \<noteq> i \<and> flag s k"
proof -
  show "flag (set_selected i True s) k \<longleftrightarrow> k = i" using assms by (auto simp: set_selected_def)
  assume j: "flag s j" "j \<noteq> i"
  define s' where "s' = select_flags (\<lambda>k. k \<noteq> i \<and> flag s k) s"
  have "flag s' j" using j by (simp add: s'_def flag_def [of s])
  then have "selectedIndex s' \<noteq> None" using selectedIndex_flag by blast
  then have "set_selected i False s = s'" using assms(1) by (auto simp: set_selected_def Let_def s'_def [symmetric])
  then show "flag (set_selected i False s) k \<longleftrightarrow> k \<noteq> i \<and> flag s k" by (auto simp: s'_def flag_def [of s])
qed

text \<open>The options that the loop has passed, for lists with several selections and for those with one.\<close>

lemma same_wanted:
  assumes "same_options s s'" "k < length (sel_options s)"
  shows "option_get (sel_options s' ! k) = option_get (sel_options s ! k)"
  using assms by (simp add: same_options_def)

lemma select_loop_many:
  assumes "sel_multiple s"
  shows "same_options s s' \<Longrightarrow> i \<le> length (sel_options s) \<Longrightarrow>
    \<forall>k < length (sel_options s). i \<le> k \<longrightarrow> (flag s' k \<longleftrightarrow> option_get (sel_options s ! k) \<in> set values) \<Longrightarrow>
    b \<longleftrightarrow> (\<exists>k < length (sel_options s). i \<le> k \<and> option_get (sel_options s ! k) \<in> set values) \<Longrightarrow>
    select_loop values i b s' = (b', s'') \<Longrightarrow>
    same_options s s'' \<and> (\<forall>k < length (sel_options s). flag s'' k \<longleftrightarrow> option_get (sel_options s ! k) \<in> set values) \<and>
    (b' \<longleftrightarrow> (\<exists>k < length (sel_options s). option_get (sel_options s ! k) \<in> set values))"
proof (induction i arbitrary: b s')
  case (Suc i)
  define m where "m \<longleftrightarrow> option_get (sel_options s ! i) \<in> set values"
  have i: "i < length (sel_options s)" using Suc.prems(2) by simp
  have m': "(option_get (sel_options s' ! i) \<in> set values) = m" using same_wanted [OF Suc.prems(1) i] by (simp add: m_def)
  have s1: "set_selected i m s' = select_flags (\<lambda>k. if k = i then m else flag s' k) s'" "length (sel_options s') = length (sel_options s)"
    using assms Suc.prems(1) by (simp_all add: set_selected_def same_options_def)
  have "(b \<or> m) = (\<exists>k < length (sel_options s). i \<le> k \<and> option_get (sel_options s ! k) \<in> set values)"
    unfolding Suc.prems(4) m_def using i by (auto simp: Suc_le_eq le_less)
  moreover have "\<forall>k < length (sel_options s). i \<le> k \<longrightarrow> (flag (set_selected i m s') k \<longleftrightarrow> option_get (sel_options s ! k) \<in> set values)"
    using Suc.prems(3) s1 by (auto simp: m_def)
  moreover have "select_loop values i (b \<or> m) (set_selected i m s') = (b', s'')" using Suc.prems(5) m' by simp
  ultimately show ?case using Suc.IH [of "set_selected i m s'" "b \<or> m"] same_trans [OF Suc.prems(1) same_set_selected] i by simp
qed auto

lemma select_loop_one:
  assumes "\<not> sel_multiple s"
  shows "same_options s s' \<Longrightarrow> i \<le> length (sel_options s) \<Longrightarrow>
    (if b then \<exists>j \<ge> i. j < length (sel_options s) \<and> option_get (sel_options s ! j) \<in> set values \<and>
         (\<forall>k. i \<le> k \<longrightarrow> k < j \<longrightarrow> option_get (sel_options s ! k) \<notin> set values) \<and> (\<forall>k. flag s' k \<longleftrightarrow> k = j)
     else \<forall>k < length (sel_options s). i \<le> k \<longrightarrow> option_get (sel_options s ! k) \<notin> set values) \<Longrightarrow>
    select_loop values i b s' = (b', s'') \<Longrightarrow>
    same_options s s'' \<and>
    (if b' then \<exists>j < length (sel_options s). option_get (sel_options s ! j) \<in> set values \<and>
         (\<forall>k < j. option_get (sel_options s ! k) \<notin> set values) \<and> (\<forall>k. flag s'' k \<longleftrightarrow> k = j)
     else \<forall>k < length (sel_options s). option_get (sel_options s ! k) \<notin> set values)"
proof (induction i arbitrary: b s')
  case (Suc i)
  define m where "m \<longleftrightarrow> option_get (sel_options s ! i) \<in> set values"
  let ?s = "set_selected i m s'"
  have i: "i < length (sel_options s)" "i < length (sel_options s')" "\<not> sel_multiple s'" using Suc.prems(1,2) assms by (simp_all add: same_options_def)
  have m': "(option_get (sel_options s' ! i) \<in> set values) = m" using same_wanted [OF Suc.prems(1) i(1)] by (simp add: m_def)
  have step: "select_loop values i (b \<or> m) ?s = (b', s'')" using Suc.prems(4) m' by simp
  have inv: "if b \<or> m then \<exists>j \<ge> i. j < length (sel_options s) \<and> option_get (sel_options s ! j) \<in> set values \<and>
         (\<forall>k. i \<le> k \<longrightarrow> k < j \<longrightarrow> option_get (sel_options s ! k) \<notin> set values) \<and> (\<forall>k. flag ?s k \<longleftrightarrow> k = j)
     else \<forall>k < length (sel_options s). i \<le> k \<longrightarrow> option_get (sel_options s ! k) \<notin> set values"
  proof (cases m)
    case True
    then show ?thesis using i set_selected_one(1) [OF i(3,2)] by (auto simp: m_def intro!: exI [of _ i])
  next
    case no: False
    show ?thesis
    proof (cases b)
      case True
      then obtain j where j: "Suc i \<le> j" "j < length (sel_options s)" "option_get (sel_options s ! j) \<in> set values"
        "\<forall>k. Suc i \<le> k \<longrightarrow> k < j \<longrightarrow> option_get (sel_options s ! k) \<notin> set values" "\<forall>k. flag s' k \<longleftrightarrow> k = j" using Suc.prems(3) by auto
      then have "flag ?s k \<longleftrightarrow> k = j" for k using set_selected_one(2) [OF i(3,2), of j k] no by auto
      moreover have "option_get (sel_options s ! k) \<notin> set values" if "i \<le> k" "k < j" for k
        using that j(4) no unfolding m_def by (cases "k = i") auto
      ultimately show ?thesis using True j(1-3) by (auto intro!: exI [of _ j])
    next
      case False
      then show ?thesis using Suc.prems(3) no by (auto simp: m_def le_eq_less_or_eq Suc_le_eq)
    qed
  qed
  show ?case by (rule Suc.IH [OF same_trans [OF Suc.prems(1) same_set_selected] _ inv step]) (use i(1) in simp)
qed auto

lemma filter_values:
  assumes "length ys = length xs" "\<And>k. k < length xs \<Longrightarrow> g (ys ! k) = g (xs ! k) \<and> P (ys ! k) = Q (xs ! k)"
  shows "map g (filter P ys) = map g (filter Q xs)"
proof -
  have "list_all2 (\<lambda>y x. g y = g x \<and> P y = Q x) ys xs" using assms by (simp add: list_all2_conv_all_nth)
  then show ?thesis by (induction rule: list_all2_induct) auto
qed

lemma select_get_many:
  assumes "sel_multiple s"
  shows "select_get s = Values (map option_get (filter (\<lambda>opt. op_selected opt \<and> op_enabled opt) (sel_options s)))"
proof (cases "selectedIndex s")
  case None
  then have "filter (\<lambda>opt. op_selected opt \<and> op_enabled opt) (sel_options s) = []"
    by (auto simp: selectedIndex_def first_where_None filter_empty_conv)
  then show ?thesis using assms None by (simp add: select_get_def)
next
  case (Some index)
  then have index: "index < length (sel_options s)" "op_selected (sel_options s ! index)" by (auto simp: selectedIndex_def first_where_Some)
  let ?xs = "enumerate 0 (sel_options s)"
  have "filter (\<lambda>(i, opt). (op_selected opt \<or> i = index) \<and> op_enabled opt) ?xs = filter ((\<lambda>opt. op_selected opt \<and> op_enabled opt) \<circ> snd) ?xs"
    using index(2) by (intro filter_cong) (auto simp: in_set_enumerate_eq)
  moreover have "map snd (filter ((\<lambda>opt. op_selected opt \<and> op_enabled opt) \<circ> snd) ?xs) = filter (\<lambda>opt. op_selected opt \<and> op_enabled opt) (sel_options s)"
    using filter_map [of _ snd ?xs] by (metis map_snd_enumerate)
  ultimately show ?thesis using assms Some by (simp add: select_get_def map_map [symmetric] del: map_map)
qed

lemma select_set_many:
  assumes "sel_multiple s"
  shows "same_options s (select_set values s) \<and>
    (\<forall>k < length (sel_options s). flag (select_set values s) k \<longleftrightarrow> option_get (sel_options s ! k) \<in> set values)"
proof -
  obtain b s' where l: "select_loop values (length (sel_options s)) False s = (b, s')" by fastforce
  have "same_options s s'" "\<forall>k < length (sel_options s). flag s' k \<longleftrightarrow> option_get (sel_options s ! k) \<in> set values"
    "b \<longleftrightarrow> (\<exists>k < length (sel_options s). option_get (sel_options s ! k) \<in> set values)"
    using select_loop_many [OF assms _ _ _ _ l] by (auto simp: same_options_def)
  then show ?thesis using l same_trans [OF _ same_flags] by (auto simp: select_set_def clear_selected_def)
qed

lemma select_set_one:
  assumes "\<not> sel_multiple s"
  shows "same_options s (select_set values s) \<and>
    (\<forall>k. flag (select_set values s) k \<longleftrightarrow> first_where (\<lambda>opt. option_get opt \<in> set values) (sel_options s) = Some k)"
proof -
  obtain b s' where l: "select_loop values (length (sel_options s)) False s = (b, s')" by fastforce
  have r: "same_options s s'" "if b then \<exists>j < length (sel_options s). option_get (sel_options s ! j) \<in> set values \<and>
         (\<forall>k < j. option_get (sel_options s ! k) \<notin> set values) \<and> (\<forall>k. flag s' k \<longleftrightarrow> k = j)
     else \<forall>k < length (sel_options s). option_get (sel_options s ! k) \<notin> set values"
    using select_loop_one [OF assms _ _ _ l] by (auto simp: same_options_def)
  show ?thesis
  proof (cases b)
    case True
    then obtain j where j: "j < length (sel_options s)" "option_get (sel_options s ! j) \<in> set values"
      "\<forall>k < j. option_get (sel_options s ! k) \<notin> set values" "\<forall>k. flag s' k \<longleftrightarrow> k = j" using r(2) by auto
    then have "first_where (\<lambda>opt. option_get opt \<in> set values) (sel_options s) = Some j" by (simp add: first_where_Some)
    then show ?thesis using True l r(1) j(4) by (auto simp: select_set_def)
  next
    case False
    then have "first_where (\<lambda>opt. option_get opt \<in> set values) (sel_options s) = None" using r(2) by (simp add: first_where_None all_set_conv_all_nth)
    then show ?thesis using False l same_trans [OF r(1) same_flags] by (simp add: select_set_def clear_selected_def)
  qed
qed

text \<open>C38: 
  Selection lists: after \<open>val\<close> has been called with a value or several, \<open>val\<close> returns, for a list with several selections, the values
  of those options that are among them and not disabled, in the order of the options; for a list with one selection the
  value of the first such option, and \<open>null\<close> when there is none or the first one is disabled.  The assignments to the options in
  between, during which the browser may select an option by itself, leave no trace.
\<close>

theorem select_val_roundtrip:
  "val_get (val_set a (Select s)) =
     (if sel_multiple s then
        Values (map option_get (filter (\<lambda>opt. option_get opt \<in> set (val_texts a) \<and> op_enabled opt) (sel_options s)))
      else
        (case find (\<lambda>opt. option_get opt \<in> set (val_texts a)) (sel_options s) of
           Some opt \<Rightarrow> if op_enabled opt then OneValue (option_get opt) else NoValue
         | None \<Rightarrow> NoValue))"
proof (cases "sel_multiple s")
  case True
  let ?t = "select_set (val_texts a) s"
  have t: "same_options s ?t" "\<forall>k < length (sel_options s). flag ?t k \<longleftrightarrow> option_get (sel_options s ! k) \<in> set (val_texts a)"
    using select_set_many [OF True, of "val_texts a"] by auto
  have "map option_get (filter (\<lambda>opt. op_selected opt \<and> op_enabled opt) (sel_options ?t)) =
      map option_get (filter (\<lambda>opt. option_get opt \<in> set (val_texts a) \<and> op_enabled opt) (sel_options s))"
    by (rule filter_values) (use t in \<open>auto simp: same_options_def flag_def\<close>)
  then show ?thesis using True select_get_many [of ?t] t(1) by (simp add: same_options_def)
next
  case False
  let ?t = "select_set (val_texts a) s" and ?W = "\<lambda>opt. option_get opt \<in> set (val_texts a)"
  have t: "same_options s ?t" "\<forall>k. flag ?t k \<longleftrightarrow> first_where ?W (sel_options s) = Some k"
    using select_set_one [OF False, of "val_texts a"] by auto
  show ?thesis
  proof (cases "first_where ?W (sel_options s)")
    case None
    then have "find ?W (sel_options s) = None" by (simp add: find_None_iff first_where_None)
    moreover have "selectedIndex ?t = None" using t(2) None by (simp add: selectedIndex_flag)
    ultimately show ?thesis using False t(1) by (simp add: select_get_def same_options_def)
  next
    case (Some j)
    then have j: "j < length (sel_options s)" "find ?W (sel_options s) = Some (sel_options s ! j)" by (auto simp: find_Some_iff first_where_Some)
    have "selectedIndex ?t = Some j" using t Some j(1) unfolding selectedIndex_def first_where_Some same_options_def flag_def by auto
    then show ?thesis using False t(1) j by (simp add: select_get_def same_options_def Let_def)
  qed
qed

section \<open>Forms are read back\<close>

text \<open>The values under a key, in order.\<close>

definition values_of :: "string \<Rightarrow> (string \<times> string) list \<Rightarrow> string list" where
  "values_of k ps = map snd (filter (\<lambda>p. fst p = k) ps)"

lemma values_of_simps [simp]: "values_of k [] = []" "values_of k ((k', v) # ps) = (if k' = k then v # values_of k ps else values_of k ps)"
  by (simp_all add: values_of_def)

lemma parse_parts_grouped:
  assumes "\<forall>(k, v) \<in> set ps. k \<notin> set object_prototype_names"
  shows "\<exists>r. parse_parts (map (\<lambda>(k, v). encodeURIComponent k @ ''='' @ encodeURIComponent v) ps) result = Some r \<and>
     (\<forall>k. map_of r k = (case map_of result k of
        Some vs \<Rightarrow> Some (vs @ map Some (values_of k ps))
      | None \<Rightarrow> if values_of k ps = [] then None else Some (map Some (values_of k ps))))"
  using assms
proof (induction ps arbitrary: result)
  case Nil
  then show ?case by (auto split: option.split)
next
  case (Cons p ps)
  obtain k v where p: "p = (k, v)" by fastforce
  define result' where "result' = (case map_of result k of Some vs \<Rightarrow> dict_set k (vs @ [Some v]) result | None \<Rightarrow> dict_set k [Some v] result)"
  have step: "parse_parts (map (\<lambda>(k, v). encodeURIComponent k @ ''='' @ encodeURIComponent v) (p # ps)) result =
      parse_parts (map (\<lambda>(k, v). encodeURIComponent k @ ''='' @ encodeURIComponent v) ps) result'"
    using p parse_part_encoded [of k v] Cons.prems by (simp add: result'_def split: option.split)
  obtain r where r: "parse_parts (map (\<lambda>(k, v). encodeURIComponent k @ ''='' @ encodeURIComponent v) ps) result' = Some r"
    "\<forall>k. map_of r k = (case map_of result' k of
        Some vs \<Rightarrow> Some (vs @ map Some (values_of k ps))
      | None \<Rightarrow> if values_of k ps = [] then None else Some (map Some (values_of k ps)))"
    using Cons.IH Cons.prems by fastforce
  show ?case unfolding step using r p by (auto simp: result'_def split: option.split)
qed

lemma parse_parts_inherited:
  assumes "(k, v) \<in> set ps" and "k \<in> set object_prototype_names"
    and "\<forall>k \<in> set object_prototype_names. map_of result k = None"
  shows "parse_parts (map (\<lambda>(k, v). encodeURIComponent k @ ''='' @ encodeURIComponent v) ps) result = None"
  using assms(1,3)
proof (induction ps arbitrary: result)
  case (Cons p ps)
  obtain k' v' where p: "p = (k', v')" by fastforce
  show ?case
  proof (cases "k' \<in> set object_prototype_names")
    case True
    with Cons.prems(2) show ?thesis using parse_part_encoded [of k' v'] by (simp add: p)
  next
    case False
    then have "(k, v) \<in> set ps" using Cons.prems(1) assms(2) p by auto
    then have "parse_parts (map (\<lambda>(k, v). encodeURIComponent k @ ''='' @ encodeURIComponent v) ps)
        (dict_set k' vs result) = None" for vs
      using Cons.prems(2) False by (intro Cons.IH) auto
    with False show ?thesis
      using parse_part_encoded [of k' v'] by (simp add: p split: option.split)
  qed
qed simp

lemma serialize_written:
  "serialize call src items = join ''&'' (map (\<lambda>(k, v). encodeURIComponent k @ ''='' @ encodeURIComponent v) (serializeArray items))"
  by (simp add: serialize_def param_def nullish_def add_param_def comp_def case_prod_unfold)

lemma values_of_serializeArray:
  "values_of k (serializeArray items) =
     concat (map field_values (filter (\<lambda>f. submittable f \<and> ff_name f = k) (concat (map item_fields items))))"
proof -
  have "values_of k (concat (map (\<lambda>f. map (Pair (ff_name f)) (field_values f)) fs)) = concat (map field_values (filter (\<lambda>f. ff_name f = k) fs))" for fs
    by (induction fs) (auto simp: values_of_def filter_map comp_def)
  then show ?thesis by (simp add: serializeArray_def conj_commute)
qed

lemma serializeArray_names:
  "(\<exists>v. (k, v) \<in> set (serializeArray items)) \<longleftrightarrow>
     (\<exists>f \<in> set (concat (map item_fields items)). submittable f \<and> ff_name f = k \<and> field_values f \<noteq> [])"
proof -
  have "(\<exists>v. (k, v) \<in> set (concat (map (\<lambda>f. map (Pair (ff_name f)) (field_values f)) fs))) \<longleftrightarrow>
      (\<exists>f \<in> set fs. ff_name f = k \<and> field_values f \<noteq> [])" for fs
    by (induction fs) (auto simp: ex_in_conv image_iff conj_commute ex_disj_distrib)
  then show ?thesis unfolding serializeArray_def by (simp only: set_filter bex_simps mem_Collect_eq) blast
qed

text \<open>C39: 
  From the controls of forms to the page that reads the query: the parameters that \<open>getQueryParameters\<close> finds in what \<open>serialize\<close> has
  written are, under the name of each field that takes part, the values that \<open>val\<close> gives for the fields of that name, in
  order and with line ends normalised, and nothing else.  If a field that takes part with a value has the name of a member of
  \<open>Object.prototype\<close>, such as \<open>constructor\<close>, reading raises instead.
\<close>

theorem serialize_roundtrip:
  assumes "serializeArray items \<noteq> []"
  shows "if \<exists>f \<in> set (concat (map item_fields items)).
        submittable f \<and> field_values f \<noteq> [] \<and> ff_name f \<in> set object_prototype_names
    then getQueryParameters (serialize call src items) = None
    else \<exists>r. getQueryParameters (serialize call src items) = Some r \<and>
      (\<forall>k. map_of r k =
         (let vs = concat (map field_values (filter (\<lambda>f. submittable f \<and> ff_name f = k) (concat (map item_fields items)))) in
          if vs = [] then None else Some (map Some vs)))"
proof (cases "\<exists>(k, v) \<in> set (serializeArray items). k \<in> set object_prototype_names")
  case True
  then obtain k v where kv: "(k, v) \<in> set (serializeArray items)" "k \<in> set object_prototype_names" by blast
  then have "\<exists>f \<in> set (concat (map item_fields items)).
      submittable f \<and> field_values f \<noteq> [] \<and> ff_name f \<in> set object_prototype_names"
    using serializeArray_names [of k items] by blast
  with parse_parts_inherited [OF kv, of "[]"] show ?thesis
    unfolding serialize_written getQueryParameters_encoded [OF assms] by simp
next
  case False
  then have "\<not> (\<exists>f \<in> set (concat (map item_fields items)).
      submittable f \<and> field_values f \<noteq> [] \<and> ff_name f \<in> set object_prototype_names)"
    using serializeArray_names [of _ items] by blast
  moreover obtain r where
    "parse_parts (map (\<lambda>(k, v). encodeURIComponent k @ ''='' @ encodeURIComponent v) (serializeArray items)) [] = Some r"
    "\<forall>k. map_of r k = (if values_of k (serializeArray items) = [] then None else Some (map Some (values_of k (serializeArray items))))"
    using parse_parts_grouped [of "serializeArray items" "[]"] False by auto
  ultimately show ?thesis
    unfolding Let_def values_of_serializeArray [symmetric] serialize_written getQueryParameters_encoded [OF assms]
    by simp
qed

definition demo_form :: "form_item list" where
  "demo_form = [FormItem [\<lparr>ff_name = ''q'', ff_type = ''text'', ff_nodeName = ''INPUT'', ff_disabled = False, ff_control = Field ''a&b''\<rparr>,
     \<lparr>ff_name = ''q'', ff_type = ''checkbox'', ff_nodeName = ''INPUT'', ff_disabled = False, ff_control = Checkable False ''x''\<rparr>]]"

theorem serialize_roundtrip_witness:
  "\<exists>r. getQueryParameters (serialize (\<lambda>_. VUndef) (\<lambda>_. []) demo_form) = Some r \<and> map_of r ''q'' = Some [Some ''a&b'']"
proof -
  have ne: "serializeArray demo_form \<noteq> []" by code_simp
  have q: "concat (map field_values (filter (\<lambda>f. submittable f \<and> ff_name f = ''q'') (concat (map item_fields demo_form)))) = [''a&b'']" by code_simp
  have plain: "\<not> (\<exists>f \<in> set (concat (map item_fields demo_form)).
      submittable f \<and> field_values f \<noteq> [] \<and> ff_name f \<in> set object_prototype_names)" by code_simp
  obtain r where r: "getQueryParameters (serialize (\<lambda>_. VUndef) (\<lambda>_. []) demo_form) = Some r"
    "\<forall>k. map_of r k = (let vs = concat (map field_values (filter (\<lambda>f. submittable f \<and> ff_name f = k) (concat (map item_fields demo_form)))) in
        if vs = [] then None else Some (map Some vs))"
    using serialize_roundtrip [OF ne] unfolding if_not_P [OF plain] by blast
  have "map_of r ''q'' = Some [Some ''a&b'']" using r(2) [rule_format, of "''q''", unfolded q] by simp
  then show ?thesis using r(1) by blast
qed

end
