(* ===== verification/CompatHighlight.thy ===== *)
theory CompatHighlight
  imports Highlight
begin

text \<open>
  \<open>jQuery.fn.highlightText\<close> of \<open>docs/_static/_sphinx_javascript_frameworks_compat.js\<close>, on the documents of
  \<open>Highlight\<close>.  The children of an element are walked with \<open>jQuery.each\<close>, which takes the length of the
  live list once, at the start.
\<close>

section \<open>Model\<close>

text \<open>A measure for the walk: the nodes in the window of the visits to come.\<close>

fun nodes :: "node \<Rightarrow> nat" where
  "nodes (Text v) = 1"
| "nodes (Comment v) = 1"
| "nodes (Elem tag cls r kids) = 1 + sum_list (map nodes kids)"

fun window :: "nat \<Rightarrow> node list \<Rightarrow> nat" where
  "window 0 ns = 0"
| "window (Suc k) [] = Suc k"
| "window (Suc k) (n # ns) = nodes n + window k ns"

lemma nodes_pos: "1 \<le> nodes n"
  by (cases n) auto

lemma window_Suc: "Suc (window k ns) \<le> window (Suc k) ns"
proof (induction k ns rule: window.induct)
  case (1 ns)
  then show ?case using nodes_pos [of "hd ns"] by (cases ns) auto
qed auto

lemma window_all: "window (length ns) ns = sum_list (map nodes ns)"
  by (induction ns) auto

lemma span_nodes: "nodes (span_node className svg t) = 2"
  by (simp add: span_node_def)

lemma window_insert: "window k (span_node className svg t # Text r # ns) \<le> Suc (window k ns)"
proof (cases k rule: nat.exhaust)
  case (Suc j)
  then show ?thesis
  proof (cases j)
    case 0
    then show ?thesis using Suc window_Suc [of 0 ns] by (simp add: span_nodes)
  next
    case (Suc i)
    then show ?thesis using \<open>k = Suc j\<close> window_Suc [of "Suc i" ns] window_Suc [of i ns] by (simp add: span_nodes)
  qed
qed simp

text \<open>
  The walk over the first \<open>count\<close> entries of the live list of children.  The results are the exception
  that ended it, the children, and the number of entries of \<open>addItems\<close> for the parent; \<open>bbox\<close> tells which
  elements have a method \<open>getBBox\<close>.
\<close>

function compat_children ::
  "(string \<Rightarrow> bool) \<Rightarrow> string \<Rightarrow> string \<Rightarrow> nat \<Rightarrow> string \<Rightarrow> string list \<Rightarrow> bool \<Rightarrow> node list
     \<Rightarrow> js_error option \<times> node list \<times> nat" where
  "compat_children bbox word className 0 ptag cls svg ns = (None, ns, 0)"
| "compat_children bbox word className (Suc k) ptag cls svg [] = (None, [], 0)"
| "compat_children bbox word className (Suc k) ptag cls svg (Text v # ns) =
     (case sub_index word (toLowerCase v) of
        Some pos \<Rightarrow>
          if marked_parent className cls then
            (let (e, ms, m) = compat_children bbox word className k ptag cls svg ns in (e, Text v # ms, m))
          else
            (let ns' = span_node className svg (take (length word) (drop pos v)) # Text (drop (pos + length word) v) # ns in
             if svg \<and> \<not> bbox ptag then (Some TypeError, Text (take pos v) # ns', 0)
             else
              (let (e, ms, m) = compat_children bbox word className k ptag cls svg ns' in
               (e, Text (take pos v) # ms, m + (if svg then 1 else 0))))
      | None \<Rightarrow> (let (e, ms, m) = compat_children bbox word className k ptag cls svg ns in (e, Text v # ms, m)))"
| "compat_children bbox word className (Suc k) ptag cls svg (Comment v # ns) =
     (let (e, ms, m) = compat_children bbox word className k ptag cls svg ns in (e, Comment v # ms, m))"
| "compat_children bbox word className (Suc k) ptag cls svg (Elem tag ecls r kids # ns) =
     (if tag = ''button'' \<or> tag = ''select'' \<or> tag = ''textarea'' then
        (let (e, ms, m) = compat_children bbox word className k ptag cls svg ns in (e, Elem tag ecls r kids # ms, m))
      else
        (case compat_children bbox word className (length kids) tag ecls (svg_below tag svg) kids of
           (Some e, kids', n) \<Rightarrow> (Some e, Elem tag ecls (r + n) kids' # ns, 0)
         | (None, kids', n) \<Rightarrow>
            (let (e, ms, m) = compat_children bbox word className k ptag cls svg ns in
             (e, Elem tag ecls (r + n) kids' # ms, m))))"
  by pat_completeness auto
termination
  by (relation "measures [\<lambda>(b, w, c, k, ptag, cls, svg, ns). window k ns, \<lambda>(b, w, c, k, ptag, cls, svg, ns). k]")
     (auto simp: window_all, (metis window_insert le_SucE le_less_Suc_eq less_Suc_eq_le)+)

definition highlightText_compat ::
  "(string \<Rightarrow> bool) \<Rightarrow> string \<Rightarrow> string \<Rightarrow> bool \<Rightarrow> node \<Rightarrow> js_error option \<times> node list" where
  "highlightText_compat bbox word className svg root =
     (case compat_children bbox word className 1 [] [] svg [root] of
        (Some e, ns, m) \<Rightarrow> (Some e, ns)
      | (None, ns, m) \<Rightarrow> (None, concat (map (insert_rects className) ns)))"

section \<open>Facts\<close>

lemma compat_texts: "texts (fst (snd (compat_children bbox word className k ptag cls svg ns))) = texts ns"
proof (induction bbox word className k ptag cls svg ns rule: compat_children.induct)
  case (3 bbox word className k ptag cls svg v ns)
  show ?case
  proof (cases "sub_index word (toLowerCase v)")
    case None
    then show ?thesis using 3 by (simp add: case_prod_unfold Let_def)
  next
    case (Some pos)
    then show ?thesis using 3 pieces [of pos v "length word"]
      by (cases "marked_parent className cls") (auto simp: case_prod_unfold Let_def)
  qed
next
  case (5 bbox word className k ptag cls svg tag ecls r kids ns)
  obtain e kids' n where kids:
    "compat_children bbox word className (length kids) tag ecls (svg_below tag svg) kids = (e, kids', n)"
    by (metis prod_cases3)
  with 5 show ?case by (cases e) (auto simp: case_prod_unfold Let_def)
qed (auto simp: case_prod_unfold Let_def)

lemma texts_concat: "(\<And>n. n \<in> set ns \<Longrightarrow> texts (g n) = textContent n) \<Longrightarrow> texts (concat (map g ns)) = texts ns"
  by (induction ns) auto

lemma rects_texts: "texts (insert_rects className n) = textContent n"
proof (induction n)
  case (Elem tag cls r kids)
  then show ?case using texts_concat [of kids "insert_rects className"] by simp
qed simp_all

text \<open>The highlighter of the compatibility layer always ends and keeps the text of the page; but as the walk
  takes the number of children before it inserts any, a match in a text node takes visits away from the
  nodes behind it: with two children, the second is never looked at when the first matches.
\<close>

theorem compat_highlight:
  assumes "sub_index word (toLowerCase v) = Some pos" "\<not> marked_parent className cls"
  shows "texts (snd (highlightText_compat bbox word className svg root)) = textContent root
    \<and> (\<exists>sp. compat_children bbox word className 2 ptag cls False [Text v, n] =
          (None, [Text (take pos v), sp, Text (drop (pos + length word) v), n], 0))"
proof
  show "texts (snd (highlightText_compat bbox word className svg root)) = textContent root"
    using compat_texts [of bbox word className 1 "[]" "[]" svg "[root]"] rects_texts
    by (auto simp: highlightText_compat_def texts_concat split: prod.split option.split)
  show "\<exists>sp. compat_children bbox word className 2 ptag cls False [Text v, n] =
      (None, [Text (take pos v), sp, Text (drop (pos + length word) v), n], 0)"
    using assms by (simp add: numeral_2_eq_2 span_node_def svg_below_def case_prod_unfold Let_def
        marked_parent_def split: option.split)
qed

theorem compat_highlight_witness:
  "\<exists>sp. compat_children (\<lambda>_. True) ''log'' ''highlighted'' 2 ''p'' [] False [Text ''a Log'', Elem ''b'' [] 0 [Text ''log'']]
     = (None, [Text ''a '', sp, Text [], Elem ''b'' [] 0 [Text ''log'']], 0)"
proof -
  have "sub_index ''log'' (toLowerCase ''a Log'') = Some 2" "\<not> marked_parent ''highlighted'' []" by code_simp+
  from compat_highlight [OF this, of "\<lambda>_. True" False "Text []" "''p''" "Elem ''b'' [] 0 [Text ''log'']"]
  show ?thesis by (simp add: numeral_2_eq_2 numeral_3_eq_3)
qed

end
