(* ===== verification/JqueryAjax.thy ===== *)
theory JqueryAjax
  imports JqueryCallbacks
begin

text \<open>
  Data types of requests in \<open>docs/_static/jquery-3.6.0.js\<close>: registration of prefilters and transports, the
  choice of a response (\<open>ajaxHandleResponses\<close>) and the chain of conversions (\<open>ajaxConvert\<close>).
\<close>

section \<open>Model\<close>

text \<open>
  \<open>addToPrefiltersOrTransports\<close>: the functions by data type; a leading \<open>+\<close> puts a function in front.
\<close>

definition add_to_structure :: "string option \<Rightarrow> nat option \<Rightarrow> (string \<times> nat list) list \<Rightarrow> (string \<times> nat list) list" where
  "add_to_structure expression func structure =
     (case func of
        None \<Rightarrow> structure
      | Some f \<Rightarrow>
          fold (\<lambda>dataType st.
            let old = (\<lambda>t. case map_of st t of Some fs \<Rightarrow> fs | None \<Rightarrow> []) in
            if hd dataType = CHR ''+'' then
              (let t = (if tl dataType = [] then ''*'' else tl dataType) in dict_set t (f # old t) st)
            else dict_set dataType (old dataType @ [f]) st)
            (html_words (toLowerCase (case expression of Some e \<Rightarrow> e | None \<Rightarrow> ''*''))) structure)"

text \<open>
  \<open>inspectPrefiltersOrTransports\<close>: what a prefilter or a factory of transports returns for the data types of the request.
\<close>

datatype factory_result = Nothing | DataType string | Transport nat

text \<open>
  The loop of \<open>inspect\<close> over the functions of a data type.  A prefilter that names a data type not yet inspected puts it in
  front and its functions are inspected instead of the rest; a factory that returns something ends the search.
  The result is what was selected, the inspected data types and those of the request.
\<close>

function inspect_loop ::
  "(string \<times> nat list) list \<Rightarrow> bool \<Rightarrow> (nat \<Rightarrow> string list \<Rightarrow> factory_result) \<Rightarrow> nat list \<Rightarrow> string list \<Rightarrow> string list
    \<Rightarrow> factory_result \<times> string list \<times> string list" where
  "inspect_loop tbl seeking run [] inspected dataTypes = (Nothing, inspected, dataTypes)"
| "inspect_loop tbl seeking run (f # fs) inspected dataTypes =
     (case run f dataTypes of
        DataType t \<Rightarrow>
          if seeking \<and> t \<noteq> [] then (DataType t, inspected, dataTypes)
          else if \<not> seeking \<and> t \<notin> set inspected then
            (case inspect_loop tbl seeking run (case map_of tbl t of Some gs \<Rightarrow> gs | None \<Rightarrow> []) (t # inspected) (t # dataTypes) of
               (_, inspected', dataTypes') \<Rightarrow> (Nothing, inspected', dataTypes'))
          else inspect_loop tbl seeking run fs inspected dataTypes
      | Transport x \<Rightarrow>
          if seeking then (Transport x, inspected, dataTypes)
          else inspect_loop tbl seeking run fs inspected dataTypes
      | Nothing \<Rightarrow> inspect_loop tbl seeking run fs inspected dataTypes)"
  by pat_completeness auto
termination
proof (relation "measures [\<lambda>(tbl, _, _, _, inspected, _). card (fst ` set tbl - set inspected), \<lambda>(_, _, _, fs, _, _). length fs]", goal_cases)
  case (3 tbl seeking run f fs inspected dataTypes t)
  show ?case
  proof (cases "map_of tbl t")
    case (Some gs)
    then have "t \<in> fst ` set tbl" by (force dest: map_of_SomeD)
    then have "fst ` set tbl - set (t # inspected) \<subset> fst ` set tbl - set inspected" using 3(3) by auto
    then show ?thesis by (simp add: psubset_card_mono)
  next
    case None
    then have "t \<notin> fst ` set tbl" by (simp add: map_of_eq_None_iff)
    then have "fst ` set tbl - set (t # inspected) = fst ` set tbl - set inspected" by auto
    then show ?thesis using None by simp
  qed
qed simp_all

definition inspect :: "(string \<times> nat list) list \<Rightarrow> bool \<Rightarrow> (nat \<Rightarrow> string list \<Rightarrow> factory_result) \<Rightarrow> string \<Rightarrow> string list \<Rightarrow> string list
    \<Rightarrow> factory_result \<times> string list \<times> string list" where
  "inspect tbl seeking run t inspected dataTypes =
     inspect_loop tbl seeking run (case map_of tbl t of Some gs \<Rightarrow> gs | None \<Rightarrow> []) (t # inspected) dataTypes"

definition inspectPrefiltersOrTransports ::
  "(string \<times> nat list) list \<Rightarrow> bool \<Rightarrow> (nat \<Rightarrow> string list \<Rightarrow> factory_result) \<Rightarrow> string list \<Rightarrow> factory_result \<times> string list" where
  "inspectPrefiltersOrTransports tbl seeking run dataTypes =
     (case inspect tbl seeking run (hd dataTypes) [] dataTypes of
        (selected, inspected, dataTypes1) \<Rightarrow>
          if selected = Nothing \<and> ''*'' \<notin> set inspected then
            (case inspect tbl seeking run ''*'' inspected dataTypes1 of (selected', _, dataTypes2) \<Rightarrow> (selected', dataTypes2))
          else (selected, dataTypes1))"

text \<open>Converters: \<open>false\<close> or undefined, \<open>true\<close> (nothing to do), or a function, by its number.\<close>

datatype conv = Off | Same | Conv nat

record 'r ajax_settings =
  converters :: "(string \<times> conv) list"
  responseFields :: "(string \<times> string) list"
  dataFilter :: "('r \<Rightarrow> 'r) option"
  throws :: bool

text \<open>
  \<open>ajaxHandleResponses\<close>: \<open>contents\<close> are the tests of content types by data type (\<open>None\<close> where disabled), \<open>ct\<close> is
  the type given for the request or sent with the response.
\<close>

definition drop_auto :: "string list \<Rightarrow> string list" where
  "drop_auto dataTypes = dropWhile (\<lambda>t. t = ''*'') dataTypes"

definition known_content :: "(string \<times> (string \<Rightarrow> bool) option) list \<Rightarrow> string \<Rightarrow> string option" where
  "known_content contents ct =
     map_option fst (find (\<lambda>(t, test). case test of Some f \<Rightarrow> f ct | None \<Rightarrow> False) contents)"

definition truthy_conv :: "conv option \<Rightarrow> bool" where
  "truthy_conv c \<longleftrightarrow> c \<noteq> None \<and> c \<noteq> Some Off"

definition handle_responses ::
  "'r ajax_settings \<Rightarrow> (string \<times> (string \<Rightarrow> bool) option) list \<Rightarrow> string option \<Rightarrow> string list \<Rightarrow> (string \<times> 'r) list
    \<Rightarrow> string list \<times> 'r option" where
  "handle_responses s contents ct dataTypes responses =
     (let ts = drop_auto dataTypes;
          ct' = (if ts \<noteq> dataTypes then ct else None);
          ts1 = (case ct' of
                   Some c \<Rightarrow> if c \<noteq> [] then (case known_content contents c of Some t \<Rightarrow> t # ts | None \<Rightarrow> ts) else ts
                 | None \<Rightarrow> ts);
          final =
            (if ts1 \<noteq> [] \<and> dict_has responses (hd ts1) then Some (hd ts1)
             else (case find (\<lambda>(t, _). ts1 = [] \<or> hd ts1 = [] \<or> truthy_conv (map_of (converters s) (t @ '' '' @ hd ts1))) responses of
                     Some (t, _) \<Rightarrow> Some t
                   | None \<Rightarrow> (case responses of (t, _) # _ \<Rightarrow> Some t | [] \<Rightarrow> None))) in
      case final of
        None \<Rightarrow> (ts1, None)
      | Some t \<Rightarrow> (if ts1 \<noteq> [] \<and> hd ts1 = t then ts1 else t # ts1, map_of responses t))"

text \<open>\<open>ajaxConvert\<close>: a direct converter, or one through an intermediate data type.\<close>

definition pick :: "(string \<times> conv) list \<Rightarrow> string \<Rightarrow> string \<Rightarrow> conv option" where
  "pick convs prev current =
     (if truthy_conv (map_of convs (prev @ '' '' @ current)) then map_of convs (prev @ '' '' @ current)
      else if truthy_conv (map_of convs (''* '' @ current)) then map_of convs (''* '' @ current)
      else None)"

fun seek_pair :: "(string \<times> conv) list \<Rightarrow> string \<Rightarrow> string \<Rightarrow> (string \<times> conv) list \<Rightarrow> (string \<times> conv \<times> conv) option" where
  "seek_pair convs prev current [] = None"
| "seek_pair convs prev current ((key, v) # rest) =
     (case split_char (CHR '' '') key of
        t0 # t1 # _ \<Rightarrow>
          if t1 = current then
            (case pick convs prev t0 of
               Some c \<Rightarrow> Some (t0, c, v)
             | None \<Rightarrow> seek_pair convs prev current rest)
          else seek_pair convs prev current rest
      | _ \<Rightarrow> seek_pair convs prev current rest)"

text \<open>The converter to use, and the data type it leads to with the types still to come.\<close>

definition choose_conv :: "(string \<times> conv) list \<Rightarrow> string \<Rightarrow> string \<Rightarrow> string list \<Rightarrow> conv option \<times> string \<times> string list" where
  "choose_conv convs prev current dataTypes =
     (case pick convs prev current of
        Some c \<Rightarrow> (Some c, current, dataTypes)
      | None \<Rightarrow>
          (case seek_pair convs prev current convs of
             None \<Rightarrow> (None, current, dataTypes)
           | Some (t0, c, v) \<Rightarrow>
               if c = Same then (Some v, current, dataTypes)
               else if v \<noteq> Same then (Some c, t0, current # dataTypes)
               else (Some c, current, dataTypes)))"

datatype ('r, 'e) ajax_result = Success 'r | ParserError "'e option" | Raised 'e

text \<open>
  The loop; \<open>apply\<close> calls a converter.  The list records the fields of \<open>jqXHR\<close> that are set.  The fuel is
  needed: with a converter that is switched off the loop may not end.
\<close>

fun convert_loop ::
  "nat \<Rightarrow> 'r ajax_settings \<Rightarrow> (string \<times> conv) list \<Rightarrow> (nat \<Rightarrow> 'r \<Rightarrow> 'e + 'r) \<Rightarrow> bool \<Rightarrow> bool \<Rightarrow> string \<Rightarrow> string list
    \<Rightarrow> 'r \<Rightarrow> (string \<times> 'r) list \<Rightarrow> (('r, 'e) ajax_result \<times> (string \<times> 'r) list) option" where
  "convert_loop 0 s convs apply isSuccess first current dataTypes response sets = None"
| "convert_loop (Suc n) s convs apply isSuccess first current dataTypes response sets =
     (if current = [] then Some (Success response, sets)
      else
       (let set1 = (case map_of (responseFields s) current of Some f \<Rightarrow> sets @ [(f, response)] | None \<Rightarrow> sets);
            response1 = (case dataFilter s of Some f \<Rightarrow> if first \<and> isSuccess then f response else response | None \<Rightarrow> response);
            prev = current in
        case dataTypes of
          [] \<Rightarrow> Some (Success response1, set1)
        | cur # ts \<Rightarrow>
            if cur = [] then Some (Success response1, set1)
            else if cur = ''*'' then convert_loop n s convs apply isSuccess False prev ts response1 set1
            else if prev \<noteq> ''*'' \<and> prev \<noteq> cur then
              (case choose_conv convs prev cur ts of
                 (Some Same, cur', ts') \<Rightarrow> convert_loop n s convs apply isSuccess False cur' ts' response1 set1
               | (Some (Conv c), cur', ts') \<Rightarrow>
                   (case apply c response1 of
                      Inr r \<Rightarrow> convert_loop n s convs apply isSuccess False cur' ts' r set1
                    | Inl e \<Rightarrow> Some (if throws s then Raised e else ParserError (Some e), set1))
               | (_, cur', ts') \<Rightarrow> Some (ParserError None, set1))
            else convert_loop n s convs apply isSuccess False cur ts response1 set1))"

definition lower_convs :: "'r ajax_settings \<Rightarrow> (string \<times> conv) list" where
  "lower_convs s = fold (\<lambda>(k, v). dict_set (toLowerCase k) v) (converters s) []"

definition ajaxConvert ::
  "nat \<Rightarrow> 'r ajax_settings \<Rightarrow> (nat \<Rightarrow> 'r \<Rightarrow> 'e + 'r) \<Rightarrow> bool \<Rightarrow> string list \<Rightarrow> 'r
    \<Rightarrow> (('r, 'e) ajax_result \<times> (string \<times> 'r) list) option" where
  "ajaxConvert n s apply isSuccess dataTypes response =
     (let convs = (if length dataTypes > 1 \<and> dataTypes ! 1 \<noteq> [] then lower_convs s else []) in
      case dataTypes of
        [] \<Rightarrow> Some (Success response, [])
      | current # ts \<Rightarrow> convert_loop n s convs apply isSuccess True current ts response [])"

section \<open>Prefilters\<close>

text \<open>Prefilters only put new data types in front, each at most once.\<close>

lemma inspect_loop_types:
  "inspect_loop tbl seeking run fs inspected dataTypes = (x, inspected', dataTypes') \<Longrightarrow>
     \<exists>new. inspected' = new @ inspected \<and> dataTypes' = new @ dataTypes \<and> distinct new \<and> set new \<inter> set inspected = {} \<and>
       (seeking \<longrightarrow> new = []) \<and> (\<not> seeking \<longrightarrow> x = Nothing)"
proof (induction tbl seeking run fs inspected dataTypes arbitrary: x inspected' dataTypes' rule: inspect_loop.induct)
  case (2 tbl seeking run f fs inspected dataTypes)
  show ?case
  proof (cases "\<exists>t. run f dataTypes = DataType t \<and> \<not> seeking \<and> t \<notin> set inspected")
    case True
    then obtain t where t: "run f dataTypes = DataType t" "\<not> seeking" "t \<notin> set inspected" by blast
    obtain y i' d' where l: "inspect_loop tbl seeking run (case map_of tbl t of Some gs \<Rightarrow> gs | None \<Rightarrow> [])
        (t # inspected) (t # dataTypes) = (y, i', d')" by (metis prod_cases3)
    obtain new where new: "i' = new @ t # inspected" "d' = new @ t # dataTypes" "distinct new" "set new \<inter> set (t # inspected) = {}"
      using "2.IH"(2) [OF t(1) _ _ l] t by auto
    have "x = Nothing \<and> inspected' = i' \<and> dataTypes' = d'" using "2.prems" t l by simp
    then show ?thesis using new t by (intro exI [of _ "new @ [t]"]) auto
  next
    case False
    then show ?thesis using "2.prems" "2.IH"(1,3,4)
      by (cases "run f dataTypes"; cases seeking) (auto split: if_splits)
  qed
qed simp

section \<open>Typed responses\<close>

text \<open>
  Converters between types: every name is a pair of data types, none is switched off, and the converters
  from \<open>p\<close> to \<open>q\<close> turn responses of type \<open>p\<close>, those from \<open>*\<close> any response, into responses of type \<open>q\<close>.
\<close>

definition converter_names :: "(string \<times> conv) list \<Rightarrow> bool" where
  "converter_names convs \<longleftrightarrow> distinct (map fst convs) \<and> (\<forall>k v. (k, v) \<in> set convs \<longrightarrow> v \<noteq> Off \<and>
     length (split_char (CHR '' '') k) = 2 \<and> [] \<notin> set (split_char (CHR '' '') k))"

definition typed_convs :: "(string \<Rightarrow> 'r \<Rightarrow> bool) \<Rightarrow> (nat \<Rightarrow> 'r \<Rightarrow> 'e + 'r) \<Rightarrow> (string \<times> conv) list \<Rightarrow> bool" where
  "typed_convs T ap convs \<longleftrightarrow>
     (\<forall>p q r. p = ''*'' \<or> T p r \<longrightarrow>
        (map_of convs (p @ '' '' @ q) = Some Same \<longrightarrow> T q r) \<and>
        (\<forall>c r'. map_of convs (p @ '' '' @ q) = Some (Conv c) \<longrightarrow> ap c r = Inr r' \<longrightarrow> T q r'))"

lemma pick_typed:
  assumes "typed_convs T ap convs" "T p r" "pick convs p q = Some x"
  shows "x = Same \<Longrightarrow> T q r" "x = Conv c \<Longrightarrow> ap c r = Inr r' \<Longrightarrow> T q r'"
proof -
  have "map_of convs (p @ '' '' @ q) = Some x \<or> map_of convs (''*'' @ '' '' @ q) = Some x"
    using assms(3) by (auto simp: pick_def split: if_splits)
  then show "x = Same \<Longrightarrow> T q r" "x = Conv c \<Longrightarrow> ap c r = Inr r' \<Longrightarrow> T q r'"
    using assms(1,2) unfolding typed_convs_def by blast+
qed

lemma pick_on: "pick convs p q = Some x \<Longrightarrow> x \<noteq> Off"
  by (auto simp: pick_def truthy_conv_def split: if_splits)

lemma seek_pair_found:
  "seek_pair convs p q cs = Some (t, c, v) \<Longrightarrow> converter_names cs \<Longrightarrow>
     pick convs p t = Some c \<and> (t @ '' '' @ q, v) \<in> set cs \<and> t \<noteq> []"
proof (induction convs p q cs rule: seek_pair.induct)
  case (2 convs p q key v' rest)
  have rest: "converter_names rest" using "2.prems"(2) by (auto simp: converter_names_def)
  have two: "length (split_char (CHR '' '') key) = 2" "[] \<notin> set (split_char (CHR '' '') key)"
    using "2.prems"(2) by (auto simp: converter_names_def)
  then obtain t0 t1 where k: "split_char (CHR '' '') key = [t0, t1]" by (auto simp: numeral_2_eq_2 length_Suc_conv)
  then have key: "key = t0 @ '' '' @ t1" using join_split_char [of "CHR '' ''" key] by (simp add: join_def)
  show ?case
  proof (cases "t1 = q \<and> pick convs p t0 \<noteq> None")
    case True
    then show ?thesis using "2.prems"(1) k key two(2) by auto
  next
    case False
    then have "seek_pair convs p q rest = Some (t, c, v)" using "2.prems"(1) k by (auto split: if_splits option.splits)
    then show ?thesis using "2.IH" k rest False by (cases "t1 = q") auto
  qed
qed simp

text \<open>What \<open>choose_conv\<close> returns: a step to the wanted type, or one to a type with a direct converter to it.\<close>

lemma choose_cases:
  assumes "converter_names convs" "choose_conv convs p q ts = (x, q', ts')"
  shows "x = None \<or> (\<exists>y. x = Some y \<and> y \<noteq> Off \<and> q' = q \<and> ts' = ts) \<or>
    (\<exists>c. x = Some (Conv c) \<and> ts' = q # ts \<and> pick convs q' q \<noteq> None \<and> q' \<noteq> ''*'' \<and> q' \<noteq> [])"
proof (cases "pick convs p q")
  case (Some y)
  then show ?thesis using assms(2) pick_on [OF Some] by (auto simp: choose_conv_def)
next
  case None
  show ?thesis
  proof (cases "seek_pair convs p q convs")
    case (Some tcv)
    obtain t c v where tcv: "tcv = (t, c, v)" by (cases tcv)
    note f = seek_pair_found [OF Some [unfolded tcv] assms(1)]
    have v: "map_of convs (t @ '' '' @ q) = Some v" "v \<noteq> Off"
      using f assms(1) by (auto simp: converter_names_def)
    then have "pick convs t q \<noteq> None" by (simp add: pick_def truthy_conv_def)
    moreover have "t \<noteq> ''*''" using v None by (auto simp: pick_def truthy_conv_def split: if_splits)
    moreover have "c \<noteq> Off" using f pick_on by blast
    ultimately show ?thesis using assms(2) None Some tcv f v(2)
      by (cases c) (auto simp: choose_conv_def split: if_splits)
  qed (use assms(2) None in \<open>simp add: choose_conv_def\<close>)
qed

lemma choose_typed:
  assumes "converter_names convs" "typed_convs T ap convs" "choose_conv convs p q ts = (Some y, q', ts')" "T p r"
  shows "y = Same \<Longrightarrow> T q' r" "y = Conv c \<Longrightarrow> ap c r = Inr r' \<Longrightarrow> T q' r'"
proof -
  have "(y = Same \<longrightarrow> T q' r) \<and> (\<forall>c r'. y = Conv c \<longrightarrow> ap c r = Inr r' \<longrightarrow> T q' r')"
  proof (cases "pick convs p q")
    case (Some z)
    then show ?thesis using assms(3) pick_typed [OF assms(2,4) Some] by (auto simp: choose_conv_def)
  next
    case None
    then obtain t c v where tcv: "seek_pair convs p q convs = Some (t, c, v)"
      using assms(3) by (auto simp: choose_conv_def split: option.splits)
    note f = seek_pair_found [OF tcv assms(1)]
    have "map_of convs (t @ '' '' @ q) = Some v" using f assms(1) by (auto simp: converter_names_def)
    then have v: "(v = Same \<longrightarrow> T q r) \<and> (\<forall>c r'. v = Conv c \<longrightarrow> ap c r = Inr r' \<longrightarrow> T q r')" if "T t r" for r
      using that assms(2) unfolding typed_convs_def by blast
    have c: "(c = Same \<longrightarrow> T t r) \<and> (\<forall>d r'. c = Conv d \<longrightarrow> ap d r = Inr r' \<longrightarrow> T t r')"
      using pick_typed [OF assms(2,4) conjunct1 [OF f]] by blast
    consider "c = Same" "y = v" "q' = q" | "c \<noteq> Same" "v \<noteq> Same" "y = c" "q' = t" | "c \<noteq> Same" "v = Same" "y = c" "q' = q"
      using assms(3) None tcv by (auto simp: choose_conv_def split: if_splits)
    then show ?thesis by cases (use v c in blast)+
  qed
  then show "y = Same \<Longrightarrow> T q' r" "y = Conv c \<Longrightarrow> ap c r = Inr r' \<Longrightarrow> T q' r'" by blast+
qed

definition final_type :: "string list \<Rightarrow> string" where
  "final_type ts = last (filter (\<lambda>t. t \<noteq> ''*'') ts)"

lemma final_type_simps [simp]:
  "final_type (a # ''*'' # ts) = final_type (a # ts)"
  "final_type [a] = (if a = ''*'' then last [] else a)"
  "b \<noteq> ''*'' \<Longrightarrow> final_type (a # b # ts) = final_type (b # ts)"
  by (simp_all add: final_type_def)

text \<open>Fuel: two turns for every data type to come, or one turn less when the next step is a direct one.\<close>

definition enough :: "(string \<times> conv) list \<Rightarrow> string \<Rightarrow> string list \<Rightarrow> nat \<Rightarrow> bool" where
  "enough convs p ts n \<longleftrightarrow> 2 * length ts + 1 \<le> n \<or>
     (\<exists>q us. ts = q # us \<and> pick convs p q \<noteq> None \<and> 2 * length us + 2 \<le> n)"

lemma enough_next: "enough convs p (q # ts) (Suc n) \<Longrightarrow> enough convs p' ts n"
  by (auto simp: enough_def)

lemma enough_via:
  "enough convs p (q # ts) (Suc n) \<Longrightarrow> choose_conv convs p q ts = (x, q', q # ts) \<Longrightarrow> pick convs q' q \<noteq> None \<Longrightarrow>
     enough convs q' (q # ts) n"
  by (auto simp: enough_def choose_conv_def)

lemma convert_loop_typed:
  assumes "converter_names convs" "typed_convs T ap convs"
  shows "enough convs p ts n \<Longrightarrow> T p r \<Longrightarrow> p \<noteq> [] \<Longrightarrow> p \<noteq> ''*'' \<Longrightarrow> [] \<notin> set ts \<Longrightarrow>
    (\<And>f r. first \<Longrightarrow> dataFilter s = Some f \<Longrightarrow> T p r \<Longrightarrow> T p (f r)) \<Longrightarrow>
    \<exists>res set'. convert_loop n s convs ap isSuccess first p ts r sets = Some (res, set') \<and> (\<forall>r'. res = Success r' \<longrightarrow> T (final_type (p # ts)) r')"
proof (induction n arbitrary: p ts r first sets)
  case 0
  then show ?case by (auto simp: enough_def)
next
  case (Suc n)
  define r1 where "r1 = (case dataFilter s of Some f \<Rightarrow> if first \<and> isSuccess then f r else r | None \<Rightarrow> r)"
  define s1 where "s1 = (case map_of (responseFields s) p of Some f \<Rightarrow> sets @ [(f, r)] | None \<Rightarrow> sets)"
  have r1: "T p r1" using Suc.prems(2,6) by (auto simp: r1_def split: option.splits)
  note IH = Suc.IH [where first = False]
  show ?case
  proof (cases ts)
    case Nil
    then show ?thesis using Suc.prems(3,4) r1 by (simp add: r1_def [symmetric] s1_def [symmetric] Let_def)
  next
    case (Cons q us)
    note e = enough_next [OF Suc.prems(1) [unfolded Cons]]
    have us: "q \<noteq> []" "[] \<notin> set us" using Suc.prems(5) Cons by auto
    show ?thesis
    proof (cases "q = ''*'' \<or> p = q")
      case True
      then show ?thesis using IH [OF e r1 Suc.prems(3,4) us(2)] Suc.prems(3,4) Cons us(1)
        by (auto simp: r1_def [symmetric] s1_def [symmetric] Let_def)
    next
      case False
      obtain x q' ts' where ch: "choose_conv convs p q us = (x, q', ts')" by (cases "choose_conv convs p q us") auto
      have unf: "convert_loop (Suc n) s convs ap isSuccess first p ts r sets =
          (case x of
             Some Same \<Rightarrow> convert_loop n s convs ap isSuccess False q' ts' r1 s1
           | Some (Conv c) \<Rightarrow>
               (case ap c r1 of
                  Inr r \<Rightarrow> convert_loop n s convs ap isSuccess False q' ts' r s1
                | Inl e \<Rightarrow> Some (if throws s then Raised e else ParserError (Some e), s1))
           | _ \<Rightarrow> Some (ParserError None, s1))"
        using False us(1) Suc.prems(3,4) Cons ch
        by (simp add: r1_def [symmetric] s1_def [symmetric] Let_def split: option.split conv.split)
      have go: "\<exists>res set'. convert_loop n s convs ap isSuccess False q' ts' r2 s1 = Some (res, set')
          \<and> (\<forall>r'. res = Success r' \<longrightarrow> T (final_type (p # ts)) r')" if "x \<noteq> None" "T q' r2" for r2
      proof -
        have "q' \<noteq> [] \<and> q' \<noteq> ''*'' \<and> [] \<notin> set ts' \<and> enough convs q' ts' n \<and> final_type (q' # ts') = final_type (p # ts)"
          using choose_cases [OF assms(1) ch] that(1) us False e enough_via [OF Suc.prems(1) [unfolded Cons]] ch Cons by auto
        then show ?thesis using IH [of q' ts' r2 s1] that(2) by auto
      qed
      show ?thesis
      proof (cases x)
        case (Some y)
        note typed = choose_typed [OF assms ch [unfolded Some] r1]
        show ?thesis
        proof (cases y)
          case (Conv c)
          then show ?thesis using go typed(2) Some unfolding unf by (cases "ap c r1") auto
        qed (use go typed(1) Some unf in auto)
      qed (use unf in auto)
    qed
  qed
qed

lemma known_content_in: "known_content contents c = Some t \<Longrightarrow> t \<in> fst ` set contents"
proof -
  assume "known_content contents c = Some t"
  then obtain x where "find (\<lambda>(t, test). case test of Some f \<Rightarrow> f c | None \<Rightarrow> False) contents = Some x" "t = fst x"
    by (auto simp: known_content_def)
  then show ?thesis unfolding find_Some_iff using nth_mem by blast
qed

text \<open>The data types before a response is chosen, and the choice among the responses.\<close>

definition typed_front :: "(string \<times> (string \<Rightarrow> bool) option) list \<Rightarrow> string option \<Rightarrow> string list \<Rightarrow> string list" where
  "typed_front contents ct dts =
     (case (if drop_auto dts \<noteq> dts then ct else None) of
        Some c \<Rightarrow> if c \<noteq> [] then (case known_content contents c of Some t \<Rightarrow> t # drop_auto dts | None \<Rightarrow> drop_auto dts)
          else drop_auto dts
      | None \<Rightarrow> drop_auto dts)"

lemma typed_front_set: "set (typed_front contents ct dts) \<subseteq> set dts \<union> fst ` set contents"
proof -
  have d: "set (drop_auto dts) \<subseteq> set dts" by (auto simp: drop_auto_def dest: set_dropWhileD)
  show ?thesis
    using d by (auto simp: typed_front_def dest: known_content_in split: option.splits if_splits)
qed

lemma handle_responses_chosen:
  assumes "handle_responses s contents ct dts responses = (ts, Some r)"
  obtains t where "map_of responses t = Some r"
    "ts = (if typed_front contents ct dts \<noteq> [] \<and> hd (typed_front contents ct dts) = t
       then typed_front contents ct dts else t # typed_front contents ct dts)"
  using assms unfolding handle_responses_def Let_def typed_front_def [symmetric]
  by (auto split: option.splits)

lemma handle_responses_head:
  assumes "handle_responses s contents ct dts responses = (ts, Some r)"
  shows "\<exists>t us. ts = t # us \<and> (t, r) \<in> set responses"
    and "set ts \<subseteq> set dts \<union> fst ` set contents \<union> fst ` set responses"
proof -
  obtain t where m: "map_of responses t = Some r" and ts: "ts = (if typed_front contents ct dts \<noteq> [] \<and>
      hd (typed_front contents ct dts) = t then typed_front contents ct dts else t # typed_front contents ct dts)"
    using handle_responses_chosen [OF assms] .
  have t: "(t, r) \<in> set responses" using m by (rule map_of_SomeD)
  have "ts = t # tl ts" using ts by (cases "typed_front contents ct dts") auto
  then show "\<exists>t us. ts = t # us \<and> (t, r) \<in> set responses" using t by blast
  have "t \<in> fst ` set responses" using t by (metis fst_conv imageI)
  moreover have "set ts \<subseteq> insert t (set (typed_front contents ct dts))" using ts by auto
  ultimately show "set ts \<subseteq> set dts \<union> fst ` set contents \<union> fst ` set responses"
    using typed_front_set [of contents ct dts] by blast
qed

lemma no_convs: "converter_names []" "typed_convs T ap []"
  by (simp_all add: converter_names_def typed_convs_def)

text \<open>C40:
  Responses keep their types: when every response has the data type it came in and the converters take
  values of their source type to values of their target type, then the response that is chosen is
  converted step by step, through an intermediate type if need be, in a number of turns linear in the
  number of data types; and what is returned on success has the last data type that was asked for.
\<close>

theorem ajax_response_typed:
  assumes "converter_names (lower_convs s)" "typed_convs T ap (lower_convs s)"
    and "\<And>f t r. dataFilter s = Some f \<Longrightarrow> T t r \<Longrightarrow> T t (f r)"
    and "handle_responses s contents ct dts responses = (ts, Some response)"
    and "\<And>t r. (t, r) \<in> set responses \<Longrightarrow> T t r \<and> t \<noteq> ''*'' \<and> t \<noteq> []"
    and "[] \<notin> set dts" "[] \<notin> fst ` set contents" "2 * length ts \<le> n"
  shows "\<exists>res set'. ajaxConvert n s ap isSuccess ts response = Some (res, set') \<and> (\<forall>r. res = Success r \<longrightarrow> T (final_type ts) r)"
proof -
  obtain t us where ts: "ts = t # us" and t: "(t, response) \<in> set responses"
    using handle_responses_head(1) [OF assms(4)] by blast
  have "[] \<notin> fst ` set responses"
  proof
    assume "[] \<in> fst ` set responses"
    then obtain r where "([], r) \<in> set responses" by auto
    from assms(5) [OF this] show False by simp
  qed
  then have us: "[] \<notin> set us" using handle_responses_head(2) [OF assms(4)] assms(6,7) ts by auto
  let ?convs = "if length ts > 1 \<and> ts ! 1 \<noteq> [] then lower_convs s else []"
  have convs: "converter_names ?convs" "typed_convs T ap ?convs" using assms(1,2) no_convs by auto
  have "enough ?convs t us n" using assms(8) ts by (auto simp: enough_def)
  from convert_loop_typed [OF convs this _ _ _ us, of response True s isSuccess "[]"]
  have "\<exists>res set'. convert_loop n s ?convs ap isSuccess True t us response [] = Some (res, set') \<and>
      (\<forall>r. res = Success r \<longrightarrow> T (final_type (t # us)) r)"
    using assms(3) assms(5) [OF t] by blast
  then show ?thesis unfolding ts ajaxConvert_def Let_def by simp
qed


theorem ajax_response_typed_witness:
  "\<exists>res set'. ajaxConvert 4 \<lparr>converters = [(''text JSON'', Conv 0)], responseFields = [], dataFilter = None, throws = False\<rparr>
     (\<lambda>c r. Inr (''json'', snd r) :: nat + (string \<times> int)) True [''text'', ''json''] (''text'', 7) = Some (res, set') \<and>
     (\<forall>r. res = Success r \<longrightarrow> fst r = ''json'')"
proof -
  define s :: "(string \<times> int) ajax_settings" where
    "s = \<lparr>converters = [(''text JSON'', Conv 0)], responseFields = [], dataFilter = None, throws = False\<rparr>"
  define ap :: "nat \<Rightarrow> string \<times> int \<Rightarrow> nat + (string \<times> int)" where "ap = (\<lambda>c r. Inr (''json'', snd r))"
  have lc: "lower_convs s = [(''text json'', Conv 0)]"
    by (simp add: s_def lower_convs_def) code_simp
  have n: "converter_names (lower_convs s)" unfolding lc converter_names_def by auto
  have t: "typed_convs (\<lambda>t r. fst r = t) ap (lower_convs s)"
    unfolding lc typed_convs_def by (auto simp: ap_def append_eq_Cons_conv split: if_splits)
  have h: "handle_responses s [] None [''json''] [(''text'', (''text'', 7))] = ([''text'', ''json''], Some (''text'', 7))"
    by (simp add: s_def handle_responses_def drop_auto_def truthy_conv_def dict_has_def)
  show ?thesis
    using ajax_response_typed [OF n t _ h, of 4 True]
    by (simp add: s_def ap_def final_type_def)
qed

end
