(* ===== verification/JqueryRequest.thy ===== *)
theory JqueryRequest
  imports JqueryAjax
begin

text \<open>
  The life of requests in \<open>docs/_static/jquery-3.6.0.js\<close>: \<open>jQuery.ajax\<close> as a machine of several requests.  The places where foreign
  code runs (prefilters, \<open>beforeSend\<close>, the choice of a transport, handlers of global events, callbacks) separate
  the steps, so that such code may act on any request, start others, or raise.  Transports are not modelled:
  they call \<open>done\<close> at any time.
\<close>

section \<open>State\<close>

datatype stage = Filtering | Preparing | Ready | Sending | Returned

text \<open>A value that a converter throws, with its truth value: \<open>done\<close> tests the error for it.\<close>

datatype 'e thrown = Truthy 'e | Falsy 'e

text \<open>Why a request failed: the text of the status, a failed conversion, or no conversion.\<close>

datatype 'e failure = StatusError string | Conversion "'e thrown option"

datatype ('r, 'e) settlement = Resolved "'r option" string | Rejected string "'e failure"

text \<open>
  What the caller asks for: \<open>global\<close>, a timeout of an asynchronous request, the type, data types, tests of
  content types, headers and the converters.
\<close>

record 'r request_options =
  o_global :: bool
  o_timeout :: bool
  o_type :: string
  o_dataType :: "string option"
  o_contents :: "(string \<times> (string \<Rightarrow> bool) option) list"
  o_accepts :: "(string \<times> string) list"
  o_headers :: "(string \<times> string) list"
  o_contentType :: "string option"
  o_sends :: bool
  o_settings :: "'r ajax_settings"

text \<open>
  The variables of a call of \<open>ajax\<close> and its \<open>jqXHR\<close>.  \<open>completed\<close> has three values: undefined before the request is sent,
  then false, and true from completion on.  \<open>settledAs\<close> is the outcome of the deferred object; \<open>closing\<close> holds while \<open>done\<close> runs
  its callbacks and \<open>closed\<close> once it has returned.
\<close>

record ('r, 'e) request =
  options :: "'r request_options"
  stage :: stage
  completed :: "bool option"
  fireGlobals :: bool
  transport :: bool
  timer :: bool
  dataTypes :: "string list"
  mimeType :: "string option"
  headerNames :: "(string \<times> string) list"
  requestHeaders :: "(string \<times> string) list"
  responseHeaders :: string
  readyState :: nat
  status :: int
  statusText :: string
  responseValues :: "(string \<times> 'r) list"
  settledAs :: "('r, 'e) settlement option"
  closing :: bool
  closed :: bool

datatype global_event = AjaxStart | AjaxSend nat | AjaxSuccess nat | AjaxError nat | AjaxComplete nat | AjaxStop

record ('r, 'e) ajax_world =
  requests :: "('r, 'e) request list"
  active :: int
  triggered :: "global_event list"

definition ajax_initial :: "('r, 'e) ajax_world" where
  "ajax_initial = \<lparr>requests = [], active = 0, triggered = []\<rparr>"

section \<open>Headers\<close>

text \<open>\<open>setRequestHeader\<close>: names are compared in lower case, the first spelling is kept.\<close>

definition setRequestHeader :: "string \<Rightarrow> string \<Rightarrow> ('r, 'e) request \<Rightarrow> ('r, 'e) request" where
  "setRequestHeader name value r =
     (if completed r = None then
        (let spelled = (case map_of (headerNames r) (toLowerCase name) of
                          Some n \<Rightarrow> if n \<noteq> [] then n else name
                        | None \<Rightarrow> name) in
         r\<lparr>headerNames := dict_set (toLowerCase name) spelled (headerNames r),
           requestHeaders := dict_set spelled value (requestHeaders r)\<rparr>)
      else r)"

definition overrideMimeType :: "string \<Rightarrow> ('r, 'e) request \<Rightarrow> ('r, 'e) request" where
  "overrideMimeType type r = (if completed r = None then r\<lparr>mimeType := Some type\<rparr> else r)"

text \<open>\<open>rheaders\<close>: a line with a colon is a name and a value without leading blanks.\<close>

definition header_lines :: "string \<Rightarrow> (string \<times> string) list" where
  "header_lines s =
     map (\<lambda>l. (takeWhile (\<lambda>c. c \<noteq> CHR '':'') l,
               dropWhile (\<lambda>c. code c \<in> {32, 9}) (tl (dropWhile (\<lambda>c. c \<noteq> CHR '':'') l))))
       (filter (\<lambda>l. CHR '':'' \<in> set l) (split_class (\<lambda>c. code c \<in> {10, 13}) s))"

definition getResponseHeader :: "string \<Rightarrow> ('r, 'e) request \<Rightarrow> string option" where
  "getResponseHeader key r =
     (if completed r = Some True then
        (case map snd (filter (\<lambda>h. toLowerCase (fst h) = toLowerCase key) (header_lines (responseHeaders r))) of
           [] \<Rightarrow> None
         | vs \<Rightarrow> Some (join '', '' vs))
      else None)"

definition getAllResponseHeaders :: "('r, 'e) request \<Rightarrow> string option" where
  "getAllResponseHeaders r = (if completed r = Some True then Some (responseHeaders r) else None)"

text \<open>The headers that \<open>ajax\<close> sets itself, in its order, and those of the caller.\<close>

definition accept_header :: "'r request_options \<Rightarrow> string list \<Rightarrow> string" where
  "accept_header opt ts =
     (case ts of
        t # _ \<Rightarrow>
          (case (if t \<noteq> [] then map_of (o_accepts opt) t else None) of
             Some a \<Rightarrow> if a \<noteq> [] then a @ (if t \<noteq> ''*'' then '', */*; q=0.01'' else [])
                       else (case map_of (o_accepts opt) ''*'' of Some b \<Rightarrow> b | None \<Rightarrow> ''undefined'')
           | None \<Rightarrow> (case map_of (o_accepts opt) ''*'' of Some b \<Rightarrow> b | None \<Rightarrow> ''undefined''))
      | [] \<Rightarrow> (case map_of (o_accepts opt) ''*'' of Some b \<Rightarrow> b | None \<Rightarrow> ''undefined''))"

definition set_headers :: "('r, 'e) request \<Rightarrow> ('r, 'e) request" where
  "set_headers r =
     (let opt = options r;
          r1 = (if o_sends opt then
                  (case o_contentType opt of Some c \<Rightarrow> setRequestHeader ''Content-Type'' c r | None \<Rightarrow> r)
                else r);
          r2 = setRequestHeader ''Accept'' (accept_header opt (dataTypes r)) r1 in
      fold (\<lambda>(n, v). setRequestHeader n v) (o_headers opt) r2)"

section \<open>Completion\<close>

definition is_success :: "int \<Rightarrow> bool" where
  "is_success st \<longleftrightarrow> 200 \<le> st \<and> st < 300 \<or> st = 304"

text \<open>A failed request with data type script, but not JSON, gets a converter that does nothing.\<close>

definition completion_settings :: "nat \<Rightarrow> bool \<Rightarrow> string list \<Rightarrow> 'r ajax_settings \<Rightarrow> 'r ajax_settings" where
  "completion_settings noop success ts s =
     (if \<not> success \<and> ''script'' \<in> set ts \<and> ''json'' \<notin> set ts then
        s\<lparr>converters := dict_set ''text script'' (Conv noop) (converters s)\<rparr>
      else s)"

text \<open>
  The status that is kept, the text of the status and the settlement.  A request whose conversion failed is rejected unless the value that
  was thrown is falsy: \<open>isSuccess = !error\<close>.
\<close>

definition conclude :: "string \<Rightarrow> int \<Rightarrow> string \<Rightarrow> ('r, 'e thrown) ajax_result \<Rightarrow> int \<times> string \<times> ('r, 'e) settlement" where
  "conclude type st native result =
     (if is_success st then
        (if st = 204 \<or> toLowerCase type = ''head'' then (st, ''nocontent'', Resolved None ''nocontent'')
         else if st = 304 then (st, ''notmodified'', Resolved None ''notmodified'')
         else (case result of
                 Success d \<Rightarrow> (st, ''success'', Resolved (Some d) ''success'')
               | ParserError (Some (Falsy e)) \<Rightarrow> (st, ''parsererror'', Resolved None ''parsererror'')
               | ParserError e \<Rightarrow> (st, ''parsererror'', Rejected ''parsererror'' (Conversion e))
               | Raised e \<Rightarrow> (st, ''parsererror'', Rejected ''parsererror'' (Conversion (Some e)))))
      else
        (let txt' = (if st \<noteq> 0 \<or> native = [] then ''error'' else native) in
         (if st < 0 then 0 else st, txt', Rejected txt' (StatusError native))))"

text \<open>The content type that counts: the one given for the request, or the one sent with the response.\<close>

definition content_type :: "('r, 'e) request \<Rightarrow> string option" where
  "content_type r =
     (case mimeType r of
        Some m \<Rightarrow> if m \<noteq> [] then Some m else getResponseHeader ''Content-Type'' r
      | None \<Rightarrow> getResponseHeader ''Content-Type'' r)"

text \<open>
  The request behind \<open>done\<close>.  With the option \<open>throws\<close> a converter that raises ends \<open>done\<close> before the request is settled.
  \<open>None\<close>: the conversion does not end within the fuel.
\<close>

definition mark_completed :: "int \<Rightarrow> string \<Rightarrow> ('r, 'e) request \<Rightarrow> ('r, 'e) request" where
  "mark_completed st headers r =
     r\<lparr>completed := Some True, timer := False, transport := False, responseHeaders := headers,
       readyState := (if 0 < st then 4 else 0)\<rparr>"

definition settle_request :: "int \<Rightarrow> string \<Rightarrow> ('r, 'e thrown) ajax_result \<Rightarrow> ('r, 'e) request \<Rightarrow> ('r, 'e) request" where
  "settle_request st native result r =
     (case result of
        Raised e \<Rightarrow> r
      | _ \<Rightarrow>
          (case conclude (o_type (options r)) st native result of
             (st', txt', outcome) \<Rightarrow>
               r\<lparr>status := st', statusText := (if native \<noteq> [] then native else txt'), settledAs := Some outcome, closing := True\<rparr>))"

definition finish_request ::
  "nat \<Rightarrow> nat \<Rightarrow> 'r \<Rightarrow> (nat \<Rightarrow> 'r \<Rightarrow> 'e thrown + 'r) \<Rightarrow> int \<Rightarrow> string \<Rightarrow> (string \<times> 'r) list option \<Rightarrow> string
    \<Rightarrow> ('r, 'e) request \<Rightarrow> ('r, 'e) request option" where
  "finish_request n noop undef ap st native responses headers r =
     (let r1 = mark_completed st headers r;
          s = o_settings (options r);
          got = (case responses of
                   None \<Rightarrow> (dataTypes r1, None)
                 | Some rs \<Rightarrow> handle_responses s (o_contents (options r)) (content_type r1) (dataTypes r1) rs);
          ts = fst got;
          s' = completion_settings noop (is_success st) ts s in
      map_option
        (\<lambda>(result, fs).
           settle_request st native result
             (r1\<lparr>dataTypes := ts, responseValues := fs, options := (options r1)\<lparr>o_settings := s'\<rparr>\<rparr>))
        (ajaxConvert n s' ap (is_success st) ts (case snd got of Some x \<Rightarrow> x | None \<Rightarrow> undef)))"

text \<open>\<open>done\<close> up to and including the global event of success or failure; repeated calls are ignored.\<close>

definition outcome_events :: "nat \<Rightarrow> ('r, 'e) request \<Rightarrow> global_event list" where
  "outcome_events k r =
     (case (if fireGlobals r then settledAs r else None) of
        Some (Resolved _ _) \<Rightarrow> [AjaxSuccess k]
      | Some (Rejected _ _) \<Rightarrow> [AjaxError k]
      | None \<Rightarrow> [])"

definition ajax_done ::
  "nat \<Rightarrow> nat \<Rightarrow> 'r \<Rightarrow> (nat \<Rightarrow> 'r \<Rightarrow> 'e thrown + 'r) \<Rightarrow> nat \<Rightarrow> int \<Rightarrow> string \<Rightarrow> (string \<times> 'r) list option \<Rightarrow> string
    \<Rightarrow> ('r, 'e) ajax_world \<Rightarrow> ('r, 'e) ajax_world option" where
  "ajax_done n noop undef ap k st native responses headers w =
     (if completed (requests w ! k) = Some True then Some w
      else
        map_option (\<lambda>r. w\<lparr>requests := (requests w)[k := r], triggered := triggered w @ outcome_events k r\<rparr>)
          (finish_request n noop undef ap st native responses headers (requests w ! k)))"

text \<open>The rest of \<open>done\<close>, when no callback raised.\<close>

definition ajax_close :: "nat \<Rightarrow> ('r, 'e) ajax_world \<Rightarrow> ('r, 'e) ajax_world" where
  "ajax_close k w =
     (let r = requests w ! k;
          w1 = w\<lparr>requests := (requests w)[k := r\<lparr>closing := False, closed := True\<rparr>]\<rparr> in
      if fireGlobals r then
        w1\<lparr>active := active w - 1,
           triggered := triggered w @ AjaxComplete k # (if active w - 1 = 0 then [AjaxStop] else [])\<rparr>
      else w1)"

section \<open>Steps\<close>

text \<open>The call of \<open>ajax\<close> up to the prefilters.\<close>

definition ajax_open :: "'r request_options \<Rightarrow> ('r, 'e) ajax_world \<Rightarrow> ('r, 'e) ajax_world" where
  "ajax_open opt w =
     w\<lparr>requests := requests w @
         [\<lparr>options = opt, stage = Filtering, completed = None, fireGlobals = False, transport = False, timer = False,
           dataTypes = (let ts = html_words (toLowerCase (case o_dataType opt of Some t \<Rightarrow> if t \<noteq> [] then t else ''*'' | None \<Rightarrow> ''*'')) in
                        if ts = [] then [[]] else ts),
           mimeType = None, headerNames = [], requestHeaders = [], responseHeaders = [], readyState = 0, status = 0,
           statusText = [], responseValues = [], settledAs = None, closing = False, closed = False\<rparr>]\<rparr>"

text \<open>Behind the prefilters: the counter of active requests and the headers.\<close>

definition ajax_go :: "nat \<Rightarrow> ('r, 'e) ajax_world \<Rightarrow> ('r, 'e) ajax_world" where
  "ajax_go k w =
     (let r = requests w ! k in
      if completed r = Some True then w\<lparr>requests := (requests w)[k := r\<lparr>stage := Returned\<rparr>]\<rparr>
      else
        (let g = o_global (options r) in
         w\<lparr>requests := (requests w)[k := set_headers (r\<lparr>fireGlobals := g, stage := Preparing\<rparr>)],
           active := (if g then active w + 1 else active w),
           triggered := triggered w @ (if g \<and> active w = 0 then [AjaxStart] else [])\<rparr>))"

text \<open>\<open>abort\<close>: the text is \<open>canceled\<close> until \<open>beforeSend\<close> has returned.\<close>

definition abort_text :: "string \<Rightarrow> ('r, 'e) request \<Rightarrow> string" where
  "abort_text txt' r = (if txt' \<noteq> [] then txt' else if stage r \<in> {Filtering, Preparing} then ''canceled'' else ''abort'')"

definition ajax_abort ::
  "nat \<Rightarrow> nat \<Rightarrow> 'r \<Rightarrow> (nat \<Rightarrow> 'r \<Rightarrow> 'e thrown + 'r) \<Rightarrow> nat \<Rightarrow> string \<Rightarrow> ('r, 'e) ajax_world \<Rightarrow> ('r, 'e) ajax_world option" where
  "ajax_abort n noop undef ap k txt' w = ajax_done n noop undef ap k 0 (abort_text txt' (requests w ! k)) None [] w"

definition set_stage :: "stage \<Rightarrow> nat \<Rightarrow> ('r, 'e) ajax_world \<Rightarrow> ('r, 'e) ajax_world" where
  "set_stage st k w = w\<lparr>requests := (requests w)[k := (requests w ! k)\<lparr>stage := st\<rparr>]\<rparr>"

text \<open>\<open>beforeSend\<close>, if there is one, and whether it returned \<open>false\<close>.\<close>

definition ajax_before ::
  "nat \<Rightarrow> nat \<Rightarrow> 'r \<Rightarrow> (nat \<Rightarrow> 'r \<Rightarrow> 'e thrown + 'r) \<Rightarrow> nat \<Rightarrow> bool option \<Rightarrow> ('r, 'e) ajax_world \<Rightarrow> ('r, 'e) ajax_world option" where
  "ajax_before n noop undef ap k beforeSend w =
     (case beforeSend of
        Some refused \<Rightarrow>
          if refused \<or> completed (requests w ! k) = Some True then
            map_option (set_stage Returned k) (ajax_abort n noop undef ap k [] w)
          else Some (set_stage Ready k w)
      | None \<Rightarrow> Some (set_stage Ready k w))"

text \<open>The transport, and the global event of sending.\<close>

definition ajax_transport ::
  "nat \<Rightarrow> nat \<Rightarrow> 'r \<Rightarrow> (nat \<Rightarrow> 'r \<Rightarrow> 'e thrown + 'r) \<Rightarrow> nat \<Rightarrow> bool \<Rightarrow> ('r, 'e) ajax_world \<Rightarrow> ('r, 'e) ajax_world option" where
  "ajax_transport n noop undef ap k found w =
     (if found then
        (let r = requests w ! k in
         Some (w\<lparr>requests := (requests w)[k := r\<lparr>transport := True, readyState := 1, stage := Sending\<rparr>],
                 triggered := triggered w @ (if fireGlobals r then [AjaxSend k] else [])\<rparr>))
      else map_option (set_stage Returned k) (ajax_done n noop undef ap k (- 1) ''No Transport'' None [] w))"

definition ajax_send :: "nat \<Rightarrow> ('r, 'e) ajax_world \<Rightarrow> ('r, 'e) ajax_world" where
  "ajax_send k w =
     (let r = requests w ! k in
      if completed r = Some True then set_stage Returned k w
      else w\<lparr>requests := (requests w)[k := r\<lparr>timer := o_timeout (options r), completed := Some False, stage := Returned\<rparr>]\<rparr>)"

text \<open>
  A step of the page: a part of \<open>ajax\<close>, a function of \<open>jqXHR\<close>, the timer, or a call of \<open>done\<close> by the transport of a
  request that was sent (an exception in \<open>send\<close> is such a call, with status -1).
\<close>

inductive ajax_step ::
  "nat \<Rightarrow> nat \<Rightarrow> 'r \<Rightarrow> (nat \<Rightarrow> 'r \<Rightarrow> 'e thrown + 'r) \<Rightarrow> ('r, 'e) ajax_world \<Rightarrow> ('r, 'e) ajax_world \<Rightarrow> bool"
  for n noop undef ap where
  open_request: "ajax_step n noop undef ap w (ajax_open opt w)"
| go: "k < length (requests w) \<Longrightarrow> stage (requests w ! k) = Filtering \<Longrightarrow> ajax_step n noop undef ap w (ajax_go k w)"
| before: "k < length (requests w) \<Longrightarrow> stage (requests w ! k) = Preparing \<Longrightarrow> ajax_before n noop undef ap k b w = Some w' \<Longrightarrow>
    ajax_step n noop undef ap w w'"
| find_transport: "k < length (requests w) \<Longrightarrow> stage (requests w ! k) = Ready \<Longrightarrow> ajax_transport n noop undef ap k f w = Some w' \<Longrightarrow>
    ajax_step n noop undef ap w w'"
| send: "k < length (requests w) \<Longrightarrow> stage (requests w ! k) = Sending \<Longrightarrow> ajax_step n noop undef ap w (ajax_send k w)"
| header: "k < length (requests w) \<Longrightarrow>
    ajax_step n noop undef ap w (w\<lparr>requests := (requests w)[k := setRequestHeader name v (requests w ! k)]\<rparr>)"
| mime: "k < length (requests w) \<Longrightarrow>
    ajax_step n noop undef ap w (w\<lparr>requests := (requests w)[k := overrideMimeType v (requests w ! k)]\<rparr>)"
| abort: "k < length (requests w) \<Longrightarrow> ajax_abort n noop undef ap k txt' w = Some w' \<Longrightarrow> ajax_step n noop undef ap w w'"
| timeout: "k < length (requests w) \<Longrightarrow> timer (requests w ! k) \<Longrightarrow> ajax_abort n noop undef ap k ''timeout'' w = Some w' \<Longrightarrow>
    ajax_step n noop undef ap w w'"
| transport_done: "k < length (requests w) \<Longrightarrow> completed (requests w ! k) \<noteq> None \<Longrightarrow>
    ajax_done n noop undef ap k st native responses headers w = Some w' \<Longrightarrow> ajax_step n noop undef ap w w'"
| close: "k < length (requests w) \<Longrightarrow> closing (requests w ! k) \<Longrightarrow> ajax_step n noop undef ap w (ajax_close k w)"

inductive ajax_run ::
  "nat \<Rightarrow> nat \<Rightarrow> 'r \<Rightarrow> (nat \<Rightarrow> 'r \<Rightarrow> 'e thrown + 'r) \<Rightarrow> ('r, 'e) ajax_world \<Rightarrow> ('r, 'e) ajax_world \<Rightarrow> bool"
  for n noop undef ap where
  stay: "ajax_run n noop undef ap w w"
| more: "ajax_run n noop undef ap w w' \<Longrightarrow> ajax_step n noop undef ap w' w'' \<Longrightarrow> ajax_run n noop undef ap w w''"

section \<open>Invariants\<close>

text \<open>The states of a request: open, completed without an outcome (a converter raised), closing, or closed.\<close>

definition req_ok :: "('r, 'e) request \<Rightarrow> bool" where
  "req_ok r \<longleftrightarrow> (completed r \<noteq> Some True \<longrightarrow> settledAs r = None) \<and> (settledAs r \<noteq> None \<longleftrightarrow> closing r \<or> closed r) \<and>
     \<not> (closing r \<and> closed r) \<and> (stage r = Filtering \<longrightarrow> \<not> fireGlobals r)"

text \<open>Requests that the counter counts.\<close>

definition pending :: "('r, 'e) request \<Rightarrow> bool" where
  "pending r \<longleftrightarrow> fireGlobals r \<and> \<not> closed r"

text \<open>\<open>ajaxStart\<close> and \<open>ajaxStop\<close> alternate; the result tells whether the last of them was a start.\<close>

fun busy_after :: "bool \<Rightarrow> global_event list \<Rightarrow> bool option" where
  "busy_after b [] = Some b"
| "busy_after b (AjaxStart # es) = (if b then None else busy_after True es)"
| "busy_after b (AjaxStop # es) = (if b then busy_after False es else None)"
| "busy_after b (_ # es) = busy_after b es"

definition ajax_inv :: "('r, 'e) ajax_world \<Rightarrow> bool" where
  "ajax_inv w \<longleftrightarrow> list_all req_ok (requests w) \<and> active w = int (length (filter pending (requests w))) \<and>
     busy_after False (triggered w) = Some (active w \<noteq> 0)"

lemma busy_append: "busy_after b (xs @ ys) = (case busy_after b xs of None \<Rightarrow> None | Some c \<Rightarrow> busy_after c ys)"
  by (induction b xs rule: busy_after.induct) auto

lemma busy_neutral: "AjaxStart \<notin> set es \<Longrightarrow> AjaxStop \<notin> set es \<Longrightarrow> busy_after b es = Some b"
  by (induction b es rule: busy_after.induct) auto

lemma filter_update:
  "k < length xs \<Longrightarrow> int (length (filter P (xs[k := y]))) =
     int (length (filter P xs)) - (if P (xs ! k) then 1 else 0) + (if P y then 1 else 0)"
proof (induction xs arbitrary: k)
  case (Cons x xs)
  show ?case
  proof (cases k)
    case (Suc j)
    then show ?thesis using Cons.IH [of j] Cons.prems by (simp split: if_splits)
  qed simp
qed simp

lemma inv_request: "ajax_inv w \<Longrightarrow> k < length (requests w) \<Longrightarrow> req_ok (requests w ! k)"
  by (simp add: ajax_inv_def list_all_length)

text \<open>A request is replaced; the counter follows, and so do the events.\<close>

lemma inv_update:
  assumes "ajax_inv w" "k < length (requests w)" "req_ok r'"
    and "a = active w - (if pending (requests w ! k) then 1 else 0) + (if pending r' then 1 else 0)"
    and "busy_after (active w \<noteq> 0) es = Some (a \<noteq> 0)"
  shows "ajax_inv (w\<lparr>requests := (requests w)[k := r'], active := a, triggered := triggered w @ es\<rparr>)"
proof -
  have "list_all req_ok ((requests w)[k := r'])"
    using assms(1,3) set_update_subset_insert [of "requests w" k r'] by (auto simp: ajax_inv_def list_all_iff)
  moreover have "a = int (length (filter pending ((requests w)[k := r'])))"
    using assms(1,4) filter_update [OF assms(2), of pending r'] by (simp add: ajax_inv_def)
  moreover have "busy_after False (triggered w @ es) = Some (a \<noteq> 0)"
    using assms(1,5) by (simp add: ajax_inv_def busy_append)
  ultimately show ?thesis by (simp add: ajax_inv_def)
qed

lemma inv_update_quiet:
  assumes "ajax_inv w" "k < length (requests w)" "req_ok r'" "pending r' = pending (requests w ! k)"
  shows "ajax_inv (w\<lparr>requests := (requests w)[k := r']\<rparr>)"
proof -
  have "ajax_inv (w\<lparr>requests := (requests w)[k := r'], active := active w, triggered := triggered w @ []\<rparr>)"
    by (rule inv_update [OF assms(1-3)]) (simp_all add: assms(4))
  then show ?thesis by simp
qed

text \<open>What a call of \<open>done\<close> does to a request.\<close>

definition finished_from :: "('r, 'e) request \<Rightarrow> ('r, 'e) request \<Rightarrow> bool" where
  "finished_from r r' \<longleftrightarrow> completed r' = Some True \<and> fireGlobals r' = fireGlobals r \<and> closed r' = closed r \<and> stage r' = stage r \<and>
     (settledAs r' = settledAs r \<and> closing r' = closing r \<or> settledAs r' \<noteq> None \<and> closing r')"

lemma settle_request_from:
  "finished_from r (settle_request st native result
     ((mark_completed st headers r)\<lparr>dataTypes := ts, responseValues := fs, options := opt\<rparr>))"
  by (auto simp: finished_from_def settle_request_def mark_completed_def split: ajax_result.split prod.split)

lemma finish_request_from:
  assumes "finish_request n noop undef ap st native responses headers r = Some r'"
  shows "finished_from r r'"
proof -
  have "\<exists>z ts opt. r' = (case z of (result, fs) \<Rightarrow> settle_request st native result
      ((mark_completed st headers r)\<lparr>dataTypes := ts, responseValues := fs, options := opt\<rparr>))"
    using assms unfolding finish_request_def Let_def map_option_eq_Some by (elim exE conjE) (intro exI, erule sym)
  then show ?thesis using settle_request_from by (auto split: prod.splits)
qed

lemma outcome_events_neutral: "AjaxStart \<notin> set (outcome_events k r)" "AjaxStop \<notin> set (outcome_events k r)"
  by (auto simp: outcome_events_def split: option.split settlement.split)

lemma done_cases:
  assumes "ajax_done n noop undef ap k st native responses headers w = Some w'"
  obtains (ignored) "completed (requests w ! k) = Some True" "w' = w"
  | (finished) r' where "completed (requests w ! k) \<noteq> Some True" "finished_from (requests w ! k) r'"
      "w' = w\<lparr>requests := (requests w)[k := r'], triggered := triggered w @ outcome_events k r'\<rparr>"
proof (cases "completed (requests w ! k) = Some True")
  case True
  have "w' = w" using assms unfolding ajax_done_def if_P [OF True] by (rule sym [OF option.inject [THEN iffD1]])
  then show ?thesis by (rule ignored [OF True])
next
  case False
  have "map_option (\<lambda>r. w\<lparr>requests := (requests w)[k := r], triggered := triggered w @ outcome_events k r\<rparr>)
      (finish_request n noop undef ap st native responses headers (requests w ! k)) = Some w'"
    using assms unfolding ajax_done_def if_not_P [OF False] .
  then obtain r' where r': "finish_request n noop undef ap st native responses headers (requests w ! k) = Some r'"
    "w' = w\<lparr>requests := (requests w)[k := r'], triggered := triggered w @ outcome_events k r'\<rparr>"
    unfolding map_option_eq_Some by blast
  show ?thesis by (rule finished [OF False finish_request_from [OF r'(1)] r'(2)])
qed

lemma finished_ok: "req_ok r \<Longrightarrow> completed r \<noteq> Some True \<Longrightarrow> finished_from r r' \<Longrightarrow> req_ok r' \<and> pending r' = pending r"
  by (auto simp: req_ok_def finished_from_def pending_def)

lemma inv_done:
  assumes "ajax_inv w" "k < length (requests w)" "ajax_done n noop undef ap k st native responses headers w = Some w'"
  shows "ajax_inv w'" "length (requests w') = length (requests w)"
    "req_ok (requests w' ! k)" "fireGlobals (requests w' ! k) = fireGlobals (requests w ! k)"
    "stage (requests w' ! k) = stage (requests w ! k)"
proof -
  have ok: "req_ok (requests w ! k)" by (rule inv_request [OF assms(1,2)])
  have "ajax_inv w' \<and> length (requests w') = length (requests w) \<and> req_ok (requests w' ! k) \<and>
      fireGlobals (requests w' ! k) = fireGlobals (requests w ! k) \<and> stage (requests w' ! k) = stage (requests w ! k)"
    using assms(3)
  proof (cases rule: done_cases)
    case (finished r')
    note f = finished_ok [OF ok finished(1,2)]
    have "ajax_inv (w\<lparr>requests := (requests w)[k := r'], active := active w, triggered := triggered w @ outcome_events k r'\<rparr>)"
      using f busy_neutral [OF outcome_events_neutral] by (intro inv_update [OF assms(1,2)]) auto
    then show ?thesis using f finished(2,3) assms(2) by (simp add: finished_from_def)
  qed (use assms(1) ok in simp)
  then show "ajax_inv w'" "length (requests w') = length (requests w)"
    "req_ok (requests w' ! k)" "fireGlobals (requests w' ! k) = fireGlobals (requests w ! k)"
    "stage (requests w' ! k) = stage (requests w ! k)" by blast+
qed

lemma inv_stage:
  assumes "ajax_inv w" "k < length (requests w)" "st = Filtering \<Longrightarrow> \<not> fireGlobals (requests w ! k)"
  shows "ajax_inv (set_stage st k w)"
  unfolding set_stage_def
  by (rule inv_update_quiet [OF assms(1,2)]) (use inv_request [OF assms(1,2)] assms(3) in \<open>auto simp: req_ok_def pending_def\<close>)

lemma headers_frame [simp]:
  "req_ok (setRequestHeader a b r) = req_ok r" "pending (setRequestHeader a b r) = pending r"
  "req_ok (overrideMimeType a r) = req_ok r" "pending (overrideMimeType a r) = pending r"
  "settledAs (setRequestHeader a b r) = settledAs r" "completed (setRequestHeader a b r) = completed r"
  "settledAs (overrideMimeType a r) = settledAs r" "completed (overrideMimeType a r) = completed r"
  by (simp_all add: setRequestHeader_def overrideMimeType_def req_ok_def pending_def Let_def)

lemma set_headers_frame [simp]:
  "req_ok (set_headers r) = req_ok r" "pending (set_headers r) = pending r"
  "settledAs (set_headers r) = settledAs r" "completed (set_headers r) = completed r"
proof -
  define same where "same r' \<longleftrightarrow> req_ok r' = req_ok r \<and> pending r' = pending r \<and> settledAs r' = settledAs r \<and> completed r' = completed r" for r'
  have step: "same r' \<Longrightarrow> same (setRequestHeader a b r')" for a b r' by (simp add: same_def)
  have steps: "same r' \<Longrightarrow> same (fold (\<lambda>(n, v). setRequestHeader n v) hs r')" for hs r'
    by (induction hs arbitrary: r') (auto intro: step)
  have "same r" by (simp add: same_def)
  then have "same (set_headers r)" unfolding set_headers_def Let_def by (intro steps step) (auto intro: step split: option.split)
  then show "req_ok (set_headers r) = req_ok r" "pending (set_headers r) = pending r"
    "settledAs (set_headers r) = settledAs r" "completed (set_headers r) = completed r" by (simp_all add: same_def)
qed

text \<open>All steps keep the invariant.\<close>

lemma inv_open: "ajax_inv w \<Longrightarrow> ajax_inv (ajax_open opt w)"
  by (simp add: ajax_inv_def ajax_open_def req_ok_def pending_def)

lemma inv_go:
  assumes "ajax_inv w" "k < length (requests w)" "stage (requests w ! k) = Filtering"
  shows "ajax_inv (ajax_go k w)"
proof (cases "completed (requests w ! k) = Some True")
  case True
  then have "ajax_go k w = set_stage Returned k w" by (simp add: ajax_go_def set_stage_def)
  then show ?thesis using inv_stage [OF assms(1,2), of Returned] by simp
next
  case False
  define r where "r = requests w ! k"
  have ok: "req_ok r" "\<not> fireGlobals r" using inv_request [OF assms(1,2)] assms(3) by (auto simp: r_def req_ok_def)
  define g where "g = o_global (options r)"
  have a: "0 \<le> active w" using assms(1) by (simp add: ajax_inv_def)
  have c: "\<not> closed r" using ok False by (auto simp: req_ok_def r_def)
  have "ajax_inv (w\<lparr>requests := (requests w)[k := set_headers (r\<lparr>fireGlobals := g, stage := Preparing\<rparr>)],
      active := (if g then active w + 1 else active w), triggered := triggered w @ (if g \<and> active w = 0 then [AjaxStart] else [])\<rparr>)"
  proof (rule inv_update [OF assms(1,2)])
    show "req_ok (set_headers (r\<lparr>fireGlobals := g, stage := Preparing\<rparr>))"
      unfolding set_headers_frame using ok by (auto simp: req_ok_def)
    show "(if g then active w + 1 else active w) = active w - (if pending (requests w ! k) then 1 else 0) +
        (if pending (set_headers (r\<lparr>fireGlobals := g, stage := Preparing\<rparr>)) then 1 else 0)"
      unfolding set_headers_frame using ok(2) c by (auto simp: pending_def r_def)
  qed (use a in auto)
  then show ?thesis using False by (simp add: ajax_go_def Let_def r_def g_def)
qed

lemma inv_abort:
  "ajax_inv w \<Longrightarrow> k < length (requests w) \<Longrightarrow> ajax_abort n noop undef ap k txt' w = Some w' \<Longrightarrow> ajax_inv w'"
  unfolding ajax_abort_def by (rule inv_done(1))

lemma inv_done_returned:
  assumes "ajax_inv w" "k < length (requests w)" "ajax_done n noop undef ap k st native responses headers w = Some w'"
  shows "ajax_inv (set_stage Returned k w')"
  by (rule inv_stage) (use inv_done [OF assms] assms(2) in auto)

lemma inv_before:
  assumes "ajax_inv w" "k < length (requests w)" "ajax_before n noop undef ap k b w = Some w'"
  shows "ajax_inv w'"
  using assms(3) inv_done_returned [OF assms(1,2)] inv_stage [OF assms(1,2), of Ready]
  by (auto simp: ajax_before_def ajax_abort_def split: option.splits if_splits)

lemma inv_transport:
  assumes "ajax_inv w" "k < length (requests w)" "ajax_transport n noop undef ap k f w = Some w'"
  shows "ajax_inv w'"
proof (cases f)
  case True
  define r where "r = requests w ! k"
  have "ajax_inv (w\<lparr>requests := (requests w)[k := r\<lparr>transport := True, readyState := 1, stage := Sending\<rparr>], active := active w,
      triggered := triggered w @ (if fireGlobals r then [AjaxSend k] else [])\<rparr>)"
    by (rule inv_update [OF assms(1,2)]) (use inv_request [OF assms(1,2)] in \<open>auto simp: req_ok_def pending_def r_def\<close>)
  then show ?thesis using True assms(3) by (simp add: ajax_transport_def Let_def r_def)
qed (use assms(3) inv_done_returned [OF assms(1,2)] in \<open>auto simp: ajax_transport_def\<close>)

lemma inv_send:
  assumes "ajax_inv w" "k < length (requests w)"
  shows "ajax_inv (ajax_send k w)"
proof (cases "completed (requests w ! k) = Some True")
  case False
  then show ?thesis using inv_request [OF assms]
    by (simp add: ajax_send_def Let_def, intro inv_update_quiet [OF assms]) (auto simp: req_ok_def pending_def)
qed (use inv_stage [OF assms, of Returned] in \<open>simp add: ajax_send_def\<close>)

lemma inv_close:
  assumes "ajax_inv w" "k < length (requests w)" "closing (requests w ! k)"
  shows "ajax_inv (ajax_close k w)"
proof -
  define r where "r = requests w ! k"
  have ok: "req_ok r" "closing r" using inv_request [OF assms(1,2)] assms(3) by (simp_all add: r_def)
  then have ok': "req_ok (r\<lparr>closing := False, closed := True\<rparr>)" by (auto simp: req_ok_def)
  show ?thesis
  proof (cases "fireGlobals r")
    case False
    then have "ajax_close k w = w\<lparr>requests := (requests w)[k := r\<lparr>closing := False, closed := True\<rparr>]\<rparr>"
      by (simp add: ajax_close_def Let_def r_def)
    then show ?thesis using inv_update_quiet [OF assms(1,2) ok'] False by (simp add: pending_def r_def)
  next
    case True
    then have p: "pending r" using ok by (auto simp: pending_def req_ok_def)
    have nz: "active w \<noteq> 0"
      using p assms(1,2) nth_mem [of k "requests w"] by (auto simp: ajax_inv_def r_def filter_empty_conv)
    have "ajax_inv (w\<lparr>requests := (requests w)[k := r\<lparr>closing := False, closed := True\<rparr>], active := active w - 1,
        triggered := triggered w @ AjaxComplete k # (if active w - 1 = 0 then [AjaxStop] else [])\<rparr>)"
      using p nz by (intro inv_update [OF assms(1,2) ok']) (auto simp: pending_def r_def)
    then show ?thesis using True by (simp add: ajax_close_def Let_def r_def)
  qed
qed

lemma inv_step: "ajax_step n noop undef ap w w' \<Longrightarrow> ajax_inv w \<Longrightarrow> ajax_inv w'"
proof (induction rule: ajax_step.induct)
  case (header k w name v)
  then show ?case using inv_request [OF header(2,1)] by (intro inv_update_quiet) auto
next
  case (mime k w v)
  then show ?case using inv_request [OF mime(2,1)] by (intro inv_update_quiet) auto
qed (auto intro: inv_open inv_go inv_before inv_transport inv_send inv_abort inv_done(1) inv_close)

lemma inv_run: "ajax_run n noop undef ap w w' \<Longrightarrow> ajax_inv w \<Longrightarrow> ajax_inv w'"
  by (induction rule: ajax_run.induct) (auto intro: inv_step)

section \<open>Properties\<close>

text \<open>What is decided stays: the outcome of a request, and a completion without an outcome.\<close>

definition decided :: "('r, 'e) request \<Rightarrow> ('r, 'e) request \<Rightarrow> bool" where
  "decided r r' \<longleftrightarrow> (completed r = Some True \<longrightarrow> completed r' = Some True \<and> settledAs r' = settledAs r \<and>
     fireGlobals r' = fireGlobals r \<and> (closed r \<longrightarrow> closed r') \<and> (settledAs r = None \<longrightarrow> closed r' = closed r \<and> closing r' = closing r))"

lemma decided_refl [simp]: "decided r r"
  by (simp add: decided_def)

lemma decided_trans: "decided a b \<Longrightarrow> decided b c \<Longrightarrow> decided a c"
  by (simp add: decided_def)

lemma decided_update:
  "k < length rs \<Longrightarrow> j < length rs \<Longrightarrow> decided (rs ! k) r' \<Longrightarrow> decided (rs ! j) ((rs[k := r']) ! j)"
  by (cases "j = k") auto

lemma done_decided:
  assumes "ajax_done n noop undef ap k st native responses headers w = Some w'" "k < length (requests w)" "j < length (requests w)"
  shows "decided (requests w ! j) (requests w' ! j) \<and> length (requests w') = length (requests w)"
  using assms(1)
proof (cases rule: done_cases)
  case (finished r')
  then have "decided (requests w ! k) r'" by (simp add: decided_def)
  then show ?thesis using finished(3) assms(2,3) decided_update by (metis ajax_world.select_convs(1) ajax_world.surjective ajax_world.update_convs(1,3) length_list_update)
qed simp

lemma stage_decided:
  assumes "k < length (requests w)" "j < length (requests w)"
  shows "decided (requests w ! j) (requests (set_stage st k w) ! j)" "length (requests (set_stage st k w)) = length (requests w)"
  using assms by (auto simp: set_stage_def decided_def nth_list_update)

lemma done_returned_decided:
  assumes "ajax_done n noop undef ap k st native responses headers w = Some w'" "k < length (requests w)" "j < length (requests w)"
  shows "decided (requests w ! j) (requests (set_stage Returned k w') ! j)"
proof -
  note d = done_decided [OF assms]
  have "k < length (requests w')" "j < length (requests w')" using d assms(2,3) by auto
  then show ?thesis using d stage_decided(1) [of k w' j Returned] decided_trans by blast
qed

lemma step_decided:
  "ajax_step n noop undef ap w w' \<Longrightarrow> ajax_inv w \<Longrightarrow> j < length (requests w) \<Longrightarrow> decided (requests w ! j) (requests w' ! j)"
proof (induction rule: ajax_step.induct)
  case (open_request w opt)
  then show ?case by (simp add: ajax_open_def nth_append)
next
  case (go k w)
  then show ?case by (auto simp: ajax_go_def Let_def decided_def nth_list_update)
next
  case (before k w b w')
  then show ?case using done_returned_decided [OF _ before(1,5)] stage_decided(1) [OF before(1,5)]
    by (auto simp: ajax_before_def ajax_abort_def split: option.splits if_splits)
next
  case (find_transport k w f w')
  then show ?case using done_returned_decided [OF _ find_transport(1,5)]
    by (auto simp: ajax_transport_def Let_def decided_def nth_list_update split: if_splits)
next
  case (send k w)
  then show ?case by (auto simp: ajax_send_def set_stage_def Let_def decided_def nth_list_update)
next
  case (header k w name v)
  then show ?case by (auto simp: setRequestHeader_def Let_def decided_def nth_list_update)
next
  case (mime k w v)
  then show ?case by (auto simp: overrideMimeType_def decided_def nth_list_update)
next
  case (abort k w txt' w')
  show ?case by (rule conjunct1 [OF done_decided [OF abort(2) [unfolded ajax_abort_def] abort(1,4)]])
next
  case (timeout k w w')
  show ?case by (rule conjunct1 [OF done_decided [OF timeout(3) [unfolded ajax_abort_def] timeout(1,5)]])
next
  case (transport_done k w st native responses headers w')
  show ?case by (rule conjunct1 [OF done_decided [OF transport_done(3,1,5)]])
next
  case (close k w)
  have "settledAs (requests w ! k) \<noteq> None" using inv_request [OF close(3,1)] close(2) by (auto simp: req_ok_def)
  with close(1,4) show ?case by (auto simp: ajax_close_def Let_def decided_def nth_list_update)
qed

lemma step_length: "ajax_step n noop undef ap w w' \<Longrightarrow> length (requests w) \<le> length (requests w')"
proof (induction rule: ajax_step.induct)
  case (before k w b w')
  then show ?case using done_decided [OF _ before(1,1)]
    by (auto simp: ajax_before_def ajax_abort_def set_stage_def split: option.splits if_splits)
next
  case (find_transport k w f w')
  then show ?case using done_decided [OF _ find_transport(1,1)]
    by (auto simp: ajax_transport_def Let_def set_stage_def split: if_splits)
next
  case (abort k w txt' w')
  show ?case using done_decided [OF abort(2) [unfolded ajax_abort_def] abort(1,1)] by simp
next
  case (timeout k w w')
  show ?case using done_decided [OF timeout(3) [unfolded ajax_abort_def] timeout(1,1)] by simp
next
  case (transport_done k w st native responses headers w')
  show ?case using done_decided [OF transport_done(3,1,1)] by simp
qed (auto simp: ajax_open_def ajax_go_def ajax_send_def set_stage_def ajax_close_def Let_def)

lemma run_decided:
  "ajax_run n noop undef ap w w' \<Longrightarrow> ajax_inv w \<Longrightarrow> j < length (requests w) \<Longrightarrow>
     decided (requests w ! j) (requests w' ! j) \<and> ajax_inv w' \<and> j < length (requests w')"
proof (induction rule: ajax_run.induct)
  case (more w w' w'')
  then have d: "decided (requests w ! j) (requests w' ! j)" "ajax_inv w'" "j < length (requests w')" by auto
  then show ?case using step_decided [OF more(2)] step_length [OF more(2)] inv_step [OF more(2)] decided_trans
    by (meson less_le_trans)
qed simp

lemma inv_initial: "ajax_inv ajax_initial"
  by (simp add: ajax_inv_def ajax_initial_def)

text \<open>C31:
  A request is settled once: from the first call of \<open>done\<close> on (by the transport, \<open>abort\<close>, the timeout, a missing transport or an
  exception in \<open>send\<close>), whatever else happens on the page, its outcome does not change, and once its
  completion callbacks have run they never run again.
\<close>

theorem requests_settle_once:
  assumes "ajax_run n noop undef ap ajax_initial w" "ajax_run n noop undef ap w w'" "k < length (requests w)"
    and "settledAs (requests w ! k) = Some outcome"
  shows "settledAs (requests w' ! k) = Some outcome \<and> completed (requests w' ! k) = Some True \<and>
    (closed (requests w ! k) \<longrightarrow> closed (requests w' ! k) \<and> \<not> closing (requests w' ! k))"
proof -
  have i: "ajax_inv w" using inv_run [OF assms(1) inv_initial] .
  have c: "completed (requests w ! k) = Some True" using inv_request [OF i assms(3)] assms(4) by (auto simp: req_ok_def)
  note d = run_decided [OF assms(2) i assms(3)]
  have "\<not> (closing (requests w' ! k) \<and> closed (requests w' ! k))" using inv_request [of w' k] d by (auto simp: req_ok_def)
  then show ?thesis using d c assms(4) by (auto simp: decided_def)
qed

text \<open>C32:
  The counter of active requests: in every state of the page \<open>jQuery.active\<close> is the number of requests that announced themselves
  and have not finished \<open>done\<close>; the global events \<open>ajaxStart\<close> and \<open>ajaxStop\<close> alternate, and the last of them was a start
  if and only if the counter is not zero.
\<close>

theorem active_counts_requests:
  assumes "ajax_run n noop undef ap ajax_initial w"
  shows "active w = int (length (filter (\<lambda>r. fireGlobals r \<and> \<not> closed r) (requests w))) \<and>
    busy_after False (triggered w) = Some (active w \<noteq> 0)"
proof -
  have "(\<lambda>r. fireGlobals r \<and> \<not> closed r) = (pending :: ('a, 'b) request \<Rightarrow> bool)" by (auto simp: pending_def fun_eq_iff)
  then show ?thesis using inv_run [OF assms inv_initial] by (simp add: ajax_inv_def)
qed

text \<open>A request that has completed without an outcome stays so, and stays counted.\<close>

lemma unsettled_for_ever:
  assumes "ajax_inv w" "k < length (requests w)" "fireGlobals (requests w ! k)" "completed (requests w ! k) = Some True"
    "settledAs (requests w ! k) = None" "ajax_run n noop undef ap w w2"
  shows "completed (requests w2 ! k) = Some True \<and> settledAs (requests w2 ! k) = None \<and> 0 < active w2 \<and>
    busy_after False (triggered w2) = Some True"
proof -
  note d = run_decided [OF assms(6,1,2)]
  have "\<not> closed (requests w ! k)" using inv_request [OF assms(1,2)] assms(5) by (auto simp: req_ok_def)
  then have p: "pending (requests w2 ! k)" "completed (requests w2 ! k) = Some True" "settledAs (requests w2 ! k) = None"
    using d assms(3-5) by (auto simp: decided_def pending_def)
  have "filter pending (requests w2) \<noteq> []" using p(1) d nth_mem by (auto simp: filter_empty_conv)
  then show ?thesis using d p by (auto simp: ajax_inv_def)
qed

text \<open>One response of another type than the one that is wanted, and a converter for it that raises.\<close>

definition filtered :: "'r ajax_settings \<Rightarrow> 'r \<Rightarrow> 'r" where
  "filtered s x = (case dataFilter s of Some f \<Rightarrow> f x | None \<Rightarrow> x)"

lemma handle_one_response:
  assumes "want \<notin> {[], ''*''}" "got \<noteq> want"
  shows "handle_responses s contents ct [want] [(got, x)] = ([got, want], Some x)"
  using assms by (simp add: handle_responses_def drop_auto_def dict_has_def)

lemma convert_raises:
  assumes "want \<notin> {[], ''*''}" "got \<notin> {[], ''*'', want}" "pick (lower_convs s) got want = Some (Conv c)"
    "ap c (filtered s x) = Inl e"
  shows "\<exists>fs. ajaxConvert (Suc n) s ap True [got, want] x = Some (if throws s then Raised e else ParserError (Some e), fs)"
  using assms by (cases "dataFilter s") (auto simp: ajaxConvert_def choose_conv_def filtered_def)

lemma finish_converter_raises:
  assumes "dataTypes r = [want]" "want \<notin> {[], ''*''}" "got \<notin> {[], ''*'', want}"
    "pick (lower_convs (o_settings (options r))) got want = Some (Conv c)" "ap c (filtered (o_settings (options r)) x) = Inl e" "is_success st"
  shows "\<exists>r'. finish_request (Suc n) noop undef ap st native (Some [(got, x)]) headers r = Some r' \<and>
    (if throws (o_settings (options r)) then settledAs r' = settledAs r else settledAs r' \<noteq> None)"
proof -
  let ?s = "o_settings (options r)" and ?r1 = "mark_completed st headers r"
  obtain fs where c: "ajaxConvert (Suc n) ?s ap True [got, want] x = Some (if throws ?s then Raised e else ParserError (Some e), fs)"
    using convert_raises [of want got ?s c ap x e n] assms(2-5) by blast
  have h: "handle_responses ?s (o_contents (options r)) (content_type ?r1) (dataTypes ?r1) [(got, x)] = ([got, want], Some x)"
    using handle_one_response [of want got ?s] assms(1-3) by (simp add: mark_completed_def)
  have "completion_settings noop True [got, want] ?s = ?s" by (simp add: completion_settings_def)
  with c h assms(6) show ?thesis
    by (auto simp: finish_request_def Let_def settle_request_def mark_completed_def split: prod.split)
qed

text \<open>C33:
  Exceptions leak: a request that announced itself, with the option \<open>throws\<close>, wants one data type and gets a successful response of another one, for
  which there is a direct converter that raises.  Then \<open>done\<close> is left by the exception: the request counts as completed but is never settled, its
  callbacks are never called, and the counter of active requests never comes back to zero, so that \<open>ajaxStop\<close> is not triggered any more, for any
  continuation of the page.  Without the option the request is settled.
\<close>

theorem throwing_converter_leaks:
  assumes "ajax_run n noop undef ap ajax_initial w" "k < length (requests w)" "r = requests w ! k" "s = o_settings (options r)"
    and "fireGlobals r" "completed r \<noteq> Some True" "0 < n" "is_success st"
    and "dataTypes r = [want]" "want \<notin> {[], ''*''}" "got \<notin> {[], ''*'', want}"
    and "pick (lower_convs s) got want = Some (Conv c)" "ap c (filtered s x) = Inl e"
  shows "\<exists>w1. ajax_done n noop undef ap k st native (Some [(got, x)]) headers w = Some w1 \<and>
    (if throws s then
       \<forall>w2. ajax_run n noop undef ap w1 w2 \<longrightarrow>
         completed (requests w2 ! k) = Some True \<and> settledAs (requests w2 ! k) = None \<and> 0 < active w2 \<and> busy_after False (triggered w2) = Some True
     else settledAs (requests w1 ! k) \<noteq> None)"
proof -
  have i: "ajax_inv w" using inv_run [OF assms(1) inv_initial] .
  obtain m where n: "n = Suc m" using assms(7) by (cases n) auto
  obtain r' where r': "finish_request n noop undef ap st native (Some [(got, x)]) headers r = Some r'"
    "if throws s then settledAs r' = settledAs r else settledAs r' \<noteq> None"
    using finish_converter_raises [of r want got c ap x e st m noop undef native headers] assms n by auto
  define w1 where "w1 = w\<lparr>requests := (requests w)[k := r'], triggered := triggered w @ outcome_events k r'\<rparr>"
  have done1: "ajax_done n noop undef ap k st native (Some [(got, x)]) headers w = Some w1"
    using r'(1) assms(3,6) by (simp add: ajax_done_def w1_def)
  have at: "requests w1 ! k = r'" "k < length (requests w1)" using assms(2) by (simp_all add: w1_def)
  note from_r = finish_request_from [OF r'(1)]
  have "settledAs r = None" using inv_request [OF i assms(2)] assms(3,6) by (auto simp: req_ok_def)
  then show ?thesis
    using done1 r'(2) at from_r assms(5) inv_done(1) [OF i assms(2) done1] unsettled_for_ever [of w1 k]
    by (cases "throws s") (auto simp: finished_from_def)
qed

text \<open>A request for JSON whose converter raises, for the witnesses.\<close>

definition demo_options :: "nat request_options" where
  "demo_options = \<lparr>o_global = True, o_timeout = False, o_type = ''GET'', o_dataType = Some ''json'', o_contents = [], o_accepts = [],
     o_headers = [], o_contentType = None, o_sends = False,
     o_settings = \<lparr>converters = [(''text json'', Conv 0)], responseFields = [], dataFilter = None, throws = True\<rparr>\<rparr>"

definition demo_sent :: "(nat, nat) ajax_world" where
  "demo_sent = ajax_send 0 (the (ajax_transport 4 0 0 (\<lambda>_ x. Inl (Truthy x)) 0 True
     (the (ajax_before 4 0 0 (\<lambda>_ x. Inl (Truthy x)) 0 None (ajax_go 0 (ajax_open demo_options ajax_initial))))))"

definition demo_failed :: "(nat, nat) ajax_world" where
  "demo_failed = the (ajax_done 4 0 0 (\<lambda>_ x. Inl (Truthy x)) 0 200 ''OK'' (Some [(''text'', 1)]) [] demo_sent)"

definition demo_aborted :: "(nat, nat) ajax_world" where
  "demo_aborted = the (ajax_abort 4 0 0 (\<lambda>_ x. Inl (Truthy x)) 0 [] (ajax_open demo_options ajax_initial))"

lemma some_the: "\<not> Option.is_none x \<Longrightarrow> x = Some (the x)"
  by (cases x) simp_all

lemma demo_sent_reached: "ajax_run 4 0 0 (\<lambda>_ x. Inl (Truthy x)) ajax_initial demo_sent"
proof -
  let ?w1 = "ajax_open demo_options ajax_initial :: (nat, nat) ajax_world"
  let ?w2 = "ajax_go 0 ?w1"
  let ?w3 = "the (ajax_before 4 0 0 (\<lambda>_ x. Inl (Truthy x)) 0 None ?w2)"
  let ?w4 = "the (ajax_transport 4 0 0 (\<lambda>_ x. Inl (Truthy x)) 0 True ?w3)"
  have 1: "ajax_run 4 0 0 (\<lambda>_ x. Inl (Truthy x)) ajax_initial ?w1" by (rule ajax_run.more [OF ajax_run.stay ajax_step.open_request])
  have 2: "ajax_run 4 0 0 (\<lambda>_ x. Inl (Truthy x)) ajax_initial ?w2" by (rule ajax_run.more [OF 1 ajax_step.go]) code_simp+
  have 3: "ajax_run 4 0 0 (\<lambda>_ x. Inl (Truthy x)) ajax_initial ?w3"
    by (rule ajax_run.more [OF 2 ajax_step.before [OF _ _ some_the]]) code_simp+
  have 4: "ajax_run 4 0 0 (\<lambda>_ x. Inl (Truthy x)) ajax_initial ?w4"
    by (rule ajax_run.more [OF 3 ajax_step.find_transport [OF _ _ some_the]]) code_simp+
  show ?thesis unfolding demo_sent_def by (rule ajax_run.more [OF 4 ajax_step.send]) code_simp+
qed

lemma demo_aborted_reached: "ajax_run 4 0 0 (\<lambda>_ x. Inl (Truthy x)) ajax_initial demo_aborted"
proof -
  have 1: "ajax_run 4 0 0 (\<lambda>_ x. Inl (Truthy x)) ajax_initial (ajax_open demo_options ajax_initial :: (nat, nat) ajax_world)"
    by (rule ajax_run.more [OF ajax_run.stay ajax_step.open_request])
  show ?thesis unfolding demo_aborted_def by (rule ajax_run.more [OF 1 ajax_step.abort [OF _ some_the]]) code_simp+
qed

lemma demo_closed_reached: "ajax_run 4 0 0 (\<lambda>_ x. Inl (Truthy x)) ajax_initial (ajax_close 0 demo_aborted)"
  by (rule ajax_run.more [OF demo_aborted_reached ajax_step.close]) code_simp+

theorem requests_settle_once_witness:
  "settledAs (requests (ajax_close 0 demo_aborted) ! 0) = Some (Rejected ''canceled'' (StatusError ''canceled'')) \<and>
     closed (requests (ajax_close 0 demo_aborted) ! 0) \<and> \<not> closing (requests (ajax_close 0 demo_aborted) ! 0)"
proof -
  have s: "settledAs (requests (ajax_close 0 demo_aborted) ! 0) = Some (Rejected ''canceled'' (StatusError ''canceled''))"
    and l: "0 < length (requests (ajax_close 0 demo_aborted))" and c: "closed (requests (ajax_close 0 demo_aborted) ! 0)" by code_simp+
  from requests_settle_once [OF demo_closed_reached ajax_run.stay l s] c show ?thesis by blast
qed

theorem active_counts_requests_witness:
  "active demo_sent = int (length (filter (\<lambda>r. fireGlobals r \<and> \<not> closed r) (requests demo_sent))) \<and>
    busy_after False (triggered demo_sent) = Some (active demo_sent \<noteq> 0)"
  by (rule active_counts_requests [OF demo_sent_reached])

theorem throwing_converter_leaks_witness:
  "completed (requests demo_failed ! 0) = Some True \<and> settledAs (requests demo_failed ! 0) = None \<and> 0 < active demo_failed \<and>
    busy_after False (triggered demo_failed) = Some True"
proof -
  let ?r = "requests demo_sent ! 0" and ?ap = "\<lambda>_ x. Inl (Truthy x) :: nat thrown + nat"
  have d: "ajax_done 4 0 0 ?ap 0 200 ''OK'' (Some [(''text'', 1)]) [] demo_sent = Some demo_failed"
    unfolding demo_failed_def by (rule some_the) code_simp
  have req: "0 < length (requests demo_sent)" "fireGlobals ?r" "completed ?r \<noteq> Some True" "is_success 200" "dataTypes ?r = [''json'']"
      "pick (lower_convs (o_settings (options ?r))) ''text'' ''json'' = Some (Conv 0)" "throws (o_settings (options ?r))"
    by (code_simp, code_simp, code_simp, code_simp, code_simp, code_simp, code_simp)
  have "\<exists>w1. ajax_done 4 0 0 ?ap 0 200 ''OK'' (Some [(''text'', 1)]) [] demo_sent = Some w1 \<and>
    (if throws (o_settings (options ?r)) then \<forall>w2. ajax_run 4 0 0 ?ap w1 w2 \<longrightarrow>
       completed (requests w2 ! 0) = Some True \<and> settledAs (requests w2 ! 0) = None \<and> 0 < active w2 \<and> busy_after False (triggered w2) = Some True
     else settledAs (requests w1 ! 0) \<noteq> None)"
    by (rule throwing_converter_leaks [OF demo_sent_reached req(1) refl refl req(2,3) _ req(4,5) _ _ req(6) refl]) simp_all
  then have "\<forall>w2. ajax_run 4 0 0 ?ap demo_failed w2 \<longrightarrow>
       completed (requests w2 ! 0) = Some True \<and> settledAs (requests w2 ! 0) = None \<and> 0 < active w2 \<and> busy_after False (triggered w2) = Some True"
    using d req(7) by auto
  from this [rule_format, OF ajax_run.stay] show ?thesis .
qed

end
