(* ===== verification/JqueryNamespaces.thy ===== *)
theory JqueryNamespaces
  imports JqueryCallbacks "HOL-Library.Multiset" "HOL-Library.Char_ord" "HOL-Library.List_Lexorder"
begin

text \<open>
  Names of events in \<open>docs/_static/jquery-3.6.0.js\<close>: a type and namespaces, as in \<open>click.menu.blue\<close>, taken apart by
  \<open>rtypenamespace\<close>, and the regular expression that \<open>jQuery.event.remove\<close> and \<open>jQuery.event.trigger\<close> build from
  namespaces to test those of a handler.  Namespaces are literal text: none has a character with a
  meaning in regular expressions.
\<close>

section \<open>Model\<close>

text \<open>\<open>rtypenamespace\<close>: the text up to the first dot, and the text behind it if there is any.\<close>

definition split_type :: "string \<Rightarrow> string \<times> string option" where
  "split_type s =
     (let ty = takeWhile (\<lambda>c. c \<noteq> CHR ''.'') s;
          rest = tl (dropWhile (\<lambda>c. c \<noteq> CHR ''.'') s) in
      (ty, if rest = [] then None else Some rest))"

definition sorted_namespaces :: "string option \<Rightarrow> string list" where
  "sorted_namespaces rest = sort (split_char (CHR ''.'') (case rest of Some r \<Rightarrow> r | None \<Rightarrow> []))"

text \<open>
  The expression: one of the names behind the start or a dot, the next name behind a dot or behind a dot,
  any text and a dot, and so on; a dot or the end behind the last name.
\<close>

fun after_dots :: "string \<Rightarrow> string list" where
  "after_dots [] = []"
| "after_dots (c # s) = (if c = CHR ''.'' then s # after_dots s else after_dots s)"

fun match_after :: "string list \<Rightarrow> string \<Rightarrow> bool" where
  "match_after [] s \<longleftrightarrow> s = [] \<or> hd s = CHR ''.''"
| "match_after (n # ns) s \<longleftrightarrow> s \<noteq> [] \<and> hd s = CHR ''.'' \<and>
     list_ex (\<lambda>t. take (length n) t = n \<and> match_after ns (drop (length n) t)) (after_dots s)"

definition ns_test :: "string list \<Rightarrow> string \<Rightarrow> bool" where
  "ns_test namespaces s =
     (case namespaces of
        [] \<Rightarrow> True
      | n # ns \<Rightarrow> list_ex (\<lambda>t. take (length n) t = n \<and> match_after ns (drop (length n) t)) (s # after_dots s))"

section \<open>The test is inclusion of namespaces\<close>

text \<open>The namespaces of a handler, from the text they are joined to.\<close>

definition segments :: "string \<Rightarrow> string list" where
  "segments s = split_char (CHR ''.'') s"

lemma segments_simps [simp]:
  "segments [] = [[]]"
  "segments (CHR ''.'' # s) = [] # segments s"
  "c \<noteq> CHR ''.'' \<Longrightarrow> segments (c # s) = (c # hd (segments s)) # tl (segments s)"
  by (auto simp: segments_def split: list.split)

lemma segments_not_Nil [simp]: "segments s \<noteq> []"
  by (simp add: segments_def)

lemma segments_free: "CHR ''.'' \<notin> set n \<Longrightarrow> segments n = [n]"
  by (induction n) auto

lemma segments_dot: "CHR ''.'' \<notin> set n \<Longrightarrow> segments (n @ CHR ''.'' # u) = n # segments u"
  by (induction n) auto

lemma segments_cases:
  obtains "CHR ''.'' \<notin> set t" "segments t = [t]"
  | u v where "t = u @ CHR ''.'' # v" "CHR ''.'' \<notin> set u" "segments t = u # segments v"
proof (cases "CHR ''.'' \<in> set t")
  case True
  then obtain u v where "t = u @ CHR ''.'' # v" "CHR ''.'' \<notin> set u" by (meson split_list_first)
  then show ?thesis using that(2) segments_dot by blast
qed (use that(1) segments_free in blast)

lemma after_dots_subseq:
  "(\<exists>t \<in> set (after_dots s). hd (segments t) = n \<and> subseq ns (tl (segments t))) \<longleftrightarrow> subseq (n # ns) (tl (segments s))"
proof (induction s)
  case (Cons c s)
  show ?case
  proof (cases "c = CHR ''.''")
    case True
    have "subseq (n # ns) (segments s) \<longleftrightarrow> hd (segments s) = n \<and> subseq ns (tl (segments s)) \<or> subseq (n # ns) (tl (segments s))"
      by (cases "segments s") (auto dest: subseq_Cons')
    then show ?thesis using True Cons.IH by auto
  qed (use Cons.IH in simp)
qed simp

lemma starts_with_free:
  assumes "CHR ''.'' \<notin> set n"
  shows "take (length n) t = n \<and> (drop (length n) t = [] \<or> hd (drop (length n) t) = CHR ''.'') \<longleftrightarrow> hd (segments t) = n"
proof
  assume l: "take (length n) t = n \<and> (drop (length n) t = [] \<or> hd (drop (length n) t) = CHR ''.'')"
  then have t: "t = n @ drop (length n) t" by (metis append_take_drop_id)
  show "hd (segments t) = n"
    using l segments_free [OF assms] segments_dot [OF assms, of "tl (drop (length n) t)"] t
    by (cases "drop (length n) t") auto
next
  assume r: "hd (segments t) = n"
  show "take (length n) t = n \<and> (drop (length n) t = [] \<or> hd (drop (length n) t) = CHR ''.'')"
    by (rule segments_cases [of t]) (use r in auto)
qed

lemma behind_free:
  assumes "hd (segments t) = n"
  shows "tl (segments (drop (length n) t)) = tl (segments t)"
    and "drop (length n) t = [] \<longleftrightarrow> tl (segments t) = []"
  by (rule segments_cases [of t]; use assms in auto)+

lemma match_here:
  "CHR ''.'' \<notin> set n \<Longrightarrow> (\<And>m. m \<in> set ns \<Longrightarrow> CHR ''.'' \<notin> set m) \<Longrightarrow>
     take (length n) t = n \<and> match_after ns (drop (length n) t) \<longleftrightarrow> hd (segments t) = n \<and> subseq ns (tl (segments t))"
proof (induction ns arbitrary: n t)
  case Nil
  then show ?case using starts_with_free by auto
next
  case (Cons m ms)
  have ih: "list_ex (\<lambda>t. take (length m) t = m \<and> match_after ms (drop (length m) t)) (after_dots u) \<longleftrightarrow>
      subseq (m # ms) (tl (segments u))" for u
    using Cons.IH [of m] Cons.prems(2) by (auto simp: list_ex_iff simp flip: after_dots_subseq)
  show ?case
    using starts_with_free [OF Cons.prems(1), of t] behind_free [of t n] by (auto simp: ih)
qed

lemma ns_test_subseq:
  "(\<And>n. n \<in> set ns \<Longrightarrow> CHR ''.'' \<notin> set n) \<Longrightarrow> ns_test ns s \<longleftrightarrow> subseq ns (segments s)"
proof (cases ns)
  case (Cons n ms)
  assume d: "\<And>n. n \<in> set ns \<Longrightarrow> CHR ''.'' \<notin> set n"
  have "ns_test ns s \<longleftrightarrow> (hd (segments s) = n \<and> subseq ms (tl (segments s))) \<or> subseq (n # ms) (tl (segments s))"
    using match_here [of n ms] d Cons by (auto simp: ns_test_def list_ex_iff simp flip: after_dots_subseq)
  also have "\<dots> \<longleftrightarrow> subseq (n # ms) (segments s)"
    by (cases "segments s") (auto dest: subseq_Cons')
  finally show ?thesis using Cons by simp
qed (simp add: ns_test_def)

lemma segments_join: "hs \<noteq> [] \<Longrightarrow> (\<And>h. h \<in> set hs \<Longrightarrow> CHR ''.'' \<notin> set h) \<Longrightarrow> segments (join ''.'' hs) = hs"
proof (induction hs)
  case (Cons h hs)
  then show ?case
    using segments_free [of h] segments_dot [of h] by (cases hs) (auto simp: join_def)
qed simp

text \<open>On sorted lists to be a subsequence is to be a part, counting repetitions.\<close>

lemma subseq_mset: "subseq xs ys \<Longrightarrow> mset xs \<subseteq># mset ys"
  by (induction rule: list_emb.induct) (auto intro: subset_mset.order_trans)

lemma sorted_subseq_iff:
  fixes xs ys :: "'a::linorder list"
  shows "sorted xs \<Longrightarrow> sorted ys \<Longrightarrow> subseq xs ys \<longleftrightarrow> mset xs \<subseteq># mset ys"
proof (induction ys arbitrary: xs)
  case (Cons y ys)
  show ?case
  proof (cases xs)
    case (Cons x zs)
    note c = \<open>xs = x # zs\<close>
    show ?thesis
    proof (cases "x = y")
      case True
      then show ?thesis using Cons.IH [of zs] Cons.prems c by simp
    next
      case False
      have "mset xs \<subseteq># mset ys" if m: "mset xs \<subseteq># mset (y # ys)"
      proof -
        have "y \<notin> set xs"
        proof
          assume "y \<in> set xs"
          then have "x < y" using Cons.prems(1) c False by auto
          moreover have "x \<in> set (y # ys)" using mset_subset_eqD [OF m, of x] c by simp
          ultimately show False using Cons.prems(2) False by auto
        qed
        then have "count (mset xs) y = 0" by (simp add: count_eq_zero_iff)
        then show ?thesis using m unfolding subseteq_mset_def by (metis count_add_mset le0 mset.simps(2))
      qed
      then have "mset xs \<subseteq># mset (y # ys) \<longleftrightarrow> mset xs \<subseteq># mset ys"
        by (auto intro: subset_mset.order_trans)
      then show ?thesis using Cons.IH [of xs] Cons.prems c False by simp
    qed
  qed simp
qed (auto dest: subseq_set_subset)

lemma ns_test_mset:
  "ns_test (sorted_namespaces (Some wanted)) (join ''.'' (sorted_namespaces (Some given))) \<longleftrightarrow>
     mset (segments wanted) \<subseteq># mset (segments given)"
proof -
  have free: "CHR ''.'' \<notin> set n" if "n \<in> set (sorted_namespaces (Some w))" for n w
    using that split_char_sep_free by (auto simp: sorted_namespaces_def)
  have "segments (join ''.'' (sorted_namespaces (Some given))) = sorted_namespaces (Some given)"
    by (rule segments_join, metis length_0_conv length_sort sorted_namespaces_def split_char_not_Nil) (rule free)
  then have "ns_test (sorted_namespaces (Some wanted)) (join ''.'' (sorted_namespaces (Some given))) \<longleftrightarrow>
      subseq (sorted_namespaces (Some wanted)) (sorted_namespaces (Some given))"
    using ns_test_subseq free by metis
  also have "\<dots> \<longleftrightarrow> mset (segments wanted) \<subseteq># mset (segments given)"
    by (subst sorted_subseq_iff) (simp_all add: sorted_namespaces_def segments_def)
  finally show ?thesis .
qed

text \<open>Namespaces are sets of names: a handler whose namespaces were sorted and joined passes the test of a
  regular expression built from the sorted namespaces of an event, if and only if it has all the names
  of the event (as often as the event has them), whatever the order in which both were written.
\<close>

theorem namespace_test_inclusion:
  "ns_test (sorted_namespaces (Some wanted)) (join ''.'' (sorted_namespaces (Some given))) \<longleftrightarrow>
     mset (segments wanted) \<subseteq># mset (segments given)"
  by (rule ns_test_mset)

end
