(* ===== verification/JqueryEvents.thy ===== *)
theory JqueryEvents
  imports JqueryNamespaces
begin

text \<open>
  The event system of \<open>docs/_static/jquery-3.6.0.js\<close>: \<open>jQuery.event.add\<close>, \<open>remove\<close>, \<open>handlers\<close> and \<open>dispatch\<close>, and the
  functions \<open>on\<close>, \<open>one\<close> and \<open>off\<close>.  Elements are numbers; what the document says about them, and which
  elements a selector matches, is an argument (\<open>dom\<close>).  The table \<open>jQuery.event.special\<close> is the one of the
  library.  What a handler function does when it is called is an argument as well: it may change the
  event and register or remove handlers.
\<close>

section \<open>State\<close>

text \<open>
  Functions as they occur in handler lists: those of the user, \<open>returnFalse\<close> and \<open>returnTrue\<close>, the wrappers made by \<open>one\<close> and
  the controllers of \<open>leverageNative\<close>.
\<close>

datatype func = User nat | FalseFn | TrueFn | Once func | Controller nat string

text \<open>Arguments of \<open>on\<close> and \<open>off\<close>, and the data passed to handlers.\<close>

datatype js_arg = AUndef | ANull | AStr string | AFn func | AFalse | AObj nat

text \<open>A handle object; the namespace of a controller is \<open>false\<close>, here \<open>None\<close>.\<close>

record handle_obj =
  ho_type :: string
  ho_origType :: string
  ho_data :: js_arg
  ho_handler :: func
  ho_guid :: nat
  ho_selector :: "string option"
  ho_needsContext :: bool
  ho_namespace :: "string option"

record handler_list =
  handlers :: "handle_obj list"
  delegateCount :: int

text \<open>
  The private data of elements (\<open>events\<close>, \<open>handle\<close>, and the entry of \<open>leverageNative\<close> under the name of the
  event), the listeners that are attached natively, the count and the presence of the capturing
  listeners of documents, and the identifiers of functions (0 for a function without one).
\<close>

record ev_state =
  ev_events :: "nat \<Rightarrow> (string \<times> handler_list) list option"
  ev_handle :: "nat \<Rightarrow> bool"
  ev_claim :: "nat \<Rightarrow> string \<Rightarrow> bool"
  ev_listen :: "nat \<Rightarrow> string \<Rightarrow> bool"
  ev_attaches :: "nat \<Rightarrow> string \<Rightarrow> nat"
  ev_capturing :: "nat \<Rightarrow> string \<Rightarrow> bool"
  ev_guids :: "func \<Rightarrow> nat"
  ev_guid :: nat
  ev_global :: "string \<Rightarrow> bool"

definition ev_initial :: ev_state where
  "ev_initial = \<lparr>ev_events = (\<lambda>_. None), ev_handle = (\<lambda>_. False), ev_claim = (\<lambda>_ _. False), ev_listen = (\<lambda>_ _. False),
     ev_attaches = (\<lambda>_ _. 0), ev_capturing = (\<lambda>_ _. False), ev_guids = (\<lambda>_. 0), ev_guid = 1, ev_global = (\<lambda>_. False)\<rparr>"

text \<open>
  The document.  \<open>dom_checkable\<close>: inputs of type checkbox or radio with a click method; \<open>dom_find\<close> and
  \<open>dom_index\<close>: the two ways in which the selector engine tests whether an element below a root matches;
  \<open>dom_badSelector\<close>: the selectors it rejects; \<open>dom_contains\<close>: \<open>jQuery.contains\<close>; \<open>dom_focusin\<close>: the browser knows \<open>focusin\<close> itself.
\<close>

record dom =
  dom_accepts :: "nat \<Rightarrow> bool"
  dom_native :: "nat \<Rightarrow> bool"
  dom_checkable :: "nat \<Rightarrow> bool"
  dom_document :: "nat \<Rightarrow> nat"
  dom_parent :: "nat \<Rightarrow> nat option"
  dom_nodeType :: "nat \<Rightarrow> nat"
  dom_disabled :: "nat \<Rightarrow> bool"
  dom_badSelector :: "string \<Rightarrow> bool"
  dom_needsContext :: "string \<Rightarrow> bool"
  dom_find :: "string \<Rightarrow> nat \<Rightarrow> nat \<Rightarrow> bool"
  dom_index :: "string \<Rightarrow> nat \<Rightarrow> nat \<Rightarrow> bool"
  dom_contains :: "nat \<Rightarrow> nat \<Rightarrow> bool"
  dom_focusin :: bool

section \<open>Special events\<close>

text \<open>What \<open>setup\<close> does for the first handler of a type: claim the element with a controller, or capture.\<close>

datatype setup_kind = NoSetup | ClaimCheckable | ClaimFocus | Capture string

record special =
  delegateType :: "string option"
  bindType :: "string option"
  sp_setup :: setup_kind
  hover :: bool

definition hover_types :: "(string \<times> string) list" where
  "hover_types = [(''mouseenter'', ''mouseover''), (''mouseleave'', ''mouseout''),
     (''pointerenter'', ''pointerover''), (''pointerleave'', ''pointerout'')]"

definition focus_types :: "(string \<times> string) list" where
  "focus_types = [(''focus'', ''focusin''), (''blur'', ''focusout'')]"

definition special_of :: "dom \<Rightarrow> string \<Rightarrow> special" where
  "special_of d t =
     (if t = ''click'' then \<lparr>delegateType = None, bindType = None, sp_setup = ClaimCheckable, hover = False\<rparr>
      else case map_of focus_types t of
        Some del \<Rightarrow> \<lparr>delegateType = Some del, bindType = None, sp_setup = ClaimFocus, hover = False\<rparr>
      | None \<Rightarrow>
          (case map_of hover_types t of
             Some base \<Rightarrow> \<lparr>delegateType = Some base, bindType = Some base, sp_setup = NoSetup, hover = True\<rparr>
           | None \<Rightarrow>
               if \<not> dom_focusin d \<and> t = ''focusin'' then
                 \<lparr>delegateType = None, bindType = None, sp_setup = Capture ''focus'', hover = False\<rparr>
               else if \<not> dom_focusin d \<and> t = ''focusout'' then
                 \<lparr>delegateType = None, bindType = None, sp_setup = Capture ''blur'', hover = False\<rparr>
               else \<lparr>delegateType = None, bindType = None, sp_setup = NoSetup, hover = False\<rparr>))"

definition truthy_sel :: "string option \<Rightarrow> bool" where
  "truthy_sel s \<longleftrightarrow> s \<noteq> None \<and> s \<noteq> Some []"

text \<open>The type under which handlers are kept.\<close>

definition kept_type :: "dom \<Rightarrow> string option \<Rightarrow> string \<Rightarrow> string" where
  "kept_type d selector t =
     (case (if truthy_sel selector then delegateType (special_of d t) else bindType (special_of d t)) of
        Some t' \<Rightarrow> t'
      | None \<Rightarrow> t)"

section \<open>Adding handlers\<close>

definition get_events :: "ev_state \<Rightarrow> nat \<Rightarrow> (string \<times> handler_list) list" where
  "get_events st elem = (case ev_events st elem of None \<Rightarrow> [] | Some m \<Rightarrow> m)"

definition put_handlers :: "nat \<Rightarrow> string \<Rightarrow> handler_list \<Rightarrow> ev_state \<Rightarrow> ev_state" where
  "put_handlers elem t hl st = st\<lparr>ev_events := (ev_events st)(elem \<mapsto> dict_set t hl (get_events st elem))\<rparr>"

definition handlers_of :: "ev_state \<Rightarrow> nat \<Rightarrow> string \<Rightarrow> handler_list" where
  "handlers_of st elem t =
     (case map_of (get_events st elem) t of Some hl \<Rightarrow> hl | None \<Rightarrow> \<lparr>handlers = [], delegateCount = 0\<rparr>)"

definition insert_handler :: "handle_obj \<Rightarrow> handler_list \<Rightarrow> handler_list" where
  "insert_handler ho hl =
     (if truthy_sel (ho_selector ho) then
        \<lparr>handlers = take (nat (delegateCount hl)) (handlers hl) @ ho # drop (nat (delegateCount hl)) (handlers hl),
         delegateCount = delegateCount hl + 1\<rparr>
      else hl\<lparr>handlers := handlers hl @ [ho]\<rparr>)"

definition push_handler :: "nat \<Rightarrow> string \<Rightarrow> handle_obj \<Rightarrow> ev_state \<Rightarrow> ev_state" where
  "push_handler elem t ho st =
     (put_handlers elem t (insert_handler ho (handlers_of st elem t)) st)\<lparr>ev_global := (ev_global st)(t := True)\<rparr>"

definition listen :: "dom \<Rightarrow> nat \<Rightarrow> string \<Rightarrow> ev_state \<Rightarrow> ev_state" where
  "listen d elem t st =
     (if dom_native d elem then st\<lparr>ev_listen := (ev_listen st)(elem := (ev_listen st elem)(t := True))\<rparr> else st)"

text \<open>\<open>leverageNative\<close> called by \<open>setup\<close>: the controller is a new function and becomes the first handler.\<close>

definition leverageNative :: "nat \<Rightarrow> string \<Rightarrow> ev_state \<Rightarrow> ev_state" where
  "leverageNative elem t st =
     (let f = Controller elem t; g = ev_guid st;
          st1 = st\<lparr>ev_claim := (ev_claim st)(elem := (ev_claim st elem)(t := True)),
                   ev_guids := (ev_guids st)(f := g), ev_guid := g + 1\<rparr> in
      push_handler elem t
        \<lparr>ho_type = t, ho_origType = t, ho_data = AUndef, ho_handler = f, ho_guid = g, ho_selector = None,
         ho_needsContext = False, ho_namespace = None\<rparr> st1)"

text \<open>The first handler of a type: \<open>setup\<close>, and a native listener unless \<open>setup\<close> took over.\<close>

definition setup_type :: "dom \<Rightarrow> nat \<Rightarrow> string \<Rightarrow> ev_state \<Rightarrow> ev_state" where
  "setup_type d elem t st =
     (case sp_setup (special_of d t) of
        NoSetup \<Rightarrow> listen d elem t st
      | ClaimCheckable \<Rightarrow> listen d elem t (if dom_checkable d elem then leverageNative elem t st else st)
      | ClaimFocus \<Rightarrow> listen d elem t (leverageNative elem t st)
      | Capture orig \<Rightarrow>
          (let doc = dom_document d elem; n = ev_attaches st doc t;
               st1 = (if n = 0 then st\<lparr>ev_capturing := (ev_capturing st)(doc := (ev_capturing st doc)(orig := True))\<rparr> else st) in
           st1\<lparr>ev_attaches := (ev_attaches st1)(doc := (ev_attaches st1 doc)(t := n + 1))\<rparr>))"

text \<open>The handler argument: a function, or a handle object to be copied, as \<open>cloneCopyEvent\<close> passes it.\<close>

datatype handler_arg = Plain func | Copied handle_obj

fun arg_handler :: "handler_arg \<Rightarrow> func" where
  "arg_handler (Plain f) = f"
| "arg_handler (Copied h) = ho_handler h"

fun arg_selector :: "handler_arg \<Rightarrow> string option \<Rightarrow> string option" where
  "arg_selector (Plain f) selector = selector"
| "arg_selector (Copied h) selector = ho_selector h"

definition make_handle_obj :: "dom \<Rightarrow> handler_arg \<Rightarrow> js_arg \<Rightarrow> string option \<Rightarrow> nat \<Rightarrow> string \<Rightarrow> string \<Rightarrow> string list \<Rightarrow> handle_obj" where
  "make_handle_obj d arg dat selector guid t origType namespaces =
     (case arg of
        Plain f \<Rightarrow>
          \<lparr>ho_type = t, ho_origType = origType, ho_data = dat, ho_handler = f, ho_guid = guid, ho_selector = selector,
           ho_needsContext = (truthy_sel selector \<and> dom_needsContext d (the selector)),
           ho_namespace = Some (join ''.'' namespaces)\<rparr>
      | Copied h \<Rightarrow> h\<lparr>ho_data := (if ho_data h = AUndef then dat else ho_data h)\<rparr>)"

definition add_type :: "dom \<Rightarrow> nat \<Rightarrow> handler_arg \<Rightarrow> js_arg \<Rightarrow> string option \<Rightarrow> string \<Rightarrow> ev_state \<Rightarrow> ev_state" where
  "add_type d elem arg dat selector word st =
     (case split_type word of
        (origType, rest) \<Rightarrow>
          if origType = [] then st
          else
            (let t = kept_type d selector origType;
                 ho = make_handle_obj d arg dat selector (ev_guids st (arg_handler arg)) t origType (sorted_namespaces rest);
                 st1 = (if dict_has (get_events st elem) t then st
                        else setup_type d elem t (put_handlers elem t \<lparr>handlers = [], delegateCount = 0\<rparr> st)) in
             push_handler elem t ho st1))"

definition type_words :: "string \<Rightarrow> string list" where
  "type_words types = (if html_words types = [] then [[]] else html_words types)"

definition ensure_guid :: "func \<Rightarrow> ev_state \<Rightarrow> ev_state" where
  "ensure_guid f st =
     (if ev_guids st f = 0 then st\<lparr>ev_guids := (ev_guids st)(f := ev_guid st), ev_guid := ev_guid st + 1\<rparr> else st)"

definition event_add :: "dom \<Rightarrow> nat \<Rightarrow> string \<Rightarrow> handler_arg \<Rightarrow> js_arg \<Rightarrow> string option \<Rightarrow> ev_state \<Rightarrow> js_error + ev_state" where
  "event_add d elem types arg dat selector0 st =
     (let selector = arg_selector arg selector0 in
      if \<not> dom_accepts d elem then Inr st
      else if truthy_sel selector \<and> dom_badSelector d (the selector) then
        Inl (ErrorMsg (''Syntax error, unrecognized expression: '' @ the selector))
      else
        (let st1 = ensure_guid (arg_handler arg) st;
             st2 = st1\<lparr>ev_events := (ev_events st1)(elem \<mapsto> get_events st1 elem), ev_handle := (ev_handle st1)(elem := True)\<rparr> in
         Inr (fold (add_type d elem arg dat selector) (rev (type_words types)) st2)))"

section \<open>Removing handlers\<close>

definition ho_matches :: "bool \<Rightarrow> string \<Rightarrow> nat option \<Rightarrow> string list option \<Rightarrow> string option \<Rightarrow> handle_obj \<Rightarrow> bool" where
  "ho_matches mappedTypes origType guid namespaces selector ho \<longleftrightarrow>
     (mappedTypes \<or> origType = ho_origType ho) \<and>
     (case guid of None \<Rightarrow> True | Some g \<Rightarrow> g = ho_guid ho) \<and>
     (case namespaces of
        None \<Rightarrow> True
      | Some ns \<Rightarrow> ns_test ns (case ho_namespace ho of Some t \<Rightarrow> t | None \<Rightarrow> ''false'')) \<and>
     (\<not> truthy_sel selector \<or> selector = ho_selector ho \<or> selector = Some ''**'' \<and> truthy_sel (ho_selector ho))"

text \<open>The loop over the handlers, from the last to the first.\<close>

fun remove_scan :: "(handle_obj \<Rightarrow> bool) \<Rightarrow> nat \<Rightarrow> handler_list \<Rightarrow> handler_list" where
  "remove_scan m 0 hl = hl"
| "remove_scan m (Suc j) hl =
     remove_scan m j
       (if m (handlers hl ! j) then
          \<lparr>handlers = take j (handlers hl) @ drop (Suc j) (handlers hl),
           delegateCount = (if truthy_sel (ho_selector (handlers hl ! j)) then delegateCount hl - 1 else delegateCount hl)\<rparr>
        else hl)"

text \<open>
  The last handler of a type is gone: \<open>teardown\<close> of the special event, or the removal of the native
  listener.  The special event is the one of the type that was named, not of the type kept.
\<close>

definition teardown_type :: "dom \<Rightarrow> string \<Rightarrow> nat \<Rightarrow> string \<Rightarrow> ev_state \<Rightarrow> ev_state" where
  "teardown_type d origType elem t st =
     (let st1 =
        (case sp_setup (special_of d origType) of
           Capture orig \<Rightarrow>
             (let doc = dom_document d elem; n = ev_attaches st doc origType in
              if n \<le> 1 then
                st\<lparr>ev_capturing := (ev_capturing st)(doc := (ev_capturing st doc)(orig := False)),
                   ev_attaches := (ev_attaches st)(doc := (ev_attaches st doc)(origType := 0))\<rparr>
              else st\<lparr>ev_attaches := (ev_attaches st)(doc := (ev_attaches st doc)(origType := n - 1))\<rparr>)
         | _ \<Rightarrow>
             (if dom_native d elem then st\<lparr>ev_listen := (ev_listen st)(elem := (ev_listen st elem)(t := False))\<rparr> else st)) in
      st1\<lparr>ev_events := (ev_events st1)(elem \<mapsto> filter (\<lambda>p. fst p \<noteq> t) (get_events st1 elem))\<rparr>)"

definition remove_typed ::
  "dom \<Rightarrow> nat \<Rightarrow> func option \<Rightarrow> string option \<Rightarrow> bool \<Rightarrow> string \<Rightarrow> string option \<Rightarrow> ev_state \<Rightarrow> ev_state" where
  "remove_typed d elem handler selector mappedTypes origType rest st =
     (let t = kept_type d selector origType;
          hl = handlers_of st elem t;
          m = ho_matches mappedTypes origType (map_option (ev_guids st) handler) (map_option (\<lambda>r. sorted_namespaces (Some r)) rest) selector;
          hl' = remove_scan m (length (handlers hl)) hl;
          st1 = (if dict_has (get_events st elem) t then put_handlers elem t hl' st else st) in
      if handlers hl \<noteq> [] \<and> handlers hl' = [] then teardown_type d origType elem t st1 else st1)"

text \<open>Remove data that is no longer used.\<close>

definition clean_events :: "nat \<Rightarrow> ev_state \<Rightarrow> ev_state" where
  "clean_events elem st =
     (if get_events st elem = [] then
        st\<lparr>ev_events := (ev_events st)(elem := None), ev_handle := (ev_handle st)(elem := False)\<rparr>
      else st)"

definition remove_named :: "dom \<Rightarrow> nat \<Rightarrow> func option \<Rightarrow> string option \<Rightarrow> bool \<Rightarrow> string \<Rightarrow> ev_state \<Rightarrow> ev_state" where
  "remove_named d elem handler selector mappedTypes word st =
     (case split_type word of
        (origType, rest) \<Rightarrow>
          if origType = [] then st else remove_typed d elem handler selector mappedTypes origType rest st)"

text \<open>
  One word: without a type it stands for all types of the element, each removed by a call of its own.
  (The types under which handlers are kept are not empty.)
\<close>

definition remove_type :: "dom \<Rightarrow> nat \<Rightarrow> func option \<Rightarrow> string option \<Rightarrow> string \<Rightarrow> ev_state \<Rightarrow> ev_state" where
  "remove_type d elem handler selector word st =
     (if fst (split_type word) = [] then
        fold (\<lambda>t s. if ev_events s elem = None then s
                    else clean_events elem (remove_named d elem handler selector True (t @ word) s))
          (dict_keys (get_events st elem)) st
      else remove_named d elem handler selector False word st)"

definition event_remove :: "dom \<Rightarrow> nat \<Rightarrow> string \<Rightarrow> func option \<Rightarrow> string option \<Rightarrow> ev_state \<Rightarrow> ev_state" where
  "event_remove d elem types handler selector st =
     (case ev_events st elem of
        None \<Rightarrow> st
      | Some _ \<Rightarrow> clean_events elem (fold (remove_type d elem handler selector) (rev (type_words types)) st))"

section \<open>The functions on matched sets\<close>

definition nullish :: "js_arg \<Rightarrow> bool" where
  "nullish a \<longleftrightarrow> a = AUndef \<or> a = ANull"

fun is_str :: "js_arg \<Rightarrow> bool" where
  "is_str (AStr _) = True"
| "is_str _ = False"

fun str_of :: "js_arg \<Rightarrow> string option" where
  "str_of (AStr s) = Some s"
| "str_of _ = None"

text \<open>The optional arguments selector and data.\<close>

definition on_arguments :: "js_arg \<Rightarrow> js_arg \<Rightarrow> js_arg \<Rightarrow> js_arg \<times> js_arg \<times> js_arg" where
  "on_arguments selector dat fn =
     (if nullish dat \<and> nullish fn then (AUndef, AUndef, selector)
      else if nullish fn then
        (if is_str selector then (selector, AUndef, dat) else (AUndef, selector, dat))
      else (selector, dat, fn))"

fun add_to_elems :: "dom \<Rightarrow> string \<Rightarrow> handler_arg \<Rightarrow> js_arg \<Rightarrow> string option \<Rightarrow> nat list \<Rightarrow> ev_state \<Rightarrow> ev_state \<times> js_error option" where
  "add_to_elems d types arg dat selector [] st = (st, None)"
| "add_to_elems d types arg dat selector (elem # elems) st =
     (case event_add d elem types arg dat selector st of
        Inl e \<Rightarrow> (st, Some e)
      | Inr st' \<Rightarrow> add_to_elems d types arg dat selector elems st')"

text \<open>\<open>on\<close> for a string of types; \<open>fn\<close> is a function, \<open>false\<close> or missing.\<close>

definition on_types :: "dom \<Rightarrow> nat list \<Rightarrow> string \<Rightarrow> js_arg \<Rightarrow> js_arg \<Rightarrow> js_arg \<Rightarrow> bool \<Rightarrow> ev_state \<Rightarrow> ev_state \<times> js_error option" where
  "on_types d elems types selector0 dat0 fn0 one st =
     (case on_arguments selector0 dat0 fn0 of
        (selector, dat, fn) \<Rightarrow>
          (case (case fn of AFn f \<Rightarrow> Some f | AFalse \<Rightarrow> Some FalseFn | _ \<Rightarrow> None) of
             None \<Rightarrow> (st, None)
           | Some f \<Rightarrow>
               (let st1 = (if one then ensure_guid f st else st);
                    st2 = (if one then st1\<lparr>ev_guids := (ev_guids st1)(Once f := ev_guids st1 f)\<rparr> else st1);
                    g = (if one then Once f else f) in
                add_to_elems d types (Plain g) dat (str_of selector) elems st2)))"

text \<open>\<open>on\<close> for an object of types and functions.\<close>

fun on_map :: "dom \<Rightarrow> nat list \<Rightarrow> (string \<times> js_arg) list \<Rightarrow> js_arg \<Rightarrow> js_arg \<Rightarrow> bool \<Rightarrow> ev_state \<Rightarrow> ev_state \<times> js_error option" where
  "on_map d elems [] selector dat one st = (st, None)"
| "on_map d elems ((t, fn) # ts) selector dat one st =
     (let dat' = (if is_str selector \<or> \<not> (nullish dat \<or> dat = AFalse \<or> dat = AStr []) then dat else selector);
          selector' = (if is_str selector then selector else AUndef) in
      case on_types d elems t selector' dat' fn one st of
        (st', Some e) \<Rightarrow> (st', Some e)
      | (st', None) \<Rightarrow> on_map d elems ts selector dat one st')"

text \<open>\<open>off\<close>; the selector is a string, a function, \<open>false\<close> or missing.\<close>

definition off_types :: "dom \<Rightarrow> nat list \<Rightarrow> string \<Rightarrow> js_arg \<Rightarrow> js_arg \<Rightarrow> ev_state \<Rightarrow> ev_state" where
  "off_types d elems types selector0 fn0 st =
     (let fn1 = (case selector0 of AFalse \<Rightarrow> selector0 | AFn _ \<Rightarrow> selector0 | _ \<Rightarrow> fn0);
          selector = (case selector0 of AFalse \<Rightarrow> AUndef | AFn _ \<Rightarrow> AUndef | _ \<Rightarrow> selector0);
          fn = (case fn1 of AFalse \<Rightarrow> Some FalseFn | AFn f \<Rightarrow> Some f | _ \<Rightarrow> None) in
      fold (\<lambda>elem. event_remove d elem types fn (str_of selector)) elems st)"

definition off_map :: "dom \<Rightarrow> nat list \<Rightarrow> (string \<times> js_arg) list \<Rightarrow> js_arg \<Rightarrow> ev_state \<Rightarrow> ev_state" where
  "off_map d elems ts selector st = fold (\<lambda>(t, fn). off_types d elems t selector fn) ts st"

text \<open>\<open>cloneCopyEvent\<close>, the part that copies handlers.\<close>

definition clone_events :: "dom \<Rightarrow> nat \<Rightarrow> nat \<Rightarrow> ev_state \<Rightarrow> ev_state" where
  "clone_events d src dest st =
     (case (if dom_nodeType d dest = 1 then ev_events st src else None) of
        None \<Rightarrow> st
      | Some m \<Rightarrow>
          fold (\<lambda>(t, ho) s. case event_add d dest t (Copied ho) AUndef None s of Inr s' \<Rightarrow> s' | Inl _ \<Rightarrow> s)
            (concat (map (\<lambda>(t, hl). map (Pair t) (handlers hl)) m))
            (st\<lparr>ev_events := (ev_events st)(dest := None), ev_handle := (ev_handle st)(dest := False)\<rparr>))"

section \<open>Handler lists\<close>

text \<open>
  Well formed lists: the handlers with a selector come first, and \<open>delegateCount\<close> counts them.
\<close>

abbreviation delegated :: "handle_obj \<Rightarrow> bool" where
  "delegated ho \<equiv> truthy_sel (ho_selector ho)"

definition hl_wf :: "handler_list \<Rightarrow> bool" where
  "hl_wf hl \<longleftrightarrow> delegateCount hl = int (length (filter delegated (handlers hl))) \<and>
     handlers hl = filter delegated (handlers hl) @ filter (\<lambda>h. \<not> delegated h) (handlers hl)"

lemma hl_wf_iff:
  "hl_wf hl \<longleftrightarrow> (\<exists>ds es. handlers hl = ds @ es \<and> delegateCount hl = int (length ds) \<and>
     list_all delegated ds \<and> list_all (\<lambda>h. \<not> delegated h) es)"
proof
  assume "hl_wf hl"
  then show "\<exists>ds es. handlers hl = ds @ es \<and> delegateCount hl = int (length ds) \<and>
      list_all delegated ds \<and> list_all (\<lambda>h. \<not> delegated h) es"
    unfolding hl_wf_def list_all_iff
    by (intro exI [of _ "filter delegated (handlers hl)"] exI [of _ "filter (\<lambda>h. \<not> delegated h) (handlers hl)"]) auto
next
  assume "\<exists>ds es. handlers hl = ds @ es \<and> delegateCount hl = int (length ds) \<and>
      list_all delegated ds \<and> list_all (\<lambda>h. \<not> delegated h) es"
  then obtain ds es where e: "handlers hl = ds @ es" "delegateCount hl = int (length ds)"
    and l: "list_all delegated ds" "list_all (\<lambda>h. \<not> delegated h) es" by blast
  have "filter delegated (ds @ es) = ds" "filter (\<lambda>h. \<not> delegated h) (ds @ es) = es"
    using l by (auto simp: list_all_iff filter_id_conv filter_empty_conv)
  then show "hl_wf hl" unfolding hl_wf_def e by simp
qed

lemma hl_wf_parts:
  assumes "hl_wf hl"
  shows "take (nat (delegateCount hl)) (handlers hl) = filter delegated (handlers hl)"
    and "drop (nat (delegateCount hl)) (handlers hl) = filter (\<lambda>h. \<not> delegated h) (handlers hl)"
proof -
  obtain ds es where e: "handlers hl = ds @ es" "delegateCount hl = int (length ds)"
    and l: "list_all delegated ds" "list_all (\<lambda>h. \<not> delegated h) es" using assms unfolding hl_wf_iff by blast
  have "filter delegated (ds @ es) = ds" "filter (\<lambda>h. \<not> delegated h) (ds @ es) = es"
    using l by (auto simp: list_all_iff filter_id_conv filter_empty_conv)
  then show "take (nat (delegateCount hl)) (handlers hl) = filter delegated (handlers hl)"
    "drop (nat (delegateCount hl)) (handlers hl) = filter (\<lambda>h. \<not> delegated h) (handlers hl)"
    unfolding e by simp_all
qed

lemma hl_wf_insert:
  assumes "hl_wf hl"
  shows "hl_wf (insert_handler ho hl)"
proof -
  obtain ds es where e: "handlers hl = ds @ es" "delegateCount hl = int (length ds)"
    and l: "list_all delegated ds" "list_all (\<lambda>h. \<not> delegated h) es" using assms unfolding hl_wf_iff by blast
  show ?thesis
  proof (cases "delegated ho")
    case True
    then show ?thesis unfolding hl_wf_iff
      by (intro exI [of _ "ds @ [ho]"] exI [of _ es]) (simp add: insert_handler_def e l)
  next
    case False
    then show ?thesis unfolding hl_wf_iff
      by (intro exI [of _ ds] exI [of _ "es @ [ho]"]) (simp add: insert_handler_def e l)
  qed
qed

lemma insert_handler_not_Nil [simp]: "handlers (insert_handler ho hl) \<noteq> []"
  by (simp add: insert_handler_def)

lemma remove_scan_filter:
  "j \<le> length (handlers hl) \<Longrightarrow>
     handlers (remove_scan m j hl) = filter (\<lambda>h. \<not> m h) (take j (handlers hl)) @ drop j (handlers hl) \<and>
     delegateCount (remove_scan m j hl) = delegateCount hl - int (length (filter (\<lambda>h. m h \<and> delegated h) (take j (handlers hl))))"
proof (induction j arbitrary: hl)
  case (Suc j)
  have t: "take (Suc j) (handlers hl) = take j (handlers hl) @ [handlers hl ! j]"
    using Suc.prems by (simp add: take_Suc_conv_app_nth)
  have d: "drop j (handlers hl) = handlers hl ! j # drop (Suc j) (handlers hl)"
    using Suc.prems by (simp add: Cons_nth_drop_Suc)
  show ?case using Suc.prems Suc.IH t d by (simp add: min_def)
qed simp

lemma remove_scan_all:
  "handlers (remove_scan m (length (handlers hl)) hl) = filter (\<lambda>h. \<not> m h) (handlers hl)"
  using remove_scan_filter [of "length (handlers hl)" hl m] by simp

lemma hl_wf_remove:
  assumes "hl_wf hl"
  shows "hl_wf (remove_scan m (length (handlers hl)) hl)"
proof -
  obtain ds es where e: "handlers hl = ds @ es" "delegateCount hl = int (length ds)"
    and l: "list_all delegated ds" "list_all (\<lambda>h. \<not> delegated h) es" using assms unfolding hl_wf_iff by blast
  have "filter (\<lambda>h. m h \<and> delegated h) (ds @ es) = filter m ds"
    using l by (auto simp: list_all_iff filter_empty_conv intro: filter_cong)
  moreover have "length (filter m ds) + length (filter (\<lambda>h. \<not> m h) ds) = length ds"
    by (rule sum_length_filter_compl)
  ultimately have dc: "delegateCount (remove_scan m (length (handlers hl)) hl) = int (length (filter (\<lambda>h. \<not> m h) ds))"
    using remove_scan_filter [of "length (handlers hl)" hl m] e by simp
  show ?thesis unfolding hl_wf_iff
    by (rule exI [of _ "filter (\<lambda>h. \<not> m h) ds"], rule exI [of _ "filter (\<lambda>h. \<not> m h) es"])
      (use dc l remove_scan_all [of m hl] e(1) in \<open>auto simp: list_all_iff\<close>)
qed

section \<open>The invariant of the event data\<close>

definition event_list :: "ev_state \<Rightarrow> nat \<Rightarrow> string \<Rightarrow> handler_list option" where
  "event_list st elem t = map_of (get_events st elem) t"

definition captures :: "dom \<Rightarrow> string \<Rightarrow> bool" where
  "captures d t \<longleftrightarrow> (case sp_setup (special_of d t) of Capture _ \<Rightarrow> True | _ \<Rightarrow> False)"

text \<open>
  Well formed event data: every list of handlers is well formed and not empty, types are not empty, an
  element listens natively to exactly the types it has handlers for, except those that are captured
  by the document, and it has a main handler as long as it has event data.
\<close>

definition ev_wf :: "dom \<Rightarrow> ev_state \<Rightarrow> bool" where
  "ev_wf d st \<longleftrightarrow>
     (\<forall>e. dict_wf (get_events st e)) \<and>
     (\<forall>e t hl. event_list st e t = Some hl \<longrightarrow> t \<noteq> [] \<and> hl_wf hl \<and> handlers hl \<noteq> []) \<and>
     (\<forall>e t. ev_listen st e t \<longleftrightarrow> dom_native d e \<and> event_list st e t \<noteq> None \<and> \<not> captures d t) \<and>
     (\<forall>e. ev_handle st e \<longleftrightarrow> ev_events st e \<noteq> None)"

lemma event_list_dict: "dict_has (get_events st e) t \<longleftrightarrow> event_list st e t \<noteq> None"
  by (simp add: event_list_def dict_has_iff)

lemma handlers_of_event_list:
  "handlers_of st e t = (case event_list st e t of Some hl \<Rightarrow> hl | None \<Rightarrow> \<lparr>handlers = [], delegateCount = 0\<rparr>)"
  by (simp add: handlers_of_def event_list_def)

lemma put_handlers_simps [simp]:
  "event_list (put_handlers e t hl st) = (event_list st)(e := (event_list st e)(t \<mapsto> hl))"
  "ev_listen (put_handlers e t hl st) = ev_listen st"
  "ev_handle (put_handlers e t hl st) = ev_handle st"
  "ev_events (put_handlers e t hl st) e' = None \<longleftrightarrow> e' \<noteq> e \<and> ev_events st e' = None"
  "ev_guids (put_handlers e t hl st) = ev_guids st"
  by (auto simp: put_handlers_def event_list_def get_events_def fun_eq_iff)

lemma get_events_put: "get_events (put_handlers e t hl st) e' = (if e' = e then dict_set t hl (get_events st e) else get_events st e')"
  by (simp add: put_handlers_def get_events_def)

lemma push_handler_simps [simp]:
  "event_list (push_handler e t ho st) = (event_list st)(e := (event_list st e)(t \<mapsto> insert_handler ho (handlers_of st e t)))"
  "ev_listen (push_handler e t ho st) = ev_listen st"
  "ev_handle (push_handler e t ho st) = ev_handle st"
  "ev_events (push_handler e t ho st) e' = None \<longleftrightarrow> e' \<noteq> e \<and> ev_events st e' = None"
  by (auto simp: push_handler_def put_handlers_def event_list_def get_events_def fun_eq_iff)

lemma get_events_push:
  "get_events (push_handler e t ho st) e' = (if e' = e then dict_set t (insert_handler ho (handlers_of st e t)) (get_events st e) else get_events st e')"
  by (simp add: push_handler_def put_handlers_def get_events_def)

lemma listen_simps [simp]:
  "event_list (listen d e t st) = event_list st"
  "get_events (listen d e t st) = get_events st"
  "ev_events (listen d e t st) = ev_events st"
  "ev_handle (listen d e t st) = ev_handle st"
  "ev_listen (listen d e t st) e' t' \<longleftrightarrow> ev_listen st e' t' \<or> e' = e \<and> t' = t \<and> dom_native d e"
  by (auto simp: listen_def event_list_def get_events_def fun_eq_iff)

lemma leverage_simps [simp]:
  "ev_listen (leverageNative e t st) = ev_listen st"
  "ev_handle (leverageNative e t st) = ev_handle st"
  "ev_events (leverageNative e t st) e' = None \<longleftrightarrow> e' \<noteq> e \<and> ev_events st e' = None"
  by (simp_all add: leverageNative_def Let_def)

text \<open>What setting up a type does: the list of the type may get a controller, and nothing else changes.\<close>

lemma event_list_untouched [simp]:
  "event_list (st\<lparr>ev_claim := a, ev_guids := b, ev_guid := c\<rparr>) = event_list st"
  "event_list (st\<lparr>ev_attaches := f\<rparr>) = event_list st"
  "event_list (st\<lparr>ev_capturing := g\<rparr>) = event_list st"
  "get_events (st\<lparr>ev_claim := a, ev_guids := b, ev_guid := c\<rparr>) = get_events st"
  "get_events (st\<lparr>ev_attaches := f\<rparr>) = get_events st"
  "get_events (st\<lparr>ev_capturing := g\<rparr>) = get_events st"
  by (simp_all add: event_list_def get_events_def fun_eq_iff)

lemma leverage_list:
  assumes "hl_wf (handlers_of st e t)" "\<And>e. dict_wf (get_events st e)"
  shows "\<exists>hl. hl_wf hl \<and> event_list (leverageNative e t st) = (event_list st)(e := (event_list st e)(t \<mapsto> hl))"
    and "dict_wf (get_events (leverageNative e t st) e')"
  using assms hl_wf_insert by (auto simp: leverageNative_def Let_def get_events_push handlers_of_event_list)

lemma setup_type_frame [simp]:
  "ev_handle (setup_type d e t st) = ev_handle st"
  "ev_listen (setup_type d e t st) e' t' \<longleftrightarrow> ev_listen st e' t' \<or> e' = e \<and> t' = t \<and> dom_native d e \<and> \<not> captures d t"
  "ev_events st e \<noteq> None \<Longrightarrow> ev_events (setup_type d e t st) e' = None \<longleftrightarrow> ev_events st e' = None"
  by (auto simp: setup_type_def captures_def Let_def split: setup_kind.splits if_splits)

lemma setup_type_list:
  assumes "event_list st e t = Some hl0" "hl_wf hl0" "\<And>e. dict_wf (get_events st e)"
  shows "\<exists>hl. hl_wf hl \<and> event_list (setup_type d e t st) = (event_list st)(e := (event_list st e)(t \<mapsto> hl))"
    and "dict_wf (get_events (setup_type d e t st) e')"
proof -
  have h: "hl_wf (handlers_of st e t)" using assms by (simp add: handlers_of_event_list)
  have same: "event_list st = (event_list st)(e := (event_list st e)(t \<mapsto> hl0))" using assms(1) by (simp add: fun_upd_idem)
  show "\<exists>hl. hl_wf hl \<and> event_list (setup_type d e t st) = (event_list st)(e := (event_list st e)(t \<mapsto> hl))"
    using leverage_list(1) [OF h assms(3)] same assms(2)
    by (auto simp: setup_type_def Let_def split: setup_kind.split)
  show "dict_wf (get_events (setup_type d e t st) e')"
    using leverage_list(2) [OF h assms(3)] assms(3)
    by (auto simp: setup_type_def Let_def split: setup_kind.split)
qed

lemma split_type_type: "fst (split_type w) = takeWhile (\<lambda>c. c \<noteq> CHR ''.'') w"
  by (simp add: split_type_def Let_def)

lemma kept_type_not_Nil: "t \<noteq> [] \<Longrightarrow> kept_type d sel t \<noteq> []"
  by (auto simp: kept_type_def special_of_def focus_types_def hover_types_def split: if_splits)

lemma get_events_None: "event_list st e t = Some hl \<Longrightarrow> ev_events st e \<noteq> None"
  by (auto simp: event_list_def get_events_def split: option.splits)

text \<open>One word of \<open>jQuery.event.add\<close> keeps the invariant, on an element that has event data.\<close>

lemma ev_wf_push:
  assumes "\<And>e. dict_wf (get_events st e)" "hl_wf (handlers_of st e t)" "t \<noteq> []" "ev_events st e \<noteq> None"
    and "\<And>e' t' hl. event_list st e' t' = Some hl \<Longrightarrow> t' \<noteq> [] \<and> hl_wf hl \<and> (handlers hl \<noteq> [] \<or> e' = e \<and> t' = t)"
    and "\<And>e' t'. ev_listen st e' t' \<longleftrightarrow> dom_native d e' \<and> (event_list st e' t' \<noteq> None \<or> e' = e \<and> t' = t) \<and> \<not> captures d t'"
    and "\<And>e. ev_handle st e \<longleftrightarrow> ev_events st e \<noteq> None"
  shows "ev_wf d (push_handler e t ho st)"
  using assms hl_wf_insert [OF assms(2)] unfolding ev_wf_def
  by (auto simp: get_events_push split: if_splits)

lemma ev_wf_add_type:
  assumes "ev_wf d st" "ev_events st e \<noteq> None"
  shows "ev_wf d (add_type d e arg dat sel w st)" "ev_events (add_type d e arg dat sel w st) e \<noteq> None"
proof -
  obtain o' rest where w: "split_type w = (o', rest)" by fastforce
  define t where "t = kept_type d sel o'"
  note wf = assms(1) [unfolded ev_wf_def]
  show "ev_wf d (add_type d e arg dat sel w st)"
  proof (cases "o' = []")
    case False
    then have t: "t \<noteq> []" by (simp add: t_def kept_type_not_Nil)
    show ?thesis
    proof (cases "event_list st e t")
      case (Some hl)
      then have "hl_wf (handlers_of st e t)" using wf by (auto simp: handlers_of_event_list)
      then show ?thesis using w False t wf assms(2) Some
        unfolding add_type_def by (auto simp: t_def [symmetric] Let_def event_list_dict intro!: ev_wf_push)
    next
      case None
      define st0 where "st0 = put_handlers e t \<lparr>handlers = [], delegateCount = 0\<rparr> st"
      have e0: "event_list st0 e t = Some \<lparr>handlers = [], delegateCount = 0\<rparr>" by (simp add: st0_def)
      have h0: "hl_wf \<lparr>handlers = [], delegateCount = 0\<rparr>" by (simp add: hl_wf_def)
      have d0: "dict_wf (get_events st0 e')" for e' using wf by (simp add: st0_def get_events_put)
      obtain hl where hl: "hl_wf hl" "event_list (setup_type d e t st0) = (event_list st0)(e := (event_list st0 e)(t \<mapsto> hl))"
        using setup_type_list(1) [OF e0 h0 d0] by blast
      have "ev_wf d (push_handler e t ho (setup_type d e t st0))" for ho
      proof (rule ev_wf_push)
        show "dict_wf (get_events (setup_type d e t st0) e')" for e' by (rule setup_type_list(2) [OF e0 h0 d0])
        show "hl_wf (handlers_of (setup_type d e t st0) e t)" using hl by (simp add: handlers_of_event_list)
      qed (use t hl wf None assms(2) in \<open>auto simp: st0_def split: if_splits\<close>)
      then show ?thesis using w False None
        by (simp add: add_type_def t_def [symmetric] st0_def [symmetric] Let_def event_list_dict)
    qed
  qed (use w assms(1) in \<open>simp add: add_type_def\<close>)
  show "ev_events (add_type d e arg dat sel w st) e \<noteq> None"
    using w assms(2) by (simp add: add_type_def Let_def del: not_None_eq)
qed

lemma map_of_filter_key: "map_of (filter (\<lambda>p. fst p \<noteq> t) m) = (map_of m)(t := None)"
  by (induction m) (auto simp: fun_eq_iff)

lemma dict_wf_filter: "dict_wf m \<Longrightarrow> dict_wf (filter P m)"
  by (simp add: dict_wf_def distinct_map_filter)

lemma captures_kept: "captures d t \<Longrightarrow> kept_type d sel t = t"
  by (auto simp: captures_def kept_type_def special_of_def split: if_splits option.splits)

lemma teardown_type_frame:
  "event_list (teardown_type d t0 e t st) = (event_list st)(e := (event_list st e)(t := None))"
  "ev_listen (teardown_type d t0 e t st) e' t' \<longleftrightarrow> ev_listen st e' t' \<and> \<not> (e' = e \<and> t' = t \<and> dom_native d e \<and> \<not> captures d t0)"
  "ev_handle (teardown_type d t0 e t st) = ev_handle st"
  "ev_events (teardown_type d t0 e t st) e' = None \<longleftrightarrow> e' \<noteq> e \<and> ev_events st e' = None"
  "get_events (teardown_type d t0 e t st) e' = (if e' = e then filter (\<lambda>p. fst p \<noteq> t) (get_events st e) else get_events st e')"
  "ev_guids (teardown_type d t0 e t st) = ev_guids st"
  by (auto simp: teardown_type_def captures_def Let_def event_list_def get_events_def map_of_filter_key fun_eq_iff
      split: setup_kind.splits)

text \<open>Removal under one type: the handlers that do not match stay, in their order.\<close>

lemma remove_typed_list:
  assumes "event_list st e (kept_type d sel t0) = Some hl"
    and "m = ho_matches mapped t0 (map_option (ev_guids st) f) (map_option (\<lambda>r. sorted_namespaces (Some r)) rest) sel"
  shows "event_list (remove_typed d e f sel mapped t0 rest st) =
    (event_list st)(e := (event_list st e)(kept_type d sel t0 :=
       (if handlers hl \<noteq> [] \<and> filter (\<lambda>h. \<not> m h) (handlers hl) = [] then None
        else Some (remove_scan m (length (handlers hl)) hl))))"
  using assms(1) unfolding remove_typed_def Let_def assms(2) [symmetric]
  by (auto simp: handlers_of_event_list event_list_dict teardown_type_frame remove_scan_all)

lemma remove_typed_none: "event_list st e (kept_type d sel t0) = None \<Longrightarrow> remove_typed d e f sel mapped t0 rest st = st"
  by (simp add: remove_typed_def Let_def handlers_of_event_list event_list_dict)

lemma ev_wf_list: "ev_wf d st \<Longrightarrow> event_list st e t = Some hl \<Longrightarrow> t \<noteq> [] \<and> hl_wf hl \<and> handlers hl \<noteq> []"
  by (simp add: ev_wf_def)

lemma ev_wf_remove_typed:
  assumes "ev_wf d st"
  shows "ev_wf d (remove_typed d e f sel mapped t0 rest st)"
proof (cases "event_list st e (kept_type d sel t0)")
  case (Some hl)
  define t where "t = kept_type d sel t0"
  define m where "m = ho_matches mapped t0 (map_option (ev_guids st) f) (map_option (\<lambda>r. sorted_namespaces (Some r)) rest) sel"
  note wf = assms [unfolded ev_wf_def]
  have hl: "event_list st e t = Some hl" "t \<noteq> []" "hl_wf hl" "handlers hl \<noteq> []" "ev_events st e \<noteq> None"
    using ev_wf_list [OF assms Some] get_events_None [OF Some] Some unfolding t_def by auto
  define st1 where "st1 = put_handlers e t (remove_scan m (length (handlers hl)) hl) st"
  have r: "remove_typed d e f sel mapped t0 rest st =
      (if filter (\<lambda>h. \<not> m h) (handlers hl) = [] then teardown_type d t0 e t st1 else st1)"
    using hl unfolding remove_typed_def Let_def t_def [symmetric] m_def [symmetric]
    by (simp add: handlers_of_event_list event_list_dict remove_scan_all st1_def)
  have l: "dom_native d e \<and> \<not> captures d t \<longrightarrow> \<not> captures d t0" using captures_kept [of d t0 sel] t_def by auto
  show ?thesis
  proof (cases "filter (\<lambda>h. \<not> m h) (handlers hl) = []")
    case True
    have "ev_wf d (teardown_type d t0 e t st1)"
      using wf hl l unfolding ev_wf_def
      by (auto simp: teardown_type_frame st1_def get_events_put dict_wf_filter split: if_splits)
    then show ?thesis using r True by simp
  next
    case False
    then have "ev_wf d st1"
      using wf hl hl_wf_remove [OF hl(3), of m] unfolding ev_wf_def
      by (auto simp: st1_def get_events_put remove_scan_all split: if_splits)
    then show ?thesis using r False by simp
  qed
qed (simp add: remove_typed_none assms)

lemma clean_events_frame [simp]:
  "event_list (clean_events e st) = event_list st"
  "get_events (clean_events e st) = get_events st"
  "ev_guids (clean_events e st) = ev_guids st"
  "ev_listen (clean_events e st) = ev_listen st"
  by (auto simp: clean_events_def event_list_def get_events_def fun_eq_iff)

lemma ev_wf_clean: "ev_wf d st \<Longrightarrow> ev_wf d (clean_events e st)"
  unfolding ev_wf_def by (auto simp: clean_events_def event_list_def get_events_def)

lemma ev_wf_remove_named: "ev_wf d st \<Longrightarrow> ev_wf d (remove_named d e f sel mapped w st)"
  by (auto simp: remove_named_def ev_wf_remove_typed split: prod.split)

lemma fold_invariant: "P s \<Longrightarrow> (\<And>x s. P s \<Longrightarrow> P (f x s)) \<Longrightarrow> P (fold f xs s)"
  by (induction xs arbitrary: s) auto

lemma ev_wf_remove_type: "ev_wf d st \<Longrightarrow> ev_wf d (remove_type d e f sel w st)"
  unfolding remove_type_def by (auto intro!: fold_invariant [where P = "ev_wf d"] ev_wf_clean ev_wf_remove_named)

lemma ev_wf_remove: "ev_wf d st \<Longrightarrow> ev_wf d (event_remove d e types f sel st)"
  unfolding event_remove_def
  by (auto intro!: ev_wf_clean fold_invariant [where P = "ev_wf d"] ev_wf_remove_type split: option.split)

lemma ensure_guid_frame [simp]:
  "event_list (ensure_guid f st) = event_list st"
  "get_events (ensure_guid f st) = get_events st"
  "ev_events (ensure_guid f st) = ev_events st"
  "ev_listen (ensure_guid f st) = ev_listen st"
  "ev_handle (ensure_guid f st) = ev_handle st"
  by (auto simp: ensure_guid_def event_list_def get_events_def fun_eq_iff)

lemma event_list_guids [simp]:
  "event_list (st\<lparr>ev_guids := g\<rparr>) = event_list st" "get_events (st\<lparr>ev_guids := g\<rparr>) = get_events st"
  by (auto simp: event_list_def get_events_def fun_eq_iff)

lemma ev_wf_add:
  assumes "ev_wf d st" "event_add d e types arg dat sel st = Inr st'"
  shows "ev_wf d st'"
proof -
  define st1 where "st1 = ensure_guid (arg_handler arg) st"
  define st2 where "st2 = st1\<lparr>ev_events := (ev_events st1)(e \<mapsto> get_events st1 e), ev_handle := (ev_handle st1)(e := True)\<rparr>"
  have g: "get_events st2 = get_events st" "ev_events st2 e \<noteq> None"
    by (auto simp: st2_def st1_def get_events_def fun_eq_iff)
  then have "ev_wf d st2" using assms(1) by (auto simp: ev_wf_def event_list_def st2_def st1_def)
  then have "ev_wf d (fold (add_type d e arg dat (arg_selector arg sel)) ws st2)" for ws
    using g(2) ev_wf_add_type
    by (intro conjunct1 [OF fold_invariant [where P = "\<lambda>s. ev_wf d s \<and> ev_events s e \<noteq> None"]]) blast+
  then show ?thesis using assms
    by (auto simp: event_add_def Let_def st2_def st1_def split: if_splits)
qed

lemma ev_wf_add_to_elems: "ev_wf d st \<Longrightarrow> ev_wf d (fst (add_to_elems d types arg dat sel elems st))"
  by (induction elems arbitrary: st) (auto split: sum.split intro: ev_wf_add)

lemma ev_wf_on: "ev_wf d st \<Longrightarrow> ev_wf d (fst (on_types d elems types sel dat fn one st))"
proof -
  assume w: "ev_wf d st"
  have "ev_wf d (ensure_guid f st)" "ev_wf d ((ensure_guid f st)\<lparr>ev_guids := g\<rparr>)" for f g
    using w by (simp_all add: ev_wf_def)
  then show ?thesis using w
    by (auto simp: on_types_def Let_def intro!: ev_wf_add_to_elems split: prod.split option.split)
qed

lemma on_map_invariant:
  assumes on: "\<And>t sel dat fn st. P st \<Longrightarrow> P (fst (on_types d elems t sel dat fn one st))"
  shows "P st \<Longrightarrow> P (fst (on_map d elems ts sel dat one st))"
proof (induction ts arbitrary: st)
  case (Cons p ts)
  obtain t fn where p: "p = (t, fn)" by fastforce
  define dat' where "dat' = (if is_str sel \<or> \<not> (nullish dat \<or> dat = AFalse \<or> dat = AStr []) then dat else sel)"
  define sel' where "sel' = (if is_str sel then sel else AUndef)"
  obtain st1 err where o': "on_types d elems t sel' dat' fn one st = (st1, err)" by fastforce
  have "P st1" using on [OF Cons.prems, of t sel' dat' fn] o' by simp
  moreover have "on_map d elems (p # ts) sel dat one st =
      (case err of Some e \<Rightarrow> (st1, Some e) | None \<Rightarrow> on_map d elems ts sel dat one st1)"
    unfolding p on_map.simps dat'_def [symmetric] sel'_def [symmetric] Let_def o' by (simp split: option.split)
  ultimately show ?case using Cons.IH by (cases err) auto
qed simp

lemma ev_wf_on_map: "ev_wf d st \<Longrightarrow> ev_wf d (fst (on_map d elems ts sel dat one st))"
  by (rule on_map_invariant [of "ev_wf d"]) (rule ev_wf_on)

lemma ev_wf_off: "ev_wf d st \<Longrightarrow> ev_wf d (off_types d elems types sel fn st)"
  unfolding off_types_def Let_def by (auto intro!: fold_invariant [where P = "ev_wf d"] ev_wf_remove)

lemma ev_wf_off_map: "ev_wf d st \<Longrightarrow> ev_wf d (off_map d elems ts sel st)"
  unfolding off_map_def by (rule fold_invariant [where P = "ev_wf d"]) (auto intro: ev_wf_off)

lemma ev_wf_clone: "ev_wf d st \<Longrightarrow> ev_events st dest = None \<Longrightarrow> ev_wf d (clone_events d src dest st)"
  unfolding clone_events_def
  by (auto intro!: fold_invariant [where P = "ev_wf d"] intro: ev_wf_add split: option.split sum.split simp: fun_upd_idem)
    (simp add: ev_wf_def fun_upd_idem)

text \<open>Registrations in any order, also from inside handlers.\<close>

datatype registration =
  On "nat list" string js_arg js_arg js_arg bool
| OnMap "nat list" "(string \<times> js_arg) list" js_arg js_arg bool
| Off "nat list" string js_arg js_arg
| OffMap "nat list" "(string \<times> js_arg) list" js_arg

fun register :: "dom \<Rightarrow> registration \<Rightarrow> ev_state \<Rightarrow> ev_state" where
  "register d (On elems types sel dat fn one) st = fst (on_types d elems types sel dat fn one st)"
| "register d (OnMap elems ts sel dat one) st = fst (on_map d elems ts sel dat one st)"
| "register d (Off elems types sel fn) st = off_types d elems types sel fn st"
| "register d (OffMap elems ts sel) st = off_map d elems ts sel st"

lemma ev_wf_initial: "ev_wf d ev_initial"
  by (simp add: ev_wf_def ev_initial_def event_list_def get_events_def)

lemma ev_wf_register: "ev_wf d st \<Longrightarrow> ev_wf d (register d r st)"
  by (cases r) (simp_all add: ev_wf_on ev_wf_on_map ev_wf_off ev_wf_off_map)

section \<open>Identifiers of functions\<close>

text \<open>
  All identifiers in use are smaller than the next one, and handlers have one; the mark \<open>needsContext\<close> of a
  handler is the one of its selector.
\<close>

definition guids_ok :: "dom \<Rightarrow> ev_state \<Rightarrow> bool" where
  "guids_ok d st \<longleftrightarrow> 0 < ev_guid st \<and> (\<forall>f. ev_guids st f < ev_guid st) \<and>
     (\<forall>e t hl ho. event_list st e t = Some hl \<longrightarrow> ho \<in> set (handlers hl) \<longrightarrow> 0 < ho_guid ho \<and> ho_guid ho < ev_guid st \<and>
       (delegated ho \<longrightarrow> ho_needsContext ho = dom_needsContext d (the (ho_selector ho))))"

lemma set_insert_handler: "set (handlers (insert_handler ho hl)) = insert ho (set (handlers hl))"
proof -
  have "set (handlers hl) = set (take n (handlers hl)) \<union> set (drop n (handlers hl))" for n
    by (metis append_take_drop_id set_append)
  then show ?thesis by (auto simp: insert_handler_def)
qed

lemma push_handler_guids [simp]:
  "ev_guids (push_handler e t ho st) = ev_guids st" "ev_guid (push_handler e t ho st) = ev_guid st"
  by (simp_all add: push_handler_def put_handlers_def)

lemma guids_ok_push:
  assumes "guids_ok d st" "0 < ho_guid ho" "ho_guid ho < ev_guid st"
    and "delegated ho \<Longrightarrow> ho_needsContext ho = dom_needsContext d (the (ho_selector ho))"
  shows "guids_ok d (push_handler e t ho st)"
  using assms unfolding guids_ok_def
  by (auto simp: set_insert_handler handlers_of_event_list split: if_splits option.splits)

lemma guids_ok_leverage: "guids_ok d st \<Longrightarrow> guids_ok d (leverageNative e t st)"
  unfolding leverageNative_def Let_def
  by (rule guids_ok_push) (auto simp: guids_ok_def less_SucI truthy_sel_def)

lemma leverage_guids: "ev_guids st f \<noteq> 0 \<Longrightarrow> guids_ok d st \<Longrightarrow> ev_guids (leverageNative e t st) f \<noteq> 0"
  by (simp add: leverageNative_def Let_def guids_ok_def)

lemma guids_ok_listen: "guids_ok d (listen d e t st) = guids_ok d st" "ev_guids (listen d e t st) = ev_guids st"
  "ev_guid (listen d e t st) = ev_guid st"
  unfolding guids_ok_def by (simp_all, simp_all add: listen_def)

lemma guids_ok_setup:
  assumes "guids_ok d st"
  shows "guids_ok d (setup_type d e t st)" "ev_guids st f \<noteq> 0 \<Longrightarrow> ev_guids (setup_type d e t st) f \<noteq> 0"
    "ev_guid st \<le> ev_guid (setup_type d e t st)"
proof -
  have "guids_ok d (st\<lparr>ev_attaches := a\<rparr>)" "guids_ok d (st\<lparr>ev_capturing := c\<rparr>)" "guids_ok d (st\<lparr>ev_capturing := c, ev_attaches := a\<rparr>)" for a c
    using assms by (simp_all add: guids_ok_def)
  then show "guids_ok d (setup_type d e t st)"
    using assms by (auto simp: setup_type_def guids_ok_listen guids_ok_leverage Let_def split: setup_kind.split)
  show "ev_guids st f \<noteq> 0 \<Longrightarrow> ev_guids (setup_type d e t st) f \<noteq> 0"
    using assms leverage_guids [of st f d e t] by (auto simp: setup_type_def guids_ok_listen Let_def split: setup_kind.split)
  show "ev_guid st \<le> ev_guid (setup_type d e t st)"
    by (auto simp: setup_type_def guids_ok_listen leverageNative_def Let_def split: setup_kind.split)
qed

lemma guids_ok_put: "guids_ok d st \<Longrightarrow> guids_ok d (put_handlers e t \<lparr>handlers = [], delegateCount = 0\<rparr> st)"
  unfolding guids_ok_def by (auto simp: put_handlers_def event_list_def get_events_def split: if_splits)

text \<open>Handlers given as functions get the identifier of the function.\<close>

lemma guids_ok_add_type:
  assumes "guids_ok d st" "ev_guids st f \<noteq> 0"
  shows "guids_ok d (add_type d e (Plain f) dat sel w st)" "ev_guids (add_type d e (Plain f) dat sel w st) f \<noteq> 0"
proof -
  obtain t0 rest where w: "split_type w = (t0, rest)" by fastforce
  define t where "t = kept_type d sel t0"
  define st0 where "st0 = put_handlers e t \<lparr>handlers = [], delegateCount = 0\<rparr> st"
  define st1 where "st1 = (if dict_has (get_events st e) t then st else setup_type d e t st0)"
  have "guids_ok d st0" "ev_guids st0 = ev_guids st" "ev_guid st0 = ev_guid st"
    using guids_ok_put [OF assms(1)] by (simp_all add: st0_def) (simp add: put_handlers_def)
  then have st1: "guids_ok d st1" "ev_guids st1 f \<noteq> 0" "ev_guid st \<le> ev_guid st1"
    using assms guids_ok_setup(1,3) [of d st0 e t] guids_ok_setup(2) [of d st0 f e t] by (auto simp: st1_def)
  have g: "ev_guids st f < ev_guid st1" using st1(3) assms(1) unfolding guids_ok_def by (meson less_le_trans)
  have a: "add_type d e (Plain f) dat sel w st = (if t0 = [] then st else push_handler e t
      (make_handle_obj d (Plain f) dat sel (ev_guids st f) t t0 (sorted_namespaces rest)) st1)"
    using w by (simp add: add_type_def Let_def t_def [symmetric] st0_def [symmetric] st1_def)
  show "guids_ok d (add_type d e (Plain f) dat sel w st)" "ev_guids (add_type d e (Plain f) dat sel w st) f \<noteq> 0"
    unfolding a using assms st1 g by (auto intro!: guids_ok_push simp: make_handle_obj_def)
qed

lemma guids_ok_ensure: "guids_ok d st \<Longrightarrow> guids_ok d (ensure_guid f st)" "ev_guids (ensure_guid f st) f \<noteq> 0 \<or> \<not> guids_ok d st"
  unfolding guids_ok_def by (auto simp: ensure_guid_def event_list_def get_events_def less_SucI)

lemma ensure_guid_idem: "guids_ok d st \<Longrightarrow> ensure_guid f (ensure_guid f st) = ensure_guid f st"
  by (auto simp: ensure_guid_def guids_ok_def)

lemma guids_ok_add:
  assumes "guids_ok d st" "event_add d e types (Plain f) dat sel st = Inr st'"
  shows "guids_ok d st'"
proof -
  define st1 where "st1 = ensure_guid f st"
  define st2 where "st2 = st1\<lparr>ev_events := (ev_events st1)(e \<mapsto> get_events st1 e), ev_handle := (ev_handle st1)(e := True)\<rparr>"
  have s: "event_list st2 = event_list st1" by (auto simp: st2_def event_list_def get_events_def fun_eq_iff)
  have g1: "guids_ok d st1" "ev_guids st1 f \<noteq> 0" using guids_ok_ensure(1) [of d st f] guids_ok_ensure(2) [of f st d] assms(1) by (auto simp: st1_def)
  then have g: "guids_ok d st2 \<and> ev_guids st2 f \<noteq> 0" unfolding guids_ok_def s by (auto simp: st2_def)
  have "guids_ok d (fold (add_type d e (Plain f) dat sel) ws st2)" for ws
    by (rule conjunct1 [OF fold_invariant [where P = "\<lambda>s. guids_ok d s \<and> ev_guids s f \<noteq> 0", OF g]])
      (use guids_ok_add_type in blast)
  then show ?thesis using assms
    by (auto simp: event_add_def Let_def st2_def st1_def split: if_splits)
qed

lemma guids_ok_add_to_elems: "guids_ok d st \<Longrightarrow> guids_ok d (fst (add_to_elems d types (Plain f) dat sel elems st))"
  by (induction elems arbitrary: st) (auto split: sum.split intro: guids_ok_add)

lemma guids_ok_on: "guids_ok d st \<Longrightarrow> guids_ok d (fst (on_types d elems types sel dat fn one st))"
proof -
  assume w: "guids_ok d st"
  have "guids_ok d ((ensure_guid f st)\<lparr>ev_guids := (ev_guids (ensure_guid f st))(g := ev_guids (ensure_guid f st) f)\<rparr>)" for f g
    using guids_ok_ensure(1) [OF w, of f] by (auto simp: guids_ok_def)
  then show ?thesis using w
    by (auto simp: on_types_def Let_def intro!: guids_ok_add_to_elems split: prod.split option.split)
qed

lemma guids_ok_on_map: "guids_ok d st \<Longrightarrow> guids_ok d (fst (on_map d elems ts sel dat one st))"
  by (rule on_map_invariant [of "guids_ok d"]) (rule guids_ok_on)

text \<open>Removal only takes handlers away.\<close>

lemma remove_typed_frame:
  "ev_guids (remove_typed d e f sel mapped t0 rest st) = ev_guids st"
  "ev_guid (remove_typed d e f sel mapped t0 rest st) = ev_guid st"
proof -
  have "ev_guid (put_handlers e t hl st) = ev_guid st" for e t hl st by (simp add: put_handlers_def)
  moreover have "ev_guid (teardown_type d t0 e t st) = ev_guid st" for t st
    by (auto simp: teardown_type_def Let_def split: setup_kind.split)
  ultimately show "ev_guids (remove_typed d e f sel mapped t0 rest st) = ev_guids st"
    "ev_guid (remove_typed d e f sel mapped t0 rest st) = ev_guid st"
    by (auto simp: remove_typed_def Let_def teardown_type_frame)
qed

lemma guids_ok_remove_typed:
  assumes "guids_ok d st"
  shows "guids_ok d (remove_typed d e f sel mapped t0 rest st)"
proof (cases "event_list st e (kept_type d sel t0)")
  case (Some hl)
  show ?thesis using assms Some
    unfolding guids_ok_def remove_typed_list [OF Some refl] remove_typed_frame
    by (auto simp: remove_scan_all split: if_splits)
qed (simp add: remove_typed_none assms)

lemma guids_ok_clean: "guids_ok d st \<Longrightarrow> guids_ok d (clean_events e st)"
  unfolding guids_ok_def clean_events_frame by (simp add: clean_events_def)

lemma guids_ok_remove_named: "guids_ok d st \<Longrightarrow> guids_ok d (remove_named d e f sel mapped w st)"
  by (auto simp: remove_named_def guids_ok_remove_typed split: prod.split)

lemma guids_ok_remove: "guids_ok d st \<Longrightarrow> guids_ok d (event_remove d e types f sel st)"
  unfolding event_remove_def remove_type_def
  by (auto intro!: guids_ok_clean guids_ok_remove_named fold_invariant [where P = "guids_ok d"] split: option.split)

lemma guids_ok_register: "guids_ok d st \<Longrightarrow> guids_ok d (register d r st)"
  by (cases r) (auto simp: off_types_def off_map_def Let_def guids_ok_on guids_ok_on_map
      intro!: fold_invariant [where P = "guids_ok d"] guids_ok_remove)

lemma guids_ok_initial: "guids_ok d ev_initial"
  by (simp add: guids_ok_def ev_initial_def event_list_def get_events_def)

text \<open>The states that registrations lead to.\<close>

inductive ev_reachable :: "dom \<Rightarrow> ev_state \<Rightarrow> bool" for d where
  start: "ev_reachable d ev_initial"
| step: "ev_reachable d st \<Longrightarrow> ev_reachable d (register d r st)"

lemma ev_reachable_wf: "ev_reachable d st \<Longrightarrow> ev_wf d st \<and> guids_ok d st"
  by (induction rule: ev_reachable.induct)
    (simp_all add: ev_wf_initial guids_ok_initial ev_wf_register guids_ok_register)

section \<open>Properties\<close>

lemma hl_wf_eq: "hl_wf a \<Longrightarrow> hl_wf b \<Longrightarrow> handlers a = handlers b \<Longrightarrow> a = b"
  by (auto simp: hl_wf_def)

lemma filter_insert_handler: "filter P (handlers (insert_handler ho hl)) =
    filter P (take (nat (delegateCount hl)) (handlers hl)) @ (if P ho \<and> delegated ho then [ho] else []) @
    filter P (drop (nat (delegateCount hl)) (handlers hl)) @ (if P ho \<and> \<not> delegated ho then [ho] else [])"
proof -
  have "filter P (handlers hl) = filter P (take n (handlers hl)) @ filter P (drop n (handlers hl))" for n
    by (metis append_take_drop_id filter_append)
  then show ?thesis by (simp add: insert_handler_def)
qed

text \<open>Adding a handler and removing what matches only it gives the list back.\<close>

lemma remove_inserted:
  assumes "hl_wf hl" "m ho" "\<And>h. h \<in> set (handlers hl) \<Longrightarrow> \<not> m h"
  shows "remove_scan m (length (handlers (insert_handler ho hl))) (insert_handler ho hl) = hl"
    and "filter (\<lambda>h. \<not> m h) (handlers (insert_handler ho hl)) = handlers hl"
proof -
  have "filter (\<lambda>h. \<not> m h) (take n (handlers hl)) = take n (handlers hl)" "filter (\<lambda>h. \<not> m h) (drop n (handlers hl)) = drop n (handlers hl)" for n
    using assms(3) by (auto simp: filter_id_conv dest: in_set_takeD in_set_dropD)
  then show f: "filter (\<lambda>h. \<not> m h) (handlers (insert_handler ho hl)) = handlers hl"
    unfolding filter_insert_handler using assms(2) by simp
  show "remove_scan m (length (handlers (insert_handler ho hl))) (insert_handler ho hl) = hl"
    by (rule hl_wf_eq [OF hl_wf_remove [OF hl_wf_insert [OF assms(1)]] assms(1)]) (simp add: remove_scan_all f)
qed

text \<open>A type that is set up without a controller, or has been set up before.\<close>

definition unclaimed :: "dom \<Rightarrow> nat \<Rightarrow> string \<Rightarrow> ev_state \<Rightarrow> bool" where
  "unclaimed d e t st \<longleftrightarrow> event_list st e t \<noteq> None \<or>
     (case sp_setup (special_of d t) of NoSetup \<Rightarrow> True | Capture _ \<Rightarrow> True | ClaimCheckable \<Rightarrow> \<not> dom_checkable d e | ClaimFocus \<Rightarrow> False)"

lemma setup_unclaimed:
  assumes "unclaimed d e t st" "event_list st e t = None"
  shows "event_list (setup_type d e t st') = event_list st'"
    and "ev_guids (setup_type d e t st') = ev_guids st'"
  using assms by (auto simp: unclaimed_def setup_type_def Let_def guids_ok_listen split: setup_kind.splits)

lemma add_type_list:
  assumes "split_type w = (t0, rest)" "t0 \<noteq> []" "unclaimed d e (kept_type d sel t0) st"
  shows "event_list (add_type d e arg dat sel w st) =
      (event_list st)(e := (event_list st e)(kept_type d sel t0 \<mapsto> insert_handler
         (make_handle_obj d arg dat sel (ev_guids st (arg_handler arg)) (kept_type d sel t0) t0 (sorted_namespaces rest))
         (handlers_of st e (kept_type d sel t0))))"
    and "ev_guids (add_type d e arg dat sel w st) = ev_guids st"
  using assms setup_unclaimed [OF assms(3)]
  by (auto simp: add_type_def Let_def event_list_dict handlers_of_event_list fun_upd_twist)

text \<open>The same namespaces, in any order.\<close>

definition same_names :: "string option \<Rightarrow> string option \<Rightarrow> bool" where
  "same_names r r' \<longleftrightarrow> sorted_namespaces r = sorted_namespaces r' \<and> (r = None \<longleftrightarrow> r' = None)"

lemma ho_matches_made:
  assumes "ev_guids st f = g" "same_names rest' rest"
  shows "ho_matches mapped t0 (map_option (ev_guids st) (Some f)) (map_option (\<lambda>r. sorted_namespaces (Some r)) rest') sel
    (make_handle_obj d (Plain h) dat sel g t t0 (sorted_namespaces rest))"
proof -
  have "ns_test (sorted_namespaces (Some r)) (join ''.'' (sorted_namespaces rest))" if "rest' = Some r" for r
    using assms(2) that by (cases rest) (auto simp: same_names_def, metis ns_test_mset subset_mset.order_refl)
  then show ?thesis using assms(1) by (auto simp: ho_matches_def make_handle_obj_def split: option.split)
qed

lemma ho_matches_guid: "ho_matches mapped t0 (Some g) ns sel ho \<Longrightarrow> ho_guid ho = g"
  by (simp add: ho_matches_def)

lemma remove_one_word:
  assumes "html_words types = [w]" "split_type w = (t0, rest)" "t0 \<noteq> []"
  shows "event_list (event_remove d e types f sel st) = event_list (remove_typed d e f sel False t0 rest st)"
proof (cases "ev_events st e")
  case None
  then have "event_list st e (kept_type d sel t0) = None" by (simp add: event_list_def get_events_def)
  then show ?thesis using None by (simp add: event_remove_def remove_typed_none)
qed (use assms in \<open>simp add: event_remove_def type_words_def remove_type_def remove_named_def\<close>)

lemma add_one_word:
  assumes "html_words types = [w]" "dom_accepts d e" "\<not> (truthy_sel sel \<and> dom_badSelector d (the sel))" "ev_guids st g \<noteq> 0"
  shows "\<exists>st1. event_add d e types (Plain g) dat sel st = Inr (add_type d e (Plain g) dat sel w st1) \<and>
    event_list st1 = event_list st \<and> ev_guids st1 = ev_guids st"
proof -
  define st1 where "st1 = st\<lparr>ev_events := (ev_events st)(e \<mapsto> get_events st e), ev_handle := (ev_handle st)(e := True)\<rparr>"
  have "event_list st1 = event_list st" "ev_guids st1 = ev_guids st"
    by (auto simp: st1_def event_list_def get_events_def fun_eq_iff)
  moreover have "event_add d e types (Plain g) dat sel st = Inr (add_type d e (Plain g) dat sel w st1)"
    using assms by (simp add: event_add_def Let_def ensure_guid_def type_words_def st1_def)
  ultimately show ?thesis by blast
qed

lemma add_remove_inverse:
  assumes wf: "ev_wf d st" and w: "html_words types = [w]" "split_type w = (t0, rest)" "t0 \<noteq> []"
    and w': "html_words types' = [w']" "split_type w' = (t0, rest')" "same_names rest' rest"
    and ok: "dom_accepts d e" "\<not> (truthy_sel sel \<and> dom_badSelector d (the sel))" "unclaimed d e (kept_type d sel t0) st"
    and g: "ev_guids st g \<noteq> 0" "ev_guids st f = ev_guids st g"
    and new: "\<And>ho. ho \<in> set (handlers (handlers_of st e (kept_type d sel t0))) \<Longrightarrow> ho_guid ho \<noteq> ev_guids st g"
  shows "\<exists>st'. event_add d e types (Plain g) dat sel st = Inr st' \<and>
    event_list (event_remove d e types' (Some f) sel st') = event_list st"
proof -
  define t where "t = kept_type d sel t0"
  define hl where "hl = handlers_of st e t"
  obtain st1 where st1: "event_add d e types (Plain g) dat sel st = Inr (add_type d e (Plain g) dat sel w st1)"
    "event_list st1 = event_list st" "ev_guids st1 = ev_guids st" using add_one_word [OF w(1) ok(1,2) g(1)] by blast
  define ho where "ho = make_handle_obj d (Plain g) dat sel (ev_guids st g) t t0 (sorted_namespaces rest)"
  define st' where "st' = add_type d e (Plain g) dat sel w st1"
  have u: "unclaimed d e (kept_type d sel t0) st1" using ok(3) st1(2) by (simp add: unclaimed_def)
  have l: "event_list st' = (event_list st)(e := (event_list st e)(t \<mapsto> insert_handler ho hl))"
    and gs: "ev_guids st' = ev_guids st"
    using add_type_list [OF w(2,3) u, of "Plain g" dat] st1
    by (simp_all add: st'_def ho_def hl_def t_def handlers_of_event_list)
  define m where "m = ho_matches False t0 (map_option (ev_guids st') (Some f)) (map_option (\<lambda>r. sorted_namespaces (Some r)) rest') sel"
  have mho: "m ho" unfolding m_def ho_def gs by (rule ho_matches_made [OF g(2) w'(3)])
  have mh: "\<not> m h" if "h \<in> set (handlers hl)" for h
    using ho_matches_guid [of False t0 "ev_guids st g" _ sel h] new that g(2) by (auto simp: m_def gs hl_def t_def)
  have hl: "hl_wf hl" "event_list st e t = (if handlers hl = [] then None else Some hl)"
    using ev_wf_list [OF wf, of e t] by (auto simp: hl_def handlers_of_event_list hl_wf_def split: option.split)
  have k: "event_list st' e (kept_type d sel t0) = Some (insert_handler ho hl)" by (simp add: l t_def)
  have "event_list (event_remove d e types' (Some f) sel st') = (event_list st')(e := (event_list st' e)(t :=
      (if filter (\<lambda>h. \<not> m h) (handlers (insert_handler ho hl)) = [] then None
       else Some (remove_scan m (length (handlers (insert_handler ho hl))) (insert_handler ho hl)))))"
    unfolding remove_one_word [OF w'(1,2) w(3)] remove_typed_list [OF k m_def] by (simp add: t_def)
  also have "\<dots> = event_list st"
    using hl(2) remove_inserted [where m = m, OF hl(1) mho mh]
    by (cases "handlers hl = []") (simp_all add: l fun_upd_idem)
  finally show ?thesis using st1(1) st'_def by blast
qed

text \<open>C27:
  Event data stays consistent: whatever sequence of calls of \<open>on\<close>, \<open>one\<close> and \<open>off\<close> is made (with selectors,
  namespaces, data, unknown types, from inside handlers or not), an element listens natively to exactly
  the types it has handlers for (except types the document captures for it), no empty list is kept,
  and in every list the handlers with a selector come first and \<open>delegateCount\<close> is their number.
\<close>

theorem event_data_consistent:
  assumes "ev_reachable d st"
  shows "(\<forall>e t. ev_listen st e t \<longleftrightarrow> dom_native d e \<and> event_list st e t \<noteq> None \<and> \<not> captures d t) \<and>
    (\<forall>e t hl. event_list st e t = Some hl \<longrightarrow> handlers hl \<noteq> [] \<and>
       handlers hl = filter delegated (handlers hl) @ filter (\<lambda>h. \<not> delegated h) (handlers hl) \<and>
       delegateCount hl = int (length (filter delegated (handlers hl))))"
proof -
  have w: "ev_wf d st" using ev_reachable_wf [OF assms] ..
  have "handlers hl \<noteq> [] \<and> handlers hl = filter delegated (handlers hl) @ filter (\<lambda>h. \<not> delegated h) (handlers hl) \<and>
      delegateCount hl = int (length (filter delegated (handlers hl)))" if "event_list st e t = Some hl" for e t hl
    using ev_wf_list [OF w that] unfolding hl_wf_def by blast
  moreover have "\<forall>e t. ev_listen st e t \<longleftrightarrow> dom_native d e \<and> event_list st e t \<noteq> None \<and> \<not> captures d t"
    using w unfolding ev_wf_def by blast
  ultimately show ?thesis by blast
qed

text \<open>A document for the witnesses: elements 0 to 9 below the document 10; selectors match everywhere.\<close>

definition demo_dom :: dom where
  "demo_dom = \<lparr>dom_accepts = (\<lambda>_. True), dom_native = (\<lambda>_. True), dom_checkable = (\<lambda>_. False), dom_document = (\<lambda>_. 10),
     dom_parent = (\<lambda>n. if n < 10 then Some (n + 1) else None), dom_nodeType = (\<lambda>n. if n = 10 then 9 else 1),
     dom_disabled = (\<lambda>_. False), dom_badSelector = (\<lambda>s. s = ''!''), dom_needsContext = (\<lambda>_. False),
     dom_find = (\<lambda>_ _ _. True), dom_index = (\<lambda>_ _ _. True), dom_contains = (\<lambda>a b. b < a), dom_focusin = False\<rparr>"

theorem event_data_consistent_witness:
  "ev_listen (register demo_dom (On [1] ''click.a'' AUndef AUndef (AFn (User 0)) False) ev_initial) 1 ''click'' \<longleftrightarrow>
     event_list (register demo_dom (On [1] ''click.a'' AUndef AUndef (AFn (User 0)) False) ev_initial) 1 ''click'' \<noteq> None"
proof -
  have c: "\<not> captures demo_dom ''click''" by (simp add: captures_def special_of_def)
  have "ev_reachable demo_dom (register demo_dom (On [1] ''click.a'' AUndef AUndef (AFn (User 0)) False) ev_initial)"
    by (intro ev_reachable.intros)
  from event_data_consistent [OF this] c show ?thesis by (simp add: demo_dom_def)
qed

lemma on_off_lists:
  assumes "ev_reachable d st" "html_words types = [w]" "split_type w = (t0, rest)" "t0 \<noteq> []"
    and "dom_accepts d e" "selector = AUndef \<or> (\<exists>s. selector = AStr s \<and> \<not> dom_badSelector d s)"
    and "unclaimed d e (kept_type d (str_of selector) t0) st" "ev_guids st f = 0" "\<forall>g. f \<noteq> Once g"
  shows "event_list (off_types d [e] types selector (AFn f) (fst (on_types d [e] types selector dat (AFn f) one st))) = event_list st"
proof -
  define sel where "sel = str_of selector"
  define g where "g = (if one then Once f else f)"
  define st1 where "st1 = ensure_guid f st"
  define st2 where "st2 = (if one then st1\<lparr>ev_guids := (ev_guids st1)(Once f := ev_guids st1 f)\<rparr> else st1)"
  note r = ev_reachable_wf [OF assms(1)]
  have l: "event_list st2 = event_list st" by (simp add: st2_def st1_def)
  have gs: "ev_guids st2 g = ev_guid st" "ev_guids st2 f = ev_guid st" "ev_guid st \<noteq> 0"
    using assms(8,9) r by (auto simp: st2_def st1_def g_def ensure_guid_def guids_ok_def)
  have wf: "ev_wf d st2" using r unfolding st2_def st1_def ev_wf_def by simp
  have bad: "\<not> (truthy_sel sel \<and> dom_badSelector d (the sel))" using assms(6) by (auto simp: sel_def truthy_sel_def)
  have u: "unclaimed d e (kept_type d sel t0) st2" using assms(7) l by (simp add: unclaimed_def sel_def)
  have new: "ho_guid ho \<noteq> ev_guids st2 g" if "ho \<in> set (handlers (handlers_of st2 e (kept_type d sel t0)))" for ho
    using that r l gs(1) by (fastforce simp: guids_ok_def handlers_of_event_list split: option.splits)
  obtain st' where st': "event_add d e types (Plain g) dat sel st2 = Inr st'"
    "event_list (event_remove d e types (Some f) sel st') = event_list st2"
    using add_remove_inverse [OF wf assms(2-4) assms(2,3) _ assms(5) bad u _ _ new, of f dat] gs by (auto simp: same_names_def)
  have "fst (on_types d [e] types selector dat (AFn f) one st) =
      (case event_add d e types (Plain g) dat sel (if one then st2 else st) of Inr st' \<Rightarrow> st' | Inl _ \<Rightarrow> (if one then st2 else st))"
    by (simp add: on_types_def on_arguments_def nullish_def Let_def st1_def st2_def g_def sel_def split: sum.split)
  moreover have "event_add d e types (Plain g) dat sel st = event_add d e types (Plain g) dat sel st2" if "\<not> one"
    using that assms(5) bad ensure_guid_idem [of d st f] r by (simp add: event_add_def Let_def st2_def st1_def g_def)
  ultimately have "fst (on_types d [e] types selector dat (AFn f) one st) = st'" using st'(1) by (cases one) auto
  then show ?thesis using st'(2) l assms(6) by (auto simp: off_types_def sel_def)
qed

text \<open>\<open>off\<close> undoes \<open>on\<close>: when a function that has not been used before is registered with \<open>on\<close> or \<open>one\<close> for a type, with or
  without namespaces, selector and data, and removed again with the same type and selector, then all
  handler lists are as before, in order and content (the type being one that puts no controller in front).
\<close>

theorem on_off_inverse:
  assumes "ev_reachable d st" "html_words types = [w]" "split_type w = (t0, rest)" "t0 \<noteq> []"
    and "dom_accepts d e" "selector = AUndef \<or> (\<exists>s. selector = AStr s \<and> \<not> dom_badSelector d s)"
    and "unclaimed d e (kept_type d (str_of selector) t0) st" "ev_guids st f = 0" "\<forall>g. f \<noteq> Once g"
  shows "event_list (off_types d [e] types selector (AFn f) (fst (on_types d [e] types selector dat (AFn f) one st))) = event_list st"
  using assms by (rule on_off_lists)

theorem on_off_inverse_witness:
  "event_list (off_types demo_dom [1] ''keyup.menu'' (AStr ''li'') (AFn (User 7))
     (fst (on_types demo_dom [1] ''keyup.menu'' (AStr ''li'') (AObj 3) (AFn (User 7)) True
       (register demo_dom (On [1] ''keyup'' AUndef AUndef (AFn (User 0)) False) ev_initial)))) =
   event_list (register demo_dom (On [1] ''keyup'' AUndef AUndef (AFn (User 0)) False) ev_initial)"
proof (rule on_off_inverse [where w = "''keyup.menu''" and ?t0.0 = "''keyup''" and rest = "Some ''menu''"])
  show "ev_reachable demo_dom (register demo_dom (On [1] ''keyup'' AUndef AUndef (AFn (User 0)) False) ev_initial)"
    by (intro ev_reachable.intros)
  show "html_words ''keyup.menu'' = [''keyup.menu'']" by code_simp
  show "split_type ''keyup.menu'' = (''keyup'', Some ''menu'')" by (simp add: split_type_def)
  show "ev_guids (register demo_dom (On [1] ''keyup'' AUndef AUndef (AFn (User 0)) False) ev_initial) (User 7) = 0" by code_simp
  show "unclaimed demo_dom 1 (kept_type demo_dom (str_of (AStr ''li'')) ''keyup'')
      (register demo_dom (On [1] ''keyup'' AUndef AUndef (AFn (User 0)) False) ev_initial)"
    by (simp add: unclaimed_def kept_type_def special_of_def focus_types_def hover_types_def demo_dom_def)
qed (simp_all add: demo_dom_def)

text \<open>The count of the capturing listeners of a document.\<close>

lemma attaches_frame [simp]:
  "ev_attaches (put_handlers e t hl st) = ev_attaches st"
  "ev_attaches (push_handler e t ho st) = ev_attaches st"
  "ev_attaches (clean_events e st) = ev_attaches st"
  "ev_attaches (ensure_guid f st) = ev_attaches st"
  by (simp_all add: put_handlers_def push_handler_def clean_events_def ensure_guid_def)

lemma remove_typed_attaches:
  assumes "event_list st e (kept_type d sel t0) = Some hl" "event_list (remove_typed d e f sel mapped t0 rest st) e (kept_type d sel t0) = None"
  shows "ev_attaches (remove_typed d e f sel mapped t0 rest st) =
    (if captures d t0 then (ev_attaches st)(dom_document d e := (ev_attaches st (dom_document d e))(t0 := ev_attaches st (dom_document d e) t0 - 1))
     else ev_attaches st)"
proof -
  define m where "m = ho_matches mapped t0 (map_option (ev_guids st) f) (map_option (\<lambda>r. sorted_namespaces (Some r)) rest) sel"
  have "handlers hl \<noteq> [] \<and> handlers (remove_scan m (length (handlers hl)) hl) = []"
    using assms(2) unfolding remove_typed_list [OF assms(1) m_def] remove_scan_all by (simp split: if_splits)
  then show ?thesis using assms(1) unfolding remove_typed_def Let_def m_def [symmetric]
    by (auto simp: handlers_of_event_list event_list_dict teardown_type_def captures_def Let_def fun_eq_iff split: setup_kind.split)
qed

lemma capture_attaches:
  assumes "ev_reachable d st" "dom_accepts d e" "selector = AUndef \<or> (\<exists>s. selector = AStr s \<and> \<not> dom_badSelector d s)"
    and "ev_guids st f = 0" "\<forall>g. f \<noteq> Once g" "html_words t0 = [t0]" "split_type t0 = (t0, None)" "t0 \<noteq> []"
    and t: "t = kept_type d (str_of selector) t0" "captures d t" "event_list st e t = None"
  defines "st' \<equiv> off_types d [e] t0 selector (AFn f) (fst (on_types d [e] t0 selector AUndef (AFn f) False st))"
  shows "event_list st' = event_list st"
    and "ev_attaches st' (dom_document d e) t = (if captures d t0 then ev_attaches st (dom_document d e) t else ev_attaches st (dom_document d e) t + 1)"
proof -
  define sel where "sel = str_of selector"
  define st1 where "st1 = ensure_guid f st"
  define st2 where "st2 = st1\<lparr>ev_events := (ev_events st1)(e \<mapsto> get_events st1 e), ev_handle := (ev_handle st1)(e := True)\<rparr>"
  define st3 where "st3 = add_type d e (Plain f) AUndef sel t0 st2"
  have bad: "\<not> (truthy_sel sel \<and> dom_badSelector d (the sel))" using assms(3) by (auto simp: sel_def truthy_sel_def)
  have u: "unclaimed d e t st" using t(2) by (auto simp: unclaimed_def captures_def split: setup_kind.splits)
  show l: "event_list st' = event_list st"
    unfolding st'_def using u t(1) assms(2-8) by (intro on_off_lists [OF assms(1,6,7)]) auto
  have l2: "event_list st2 = event_list st" by (auto simp: st2_def st1_def event_list_def get_events_def fun_eq_iff ensure_guid_def)
  obtain hl where l3: "event_list st3 e t = Some hl"
    using assms(7,8) t(1) by (auto simp: st3_def add_type_def Let_def sel_def)
  then have e3: "ev_events st3 e \<noteq> None" using get_events_None by blast
  have "fst (on_types d [e] t0 selector AUndef (AFn f) False st) = st3"
    using assms(2,6,8) bad by (auto simp: on_types_def on_arguments_def nullish_def Let_def sel_def event_add_def st1_def st2_def st3_def type_words_def)
  then have st': "st' = clean_events e (remove_typed d e (Some f) sel False t0 None st3)"
    using assms(3,6,7,8) e3
    unfolding st'_def by (auto simp: off_types_def sel_def event_remove_def type_words_def remove_type_def remove_named_def)
  have "ev_attaches st3 (dom_document d e) t = ev_attaches st (dom_document d e) t + 1"
    using assms(7,8) t l2 by (auto simp: st3_def add_type_def Let_def sel_def event_list_dict setup_type_def captures_def st2_def st1_def
        split: setup_kind.splits)
  moreover have "ev_attaches (remove_typed d e (Some f) sel False t0 None st3) =
    (if captures d t0 then (ev_attaches st3)(dom_document d e := (ev_attaches st3 (dom_document d e))(t0 := ev_attaches st3 (dom_document d e) t0 - 1))
     else ev_attaches st3)"
    using l3 l t st' by (intro remove_typed_attaches [where hl = hl]) (auto simp: sel_def)
  ultimately show "ev_attaches st' (dom_document d e) t = (if captures d t0 then ev_attaches st (dom_document d e) t else ev_attaches st (dom_document d e) t + 1)"
    using t(1) captures_kept [of d t0 sel] by (auto simp: st' sel_def)
qed

text \<open>Delegated focus handlers leak: \<open>add\<close> keeps them under \<open>focusin\<close> and counts a capturing listener of the document,
  but \<open>remove\<close> looks up the hooks of \<open>focus\<close>, which has no \<open>teardown\<close>.  After \<open>on\<close> and \<open>off\<close> all handler lists are as
  before, and yet the document has one more listener attached than before.  The same calls for \<open>focusin\<close>
  itself leave the count as it was.
\<close>

theorem focus_capture_leaks:
  assumes "ev_reachable d st" "\<not> dom_focusin d" "dom_accepts d e" "s \<noteq> []" "\<not> dom_badSelector d s"
    and "ev_guids st f = 0" "\<forall>g. f \<noteq> Once g" "event_list st e ''focusin'' = None"
  shows "let st1 = off_types d [e] ''focus'' (AStr s) (AFn f) (fst (on_types d [e] ''focus'' (AStr s) AUndef (AFn f) False st));
             st2 = off_types d [e] ''focusin'' (AStr s) (AFn f) (fst (on_types d [e] ''focusin'' (AStr s) AUndef (AFn f) False st)) in
    event_list st1 = event_list st \<and> ev_attaches st1 (dom_document d e) ''focusin'' = ev_attaches st (dom_document d e) ''focusin'' + 1 \<and>
    event_list st2 = event_list st \<and> ev_attaches st2 (dom_document d e) ''focusin'' = ev_attaches st (dom_document d e) ''focusin''"
proof -
  have sel: "AStr s = AUndef \<or> (\<exists>s'. AStr s = AStr s' \<and> \<not> dom_badSelector d s')" using assms(5) by blast
  have tr: "truthy_sel (Some s)" using assms(4) by (simp add: truthy_sel_def)
  have k: "''focusin'' = kept_type d (str_of (AStr s)) ''focus''" "''focusin'' = kept_type d (str_of (AStr s)) ''focusin''"
    using tr assms(2) by (simp_all add: kept_type_def special_of_def focus_types_def hover_types_def)
  have c: "captures d ''focusin''" "\<not> captures d ''focus''"
    using assms(2) by (simp_all add: captures_def special_of_def focus_types_def hover_types_def)
  have p: "html_words ''focus'' = [''focus'']" "html_words ''focusin'' = [''focusin'']" by code_simp+
  have q: "split_type ''focus'' = (''focus'', None)" "split_type ''focusin'' = (''focusin'', None)" by (simp_all add: split_type_def)
  show ?thesis
    using capture_attaches [OF assms(1,3) sel assms(6,7) p(1) q(1) _ k(1) c(1) assms(8)]
      capture_attaches [OF assms(1,3) sel assms(6,7) p(2) q(2) _ k(2) c(1) assms(8)] c by (simp add: Let_def)
qed

theorem focus_capture_leaks_witness:
  "let st1 = off_types demo_dom [1] ''focus'' (AStr ''input'') (AFn (User 0)) (fst (on_types demo_dom [1] ''focus'' (AStr ''input'') AUndef (AFn (User 0)) False ev_initial));
       st2 = off_types demo_dom [1] ''focusin'' (AStr ''input'') (AFn (User 0)) (fst (on_types demo_dom [1] ''focusin'' (AStr ''input'') AUndef (AFn (User 0)) False ev_initial)) in
    event_list st1 = event_list ev_initial \<and> ev_attaches st1 (dom_document demo_dom 1) ''focusin'' = ev_attaches ev_initial (dom_document demo_dom 1) ''focusin'' + 1 \<and>
    event_list st2 = event_list ev_initial \<and> ev_attaches st2 (dom_document demo_dom 1) ''focusin'' = ev_attaches ev_initial (dom_document demo_dom 1) ''focusin''"
  by (rule focus_capture_leaks [OF ev_reachable.start])
    (simp_all add: demo_dom_def ev_initial_def event_list_def get_events_def)

end
