(* ===== verification/JqueryDispatch.thy ===== *)
theory JqueryDispatch
  imports JqueryEvents
begin

text \<open>
  Dispatch of events in \<open>docs/_static/jquery-3.6.0.js\<close>: the event object \<open>jQuery.Event\<close>, the choice of the handlers that
  are to be called (\<open>jQuery.event.handlers\<close>) and the calls (\<open>jQuery.event.dispatch\<close>).  What a function of the user
  or a controller does is the argument \<open>beh\<close>: it gets the element and the event, may change the event and
  all handler lists, and returns a value or raises.
\<close>

section \<open>Events\<close>

text \<open>The value of a handler: \<open>undefined\<close>, \<open>false\<close>, another value, or an exception.\<close>

datatype reply = NoReply | ReplyFalse | Reply nat | Raise nat

record native_event =
  n_type :: string
  n_target :: nat
  n_related :: "nat option"
  n_button :: int
  n_prevented :: bool
  n_stopped :: bool
  n_immediate :: bool

record jq_event =
  e_original :: "native_event option"
  e_simulated :: bool
  e_type :: string
  e_target :: nat
  e_related :: "nat option"
  e_button :: int
  e_isTrigger :: nat
  e_namespace :: "string option"
  e_rnamespace :: "string list option"
  e_prevented :: bool
  e_stopped :: bool
  e_immediate :: bool
  e_result :: reply
  e_delegateTarget :: nat
  e_currentTarget :: nat
  e_handleObj :: "handle_obj option"
  e_data :: js_arg

text \<open>
  \<open>jQuery.event.fix\<close>: the event object made from a native event.  A text node that is the target is replaced
  by its parent.
\<close>

definition fix_event :: "dom \<Rightarrow> native_event \<Rightarrow> jq_event" where
  "fix_event d src =
     \<lparr>e_original = Some src, e_simulated = False, e_type = n_type src,
      e_target = (if dom_nodeType d (n_target src) = 3 then the (dom_parent d (n_target src)) else n_target src),
      e_related = n_related src, e_button = n_button src, e_isTrigger = 0, e_namespace = None, e_rnamespace = None, e_prevented = n_prevented src,
      e_stopped = False, e_immediate = False, e_result = NoReply, e_delegateTarget = n_target src,
      e_currentTarget = n_target src, e_handleObj = None, e_data = AUndef\<rparr>"

definition on_native :: "(native_event \<Rightarrow> native_event) \<Rightarrow> jq_event \<Rightarrow> jq_event" where
  "on_native f ev = (if e_simulated ev then ev else ev\<lparr>e_original := map_option f (e_original ev)\<rparr>)"

definition preventDefault :: "jq_event \<Rightarrow> jq_event" where
  "preventDefault ev = on_native (n_prevented_update (\<lambda>_. True)) (ev\<lparr>e_prevented := True\<rparr>)"

definition stopPropagation :: "jq_event \<Rightarrow> jq_event" where
  "stopPropagation ev = on_native (n_stopped_update (\<lambda>_. True)) (ev\<lparr>e_stopped := True\<rparr>)"

definition stopImmediatePropagation :: "jq_event \<Rightarrow> jq_event" where
  "stopImmediatePropagation ev =
     stopPropagation (on_native (n_immediate_update (\<lambda>_. True)) (ev\<lparr>e_immediate := True\<rparr>))"

section \<open>Choice of handlers\<close>

definition sel_matches :: "dom \<Rightarrow> nat \<Rightarrow> nat \<Rightarrow> handle_obj \<Rightarrow> bool" where
  "sel_matches d this cur ho =
     (if ho_needsContext ho then dom_index d (the (ho_selector ho) @ '' '') this cur
      else dom_find d (the (ho_selector ho) @ '' '') this cur)"

text \<open>The delegates that match an element; the results of selectors are kept in \<open>matchedSelectors\<close>.\<close>

fun scan_delegates :: "dom \<Rightarrow> nat \<Rightarrow> nat \<Rightarrow> handle_obj list \<Rightarrow> (string \<times> bool) list \<Rightarrow> handle_obj list" where
  "scan_delegates d this cur [] matchedSelectors = []"
| "scan_delegates d this cur (ho # hos) matchedSelectors =
     (let sel = the (ho_selector ho) @ '' '';
          cache = (if map_of matchedSelectors sel = None then dict_set sel (sel_matches d this cur ho) matchedSelectors
                   else matchedSelectors) in
      (if map_of cache sel = Some True then [ho] else []) @ scan_delegates d this cur hos cache)"

text \<open>The elements from the target up to, and without, the element the event is delivered to.\<close>

fun up_path :: "nat \<Rightarrow> dom \<Rightarrow> nat \<Rightarrow> nat \<Rightarrow> nat list option" where
  "up_path 0 d this cur = (if cur = this then Some [] else None)"
| "up_path (Suc n) d this cur =
     (if cur = this then Some []
      else map_option (Cons cur) (up_path n d this (case dom_parent d cur of Some p \<Rightarrow> p | None \<Rightarrow> this)))"

definition live :: "dom \<Rightarrow> jq_event \<Rightarrow> nat \<Rightarrow> bool" where
  "live d ev cur \<longleftrightarrow> dom_nodeType d cur = 1 \<and> \<not> (e_type ev = ''click'' \<and> dom_disabled d cur)"

definition handler_queue :: "nat \<Rightarrow> dom \<Rightarrow> nat \<Rightarrow> jq_event \<Rightarrow> handler_list \<Rightarrow> (nat \<times> handle_obj list) list option" where
  "handler_queue n d this ev hl =
     (let dc = nat (delegateCount hl);
          direct = (if dc < length (handlers hl) then [(this, drop dc (handlers hl))] else []) in
      if dc \<noteq> 0 \<and> dom_nodeType d (e_target ev) \<noteq> 0 \<and> \<not> (e_type ev = ''click'' \<and> 1 \<le> e_button ev) then
        map_option (\<lambda>path.
            filter (\<lambda>p. snd p \<noteq> [])
              (map (\<lambda>cur. (cur, scan_delegates d this cur (take dc (handlers hl)) [])) (filter (live d ev) path)) @ direct)
          (up_path n d this (e_target ev))
      else Some direct)"

section \<open>Calls\<close>

type_synonym behaviour_fn = "func \<Rightarrow> nat \<Rightarrow> jq_event \<Rightarrow> ev_state \<Rightarrow> reply \<times> jq_event \<times> ev_state"

text \<open>\<open>off\<close> with a dispatched event: remove the handler that is being called.\<close>

definition off_event :: "dom \<Rightarrow> jq_event \<Rightarrow> ev_state \<Rightarrow> ev_state" where
  "off_event d ev st =
     (case e_handleObj ev of
        None \<Rightarrow> st
      | Some ho \<Rightarrow>
          off_types d [e_delegateTarget ev]
            (case ho_namespace ho of
               Some ns \<Rightarrow> if ns \<noteq> [] then ho_origType ho @ ''.'' @ ns else ho_origType ho
             | None \<Rightarrow> ho_origType ho)
            (case ho_selector ho of Some s \<Rightarrow> AStr s | None \<Rightarrow> AUndef) (AFn (ho_handler ho)) st)"

fun call_fn :: "dom \<Rightarrow> behaviour_fn \<Rightarrow> func \<Rightarrow> nat \<Rightarrow> jq_event \<Rightarrow> ev_state \<Rightarrow> reply \<times> jq_event \<times> ev_state" where
  "call_fn d beh FalseFn elem ev st = (ReplyFalse, ev, st)"
| "call_fn d beh TrueFn elem ev st = (Reply 1, ev, st)"
| "call_fn d beh (Once f) elem ev st = call_fn d beh f elem ev (off_event d ev st)"
| "call_fn d beh f elem ev st = beh f elem ev st"

text \<open>A handle object is served: by its function, or by the hook of the hover events.\<close>

definition serve :: "dom \<Rightarrow> behaviour_fn \<Rightarrow> handle_obj \<Rightarrow> nat \<Rightarrow> jq_event \<Rightarrow> ev_state \<Rightarrow> reply \<times> jq_event \<times> ev_state" where
  "serve d beh ho elem ev st =
     (case map_of hover_types (ho_origType ho) of
        None \<Rightarrow> call_fn d beh (ho_handler ho) elem ev st
      | Some base \<Rightarrow>
          (if (case e_related ev of None \<Rightarrow> True | Some r \<Rightarrow> r \<noteq> elem \<and> \<not> dom_contains d elem r) then
             (case call_fn d beh (ho_handler ho) elem (ev\<lparr>e_type := ho_origType ho\<rparr>) st of
                (Raise x, ev', st') \<Rightarrow> (Raise x, ev', st')
              | (r, ev', st') \<Rightarrow> (r, ev'\<lparr>e_type := base\<rparr>, st'))
           else (NoReply, ev, st)))"

definition ns_admits :: "jq_event \<Rightarrow> handle_obj \<Rightarrow> bool" where
  "ns_admits ev ho \<longleftrightarrow>
     (case e_rnamespace ev of
        None \<Rightarrow> True
      | Some ns \<Rightarrow> (case ho_namespace ho of None \<Rightarrow> True | Some t \<Rightarrow> ns_test ns t))"

definition after_reply :: "reply \<Rightarrow> jq_event \<Rightarrow> jq_event" where
  "after_reply r ev =
     (if r = NoReply then ev
      else if r = ReplyFalse then stopPropagation (preventDefault (ev\<lparr>e_result := r\<rparr>))
      else ev\<lparr>e_result := r\<rparr>)"

text \<open>
  The two loops of \<open>dispatch\<close>.  The last component records the handle objects that were served; the first is
  an exception that ends the dispatch.
\<close>

type_synonym dispatched = "nat option \<times> jq_event \<times> ev_state \<times> (nat \<times> handle_obj) list"

fun run_handlers :: "dom \<Rightarrow> behaviour_fn \<Rightarrow> nat \<Rightarrow> handle_obj list \<Rightarrow> jq_event \<Rightarrow> ev_state \<Rightarrow> (nat \<times> handle_obj) list \<Rightarrow> dispatched" where
  "run_handlers d beh elem [] ev st log = (None, ev, st, log)"
| "run_handlers d beh elem (ho # hos) ev st log =
     (if e_immediate ev then (None, ev, st, log)
      else if ns_admits ev ho then
        (case serve d beh ho elem (ev\<lparr>e_handleObj := Some ho, e_data := ho_data ho\<rparr>) st of
           (Raise x, ev', st') \<Rightarrow> (Some x, ev', st', log @ [(elem, ho)])
         | (r, ev', st') \<Rightarrow> run_handlers d beh elem hos (after_reply r ev') st' (log @ [(elem, ho)]))
      else run_handlers d beh elem hos ev st log)"

fun run_queue :: "dom \<Rightarrow> behaviour_fn \<Rightarrow> (nat \<times> handle_obj list) list \<Rightarrow> jq_event \<Rightarrow> ev_state \<Rightarrow> (nat \<times> handle_obj) list \<Rightarrow> dispatched" where
  "run_queue d beh [] ev st log = (None, ev, st, log)"
| "run_queue d beh ((elem, hos) # q) ev st log =
     (if e_stopped ev then (None, ev, st, log)
      else
        (case run_handlers d beh elem hos (ev\<lparr>e_currentTarget := elem\<rparr>) st log of
           (Some x, r) \<Rightarrow> (Some x, r)
         | (None, ev', st', log') \<Rightarrow> run_queue d beh q ev' st' log'))"

text \<open>\<open>dispatch\<close>; \<open>None\<close> when the walk to the element does not end within the fuel.\<close>

definition dispatch :: "nat \<Rightarrow> dom \<Rightarrow> behaviour_fn \<Rightarrow> nat \<Rightarrow> jq_event \<Rightarrow> ev_state \<Rightarrow> dispatched option" where
  "dispatch n d beh this ev st =
     map_option (\<lambda>q. run_queue d beh q (ev\<lparr>e_delegateTarget := this\<rparr>) st [])
       (handler_queue n d this (ev\<lparr>e_delegateTarget := this\<rparr>) (handlers_of st this (e_type ev)))"

section \<open>The handlers that are chosen\<close>

lemma up_path_ends:
  assumes "\<And>c p. dom_parent d c = Some p \<Longrightarrow> rank p < (rank c :: nat)"
  shows "rank cur < n \<Longrightarrow> \<exists>path. up_path n d this cur = Some path"
proof (induction n arbitrary: cur)
  case (Suc n)
  show ?case
  proof (cases "dom_parent d cur")
    case None
    then show ?thesis by (cases n) auto
  next
    case (Some p)
    then have "rank p < n" using assms [OF Some] Suc.prems by simp
    then show ?thesis using Suc.IH [of p] Some by auto
  qed
qed simp

text \<open>The kept results of selectors are the results of the tests.\<close>

lemma scan_delegates_filter:
  assumes "\<And>ho. ho \<in> set hos \<Longrightarrow> ho_needsContext ho = nc (the (ho_selector ho))"
    and "\<And>s b. map_of cache (s @ '' '') = Some b \<Longrightarrow>
      b = (if nc s then dom_index d (s @ '' '') this cur else dom_find d (s @ '' '') this cur)"
  shows "scan_delegates d this cur hos cache = filter (sel_matches d this cur) hos"
  using assms
proof (induction hos arbitrary: cache)
  case (Cons ho hos)
  define s where "s = the (ho_selector ho)"
  define b where "b = sel_matches d this cur ho"
  have b: "b = (if nc s then dom_index d (s @ '' '') this cur else dom_find d (s @ '' '') this cur)"
    using Cons.prems(1) [of ho] by (simp add: b_def s_def sel_matches_def)
  define cache' where "cache' = (if map_of cache (s @ '' '') = None then dict_set (s @ '' '') b cache else cache)"
  have at: "map_of cache' (s @ '' '') = Some b" using Cons.prems(2) [of s] b by (auto simp: cache'_def)
  have "scan_delegates d this cur hos cache' = filter (sel_matches d this cur) hos"
  proof (rule Cons.IH)
    show "b' = (if nc s' then dom_index d (s' @ '' '') this cur else dom_find d (s' @ '' '') this cur)"
      if "map_of cache' (s' @ '' '') = Some b'" for s' b'
      using that b Cons.prems(2) [of s' b'] unfolding cache'_def by (auto split: if_splits)
  qed (use Cons.prems(1) in simp)
  moreover have "scan_delegates d this cur (ho # hos) cache = (if map_of cache' (s @ '' '') = Some True then [ho] else []) @ scan_delegates d this cur hos cache'"
    unfolding scan_delegates.simps Let_def s_def [symmetric] b_def [symmetric] cache'_def [symmetric] ..
  ultimately show ?case using at by (simp add: b_def)
qed simp

text \<open>
  What is to be served: for every live element on the way from the target up the delegates whose selector
  it matches, then the handlers bound to the element itself, each in the order of registration.
\<close>

definition dispatch_spec :: "dom \<Rightarrow> nat \<Rightarrow> jq_event \<Rightarrow> handle_obj list \<Rightarrow> nat list \<Rightarrow> (nat \<times> handle_obj) list" where
  "dispatch_spec d this ev hs path =
     (if dom_nodeType d (e_target ev) \<noteq> 0 \<and> \<not> (e_type ev = ''click'' \<and> 1 \<le> e_button ev) then
        concat (map (\<lambda>cur. map (Pair cur) (filter (\<lambda>ho. delegated ho \<and> sel_matches d this cur ho \<and> ns_admits ev ho) hs)) (filter (live d ev) path))
      else []) @ map (Pair this) (filter (\<lambda>ho. \<not> delegated ho \<and> ns_admits ev ho) hs)"

definition flat_queue :: "jq_event \<Rightarrow> (nat \<times> handle_obj list) list \<Rightarrow> (nat \<times> handle_obj) list" where
  "flat_queue ev q = concat (map (\<lambda>(e, hos). map (Pair e) (filter (ns_admits ev) hos)) q)"

lemma flat_queue_filter: "flat_queue ev (filter (\<lambda>p. snd p \<noteq> []) q) = flat_queue ev q"
  by (induction q) (auto simp: flat_queue_def)

lemma handler_queue_spec:
  assumes "hl_wf hl" "\<And>ho. ho \<in> set (handlers hl) \<Longrightarrow> delegated ho \<Longrightarrow> ho_needsContext ho = dom_needsContext d (the (ho_selector ho))"
    and "up_path n d this (e_target ev) = Some path"
  shows "\<exists>q. handler_queue n d this ev hl = Some q \<and> flat_queue ev q = dispatch_spec d this ev (handlers hl) path"
proof -
  define dc where "dc = nat (delegateCount hl)"
  define ds es where "ds = filter delegated (handlers hl)" and "es = filter (\<lambda>h. \<not> delegated h) (handlers hl)"
  have p: "take dc (handlers hl) = ds" "drop dc (handlers hl) = es"
    using hl_wf_parts [OF assms(1)] by (simp_all add: dc_def ds_def es_def)
  have s: "scan_delegates d this cur ds [] = filter (sel_matches d this cur) ds" for cur
    by (rule scan_delegates_filter [where nc = "dom_needsContext d"]) (use assms(2) in \<open>auto simp: ds_def\<close>)
  have dc0: "dc = 0 \<longleftrightarrow> ds = []" using assms(1) by (auto simp: hl_wf_def dc_def ds_def)
  define dq where "dq = (if dc < length (handlers hl) then [(this, es)] else [])"
  have direct: "flat_queue ev dq = map (Pair this) (filter (\<lambda>ho. \<not> delegated ho \<and> ns_admits ev ho) (handlers hl))"
  proof (cases "dc < length (handlers hl)")
    case False
    then have "es = []" using p(2) by simp
    then show ?thesis using False by (auto simp: dq_def flat_queue_def es_def filter_empty_conv)
  qed (auto simp: dq_def p flat_queue_def es_def filter_filter conj_commute)
  have del: "flat_queue ev (map (\<lambda>cur. (cur, scan_delegates d this cur ds [])) cs) =
      concat (map (\<lambda>cur. map (Pair cur) (filter (\<lambda>ho. delegated ho \<and> sel_matches d this cur ho \<and> ns_admits ev ho) (handlers hl))) cs)" for cs
    unfolding flat_queue_def s by (simp add: ds_def filter_filter comp_def conj_ac)
  have none: "concat (map (\<lambda>cur. map (Pair cur) (filter (\<lambda>ho. delegated ho \<and> sel_matches d this cur ho \<and> ns_admits ev ho) (handlers hl))) cs) = []"
    if "dc = 0" for cs using that dc0 by (auto simp: ds_def filter_empty_conv)
  have app: "flat_queue ev (a @ b) = flat_queue ev a @ flat_queue ev b" for a b by (simp add: flat_queue_def)
  let ?go = "dom_nodeType d (e_target ev) \<noteq> 0 \<and> \<not> (e_type ev = ''click'' \<and> 1 \<le> e_button ev)"
  let ?dels = "map (\<lambda>cur. (cur, scan_delegates d this cur ds [])) (filter (live d ev) path)"
  have q: "handler_queue n d this ev hl = Some (if dc \<noteq> 0 \<and> ?go then filter (\<lambda>p. snd p \<noteq> []) ?dels @ dq else dq)"
    unfolding handler_queue_def Let_def dc_def [symmetric] p assms(3) by (simp add: dq_def)
  have "flat_queue ev (if dc \<noteq> 0 \<and> ?go then filter (\<lambda>p. snd p \<noteq> []) ?dels @ dq else dq) = dispatch_spec d this ev (handlers hl) path"
    unfolding dispatch_spec_def direct [symmetric] del [symmetric]
    using none [of "filter (live d ev) path", folded del] by (cases "dc = 0"; cases ?go) (simp_all only: app flat_queue_filter if_True if_False simp_thms append_Nil)
  then show ?thesis using q by blast
qed

section \<open>The handlers that are served\<close>

text \<open>Functions that leave the namespaces of an event alone.\<close>

definition keeps_namespaces :: "behaviour_fn \<Rightarrow> bool" where
  "keeps_namespaces beh \<longleftrightarrow> (\<forall>f elem ev st. e_rnamespace (fst (snd (beh f elem ev st))) = e_rnamespace ev)"

lemma call_fn_namespace: "keeps_namespaces beh \<Longrightarrow> e_rnamespace (fst (snd (call_fn d beh f elem ev st))) = e_rnamespace ev"
  by (induction d beh f elem ev st rule: call_fn.induct) (auto simp: keeps_namespaces_def)

lemma serve_namespace: "keeps_namespaces beh \<Longrightarrow> e_rnamespace (fst (snd (serve d beh ho elem ev st))) = e_rnamespace ev"
  using call_fn_namespace [of beh d "ho_handler ho" elem ev st]
    call_fn_namespace [of beh d "ho_handler ho" elem "ev\<lparr>e_type := ho_origType ho\<rparr>" st]
  by (auto simp: serve_def split: option.split prod.split reply.split)

lemma after_reply_namespace [simp]: "e_rnamespace (after_reply r ev) = e_rnamespace ev"
  by (simp add: after_reply_def stopPropagation_def preventDefault_def on_native_def)

text \<open>A part of the list is served from its beginning; if not all of it, the event was stopped or a function raised.\<close>

definition served :: "dispatched \<Rightarrow> (nat \<times> handle_obj) list \<Rightarrow> (nat \<times> handle_obj) list \<Rightarrow> bool" where
  "served r log todo = (case r of (x, ev', st', log') \<Rightarrow>
     (\<exists>front rest. log' = log @ front \<and> todo = front @ rest \<and> (rest = [] \<or> x \<noteq> None \<or> e_stopped ev' \<or> e_immediate ev')))"

lemma run_handlers_served:
  assumes "keeps_namespaces beh"
  shows "e_rnamespace ev = e_rnamespace ev0 \<Longrightarrow>
    served (run_handlers d beh elem hos ev st log) log (map (Pair elem) (filter (ns_admits ev0) hos)) \<and>
    (fst (run_handlers d beh elem hos ev st log) = None \<longrightarrow> e_rnamespace (fst (snd (run_handlers d beh elem hos ev st log))) = e_rnamespace ev0)"
proof (induction hos arbitrary: ev st log)
  case (Cons ho hos)
  have ns: "ns_admits ev ho = ns_admits ev0 ho" using Cons.prems by (simp add: ns_admits_def)
  show ?case
  proof (cases "e_immediate ev \<or> \<not> ns_admits ev ho")
    case True
    then show ?thesis using Cons ns by (cases "e_immediate ev") (auto simp: served_def)
  next
    case False
    obtain r ev1 st1 where c: "serve d beh ho elem (ev\<lparr>e_handleObj := Some ho, e_data := ho_data ho\<rparr>) st = (r, ev1, st1)"
      by (metis prod_cases3)
    have n1: "e_rnamespace (after_reply r ev1) = e_rnamespace ev0"
      using serve_namespace [OF assms, of d ho elem "ev\<lparr>e_handleObj := Some ho, e_data := ho_data ho\<rparr>" st] c Cons.prems by simp
    show ?thesis
    proof (cases "\<exists>x. r = Raise x")
      case True
      then show ?thesis using False c ns by (auto simp: served_def)
    next
      case no: False
      then have "run_handlers d beh elem (ho # hos) ev st log = run_handlers d beh elem hos (after_reply r ev1) st1 (log @ [(elem, ho)])"
        using False c by (cases r) auto
      then show ?thesis using Cons.IH [OF n1, of st1 "log @ [(elem, ho)]"] False ns
        by (auto simp: served_def split: prod.splits)
    qed
  qed
qed (simp add: served_def)

lemma run_queue_halted:
  "e_stopped ev \<or> e_immediate ev \<Longrightarrow> \<exists>ev'. run_queue d beh q ev st log = (None, ev', st, log) \<and> (e_stopped ev' \<or> e_immediate ev')"
proof (induction q arbitrary: ev)
  case (Cons p q)
  obtain elem hos where p: "p = (elem, hos)" by fastforce
  show ?case
  proof (cases "e_stopped ev")
    case False
    then have "run_handlers d beh elem hos (ev\<lparr>e_currentTarget := elem\<rparr>) st log = (None, ev\<lparr>e_currentTarget := elem\<rparr>, st, log)"
      using Cons.prems by (cases hos) auto
    then show ?thesis using Cons.IH [of "ev\<lparr>e_currentTarget := elem\<rparr>"] Cons.prems False p by simp
  qed (simp add: p)
qed simp

lemma run_queue_served:
  assumes "keeps_namespaces beh"
  shows "e_rnamespace ev = e_rnamespace ev0 \<Longrightarrow> served (run_queue d beh q ev st log) log (flat_queue ev0 q)"
proof (induction q arbitrary: ev st log)
  case (Cons p q)
  obtain elem hos where p: "p = (elem, hos)" by fastforce
  show ?case
  proof (cases "e_stopped ev")
    case False
    obtain x ev1 st1 log1 where r: "run_handlers d beh elem hos (ev\<lparr>e_currentTarget := elem\<rparr>) st log = (x, ev1, st1, log1)"
      by (metis prod_cases4)
    note h = run_handlers_served [OF assms, of "ev\<lparr>e_currentTarget := elem\<rparr>" ev0 d elem hos st log]
    then obtain front rest where fr: "log1 = log @ front" "map (Pair elem) (filter (ns_admits ev0) hos) = front @ rest"
      "rest = [] \<or> x \<noteq> None \<or> e_stopped ev1 \<or> e_immediate ev1"
      and n1: "x = None \<longrightarrow> e_rnamespace ev1 = e_rnamespace ev0"
      using Cons.prems r by (auto simp: served_def)
    have todo: "flat_queue ev0 (p # q) = front @ rest @ flat_queue ev0 q" using fr(2) by (simp add: flat_queue_def p)
    show ?thesis
    proof (cases x)
      case None
      then have run: "run_queue d beh (p # q) ev st log = run_queue d beh q ev1 st1 log1" using r False p by simp
      show ?thesis
      proof (cases "rest = []")
        case True
        then show ?thesis using Cons.IH [of ev1 st1 log1] n1 None fr(1) unfolding run todo
          by (auto simp: served_def split: prod.splits)
      next
        case no: False
        then show ?thesis using run_queue_halted [of ev1 d beh q st1 log1] fr None unfolding run todo
          by (auto simp: served_def)
      qed
    qed (use r False p fr(1) todo in \<open>auto simp: served_def\<close>)
  qed (simp add: p served_def)
qed (simp add: served_def flat_queue_def)

text \<open>A dispatch over a list that is in order.\<close>

lemma dispatch_list_served:
  assumes "hl_wf (handlers_of st this (e_type ev))" "keeps_namespaces beh" "up_path n d this (e_target ev) = Some path"
    and "\<And>ho. ho \<in> set (handlers (handlers_of st this (e_type ev))) \<Longrightarrow> delegated ho \<Longrightarrow> ho_needsContext ho = dom_needsContext d (the (ho_selector ho))"
  shows "\<exists>x ev' st' log rest. dispatch n d beh this ev st = Some (x, ev', st', log) \<and>
    dispatch_spec d this ev (handlers (handlers_of st this (e_type ev))) path = log @ rest \<and>
    (rest = [] \<or> x \<noteq> None \<or> e_stopped ev' \<or> e_immediate ev')"
proof -
  define ev0 where "ev0 = ev\<lparr>e_delegateTarget := this\<rparr>"
  define hl where "hl = handlers_of st this (e_type ev)"
  have path: "up_path n d this (e_target ev0) = Some path" using assms(3) by (simp add: ev0_def)
  obtain q where q: "handler_queue n d this ev0 hl = Some q" "flat_queue ev0 q = dispatch_spec d this ev0 (handlers hl) path"
    using handler_queue_spec [OF _ _ path, of hl] assms(1,4) unfolding hl_def by blast
  obtain x ev' st' log where r: "run_queue d beh q ev0 st [] = (x, ev', st', log)" by (metis prod_cases4)
  have spec: "dispatch_spec d this ev0 (handlers hl) path = dispatch_spec d this ev (handlers hl) path"
    by (simp add: dispatch_spec_def ev0_def live_def [abs_def] ns_admits_def)
  have "served (x, ev', st', log) [] (dispatch_spec d this ev (handlers hl) path)"
    using run_queue_served [OF assms(2), of ev0 ev0 d q st "[]"] r q(2) spec by simp
  then show ?thesis using q(1) r by (auto simp: served_def dispatch_def ev0_def hl_def)
qed

lemma ev_wf_handlers:
  assumes "ev_wf d st" "guids_ok d st"
  shows "hl_wf (handlers_of st e t)"
    "ho \<in> set (handlers (handlers_of st e t)) \<Longrightarrow> delegated ho \<Longrightarrow> ho_needsContext ho = dom_needsContext d (the (ho_selector ho))"
  using ev_wf_list [OF assms(1)] assms(2)
  by (auto simp: handlers_of_event_list hl_wf_def guids_ok_def split: option.splits)

text \<open>C18:
  Dispatch: the handlers that are served are, in this order, for every element on the way from the target up to
  the element the event is delivered to the delegated handlers whose selector it matches (disabled elements
  and secondary buttons excepted for clicks), then the handlers bound to the element itself, each group in the
  order of registration and restricted to the namespaces of the event.  All of them are served, unless a
  handler stops the event or raises; then those behind are skipped.  Handlers that are added or removed by the
  handlers themselves have no influence on the dispatch under way.
\<close>

theorem dispatch_serves:
  assumes "ev_reachable d st" "keeps_namespaces beh"
    and "\<And>c p. dom_parent d c = Some p \<Longrightarrow> rank p < (rank c :: nat)" "rank (e_target ev) < n"
  shows "\<exists>path x ev' st' log rest. up_path n d this (e_target ev) = Some path \<and>
    dispatch n d beh this ev st = Some (x, ev', st', log) \<and>
    dispatch_spec d this ev (handlers (handlers_of st this (e_type ev))) path = log @ rest \<and>
    (rest = [] \<or> x \<noteq> None \<or> e_stopped ev' \<or> e_immediate ev')"
proof -
  have wf: "ev_wf d st" "guids_ok d st" using ev_reachable_wf [OF assms(1)] by auto
  obtain path where path: "up_path n d this (e_target ev) = Some path" using up_path_ends [of d rank, OF assms(3,4)] by auto
  note served = dispatch_list_served [OF ev_wf_handlers(1) [OF wf] assms(2) path, OF ev_wf_handlers(2) [OF wf, of _ this "e_type ev"]]
  show ?thesis by (rule exI [of _ path], simp only: path simp_thms, rule served)
qed

definition demo_native :: native_event where
  "demo_native = \<lparr>n_type = ''keyup'', n_target = 1, n_related = None, n_button = 0, n_prevented = False, n_stopped = False, n_immediate = False\<rparr>"

theorem dispatch_serves_witness:
  "\<exists>path x ev' st' log rest. up_path 11 demo_dom 5 (e_target (fix_event demo_dom demo_native)) = Some path \<and>
    dispatch 11 demo_dom (\<lambda>f elem ev st. (NoReply, ev, st)) 5 (fix_event demo_dom demo_native)
      (register demo_dom (On [5] ''keyup'' (AStr ''li'') AUndef (AFn (User 0)) False) ev_initial) = Some (x, ev', st', log) \<and>
    dispatch_spec demo_dom 5 (fix_event demo_dom demo_native) (handlers (handlers_of
      (register demo_dom (On [5] ''keyup'' (AStr ''li'') AUndef (AFn (User 0)) False) ev_initial) 5 (e_type (fix_event demo_dom demo_native)))) path = log @ rest \<and>
    (rest = [] \<or> x \<noteq> None \<or> e_stopped ev' \<or> e_immediate ev')"
proof (rule dispatch_serves [where rank = "\<lambda>n. 10 - n"])
  show "ev_reachable demo_dom (register demo_dom (On [5] ''keyup'' (AStr ''li'') AUndef (AFn (User 0)) False) ev_initial)"
    by (intro ev_reachable.intros)
qed (auto simp: keeps_namespaces_def demo_dom_def fix_event_def demo_native_def split: if_splits)

section \<open>Handlers that are called once\<close>

lemma html_words_plain: "s \<noteq> [] \<Longrightarrow> (\<And>c. c \<in> set s \<Longrightarrow> \<not> html_white c) \<Longrightarrow> html_words s = [s]"
  by (simp add: html_words_def split_class_Nil)

lemma set_split_char: "w \<in> set (split_char d s) \<Longrightarrow> set w \<subseteq> set s"
proof (induction s arbitrary: w)
  case (Cons c s)
  obtain v vs where v: "split_char d s = v # vs" by (cases "split_char d s") auto
  have "set v \<subseteq> set s" "\<And>u. u \<in> set vs \<Longrightarrow> set u \<subseteq> set s" using Cons.IH v by auto
  then show ?case using Cons.prems v by (auto split: if_splits)
qed simp

lemma set_join_subset: "set (join d ws) \<subseteq> set d \<union> (\<Union>w \<in> set ws. set w)"
  by (cases ws) (auto simp: join_def)

lemma split_type_plain: "CHR ''.'' \<notin> set t \<Longrightarrow> split_type t = (t, None)"
proof -
  assume "CHR ''.'' \<notin> set t"
  then have td: "takeWhile (\<lambda>c. c \<noteq> CHR ''.'') t = t" "dropWhile (\<lambda>c. c \<noteq> CHR ''.'') t = []"
    by (auto simp: takeWhile_eq_all_conv dropWhile_eq_Nil_conv)
  show ?thesis by (simp add: split_type_def td)
qed

lemma split_type_dotted: "CHR ''.'' \<notin> set t \<Longrightarrow> ns \<noteq> [] \<Longrightarrow> split_type (t @ ''.'' @ ns) = (t, Some ns)"
proof -
  assume t: "CHR ''.'' \<notin> set t" and "ns \<noteq> []"
  have "takeWhile (\<lambda>c. c \<noteq> CHR ''.'') (t @ ''.'' @ ns) = t" "dropWhile (\<lambda>c. c \<noteq> CHR ''.'') (t @ ''.'' @ ns) = ''.'' @ ns"
    using t by (induction t) auto
  then show ?thesis using \<open>ns \<noteq> []\<close> by (simp add: split_type_def)
qed

text \<open>The name under which \<open>off\<close> looks for a dispatched handler is the name it was registered with, sorted.\<close>

lemma registered_name:
  assumes "html_words types = [w]" "split_type w = (t0, rest)" "t0 \<noteq> []"
  defines "ns \<equiv> join ''.'' (sorted_namespaces rest)"
  defines "types' \<equiv> (if ns \<noteq> [] then t0 @ ''.'' @ ns else t0)"
  shows "html_words types' = [types']" "\<exists>rest'. split_type types' = (t0, rest') \<and> same_names rest' rest"
proof -
  have t0: "t0 = takeWhile (\<lambda>c. c \<noteq> CHR ''.'') w" using assms(2) by (simp add: split_type_def Let_def)
  have free: "CHR ''.'' \<notin> set t0" unfolding t0 using set_takeWhileD by fastforce
  have "w \<in> set (split_class html_white types)"
    using assms(1) unfolding html_words_def by (metis filter_is_subset list.set_intros(1) subsetD)
  then have white: "\<not> html_white c" if "c \<in> set w" for c using split_class_sep_free that by metis
  have "set (tl (dropWhile P w)) \<subseteq> set w" for P :: "char \<Rightarrow> bool" 
  proof -
    have "set (tl xs) \<subseteq> set xs" for xs :: string by (cases xs) auto
    then show ?thesis using set_dropWhileD by fast
  qed
  then have sub: "set (case rest of Some r \<Rightarrow> r | None \<Rightarrow> []) \<subseteq> set w" "rest \<noteq> Some []"
    using assms(2) by (auto simp: split_type_def Let_def split: if_splits)
  have "set ns \<subseteq> insert (CHR ''.'') (set w)"
  proof -
    have "set v \<subseteq> set w" if "v \<in> set (sorted_namespaces rest)" for v
      using that set_split_char [of v "CHR ''.''" "case rest of Some r \<Rightarrow> r | None \<Rightarrow> []"] sub(1) unfolding sorted_namespaces_def set_sort by blast
    then show ?thesis using set_join_subset [of "''.''" "sorted_namespaces rest"] unfolding ns_def by auto
  qed
  then have "set types' \<subseteq> insert (CHR ''.'') (set w)"
    using t0 set_takeWhileD [where P = "\<lambda>c. c \<noteq> CHR ''.''" and xs = w] unfolding types'_def by auto
  moreover have "\<not> html_white (CHR ''.'')" by code_simp
  ultimately have "\<not> html_white c" if "c \<in> set types'" for c using that white by blast
  then show "html_words types' = [types']" using assms(3) by (intro html_words_plain) (auto simp: types'_def)
  have ne: "sorted_namespaces rest \<noteq> []" by (metis length_0_conv length_sort sorted_namespaces_def split_char_not_Nil)
  have seg: "segments ns = sorted_namespaces rest"
    unfolding ns_def by (rule segments_join [OF ne]) (auto simp: sorted_namespaces_def dest: split_char_sep_free)
  show "\<exists>rest'. split_type types' = (t0, rest') \<and> same_names rest' rest"
  proof (cases "ns = []")
    case True
    then have "mset (split_char (CHR ''.'') (case rest of Some r \<Rightarrow> r | None \<Rightarrow> [])) = {#[]#}"
      using seg by (metis mset_sort mset_single_iff segments_simps(1) sorted_namespaces_def)
    then have "join ''.'' (split_char (CHR ''.'') (case rest of Some r \<Rightarrow> r | None \<Rightarrow> [])) = []"
      by (auto simp: join_def)
    then have "rest = None" using sub(2) join_split_char by (auto split: option.splits)
    then show ?thesis using True free by (simp add: types'_def split_type_plain same_names_def)
  next
    case False
    then have "rest \<noteq> None" by (cases rest) (simp_all add: ns_def sorted_namespaces_def join_def)
    moreover have "sorted_namespaces (Some ns) = sorted_namespaces rest"
      using seg by (simp add: sorted_namespaces_def segments_def sorted_sort_id)
    ultimately show ?thesis using split_type_dotted [OF free False] False by (auto simp: types'_def same_names_def)
  qed
qed

text \<open>C28:
  \<open>one\<close>: a function registered with \<open>one\<close> stands in the handler list as a wrapper.  When the wrapper is called for an event it
  first takes back the registration (all handler lists are as before the call of \<open>one\<close>), whatever the namespaces,
  their order, the selector and the data, and only then calls the function: so a function that triggers the event
  again, or raises, is not called a second time.
\<close>

theorem one_removed_before_call:
  assumes "ev_reachable d st" "html_words types = [w]" "split_type w = (t0, rest)" "t0 \<noteq> []"
    and "dom_accepts d e" "selector = AUndef \<or> (\<exists>s. selector = AStr s \<and> \<not> dom_badSelector d s)"
    and "t = kept_type d (str_of selector) t0" "unclaimed d e t st" "ev_guids st f = 0" "\<forall>g. f \<noteq> Once g"
    and "st1 = fst (on_types d [e] types selector dat (AFn f) True st)"
  shows "\<exists>ho. handlers_of st1 e t = insert_handler ho (handlers_of st e t) \<and> ho_handler ho = Once f \<and>
    (\<forall>beh elem ev. e_handleObj ev = Some ho \<longrightarrow> e_delegateTarget ev = e \<longrightarrow>
       (\<exists>st'. call_fn d beh (ho_handler ho) elem ev st1 = call_fn d beh f elem ev st' \<and> event_list st' = event_list st))"
proof -
  define sel where "sel = str_of selector"
  define st0 where "st0 = ensure_guid f st"
  define st2 where "st2 = st0\<lparr>ev_guids := (ev_guids st0)(Once f := ev_guids st0 f)\<rparr>"
  define ho where "ho = make_handle_obj d (Plain (Once f)) dat sel (ev_guids st2 (Once f)) t t0 (sorted_namespaces rest)"
  define ns where "ns = join ''.'' (sorted_namespaces rest)"
  define types' where "types' = (if ns \<noteq> [] then t0 @ ''.'' @ ns else t0)"
  note r = ev_reachable_wf [OF assms(1)]
  have l: "event_list st2 = event_list st" by (simp add: st2_def st0_def)
  have g: "ev_guids st2 (Once f) = ev_guid st" "ev_guid st \<noteq> 0"
    using assms(9,10) r by (auto simp: st2_def st0_def ensure_guid_def guids_ok_def)
  have wf: "ev_wf d st2" using r unfolding st2_def st0_def ev_wf_def by simp
  have bad: "\<not> (truthy_sel sel \<and> dom_badSelector d (the sel))" using assms(6) by (auto simp: sel_def truthy_sel_def)
  have u: "unclaimed d e (kept_type d sel t0) st2" using assms(7,8) l by (simp add: unclaimed_def sel_def)
  have new: "h \<in> set (handlers (handlers_of st2 e (kept_type d sel t0))) \<Longrightarrow> ho_guid h \<noteq> ev_guids st2 (Once f)" for h
    using r l g(1) by (fastforce simp: guids_ok_def handlers_of_event_list split: option.splits)
  obtain rest' where w': "html_words types' = [types']" "split_type types' = (t0, rest')" "same_names rest' rest"
    using registered_name [OF assms(2-4), folded ns_def, folded types'_def] by blast
  obtain st' where st': "event_add d e types (Plain (Once f)) dat sel st2 = Inr st'"
    "event_list (event_remove d e types' (Some (Once f)) sel st') = event_list st2"
    using add_remove_inverse [OF wf assms(2-4) w' assms(5) bad u _ _ new, of "Once f" dat] g by auto
  have on: "st1 = st'"
    using st'(1) unfolding assms(11)
    by (simp add: on_types_def on_arguments_def nullish_def Let_def st0_def st2_def sel_def)
  obtain s2 where s2: "event_add d e types (Plain (Once f)) dat sel st2 = Inr (add_type d e (Plain (Once f)) dat sel w s2)"
    "event_list s2 = event_list st2" "ev_guids s2 = ev_guids st2" using add_one_word [OF assms(2,5) bad, of st2 "Once f"] g by auto
  have u2: "unclaimed d e (kept_type d sel t0) s2" using u s2(2) by (simp add: unclaimed_def)
  have hs: "handlers_of st1 e t = insert_handler ho (handlers_of st e t)"
    using add_type_list(1) [OF assms(3,4) u2, of "Plain (Once f)" dat] s2 st'(1) on l assms(7)
    by (simp add: handlers_of_event_list ho_def sel_def)
  have fields: "ho_handler ho = Once f" "ho_namespace ho = Some ns" "ho_origType ho = t0" "ho_selector ho = sel"
    by (simp_all add: ho_def make_handle_obj_def ns_def)
  have off: "off_event d ev st1 = event_remove d e types' (Some (Once f)) sel st1"
    if "e_handleObj ev = Some ho" "e_delegateTarget ev = e" for ev
    using that by (cases sel) (auto simp: off_event_def off_types_def fields types'_def)
  have "\<exists>st'. call_fn d beh (ho_handler ho) elem ev st1 = call_fn d beh f elem ev st' \<and> event_list st' = event_list st"
    if "e_handleObj ev = Some ho" "e_delegateTarget ev = e" for beh elem ev
    using off [OF that] st'(2) on l fields(1) by auto
  then show ?thesis using hs fields(1) by blast
qed

theorem one_removed_before_call_witness:
  "\<exists>ho. handlers_of (fst (on_types demo_dom [1] ''keyup.b.a'' (AStr ''li'') (AObj 3) (AFn (User 7)) True ev_initial)) 1 ''keyup'' =
      insert_handler ho (handlers_of ev_initial 1 ''keyup'') \<and> ho_handler ho = Once (User 7) \<and>
    (\<forall>beh elem ev. e_handleObj ev = Some ho \<longrightarrow> e_delegateTarget ev = 1 \<longrightarrow>
       (\<exists>st'. call_fn demo_dom beh (ho_handler ho) elem ev (fst (on_types demo_dom [1] ''keyup.b.a'' (AStr ''li'') (AObj 3) (AFn (User 7)) True ev_initial)) =
          call_fn demo_dom beh (User 7) elem ev st' \<and> event_list st' = event_list ev_initial))"
proof (rule one_removed_before_call [OF ev_reachable.start, where w = "''keyup.b.a''" and ?t0.0 = "''keyup''" and rest = "Some ''b.a''"])
  show "html_words ''keyup.b.a'' = [''keyup.b.a'']" by code_simp
  show "split_type ''keyup.b.a'' = (''keyup'', Some ''b.a'')" by (simp add: split_type_def)
  show "''keyup'' = kept_type demo_dom (str_of (AStr ''li'')) ''keyup''"
    by (simp add: kept_type_def special_of_def focus_types_def hover_types_def)
  show "unclaimed demo_dom 1 ''keyup'' ev_initial"
    by (simp add: unclaimed_def special_of_def focus_types_def hover_types_def demo_dom_def)
qed (simp_all add: demo_dom_def ev_initial_def)

end
