(* ===== verification/SizzleText.thy ===== *)
theory SizzleText
  imports Prelude
begin

unbundle bit_operations_syntax

text \<open>
  Text of selectors in the engine Sizzle of \<open>docs/_static/jquery-3.6.0.js\<close>: \<open>Sizzle.escape\<close> writes any text as a CSS identifier, the
  expression \<open>identifier\<close> reads identifiers, and \<open>runescape\<close> with \<open>funescape\<close> takes the escapes out again.  Text is a list of the 16 bit
  units that the strings of the language consist of.
\<close>

type_synonym units = "nat list"

section \<open>Model\<close>

definition is_digit_unit :: "nat \<Rightarrow> bool" where
  "is_digit_unit c \<longleftrightarrow> 48 \<le> c \<and> c \<le> 57"

definition is_word_unit :: "nat \<Rightarrow> bool" where
  "is_word_unit c \<longleftrightarrow> is_digit_unit c \<or> 65 \<le> c \<and> c \<le> 90 \<or> 97 \<le> c \<and> c \<le> 122 \<or> c = 95"

definition is_hex_unit :: "nat \<Rightarrow> bool" where
  "is_hex_unit c \<longleftrightarrow> is_digit_unit c \<or> 65 \<le> c \<and> c \<le> 70 \<or> 97 \<le> c \<and> c \<le> 102"

definition is_white_unit :: "nat \<Rightarrow> bool" where
  "is_white_unit c \<longleftrightarrow> c \<in> {32, 9, 13, 10, 12}"

definition hex_value :: "nat \<Rightarrow> nat" where
  "hex_value c = (if c \<le> 57 then c - 48 else if c \<le> 70 then c - 55 else c - 87)"

text \<open>\<open>toString(16)\<close> of a unit below 256.\<close>

definition hex_digit :: "nat \<Rightarrow> nat" where
  "hex_digit n = (if n < 10 then n + 48 else n + 87)"

definition hex_units :: "nat \<Rightarrow> units" where
  "hex_units n = (if n < 16 then [hex_digit n] else [hex_digit (n div 16), hex_digit (n mod 16)])"

text \<open>\<open>fcssescape\<close> with a code point, and the escape of a unit that is not at the beginning.\<close>

definition as_code_point :: "nat \<Rightarrow> units" where
  "as_code_point c = (if c = 0 then [65533] else 92 # hex_units c @ [32])"

definition escape_unit :: "nat \<Rightarrow> units" where
  "escape_unit c =
     (if c \<le> 31 \<or> c = 127 then as_code_point c
      else if c < 127 \<and> \<not> is_word_unit c \<and> c \<noteq> 45 then [92, c]
      else [c])"

text \<open>\<open>Sizzle.escape\<close>: digits at the beginning, also behind a dash, and a lone dash are special.\<close>

definition escape_rest :: "units \<Rightarrow> units" where
  "escape_rest s = concat (map escape_unit s)"

definition sizzle_escape :: "units \<Rightarrow> units" where
  "sizzle_escape s =
     (case s of
        [] \<Rightarrow> []
      | c # r \<Rightarrow>
          if is_digit_unit c then as_code_point c @ escape_rest r
          else if c = 45 then
            (case r of
               [] \<Rightarrow> [92, 45]
             | e # q \<Rightarrow> if is_digit_unit e then 45 # as_code_point e @ escape_rest q else escape_rest s)
          else escape_rest s)"

text \<open>An escape behind a backslash: up to six hexadecimal digits and a blank, or any unit but a line end.\<close>

fun hex_run :: "nat \<Rightarrow> units \<Rightarrow> units" where
  "hex_run (Suc k) (c # s) = (if is_hex_unit c then c # hex_run k s else [])"
| "hex_run _ _ = []"

definition from_hex :: "units \<Rightarrow> nat" where
  "from_hex h = fold (\<lambda>c n. 16 * n + hex_value c) h 0"

text \<open>\<open>funescape\<close>: code points above 65535 become a pair of surrogates.\<close>

definition decode_point :: "nat \<Rightarrow> units" where
  "decode_point n =
     (if n < 65536 then [n]
      else [((n - 65536) div 1024 OR 55296) mod 65536, ((n - 65536) mod 1024 OR 56320) mod 65536])"

definition escape_at :: "units \<Rightarrow> (units \<times> units) option" where
  "escape_at s =
     (let h = hex_run 6 s; r = drop (length h) s in
      if h \<noteq> [] then Some (decode_point (from_hex h), if r \<noteq> [] \<and> is_white_unit (hd r) then tl r else r)
      else (case s of
              c # q \<Rightarrow> if c \<noteq> 13 \<and> c \<noteq> 10 \<and> c \<noteq> 12 then Some ([c], q) else None
            | [] \<Rightarrow> None))"

lemma escape_at_shorter: "escape_at s = Some (us, r) \<Longrightarrow> length r < Suc (length s)"
  by (auto simp: escape_at_def Let_def split: if_splits list.splits)

text \<open>\<open>replace(runescape, funescape)\<close>.\<close>

function sizzle_unescape :: "units \<Rightarrow> units" where
  "sizzle_unescape [] = []"
| "sizzle_unescape (c # s) =
     (case (if c = 92 then escape_at s else None) of
        Some (us, r) \<Rightarrow> us @ sizzle_unescape r
      | None \<Rightarrow> c # sizzle_unescape s)"
  by pat_completeness auto
termination
  by (relation "measure length") (auto dest: escape_at_shorter split: if_splits)

text \<open>The text that \<open>identifier\<close> matches at the beginning, and the text behind it.\<close>

function take_identifier :: "units \<Rightarrow> units \<times> units" where
  "take_identifier [] = ([], [])"
| "take_identifier (c # s) =
     (if c = 92 then
        (case escape_at s of
           Some (us, r) \<Rightarrow>
             (case take_identifier r of (m, rest) \<Rightarrow> (c # take (length s - length r) s @ m, rest))
         | None \<Rightarrow> ([], c # s))
      else if is_word_unit c \<or> c = 45 \<or> 128 \<le> c then
        (case take_identifier s of (m, rest) \<Rightarrow> (c # m, rest))
      else ([], c # s))"
  by pat_completeness auto
termination
  by (relation "measure length") (auto dest: escape_at_shorter)

section \<open>Facts\<close>

lemma hex_digit_props: "n < 16 \<Longrightarrow> is_hex_unit (hex_digit n) \<and> hex_value (hex_digit n) = n"
  by (auto simp: hex_digit_def is_hex_unit_def is_digit_unit_def hex_value_def)

lemma hex_run_all: "list_all is_hex_unit h \<Longrightarrow> length h \<le> k \<Longrightarrow> \<not> is_hex_unit d \<Longrightarrow> hex_run k (h @ d # r) = h"
proof (induction k "h @ d # r" arbitrary: h rule: hex_run.induct)
  case (1 k c s)
  then show ?case by (cases h) auto
qed auto

lemma hex_units_hex: "c < 256 \<Longrightarrow> list_all is_hex_unit (hex_units c)"
  using hex_digit_props by (auto simp: hex_units_def less_mult_imp_div_less)

lemma hex_units_length: "hex_units c \<noteq> []" "length (hex_units c) \<le> 2"
  by (simp_all add: hex_units_def)

lemma hex_run_units: "c < 256 \<Longrightarrow> hex_run 6 (hex_units c @ 32 # r) = hex_units c"
  using hex_units_length(2) [of c]
  by (intro hex_run_all hex_units_hex) (simp_all add: is_hex_unit_def is_digit_unit_def)

lemma from_hex_units: "c < 256 \<Longrightarrow> from_hex (hex_units c) = c"
  using hex_digit_props [of c] hex_digit_props [of "c div 16"] hex_digit_props [of "c mod 16"]
  by (auto simp: hex_units_def from_hex_def less_mult_imp_div_less)

lemma escape_at_point: "c < 256 \<Longrightarrow> escape_at (hex_units c @ 32 # r) = Some ([c], r)"
  by (simp add: escape_at_def Let_def hex_run_units from_hex_units hex_units_length decode_point_def is_white_unit_def)

lemma escape_at_plain: "\<not> is_hex_unit c \<Longrightarrow> c \<notin> {13, 10, 12} \<Longrightarrow> escape_at (c # r) = Some ([c], r)"
  by (simp add: escape_at_def eval_nat_numeral)

definition nul_replaced :: "nat \<Rightarrow> nat" where
  "nul_replaced c = (if c = 0 then 65533 else c)"

text \<open>What both readers do with the escape of a unit.\<close>

definition reads_as :: "units \<Rightarrow> nat \<Rightarrow> bool" where
  "reads_as e c \<longleftrightarrow> (\<forall>r. sizzle_unescape (e @ r) = c # sizzle_unescape r \<and>
     take_identifier (e @ r) = (e @ fst (take_identifier r), snd (take_identifier r)))"

lemma reads_plain: "c \<noteq> 92 \<Longrightarrow> is_word_unit c \<or> c = 45 \<or> 128 \<le> c \<Longrightarrow> reads_as [c] c"
  by (auto simp: reads_as_def split: prod.split)

lemma reads_point: "0 < c \<Longrightarrow> c < 256 \<Longrightarrow> reads_as (as_code_point c) c"
  using escape_at_point [of c] by (auto simp: reads_as_def as_code_point_def split: prod.split)

lemma reads_backslash: "\<not> is_hex_unit c \<Longrightarrow> c \<notin> {13, 10, 12} \<Longrightarrow> reads_as [92, c] c"
  using escape_at_plain [of c] by (auto simp: reads_as_def split: prod.split)

lemma reads_unit: "reads_as (escape_unit c) (nul_replaced c)"
proof -
  consider "c = 0" | "0 < c" "c \<le> 31 \<or> c = 127" | "31 < c" "c < 127" "\<not> is_word_unit c" "c \<noteq> 45"
    | "31 < c" "c \<noteq> 127" "is_word_unit c \<or> c = 45 \<or> 128 \<le> c" by linarith
  then show ?thesis
  proof cases
    case 3
    then have "\<not> is_hex_unit c" by (auto simp: is_word_unit_def is_hex_unit_def)
    then show ?thesis using 3 reads_backslash [of c] by (simp add: escape_unit_def nul_replaced_def)
  next
    case 4
    then have "c \<noteq> 92" by (auto simp: is_word_unit_def is_digit_unit_def)
    then show ?thesis using 4 reads_plain [of c] by (auto simp: escape_unit_def nul_replaced_def)
  qed (use reads_point [of c] reads_plain [of 65533] in \<open>auto simp: escape_unit_def nul_replaced_def as_code_point_def\<close>)
qed

lemma reads_digit: "is_digit_unit c \<Longrightarrow> reads_as (as_code_point c) (nul_replaced c)"
  using reads_point [of c] by (simp add: is_digit_unit_def nul_replaced_def)

lemma reads_list:
  "list_all2 reads_as es cs \<Longrightarrow> sizzle_unescape (concat es) = cs \<and>
     take_identifier (concat es @ r) = (concat es @ fst (take_identifier r), snd (take_identifier r))"
proof (induction rule: list_all2_induct)
  case (Cons e es c cs)
  then show ?case by (simp add: reads_as_def)
qed simp

lemma escape_parts: "\<exists>es. sizzle_escape s = concat es \<and> list_all2 reads_as es (map nul_replaced s)"
proof -
  have rest: "list_all2 reads_as (map escape_unit s) (map nul_replaced s)" for s
    by (simp add: list_all2_conv_all_nth reads_unit)
  have dash: "reads_as [45] (nul_replaced 45)" "reads_as [92, 45] (nul_replaced 45)"
    using reads_plain [of 45] reads_backslash [of 45] by (simp_all add: nul_replaced_def is_hex_unit_def is_digit_unit_def)
  show ?thesis
  proof (cases s)
    case (Cons c r)
    consider "is_digit_unit c" | "c = 45" "r = []" | e q where "c = 45" "r = e # q" "is_digit_unit e"
      | "sizzle_escape s = escape_rest s"
      using Cons by (cases "is_digit_unit c"; cases "c = 45"; cases r) (force simp: sizzle_escape_def)+
    then show ?thesis
    proof cases
      case 1
      then show ?thesis using Cons rest [of r] reads_digit [of c]
        by (intro exI [of _ "as_code_point c # map escape_unit r"]) (simp add: sizzle_escape_def escape_rest_def)
    next
      case 2
      then show ?thesis using Cons dash by (intro exI [of _ "[[92, 45]]"]) (simp add: sizzle_escape_def is_digit_unit_def)
    next
      case 3
      then show ?thesis using Cons rest [of q] reads_digit [of e] dash
        by (intro exI [of _ "[45] # as_code_point e # map escape_unit q"]) (simp add: sizzle_escape_def escape_rest_def is_digit_unit_def)
    next
      case 4
      then show ?thesis using rest [of s] by (auto simp: escape_rest_def)
    qed
  qed (simp add: sizzle_escape_def)
qed

text \<open>Any text can be put into a selector: what \<open>Sizzle.escape\<close> returns is read as one whole identifier, whatever text follows that cannot
  continue an identifier, and taking the escapes out of it gives the text back unit by unit, except that NUL
  becomes the replacement character.
\<close>

theorem escape_embeds:
  "sizzle_unescape (sizzle_escape s) = map (\<lambda>c. if c = 0 then 65533 else c) s \<and>
   (r = [] \<or> hd r \<noteq> 92 \<and> \<not> is_word_unit (hd r) \<and> hd r \<noteq> 45 \<and> hd r < 128 \<longrightarrow>
      take_identifier (sizzle_escape s @ r) = (sizzle_escape s, r))"
proof -
  obtain es where es: "sizzle_escape s = concat es" "list_all2 reads_as es (map nul_replaced s)" using escape_parts by blast
  have "take_identifier r = ([], r)" if "r = [] \<or> hd r \<noteq> 92 \<and> \<not> is_word_unit (hd r) \<and> hd r \<noteq> 45 \<and> hd r < 128"
    using that by (cases r) auto
  then show ?thesis using reads_list [OF es(2), of r] es(1) by (auto simp: nul_replaced_def [abs_def])
qed

theorem escape_embeds_witness:
  "sizzle_unescape (sizzle_escape [49, 46, 0]) = [49, 46, 65533] \<and> take_identifier (sizzle_escape [49, 46, 0] @ [62]) = (sizzle_escape [49, 46, 0], [62])"
  using escape_embeds [of "[49, 46, 0]" "[62]"] by (simp add: is_word_unit_def is_digit_unit_def)

end
