(* ===== verification/SizzleDom.thy ===== *)
theory SizzleDom
  imports SizzleText "HOL-Library.Sublist"
begin

text \<open>
  The documents that selectors are matched against: a tree of nodes, in which a node is named by the way to it.
  The ways along \<open>parentNode\<close>, \<open>previousSibling\<close> and \<open>nextSibling\<close> are the loops that the engine Sizzle of
  \<open>docs/_static/jquery-3.6.0.js\<close> makes over documents.
\<close>

section \<open>Documents\<close>

text \<open>The type of a node is a number as in the browser: 1 for elements, 3 for text, 9 for documents.\<close>

datatype dnode = DNode (node_type: nat) (node_name: units) (node_attrs: "(units \<times> units) list") (node_value: units) (child_nodes: "dnode list")

text \<open>A node is given by the positions of its ancestors and itself among their siblings, its own position first.\<close>

type_synonym path = "nat list"

fun node_at :: "dnode \<Rightarrow> path \<Rightarrow> dnode option" where
  "node_at doc [] = Some doc"
| "node_at doc (i # p) =
     (case node_at doc p of
        Some n \<Rightarrow> if i < length (child_nodes n) then Some (child_nodes n ! i) else None
      | None \<Rightarrow> None)"

definition child_count :: "dnode \<Rightarrow> path \<Rightarrow> nat" where
  "child_count doc p = (case node_at doc p of Some n \<Rightarrow> length (child_nodes n) | None \<Rightarrow> 0)"

definition is_element :: "dnode \<Rightarrow> path \<Rightarrow> bool" where
  "is_element doc p = (case node_at doc p of Some n \<Rightarrow> node_type n = 1 | None \<Rightarrow> False)"

text \<open>Case is folded for the letters of Latin-1.\<close>

definition lower_unit :: "nat \<Rightarrow> nat" where
  "lower_unit c = (if 65 \<le> c \<and> c \<le> 90 \<or> 192 \<le> c \<and> c \<le> 222 \<and> c \<noteq> 215 then c + 32 else c)"

definition lower_units :: "units \<Rightarrow> units" where
  "lower_units s = map lower_unit s"

definition nodeName :: "dnode \<Rightarrow> path \<Rightarrow> units" where
  "nodeName doc p = (case node_at doc p of Some n \<Rightarrow> lower_units (node_name n) | None \<Rightarrow> [])"

section \<open>Ways through a document\<close>

datatype direction = ParentNode | PreviousSibling | NextSibling

fun dir_step :: "dnode \<Rightarrow> direction \<Rightarrow> path \<Rightarrow> path option" where
  "dir_step doc dir [] = None"
| "dir_step doc ParentNode (i # p) = Some p"
| "dir_step doc PreviousSibling (i # p) = (if i = 0 then None else Some ((i - 1) # p))"
| "dir_step doc NextSibling (i # p) = (if Suc i < child_count doc p then Some (Suc i # p) else None)"

text \<open>The nodes that \<open>while ( ( elem = elem[ dir ] ) )\<close> visits.\<close>

definition dir_rank :: "dnode \<Rightarrow> direction \<Rightarrow> path \<Rightarrow> nat" where
  "dir_rank doc dir e = (case dir of ParentNode \<Rightarrow> length e | PreviousSibling \<Rightarrow> hd e | NextSibling \<Rightarrow> child_count doc (tl e) - hd e)"

lemma dir_step_rank: "dir_step doc dir e = Some f \<Longrightarrow> dir_rank doc dir f < dir_rank doc dir e"
  by (cases "(doc, dir, e)" rule: dir_step.cases) (auto simp: dir_rank_def split: if_splits)

function dir_chain :: "dnode \<Rightarrow> direction \<Rightarrow> path \<Rightarrow> path list" where
  "dir_chain doc dir e = (case dir_step doc dir e of None \<Rightarrow> [] | Some f \<Rightarrow> f # dir_chain doc dir f)"
  by pat_completeness auto
termination
  by (relation "measure (\<lambda>(doc, dir, e). dir_rank doc dir e)") (auto dest: dir_step_rank)

declare dir_chain.simps [simp del]

lemma dir_chain_ConsD: "dir_chain doc dir e = f # fs \<Longrightarrow> dir_step doc dir e = Some f \<and> fs = dir_chain doc dir f"
  by (subst (asm) dir_chain.simps) (auto split: option.splits)

lemma dir_chain_rank: "f \<in> set (dir_chain doc dir e) \<Longrightarrow> dir_rank doc dir f < dir_rank doc dir e"
proof (induction "dir_chain doc dir e" arbitrary: e)
  case (Cons g fs)
  then have g: "dir_step doc dir e = Some g" "fs = dir_chain doc dir g" using dir_chain_ConsD [of doc dir e g fs] by simp_all
  then have "f = g \<or> f \<in> set (dir_chain doc dir g)" using Cons.prems Cons.hyps(2) by (metis set_ConsD)
  then show ?case using Cons.hyps(1) [OF g(2)] dir_step_rank [OF g(1)] by fastforce
qed (metis empty_iff list.set(1))

lemma dir_chain_fresh: "e \<notin> set (dir_chain doc dir e)"
  using dir_chain_rank by blast

lemma strict_suffix_Cons: "strict_suffix q (i # p) \<longleftrightarrow> suffix q p"
  by (auto simp: strict_suffix_def suffix_Cons dest: suffix_length_le)

lemma dir_chain_parent: "set (dir_chain doc ParentNode e) = {p. strict_suffix p e}"
proof (induction e)
  case Nil
  then show ?case by (subst dir_chain.simps) simp
next
  case (Cons i e)
  have "dir_chain doc ParentNode (i # e) = e # dir_chain doc ParentNode e" by (subst dir_chain.simps) simp
  moreover have "{p. strict_suffix p (i # e)} = insert e {p. strict_suffix p e}"
    by (auto simp: strict_suffix_Cons suffix_order.le_less)
  ultimately show ?case using Cons by simp
qed

lemma dir_chain_previous: "dir_chain doc PreviousSibling (i # p) = map (\<lambda>j. j # p) (rev [0..<i])"
proof (induction i)
  case 0
  then show ?case by (subst dir_chain.simps) simp
next
  case (Suc i)
  then show ?case by (subst dir_chain.simps) simp
qed

lemma dir_chain_next: "i < child_count doc p \<Longrightarrow> dir_chain doc NextSibling (i # p) = map (\<lambda>j. j # p) [Suc i..<child_count doc p]"
proof (induction "child_count doc p - i" arbitrary: i)
  case (Suc n)
  show ?case
  proof (cases "Suc i < child_count doc p")
    case True
    moreover have "n = child_count doc p - Suc i" using Suc by simp
    ultimately show ?thesis using Suc.hyps(1) [of "Suc i"] by (subst dir_chain.simps) (simp add: upt_conv_Cons)
  next
    case False
    then show ?thesis using Suc by (subst dir_chain.simps) simp
  qed
qed simp

section \<open>Elements in document order\<close>

text \<open>\<open>getElementsByTagName( "*" )\<close>: the elements below a node.\<close>

fun elements_in :: "path \<Rightarrow> dnode \<Rightarrow> path list" and elements_among :: "path \<Rightarrow> nat \<Rightarrow> dnode list \<Rightarrow> path list" where
  "elements_in p (DNode t nm at v cs) = elements_among p 0 cs"
| "elements_among p i [] = []"
| "elements_among p i (c # cs) =
     (if node_type c = 1 then [i # p] else []) @ elements_in (i # p) c @ elements_among p (Suc i) cs"

definition all_elements :: "dnode \<Rightarrow> path \<Rightarrow> path list" where
  "all_elements doc p = (case node_at doc p of Some n \<Rightarrow> elements_in p n | None \<Rightarrow> [])"

lemma elements_sub:
  "set (elements_in p n) = {q @ p | q. q \<noteq> [] \<and> is_element n q}"
  "set (elements_among p i cs) = {q @ (i + j) # p | q j. j < length cs \<and> is_element (cs ! j) q}"
proof (induction p n and p i cs rule: elements_in_elements_among.induct)
  case (1 p t nm at v cs)
  have *: "is_element (DNode t nm at v cs) (q @ [j]) \<longleftrightarrow> j < length cs \<and> is_element (cs ! j) q" for q j
  proof -
    have "node_at (DNode t nm at v cs) (q @ [j]) = (if j < length cs then node_at (cs ! j) q else None)"
      by (induction q) auto
    then show ?thesis by (simp add: is_element_def)
  qed
  have "q \<noteq> [] \<and> is_element (DNode t nm at v cs) q \<longleftrightarrow> (\<exists>r j. q = r @ [j] \<and> j < length cs \<and> is_element (cs ! j) r)" for q
    by (cases q rule: rev_cases) (auto simp: *)
  then show ?case using 1 by auto
next
  case (3 p i c cs)
  have "(\<exists>q. x = q @ i # p \<and> is_element c q) \<longleftrightarrow> node_type c = 1 \<and> x = i # p \<or> (\<exists>q. x = q @ i # p \<and> q \<noteq> [] \<and> is_element c q)" for x
  proof -
    have "is_element c [] \<longleftrightarrow> node_type c = 1" by (simp add: is_element_def)
    then show ?thesis by (metis append_Nil)
  qed
  moreover have "(\<exists>q j. x = q @ (i + j) # p \<and> j < length (c # cs) \<and> is_element ((c # cs) ! j) q) \<longleftrightarrow>
     (\<exists>q. x = q @ i # p \<and> is_element c q) \<or> (\<exists>q j. x = q @ (Suc i + j) # p \<and> j < length cs \<and> is_element (cs ! j) q)" for x
  proof -
    have split: "(\<exists>j. P j) \<longleftrightarrow> P 0 \<or> (\<exists>j. P (Suc j))" for P :: "nat \<Rightarrow> bool" by (metis not0_implies_Suc)
    show ?thesis by (subst ex_comm, subst split) auto
  qed
  ultimately show ?case using 3 by auto
qed simp

end
