(* ===== verification/SizzleOrder.thy ===== *)
theory SizzleOrder
  imports SizzleDom JsSort
begin

unbundle bit_operations_syntax

text \<open>
  Document order in \<open>docs/_static/jquery-3.6.0.js\<close>: the comparison of nodes by their ancestors and siblings (\<open>sortOrder\<close> without the
  browser's own comparison) and \<open>uniqueSort\<close>, which puts a set of nodes into document order and removes duplicates.
\<close>

section \<open>Comparison of nodes\<close>

text \<open>Document order: ancestors first, then by the place among siblings.\<close>

fun list_before :: "nat list \<Rightarrow> nat list \<Rightarrow> bool" where
  "list_before xs [] \<longleftrightarrow> False"
| "list_before [] (y # ys) \<longleftrightarrow> True"
| "list_before (x # xs) (y # ys) \<longleftrightarrow> x < y \<or> x = y \<and> list_before xs ys"

definition doc_before :: "path \<Rightarrow> path \<Rightarrow> bool" where
  "doc_before a b = list_before (rev a) (rev b)"

text \<open>\<open>siblingCheck\<close>; a node that is missing comes first.\<close>

definition siblingCheck :: "dnode \<Rightarrow> path option \<Rightarrow> path option \<Rightarrow> int" where
  "siblingCheck doc a b =
     (case (a, b) of
        (Some x, Some y) \<Rightarrow> if y \<in> set (dir_chain doc NextSibling x) then - 1 else 1
      | (Some x, None) \<Rightarrow> 1
      | (None, _) \<Rightarrow> - 1)"

text \<open>A node with its ancestors, the root first.\<close>

definition lineage :: "dnode \<Rightarrow> path \<Rightarrow> path list" where
  "lineage doc a = rev (a # dir_chain doc ParentNode a)"

fun discrepancy :: "path list \<Rightarrow> path list \<Rightarrow> path option \<times> path option" where
  "discrepancy (x # xs) (y # ys) = (if x = y then discrepancy xs ys else (Some x, Some y))"
| "discrepancy (x # xs) [] = (Some x, None)"
| "discrepancy [] (y # ys) = (None, Some y)"
| "discrepancy [] [] = (None, None)"

text \<open>\<open>sortOrder\<close> for nodes of one document.\<close>

definition sortOrder :: "dnode \<Rightarrow> path \<Rightarrow> path \<Rightarrow> int" where
  "sortOrder doc a b =
     (if a = b then 0
      else case (dir_step doc ParentNode a, dir_step doc ParentNode b) of
        (Some p, Some q) \<Rightarrow>
          if p = q then siblingCheck doc (Some a) (Some b)
          else (case discrepancy (lineage doc a) (lineage doc b) of (x, y) \<Rightarrow> siblingCheck doc x y)
      | (aup, bup) \<Rightarrow>
          if a = [] \<and> node_type doc = 9 then - 1
          else if b = [] \<and> node_type doc = 9 then 1
          else if aup \<noteq> None then - 1 else if bup \<noteq> None then 1 else 0)"

text \<open>
  With \<open>compareDocumentPosition\<close> of the browser, which answers in bits: 2 for preceding, 4 for following, 8 for an ancestor, 16 for a
  descendant.  Nodes of one document are never disconnected.
\<close>

definition compareDocumentPosition :: "path \<Rightarrow> path \<Rightarrow> nat" where
  "compareDocumentPosition a b =
     (if a = b then 0 else if strict_suffix a b then 20 else if strict_suffix b a then 10 else if doc_before a b then 4 else 2)"

definition sortOrder_native :: "path \<Rightarrow> path \<Rightarrow> int" where
  "sortOrder_native a b = (if a = b then 0 else if compareDocumentPosition a b AND 4 \<noteq> 0 then - 1 else 1)"

text \<open>\<open>uniqueSort\<close>: the flag \<open>hasDuplicate\<close> is set when the sort has compared a node with itself.\<close>

fun duplicate_indexes :: "nat \<Rightarrow> 'a list \<Rightarrow> nat list" where
  "duplicate_indexes i (x # y # xs) = (if x = y then [Suc i] else []) @ duplicate_indexes (Suc i) (y # xs)"
| "duplicate_indexes i _ = []"

definition splice_one :: "nat \<Rightarrow> 'a list \<Rightarrow> 'a list" where
  "splice_one k xs = take k xs @ drop (Suc k) xs"

definition drop_duplicates :: "'a list \<Rightarrow> 'a list" where
  "drop_duplicates xs = foldr splice_one (duplicate_indexes 0 xs) xs"

definition uniqueSort :: "dnode \<Rightarrow> bool \<Rightarrow> path list \<Rightarrow> path list" where
  "uniqueSort doc hasDuplicate results =
     (let sorted = sort_js (sortOrder doc) results in if hasDuplicate then drop_duplicates sorted else sorted)"

section \<open>Document order\<close>

lemma list_before_irrefl [simp]: "\<not> list_before xs xs"
  by (induction xs) auto

lemma list_before_trans: "list_before xs ys \<Longrightarrow> list_before ys zs \<Longrightarrow> list_before xs zs"
proof (induction xs ys arbitrary: zs rule: list_before.induct)
  case (2 y ys)
  then show ?case by (cases zs) auto
next
  case (3 x xs y ys)
  then show ?case by (cases zs) auto
qed simp

lemma list_before_total: "xs = ys \<or> list_before xs ys \<or> list_before ys xs"
proof (induction xs ys rule: list_before.induct)
  case (1 xs)
  then show ?case by (cases xs) auto
qed auto

lemma list_before_append [simp]: "list_before (zs @ xs) (zs @ ys) = list_before xs ys"
  by (induction zs) auto

lemma list_before_self_append [simp]: "list_before xs (xs @ ys) \<longleftrightarrow> ys \<noteq> []" "\<not> list_before (xs @ ys) xs"
  using list_before_append [of xs "[]" ys] list_before_append [of xs ys "[]"] by (cases ys; simp)+

lemma list_before_Nil [simp]: "list_before [] ys \<longleftrightarrow> ys \<noteq> []"
  by (cases ys) auto

definition doc_cmp :: "path \<Rightarrow> path \<Rightarrow> int" where
  "doc_cmp a b = (if a = b then 0 else if doc_before a b then - 1 else 1)"

interpretation document: comparator doc_cmp
proof
  fix x y z :: path
  show "doc_cmp x y \<le> 0 \<or> doc_cmp y x \<le> 0"
    using list_before_total [of "rev x" "rev y"] by (auto simp: doc_cmp_def doc_before_def)
  show "doc_cmp x y \<le> 0 \<Longrightarrow> doc_cmp y z \<le> 0 \<Longrightarrow> doc_cmp x z \<le> 0"
    using list_before_trans [of "rev x" "rev y" "rev z"] by (auto simp: doc_cmp_def doc_before_def split: if_splits)
qed

text \<open>Two nodes have a last common ancestor; what is below it on the two ways decides.\<close>

lemma split_common: "\<exists>c u v. a = u @ c \<and> b = v @ c \<and> (u = [] \<or> v = [] \<or> last u \<noteq> last v)"
proof (induction a arbitrary: b rule: rev_induct)
  case (snoc x xs)
  show ?case
  proof (cases b rule: rev_cases)
    case (snoc ys y)
    show ?thesis
    proof (cases "x = y")
      case True
      obtain c u v where "xs = u @ c" "ys = v @ c" "u = [] \<or> v = [] \<or> last u \<noteq> last v" using snoc.IH [of ys] by blast
      then show ?thesis using True \<open>b = ys @ [y]\<close> by (intro exI [of _ "c @ [x]"] exI [of _ u] exI [of _ v]) simp
    next
      case False
      then show ?thesis using \<open>b = ys @ [y]\<close> by (intro exI [of _ "[]"] exI [of _ "xs @ [x]"] exI [of _ b]) simp
    qed
  qed (auto intro!: exI [of _ "[]"])
qed (auto intro!: exI [of _ "[]"])

lemma lineage_Cons: "lineage doc (i # p) = lineage doc p @ [i # p]"
  unfolding lineage_def by (subst dir_chain.simps) simp

lemma lineage_append: "\<exists>rest. lineage doc (u @ i # c) = lineage doc c @ (i # c) # rest"
  by (induction u) (auto simp: lineage_Cons)

lemma discrepancy_common: "discrepancy (zs @ xs) (zs @ ys) = discrepancy xs ys"
  by (induction zs) auto

lemma discrepancy_lineage:
  assumes "u = [] \<or> v = [] \<or> last u \<noteq> last v"
  shows "discrepancy (lineage doc (u @ c)) (lineage doc (v @ c)) =
     (if u = [] then None else Some (last u # c), if v = [] then None else Some (last v # c))"
proof -
  have *: "w = [] \<or> (\<exists>rest. lineage doc (w @ c) = lineage doc c @ (last w # c) # rest)" for w
    using lineage_append [of doc "butlast w" "last w" c] by (metis append_butlast_last_id append.assoc append_Cons append_Nil)
  have "discrepancy (lineage doc c @ xs) (lineage doc c) = discrepancy xs []" "discrepancy (lineage doc c) (lineage doc c @ xs) = discrepancy [] xs" for xs
    using discrepancy_common [of "lineage doc c" xs "[]"] discrepancy_common [of "lineage doc c" "[]" xs] by simp_all
  moreover have "discrepancy (lineage doc c) (lineage doc c) = (None, None)"
    using discrepancy_common [of "lineage doc c" "[]" "[]"] by simp
  ultimately show ?thesis using * [of u] * [of v] assms by (auto simp: discrepancy_common)
qed

lemma exists_child: "node_at doc (u @ j # c) \<noteq> None \<Longrightarrow> j < child_count doc c"
  by (induction u) (auto simp: child_count_def split: option.splits if_splits)

lemma siblingCheck_order:
  assumes "j < child_count doc c" "i < child_count doc c" "i \<noteq> j"
  shows "siblingCheck doc (Some (i # c)) (Some (j # c)) = (if i < j then - 1 else 1)"
  using assms by (auto simp: siblingCheck_def dir_chain_next)

lemma doc_before_split:
  assumes "u = [] \<or> v = [] \<or> last u \<noteq> last v" "u @ c \<noteq> v @ c"
  shows "doc_before (u @ c) (v @ c) \<longleftrightarrow> u = [] \<or> v \<noteq> [] \<and> last u < last v"
  using assms by (cases u rule: rev_cases; cases v rule: rev_cases) (auto simp: doc_before_def)

lemma sortOrder_doc_cmp:
  assumes "node_type doc = 9" "node_at doc a \<noteq> None" "node_at doc b \<noteq> None"
  shows "sortOrder doc a b = doc_cmp a b"
proof (cases "a = b \<or> a = [] \<or> b = []")
  case True
  then show ?thesis using assms(1) by (cases a; cases b) (auto simp: sortOrder_def doc_cmp_def doc_before_def)
next
  case False
  obtain i p j q where ip: "a = i # p" "b = j # q" using False by (meson neq_Nil_conv)
  obtain c u v where c: "a = u @ c" "b = v @ c" "u = [] \<or> v = [] \<or> last u \<noteq> last v" using split_common by blast
  have bound: "w \<noteq> [] \<Longrightarrow> node_at doc (w @ c) \<noteq> None \<Longrightarrow> last w < child_count doc c" for w
    using exists_child [of doc "butlast w" "last w" c] by (metis append_butlast_last_id append.assoc append_Cons append_Nil)
  have check: "siblingCheck doc (if u = [] then None else Some (last u # c)) (if v = [] then None else Some (last v # c)) = doc_cmp a b"
    using c False assms(2,3) bound [of u] bound [of v] doc_before_split [OF c(3)] siblingCheck_order [of "last v" doc c "last u"]
    by (cases "u = []"; cases "v = []") (auto simp: doc_cmp_def siblingCheck_def split: if_splits)
  show ?thesis
  proof (cases "p = q")
    case True
    then have "i \<noteq> j" using ip False by simp
    then show ?thesis using ip True assms(2,3) exists_child [of doc "[]" i p] exists_child [of doc "[]" j p] siblingCheck_order [of j doc p i]
      by (simp add: sortOrder_def doc_cmp_def doc_before_def)
  next
    case False
    then have "sortOrder doc a b = (case discrepancy (lineage doc a) (lineage doc b) of (x, y) \<Rightarrow> siblingCheck doc x y)"
      using ip \<open>\<not> (a = b \<or> a = [] \<or> b = [])\<close> by (simp add: sortOrder_def)
    then show ?thesis using check discrepancy_lineage [OF c(3), of doc c] c(1,2) by simp
  qed
qed

section \<open>Sorting and removal of duplicates\<close>

lemma sort_insert_cong: "(\<And>y. y \<in> set ys \<Longrightarrow> f x y = g x y) \<Longrightarrow> sort_insert f x ys = sort_insert g x ys"
  by (induction ys) auto

lemma sort_js_cong:
  assumes "\<And>x y. x \<in> set xs \<Longrightarrow> y \<in> set xs \<Longrightarrow> f x y = g x y"
  shows "sort_js f xs = sort_js g xs"
  using assms
proof (induction xs)
  case (Cons x xs)
  have "sort_js f xs = sort_js g xs" by (rule Cons.IH) (use Cons.prems in auto)
  moreover have "sort_insert f x (sort_js g xs) = sort_insert g x (sort_js g xs)" by (rule sort_insert_cong) (use Cons.prems in auto)
  ultimately show ?case by (simp add: sort_js_def)
qed (simp add: sort_js_def)

lemma duplicate_indexes_shift: "duplicate_indexes (Suc i) xs = map Suc (duplicate_indexes i xs)"
  by (induction i xs rule: duplicate_indexes.induct) auto

lemma foldr_splice_Cons: "foldr splice_one (map Suc ks) (x # xs) = x # foldr splice_one ks xs"
  by (induction ks) (auto simp: splice_one_def)

lemma duplicate_indexes_pos: "k \<in> set (duplicate_indexes i xs) \<Longrightarrow> i < k"
  by (induction i xs rule: duplicate_indexes.induct) (auto split: if_splits)

lemma foldr_splice_hd: "\<forall>k \<in> set ks. 0 < k \<Longrightarrow> foldr splice_one ks (x # xs) = x # tl (foldr splice_one ks (x # xs))"
proof (induction ks)
  case (Cons k ks)
  then obtain ys where "foldr splice_one ks (x # xs) = x # ys" by (metis list.set_intros(2))
  moreover obtain j where "k = Suc j" using Cons.prems by (cases k) auto
  ultimately have "foldr splice_one (k # ks) (x # xs) = x # splice_one j ys" by (simp add: splice_one_def)
  then show ?case by simp
qed simp

lemma drop_duplicates_remdups: "drop_duplicates xs = remdups_adj xs"
proof (induction xs rule: remdups_adj.induct)
  case (3 x y xs)
  let ?ks = "duplicate_indexes 0 (y # xs)"
  have tail: "foldr splice_one (duplicate_indexes (Suc 0) (y # xs)) (x # y # xs) = x # drop_duplicates (y # xs)"
    by (simp only: duplicate_indexes_shift foldr_splice_Cons drop_duplicates_def)
  have hd: "drop_duplicates (y # xs) = y # tl (drop_duplicates (y # xs))"
    unfolding drop_duplicates_def by (rule foldr_splice_hd) (auto dest: duplicate_indexes_pos)
  show ?case
  proof (cases "x = y")
    case True
    then have "drop_duplicates (x # y # xs) = splice_one (Suc 0) (x # drop_duplicates (y # xs))"
      using tail by (simp add: drop_duplicates_def)
    also have "\<dots> = x # tl (drop_duplicates (y # xs))" by (subst hd) (simp add: splice_one_def)
    finally show ?thesis using True hd 3 by simp
  next
    case False
    then show ?thesis using tail 3 by (simp add: drop_duplicates_def)
  qed
qed (simp_all add: drop_duplicates_def)

lemma sorted_remdups_adj:
  "sorted_wrt (\<lambda>a b. doc_cmp a b \<le> 0) xs \<Longrightarrow> sorted_wrt doc_before (remdups_adj xs)"
proof (induction xs rule: remdups_adj.induct)
  case (3 x y xs)
  show ?case
  proof (cases "x = y")
    case False
    have "doc_before x z" if "z \<in> set (y # xs)" for z
    proof -
      have xy: "doc_before x y" and yz: "z = y \<or> doc_before y z" using 3(3) False that by (auto simp: doc_cmp_def split: if_splits)
      then show ?thesis using list_before_trans by (auto simp: doc_before_def)
    qed
    then show ?thesis using 3 False by (auto simp: doc_cmp_def split: if_splits)
  qed (use 3 in auto)
qed simp_all

lemma doc_before_distinct: "sorted_wrt doc_before xs \<Longrightarrow> distinct xs"
  by (induction xs) (auto simp: doc_before_def)

lemma uniqueSort_ordered:
  assumes "node_type doc = 9" "\<And>e. e \<in> set results \<Longrightarrow> node_at doc e \<noteq> None" "distinct results \<or> hasDuplicate"
  shows "set (uniqueSort doc hasDuplicate results) = set results" "sorted_wrt doc_before (uniqueSort doc hasDuplicate results)"
proof -
  have sort: "sort_js (sortOrder doc) results = sort_js doc_cmp results"
    by (rule sort_js_cong) (use sortOrder_doc_cmp assms(1,2) in blast)
  have sorted: "sorted_wrt doc_before (remdups_adj (sort_js doc_cmp results))"
    by (rule sorted_remdups_adj) (rule document.sorted_sort_js)
  have "distinct results \<Longrightarrow> remdups_adj (sort_js doc_cmp results) = sort_js doc_cmp results"
    using mset_sort_js [of doc_cmp results] by (metis mset_eq_imp_distinct_iff remdups_adj_distinct)
  then have "uniqueSort doc hasDuplicate results = remdups_adj (sort_js doc_cmp results)"
    using assms(3) by (auto simp: uniqueSort_def sort drop_duplicates_remdups Let_def)
  then show "set (uniqueSort doc hasDuplicate results) = set results" "sorted_wrt doc_before (uniqueSort doc hasDuplicate results)"
    using sorted by simp_all
qed

section \<open>The two comparisons\<close>

lemma strict_suffix_before: "strict_suffix p q \<Longrightarrow> doc_before p q"
  by (auto simp: strict_suffix_def suffix_def doc_before_def)

lemma before_asym: "doc_before p q \<Longrightarrow> \<not> doc_before q p"
  using list_before_trans list_before_irrefl unfolding doc_before_def by blast

text \<open>The comparison of nodes by their ancestors and siblings and the one with \<open>compareDocumentPosition\<close> order the nodes of a document in the
  same way, which is document order.
\<close>

theorem sort_orders_agree:
  assumes "node_type doc = 9" "node_at doc a \<noteq> None" "node_at doc b \<noteq> None"
  shows "sortOrder doc a b = sortOrder_native a b \<and> (sortOrder doc a b < 0 \<longleftrightarrow> doc_before a b)"
proof -
  have "sortOrder_native a b = doc_cmp a b"
    using strict_suffix_before [of a b] strict_suffix_before [of b a] before_asym [of b a]
    by (auto simp: sortOrder_native_def compareDocumentPosition_def doc_cmp_def)
  moreover have "\<not> doc_before a a" by (simp add: doc_before_def)
  ultimately show ?thesis using sortOrder_doc_cmp [OF assms] by (auto simp: doc_cmp_def)
qed

theorem sort_orders_agree_witness:
  "sortOrder (DNode 9 [] [] [] [DNode 1 [80] [] [] [DNode 1 [73] [] [] []], DNode 1 [80] [] [] []]) [0, 0] [1] = sortOrder_native [0, 0] [1]"
  using sort_orders_agree [of "DNode 9 [] [] [] [DNode 1 [80] [] [] [DNode 1 [73] [] [] []], DNode 1 [80] [] [] []]" "[0, 0]" "[1]"] by simp

end
