(* ===== verification/SizzleFilters.thy ===== *)
theory SizzleFilters
  imports SizzleDom
begin

text \<open>
  The filters of selectors in \<open>docs/_static/jquery-3.6.0.js\<close>: names, identifiers, classes, attributes, positions among siblings and
  pseudo classes that the tree decides.  Positions are remembered on the nodes for the time of a run
  (\<open>dirruns\<close>), so the filters pass the state of these caches along.
\<close>

section \<open>Caches\<close>

text \<open>A cell is the array \<open>newCache\<close> of a combinator: run, name of the combinator, and result once there is one.\<close>

record cache_cell =
  cell_run :: nat
  cell_done :: nat
  cell_result :: "bool option"

datatype cache_key = DirKey direction | NameKey units

text \<open>A search begins at a node or at several; \<open>outermostContext\<close> is \<open>true\<close> when it begins at the document.\<close>

datatype search_context = CtxNode path | CtxNodes "path list"

datatype outer_context = NoOuter | OuterTrue | OuterCtx search_context

text \<open>
  What hangs on the nodes under \<open>expando\<close>: the cell for each key of a combinator; for \<open>nth\<close> the run, index and count on the
  parent; for \<open>nth-last\<close> the run and the count on the element itself.
\<close>

record sizzle_state =
  dirruns :: nat
  outermostContext :: outer_context
  cells :: "cache_cell list"
  comb_cache :: "path \<times> cache_key \<Rightarrow> nat option"
  nth_cache :: "path \<Rightarrow> (nat \<times> nat \<times> nat) option"
  last_cache :: "path \<Rightarrow> (nat \<times> nat) option"

section \<open>Filters without state\<close>

definition filter_TAG :: "dnode \<Rightarrow> units \<Rightarrow> path \<Rightarrow> bool" where
  "filter_TAG doc sel e \<longleftrightarrow> sel = [42] \<or> nodeName doc e \<noteq> [] \<and> nodeName doc e = lower_units (sizzle_unescape sel)"

text \<open>\<open>getAttribute\<close>: names of attributes of HTML elements are folded.\<close>

definition getAttribute :: "dnode \<Rightarrow> bool \<Rightarrow> units \<Rightarrow> path \<Rightarrow> units option" where
  "getAttribute doc xml name e =
     (case node_at doc e of Some n \<Rightarrow> map_of (node_attrs n) (if xml then name else lower_units name) | None \<Rightarrow> None)"

definition id_name :: units where "id_name = [105, 100]"
definition class_name :: units where "class_name = [99, 108, 97, 115, 115]"

definition filter_ID :: "dnode \<Rightarrow> bool \<Rightarrow> units \<Rightarrow> path \<Rightarrow> bool" where
  "filter_ID doc xml sel e \<longleftrightarrow> getAttribute doc xml id_name e = Some (sizzle_unescape sel)"

text \<open>The expression of a class: the name between white space or the ends.  Names have no escapes here.\<close>

fun class_scan :: "bool \<Rightarrow> units \<Rightarrow> units \<Rightarrow> bool" where
  "class_scan start name [] \<longleftrightarrow> start \<and> name = []"
| "class_scan start name (c # s) \<longleftrightarrow>
     start \<and> take (length name) (c # s) = name \<and>
       (case drop (length name) (c # s) of [] \<Rightarrow> True | d # _ \<Rightarrow> is_white_unit d) \<or>
     class_scan (is_white_unit c) name s"

definition filter_CLASS :: "dnode \<Rightarrow> bool \<Rightarrow> units \<Rightarrow> path \<Rightarrow> bool" where
  "filter_CLASS doc xml name e \<longleftrightarrow>
     class_scan True name (case getAttribute doc xml class_name e of Some s \<Rightarrow> s | None \<Rightarrow> [])"

datatype attr_operator = AttrExists | AttrEq | AttrNe | AttrPrefix | AttrSub | AttrSuffix | AttrWord | AttrDash

text \<open>\<open>preFilter.ATTR\<close>: a word that is looked for gets blanks around it.\<close>

definition attr_check :: "attr_operator \<Rightarrow> units \<Rightarrow> units" where
  "attr_check operator v = (let u = sizzle_unescape v in if operator = AttrWord then 32 # u @ [32] else u)"

fun occurs_in :: "units \<Rightarrow> units \<Rightarrow> bool" where
  "occurs_in n [] \<longleftrightarrow> n = []"
| "occurs_in n (c # s) \<longleftrightarrow> take (length n) (c # s) = n \<or> occurs_in n s"

text \<open>\<open>replace( rwhitespace, " " )\<close>.\<close>

fun collapse_white :: "units \<Rightarrow> units" where
  "collapse_white [] = []"
| "collapse_white (c # s) =
     (if is_white_unit c then
        (case s of d # _ \<Rightarrow> if is_white_unit d then collapse_white s else 32 # collapse_white s | [] \<Rightarrow> [32])
      else c # collapse_white s)"

definition slice_last :: "nat \<Rightarrow> units \<Rightarrow> units" where
  "slice_last k s = (if k = 0 then s else drop (length s - k) s)"

definition attr_test :: "attr_operator \<Rightarrow> units \<Rightarrow> units \<Rightarrow> bool" where
  "attr_test operator v result \<longleftrightarrow>
     (case operator of
        AttrExists \<Rightarrow> True
      | AttrEq \<Rightarrow> result = v
      | AttrNe \<Rightarrow> result \<noteq> v
      | AttrPrefix \<Rightarrow> v \<noteq> [] \<and> take (length v) result = v
      | AttrSub \<Rightarrow> v \<noteq> [] \<and> occurs_in v result
      | AttrSuffix \<Rightarrow> v \<noteq> [] \<and> slice_last (length v) result = v
      | AttrWord \<Rightarrow> occurs_in v (32 # collapse_white result @ [32])
      | AttrDash \<Rightarrow> result = v \<or> take (length v + 1) result = v @ [45])"

definition filter_ATTR :: "dnode \<Rightarrow> bool \<Rightarrow> units \<Rightarrow> attr_operator \<Rightarrow> units \<Rightarrow> path \<Rightarrow> bool" where
  "filter_ATTR doc xml name operator v e \<longleftrightarrow>
     (case getAttribute doc xml name e of
        None \<Rightarrow> operator = AttrNe
      | Some result \<Rightarrow> attr_test operator v result)"

section \<open>Positions among siblings\<close>

datatype child_type = COnly | CFirst | CLast | CNth | CNthLast

definition same_kind :: "dnode \<Rightarrow> bool \<Rightarrow> path \<Rightarrow> path \<Rightarrow> bool" where
  "same_kind doc ofType e f = (if ofType then nodeName doc f = nodeName doc e else is_element doc f)"

definition no_kin :: "dnode \<Rightarrow> bool \<Rightarrow> direction \<Rightarrow> path \<Rightarrow> bool" where
  "no_kin doc ofType dir e = list_all (\<lambda>f. \<not> same_kind doc ofType e f) (dir_chain doc dir e)"

text \<open>From \<open>start\<close>: the first child and those behind it, or the last child and those before it.\<close>

definition from_start :: "dnode \<Rightarrow> bool \<Rightarrow> path \<Rightarrow> path list" where
  "from_start doc forward parent =
     (let n = child_count doc parent in
      if n = 0 then []
      else if forward then (0 # parent) # dir_chain doc NextSibling (0 # parent)
      else ((n - 1) # parent) # dir_chain doc PreviousSibling ((n - 1) # parent))"

text \<open>The loop that seeks \<open>elem\<close>, with \<open>nodeIndex\<close> of the next node and \<open>diff\<close> so far; \<open>None\<close> when it runs out of nodes.\<close>

fun nth_scan :: "(path \<Rightarrow> bool) \<Rightarrow> path \<Rightarrow> nat \<Rightarrow> nat \<Rightarrow> path list \<Rightarrow> (nat \<times> nat) option" where
  "nth_scan kind e i diff [] = None"
| "nth_scan kind e i diff (f # fs) =
     (if kind f \<and> f = e then Some (i, Suc diff)
      else nth_scan kind e (Suc i) (if kind f then Suc diff else diff) fs)"

text \<open>\<open>:nth-child\<close> of HTML: the search goes on behind the child that was found last, and from the start if that fails.\<close>

definition nth_seek :: "dnode \<Rightarrow> path \<Rightarrow> sizzle_state \<Rightarrow> (nat \<times> nat) option" where
  "nth_seek doc e st =
     (let parent = tl e;
          further = (case nth_cache st parent of
             Some (run, i, diff) \<Rightarrow>
               if run = dirruns st \<and> i \<noteq> 0
               then nth_scan (is_element doc) e (Suc i) diff (dir_chain doc NextSibling (i # parent)) else None
           | None \<Rightarrow> None)
      in case further of
           Some r \<Rightarrow> Some r
         | None \<Rightarrow> nth_scan (is_element doc) e 0 0 (from_start doc True parent))"

definition nth_forward :: "dnode \<Rightarrow> path \<Rightarrow> sizzle_state \<Rightarrow> nat \<times> sizzle_state" where
  "nth_forward doc e st =
     (case nth_seek doc e st of
        Some (i, diff) \<Rightarrow> (diff, st\<lparr>nth_cache := (nth_cache st)(tl e \<mapsto> (dirruns st, i, diff))\<rparr>)
      | None \<Rightarrow> (0, st))"

text \<open>\<open>:nth-last-child\<close> of HTML: every element on the way gets its count.\<close>

fun last_scan :: "dnode \<Rightarrow> path \<Rightarrow> nat \<Rightarrow> path list \<Rightarrow> sizzle_state \<Rightarrow> nat option \<times> sizzle_state" where
  "last_scan doc e diff [] st = (None, st)"
| "last_scan doc e diff (f # fs) st =
     (if is_element doc f then
        let st' = st\<lparr>last_cache := (last_cache st)(f \<mapsto> (dirruns st, Suc diff))\<rparr> in
        if f = e then (Some (Suc diff), st') else last_scan doc e (Suc diff) fs st'
      else last_scan doc e diff fs st)"

text \<open>The search begins at \<open>node = elem\<close>: the siblings before the element are counted first, then those from the last on.\<close>

definition nth_backward :: "dnode \<Rightarrow> path \<Rightarrow> sizzle_state \<Rightarrow> nat \<times> sizzle_state" where
  "nth_backward doc e st =
     (case (case last_cache st e of Some (run, diff) \<Rightarrow> if run = dirruns st then Some diff else None | None \<Rightarrow> None) of
        Some diff \<Rightarrow> (diff, st)
      | None \<Rightarrow>
          (let st1 = snd (last_scan doc e 0 (dir_chain doc PreviousSibling e) st);
               found = last_scan doc e 0 (from_start doc False (tl e)) st1
           in (case fst found of Some diff \<Rightarrow> diff | None \<Rightarrow> 0, snd found)))"

definition nth_plain :: "dnode \<Rightarrow> bool \<Rightarrow> bool \<Rightarrow> path \<Rightarrow> nat" where
  "nth_plain doc ofType forward e =
     (case nth_scan (same_kind doc ofType e) e 0 0 (from_start doc forward (tl e)) of Some (i, diff) \<Rightarrow> diff | None \<Rightarrow> 0)"

text \<open>\<open>diff === first || ( diff % first === 0 && diff / first >= 0 )\<close>; the remainder of a division by zero is not a number.\<close>

definition cycle_test :: "int \<Rightarrow> int \<Rightarrow> nat \<Rightarrow> bool" where
  "cycle_test a b diff \<longleftrightarrow> (let k = int diff - b in k = a \<or> a \<noteq> 0 \<and> k mod a = 0 \<and> 0 \<le> k div a)"

definition filter_CHILD :: "dnode \<Rightarrow> bool \<Rightarrow> child_type \<Rightarrow> bool \<Rightarrow> int \<Rightarrow> int \<Rightarrow> path \<Rightarrow> sizzle_state \<Rightarrow> bool \<times> sizzle_state" where
  "filter_CHILD doc xml ty ofType a b e st =
     (if e = [] then (False, st)
      else case ty of
        COnly \<Rightarrow> (no_kin doc ofType PreviousSibling e \<and> no_kin doc ofType NextSibling e, st)
      | CFirst \<Rightarrow> (no_kin doc ofType PreviousSibling e, st)
      | CLast \<Rightarrow> (no_kin doc ofType NextSibling e, st)
      | CNth \<Rightarrow>
          if a = 1 \<and> b = 0 then (True, st)
          else if \<not> xml \<and> \<not> ofType then (case nth_forward doc e st of (diff, st') \<Rightarrow> (cycle_test a b diff, st'))
          else (cycle_test a b (nth_plain doc ofType True e), st)
      | CNthLast \<Rightarrow>
          if a = 1 \<and> b = 0 then (True, st)
          else if \<not> xml \<and> \<not> ofType then (case nth_backward doc e st of (diff, st') \<Rightarrow> (cycle_test a b diff, st'))
          else (cycle_test a b (nth_plain doc ofType False e), st))"

text \<open>\<open>preFilter.CHILD\<close>: the numbers of \<open>an+b\<close> from the captures of the expression; the captures of a missing part are undefined.\<close>

definition unit_number :: "units \<Rightarrow> nat" where
  "unit_number ds = fold (\<lambda>c n. 10 * n + (c - 48)) ds 0"

definition signed_number :: "units \<Rightarrow> units \<Rightarrow> int" where
  "signed_number sign ds = (if sign = [45] then - int (unit_number ds) else int (unit_number ds))"

definition even_name :: units where "even_name = [101, 118, 101, 110]"
definition odd_name :: units where "odd_name = [111, 100, 100]"

definition nth_numbers :: "units \<Rightarrow> (units \<times> units) option \<Rightarrow> (units \<times> units) option \<Rightarrow> int \<times> int" where
  "nth_numbers argument xn y =
     (case xn of
        Some (sign, ds) \<Rightarrow> signed_number sign (if ds = [] then [49] else ds)
      | None \<Rightarrow> if argument = even_name \<or> argument = odd_name then 2 else 0,
      case y of
        Some (sign, ds) \<Rightarrow> signed_number sign ds
      | None \<Rightarrow> if argument = odd_name then 1 else 0)"

definition prefilter_CHILD ::
  "child_type \<Rightarrow> units \<Rightarrow> (units \<times> units) option \<Rightarrow> (units \<times> units) option \<Rightarrow> unit + (int \<times> int) option" where
  "prefilter_CHILD ty argument xn y =
     (if ty = CNth \<or> ty = CNthLast then if argument = [] then Inl () else Inr (Some (nth_numbers argument xn y))
      else if argument \<noteq> [] then Inl () else Inr None)"

section \<open>Pseudo classes\<close>

definition pseudo_empty :: "dnode \<Rightarrow> path \<Rightarrow> bool" where
  "pseudo_empty doc e = (case node_at doc e of Some n \<Rightarrow> list_all (\<lambda>c. 6 \<le> node_type c) (child_nodes n) | None \<Rightarrow> True)"

definition pseudo_header :: "dnode \<Rightarrow> path \<Rightarrow> bool" where
  "pseudo_header doc e = (case nodeName doc e of [h, d] \<Rightarrow> h = 104 \<and> is_digit_unit d | _ \<Rightarrow> False)"

definition pseudo_input :: "dnode \<Rightarrow> path \<Rightarrow> bool" where
  "pseudo_input doc e \<longleftrightarrow> nodeName doc e \<in>
     {[105, 110, 112, 117, 116], [115, 101, 108, 101, 99, 116], [116, 101, 120, 116, 97, 114, 101, 97], [98, 117, 116, 116, 111, 110]}"

text \<open>\<open>getText\<close>: elements, documents and fragments give the text inside, text and CDATA their value, others nothing.\<close>

fun getText :: "dnode \<Rightarrow> units" where
  "getText (DNode t nm at v cs) =
     (if t = 1 \<or> t = 9 \<or> t = 11 then concat (map getText cs) else if t = 3 \<or> t = 4 then v else [])"

definition pseudo_contains :: "dnode \<Rightarrow> units \<Rightarrow> path \<Rightarrow> bool" where
  "pseudo_contains doc s e = (case node_at doc e of Some n \<Rightarrow> occurs_in (sizzle_unescape s) (getText n) | None \<Rightarrow> False)"

definition lang_name :: units where "lang_name = [108, 97, 110, 103]"
definition xml_lang_name :: units where "xml_lang_name = [120, 109, 108, 58, 108, 97, 110, 103]"

definition elem_lang :: "dnode \<Rightarrow> bool \<Rightarrow> path \<Rightarrow> units" where
  "elem_lang doc xml e =
     (let own = (\<lambda>name. case getAttribute doc xml name e of Some s \<Rightarrow> s | None \<Rightarrow> []) in
      if xml \<and> own xml_lang_name \<noteq> [] then own xml_lang_name else own lang_name)"

definition lang_matches :: "units \<Rightarrow> units \<Rightarrow> bool" where
  "lang_matches lang s \<longleftrightarrow> (let l = lower_units s in l = lang \<or> take (length lang + 1) l = lang @ [45])"

fun lang_walk :: "dnode \<Rightarrow> bool \<Rightarrow> units \<Rightarrow> path \<Rightarrow> path list \<Rightarrow> bool" where
  "lang_walk doc xml lang e fs =
     (if elem_lang doc xml e \<noteq> [] then lang_matches lang (elem_lang doc xml e)
      else case fs of
             f # gs \<Rightarrow> if is_element doc f then lang_walk doc xml lang f gs else False
           | [] \<Rightarrow> False)"

declare lang_walk.simps [simp del]

definition lang_valid :: "units \<Rightarrow> bool" where
  "lang_valid lang \<longleftrightarrow> lang \<noteq> [] \<and> take_identifier lang = (lang, [])"

definition pseudo_lang :: "dnode \<Rightarrow> bool \<Rightarrow> units \<Rightarrow> path \<Rightarrow> bool" where
  "pseudo_lang doc xml lang e = lang_walk doc xml (lower_units (sizzle_unescape lang)) e (dir_chain doc ParentNode e)"

section \<open>Positions in the set that was found\<close>

datatype position = PosFirst | PosLast | PosEq | PosEven | PosOdd | PosLt | PosGt

text \<open>The index lists, for the length of the set and the argument.\<close>

definition match_indexes :: "position \<Rightarrow> int \<Rightarrow> int \<Rightarrow> int list" where
  "match_indexes pos n k =
     (case pos of
        PosFirst \<Rightarrow> [0]
      | PosLast \<Rightarrow> [n - 1]
      | PosEq \<Rightarrow> [if k < 0 then k + n else k]
      | PosEven \<Rightarrow> filter (\<lambda>i. i mod 2 = 0) [0..n - 1]
      | PosOdd \<Rightarrow> filter (\<lambda>i. i mod 2 = 1) [1..n - 1]
      | PosLt \<Rightarrow> rev [0..(if k < 0 then k + n else if n < k then n else k) - 1]
      | PosGt \<Rightarrow> [(if k < 0 then k + n else k) + 1..n - 1])"

text \<open>The elements of a set, \<open>None\<close> for \<open>false\<close> and for holes.\<close>

definition take_match :: "'a option list \<times> 'a option list \<Rightarrow> int \<Rightarrow> 'a option list \<times> 'a option list" where
  "take_match sm j =
     (case sm of (seed, found) \<Rightarrow>
        if 0 \<le> j \<and> j < int (length seed) \<and> seed ! nat j \<noteq> None
        then (seed[nat j := None], found[nat j := seed ! nat j]) else (seed, found))"

definition positional_pseudo :: "position \<Rightarrow> int \<Rightarrow> 'a option list \<Rightarrow> 'a option list \<times> 'a option list" where
  "positional_pseudo pos k seed =
     foldl take_match (seed, replicate (length seed) None) (rev (match_indexes pos (int (length seed)) k))"

section \<open>Positions among siblings: facts\<close>

lemma nth_scan_found:
  "e \<notin> set xs \<Longrightarrow> kind e \<Longrightarrow> nth_scan kind e i c (xs @ e # ys) = Some (i + length xs, Suc (c + length (filter kind xs)))"
  by (induction xs arbitrary: i c) auto

lemma nth_scan_missing: "e \<notin> set xs \<Longrightarrow> nth_scan kind e i c xs = None"
  by (induction xs arbitrary: i c) auto

lemma from_start_forward: "from_start doc True p = map (\<lambda>j. j # p) [0..<child_count doc p]"
  using upt_conv_Cons [of 0 "child_count doc p"] by (auto simp: from_start_def Let_def dir_chain_next)

lemma from_start_backward: "from_start doc False p = map (\<lambda>j. j # p) (rev [0..<child_count doc p])"
  by (cases "child_count doc p") (auto simp: from_start_def Let_def dir_chain_previous)

text \<open>The place of a child among the kin of it, counted from the front and from the back.\<close>

definition place :: "(path \<Rightarrow> bool) \<Rightarrow> path \<Rightarrow> nat" where
  "place kind e = length (filter (\<lambda>j. kind (j # tl e)) [0..<Suc (hd e)])"

definition last_place :: "dnode \<Rightarrow> (path \<Rightarrow> bool) \<Rightarrow> path \<Rightarrow> nat" where
  "last_place doc kind e = length (filter (\<lambda>j. kind (j # tl e)) [hd e..<child_count doc (tl e)])"

lemma upt_split_at: "i \<le> k \<Longrightarrow> k < n \<Longrightarrow> [i..<n] = [i..<k] @ k # [Suc k..<n]"
  by (metis le_eq_less_or_eq upt_add_eq_append less_imp_add_positive upt_conv_Cons)

lemma nth_scan_siblings:
  assumes "i \<le> k" "k < n" "kind (k # p)"
  shows "nth_scan kind (k # p) i c (map (\<lambda>j. j # p) [i..<n]) =
     Some (k, Suc (c + length (filter (\<lambda>j. kind (j # p)) [i..<k])))"
proof -
  have "map (\<lambda>j. j # p) [i..<n] = map (\<lambda>j. j # p) [i..<k] @ (k # p) # map (\<lambda>j. j # p) [Suc k..<n]"
    using upt_split_at [OF assms(1,2)] by simp
  moreover have "k # p \<notin> set (map (\<lambda>j. j # p) [i..<k])" by auto
  ultimately show ?thesis using nth_scan_found [of "k # p" "map (\<lambda>j. j # p) [i..<k]" kind] assms by (simp add: filter_map comp_def)
qed

lemma nth_scan_siblings_back:
  assumes "k < n" "kind (k # p)"
  shows "\<exists>i. nth_scan kind (k # p) 0 0 (map (\<lambda>j. j # p) (rev [0..<n])) =
     Some (i, length (filter (\<lambda>j. kind (j # p)) [k..<n]))"
proof -
  have "[0..<n] = [0..<k] @ k # [Suc k..<n]" using upt_split_at [of 0 k n] assms by simp
  then have "map (\<lambda>j. j # p) (rev [0..<n]) = map (\<lambda>j. j # p) (rev [Suc k..<n]) @ (k # p) # map (\<lambda>j. j # p) (rev [0..<k])"
    by simp
  moreover have "k # p \<notin> set (map (\<lambda>j. j # p) (rev [Suc k..<n]))" by auto
  moreover have "[k..<n] = k # [Suc k..<n]" using assms by (simp add: upt_conv_Cons)
  ultimately show ?thesis using nth_scan_found [of "k # p" "map (\<lambda>j. j # p) (rev [Suc k..<n])" kind] assms by (simp add: filter_map comp_def rev_filter [symmetric])
qed

lemma nth_plain_place:
  assumes "k < child_count doc p" "same_kind doc ofType (k # p) (k # p)"
  shows "nth_plain doc ofType True (k # p) = place (same_kind doc ofType (k # p)) (k # p)"
    and "nth_plain doc ofType False (k # p) = last_place doc (same_kind doc ofType (k # p)) (k # p)"
  using nth_scan_siblings [of 0 k "child_count doc p" "same_kind doc ofType (k # p)" p 0]
    nth_scan_siblings_back [of k "child_count doc p" "same_kind doc ofType (k # p)" p] assms
  by (auto simp: nth_plain_def from_start_forward from_start_backward place_def last_place_def)

text \<open>What is remembered on a parent is the place of the child at that index.\<close>

definition nth_valid :: "dnode \<Rightarrow> sizzle_state \<Rightarrow> bool" where
  "nth_valid doc st \<longleftrightarrow> (\<forall>p i c. nth_cache st p = Some (dirruns st, i, c) \<longrightarrow>
     i < child_count doc p \<and> c = place (is_element doc) (i # p))"

definition same_caches :: "sizzle_state \<Rightarrow> sizzle_state \<Rightarrow> bool" where
  "same_caches st st' \<longleftrightarrow> dirruns st' = dirruns st \<and> outermostContext st' = outermostContext st \<and> cells st' = cells st \<and> comb_cache st' = comb_cache st"

lemma nth_seek_place:
  assumes "nth_valid doc st" "k < child_count doc p" "is_element doc (k # p)"
  shows "nth_seek doc (k # p) st = Some (k, place (is_element doc) (k # p))"
proof -
  have start: "nth_scan (is_element doc) (k # p) 0 0 (from_start doc True p) = Some (k, place (is_element doc) (k # p))"
    using nth_scan_siblings [of 0 k "child_count doc p" "is_element doc" p 0] assms by (simp add: from_start_forward place_def)
  have "nth_scan (is_element doc) (k # p) (Suc i) c (dir_chain doc NextSibling (i # p)) \<in> {None, Some (k, place (is_element doc) (k # p))}"
    if "nth_cache st p = Some (dirruns st, i, c)" for i c
  proof -
    have i: "i < child_count doc p" "c = place (is_element doc) (i # p)" using assms(1) that by (auto simp: nth_valid_def)
    show ?thesis
    proof (cases "Suc i \<le> k")
      case True
      have "[0..<k] = [0..<Suc i] @ [Suc i..<k]" using True by (metis le0 le_Suc_ex upt_add_eq_append)
      then have "place (is_element doc) (k # p) = Suc (c + length (filter (\<lambda>j. is_element doc (j # p)) [Suc i..<k]))"
        using assms(3) i(2) by (simp add: place_def)
      then show ?thesis using nth_scan_siblings [of "Suc i" k "child_count doc p" "is_element doc"] True assms i(1) by (simp add: dir_chain_next)
    next
      case False
      then show ?thesis using i(1) by (auto simp: dir_chain_next intro!: nth_scan_missing)
    qed
  qed
  then show ?thesis using start by (fastforce simp: nth_seek_def Let_def split: option.split)
qed

lemma nth_forward_place:
  assumes "nth_valid doc st" "k < child_count doc p" "is_element doc (k # p)"
  shows "fst (nth_forward doc (k # p) st) = place (is_element doc) (k # p)"
    and "nth_valid doc (snd (nth_forward doc (k # p) st))"
    and "same_caches st (snd (nth_forward doc (k # p) st))"
  using nth_seek_place [OF assms] assms
  by (simp_all add: nth_forward_def nth_valid_def same_caches_def)

lemma cycle_test_iff: "cycle_test a b d \<longleftrightarrow> (\<exists>n::nat. int d = a * int n + b)"
proof
  assume t: "cycle_test a b d"
  show "\<exists>n::nat. int d = a * int n + b"
  proof (cases "int d - b = a")
    case False
    then have "a \<noteq> 0" "(int d - b) mod a = 0" "0 \<le> (int d - b) div a" using t by (auto simp: cycle_test_def Let_def)
    then have "int d - b = a * int (nat ((int d - b) div a))" by (simp add: mult.commute mod_0_imp_dvd)
    then show ?thesis by (metis diff_eq_eq)
  qed (auto intro!: exI [of _ 1])
next
  assume "\<exists>n::nat. int d = a * int n + b"
  then show "cycle_test a b d" by (cases "a = 0") (auto simp: cycle_test_def Let_def)
qed

lemma is_element_child: "is_element doc (k # p) \<Longrightarrow> k < child_count doc p"
  by (auto simp: is_element_def child_count_def split: option.splits if_splits)

lemma same_kind_self: "is_element doc e \<Longrightarrow> same_kind doc ofType e e"
  by (simp add: same_kind_def)

lemma no_kin_place:
  assumes "is_element doc (k # p)"
  shows "no_kin doc ofType PreviousSibling (k # p) \<longleftrightarrow> place (same_kind doc ofType (k # p)) (k # p) = 1"
    and "no_kin doc ofType NextSibling (k # p) \<longleftrightarrow> last_place doc (same_kind doc ofType (k # p)) (k # p) = 1"
proof -
  note self = same_kind_self [OF assms] and k = is_element_child [OF assms]
  show "no_kin doc ofType PreviousSibling (k # p) \<longleftrightarrow> place (same_kind doc ofType (k # p)) (k # p) = 1"
    using self by (auto simp: no_kin_def dir_chain_previous place_def list_all_iff filter_empty_conv)
  have "[k..<child_count doc p] = k # [Suc k..<child_count doc p]" using k by (simp add: upt_conv_Cons)
  then show "no_kin doc ofType NextSibling (k # p) \<longleftrightarrow> last_place doc (same_kind doc ofType (k # p)) (k # p) = 1"
    using self k by (auto simp: no_kin_def dir_chain_next last_place_def list_all_iff filter_empty_conv)
qed

text \<open>What the filters mean: the places of an element among the siblings of its kind.\<close>

definition child_spec :: "dnode \<Rightarrow> child_type \<Rightarrow> bool \<Rightarrow> int \<Rightarrow> int \<Rightarrow> path \<Rightarrow> bool" where
  "child_spec doc ty ofType a b e \<longleftrightarrow> e \<noteq> [] \<and>
     (let front = place (same_kind doc ofType e) e; back = last_place doc (same_kind doc ofType e) e in
      case ty of
        COnly \<Rightarrow> front = 1 \<and> back = 1
      | CFirst \<Rightarrow> front = 1
      | CLast \<Rightarrow> back = 1
      | CNth \<Rightarrow> \<exists>n::nat. int front = a * int n + b
      | CNthLast \<Rightarrow> \<exists>n::nat. int back = a * int n + b)"

lemma same_caches_refl [simp]: "same_caches st st"
  by (simp add: same_caches_def)

lemma kind_element: "same_kind doc False e = is_element doc"
  by (simp add: same_kind_def fun_eq_iff)

lemma filter_CHILD_exact:
  assumes "nth_valid doc st" "is_element doc e" "ty = CNthLast \<Longrightarrow> xml \<or> ofType"
  shows "(fst (filter_CHILD doc xml ty ofType a b e st) \<longleftrightarrow> child_spec doc ty ofType a b e) \<and>
     nth_valid doc (snd (filter_CHILD doc xml ty ofType a b e st)) \<and> same_caches st (snd (filter_CHILD doc xml ty ofType a b e st))"
proof (cases e)
  case (Cons k p)
  note el = assms(2) [unfolded Cons]
  note k = is_element_child [OF el] and self = same_kind_self [OF el] and kin = no_kin_place [OF el]
  show ?thesis
  proof (cases ty)
    case CNth
    show ?thesis
    proof (cases "\<not> xml \<and> \<not> ofType \<and> \<not> (a = 1 \<and> b = 0)")
      case True
      then show ?thesis using CNth Cons nth_forward_place [OF assms(1) k el]
        by (auto simp: filter_CHILD_def child_spec_def cycle_test_iff kind_element split: prod.split)
    next
      case False
      then show ?thesis using CNth Cons assms(1) nth_plain_place(1) [OF k self]
        by (auto simp: filter_CHILD_def child_spec_def cycle_test_iff)
    qed
  next
    case CNthLast
    then show ?thesis using Cons assms(1,3) nth_plain_place(2) [OF k self]
      by (auto simp: filter_CHILD_def child_spec_def cycle_test_iff)
  qed (use Cons assms(1) kin in \<open>auto simp: filter_CHILD_def child_spec_def Let_def\<close>)
qed (use assms in \<open>auto simp: filter_CHILD_def child_spec_def\<close>)

section \<open>Classes and words\<close>

definition ends_at :: "units \<Rightarrow> units \<Rightarrow> bool" where
  "ends_at w s \<longleftrightarrow> take (length w) s = w \<and> (case drop (length w) s of [] \<Rightarrow> True | d # _ \<Rightarrow> is_white_unit d)"

lemma ends_at_Nil [simp]: "ends_at [] [] " "ends_at [] (c # s) \<longleftrightarrow> is_white_unit c" "\<not> ends_at (a # w) []"
  "ends_at (a # w) (c # s) \<longleftrightarrow> c = a \<and> ends_at w s"
  by (auto simp: ends_at_def)

lemma class_scan_Cons: "class_scan start w (c # s) \<longleftrightarrow> start \<and> ends_at w (c # s) \<or> class_scan (is_white_unit c) w s"
  by (simp only: class_scan.simps(2) ends_at_def)

lemma is_white_unit_32 [simp]: "is_white_unit 32"
  by (simp add: is_white_unit_def)

lemma ends_at_collapse: "\<forall>c \<in> set w. \<not> is_white_unit c \<Longrightarrow> ends_at w (collapse_white s) = ends_at w s"
proof (induction s arbitrary: w rule: collapse_white.induct)
  case (2 c s)
  then show ?case by (cases w; cases s) auto
qed simp

lemma class_scan_collapse:
  assumes "w \<noteq> []" "\<forall>c \<in> set w. \<not> is_white_unit c"
  shows "class_scan start w (collapse_white s) = class_scan start w s"
proof (induction s arbitrary: start rule: collapse_white.induct)
  case (2 c s)
  have white: "\<not> ends_at w (d # t)" if "is_white_unit d" for d t using assms that by (cases w) auto
  show ?case
  proof (cases "is_white_unit c")
    case True
    then show ?thesis
    proof (cases s)
      case (Cons d t)
      then show ?thesis using 2 True white by (auto simp: class_scan_Cons simp del: class_scan.simps)
    qed (use True white in \<open>auto simp: class_scan_Cons simp del: class_scan.simps(2)\<close>)
  next
    case False
    then show ?thesis using 2(3) [OF False] ends_at_collapse [OF assms(2), of "c # s"]
      by (simp add: class_scan_Cons del: class_scan.simps)
  qed
qed simp

lemma collapse_white_blank: "c \<in> set (collapse_white s) \<Longrightarrow> is_white_unit c \<Longrightarrow> c = 32"
  by (induction s rule: collapse_white.induct) (auto split: if_splits list.splits)

lemma take_word_blank: "\<forall>c \<in> set s. is_white_unit c \<longrightarrow> c = 32 \<Longrightarrow> take (Suc (length w)) (s @ [32]) = w @ [32] \<longleftrightarrow> ends_at w s"
proof (induction w arbitrary: s)
  case Nil
  then show ?case by (cases s) auto
next
  case (Cons a w)
  then show ?case by (cases s) auto
qed

lemma occurs_word:
  assumes "w \<noteq> []"
  shows "\<forall>c \<in> set t. is_white_unit c \<longrightarrow> c = 32 \<Longrightarrow> is_white_unit c \<longrightarrow> c = 32 \<Longrightarrow>
     occurs_in (32 # w @ [32]) (c # t @ [32]) \<longleftrightarrow> class_scan (c = 32) w t"
proof (induction t arbitrary: c)
  case Nil
  then show ?case using assms by (cases w) auto
next
  case (Cons d t)
  have "take (length (32 # w @ [32])) (c # (d # t) @ [32]) = c # take (Suc (length w)) ((d # t) @ [32])"
    by (simp only: length_Cons length_append list.size add_Suc_right add_0_right take_Suc_Cons)
  then have "take (length (32 # w @ [32])) (c # (d # t) @ [32]) = 32 # w @ [32] \<longleftrightarrow> c = 32 \<and> ends_at w (d # t)"
    using take_word_blank [of "d # t" w] Cons.prems(1) by (simp only: list.inject)
  then have "occurs_in (32 # w @ [32]) (c # (d # t) @ [32]) \<longleftrightarrow>
     c = 32 \<and> ends_at w (d # t) \<or> occurs_in (32 # w @ [32]) (d # t @ [32])"
    by (simp only: occurs_in.simps append.simps)
  moreover have "is_white_unit d \<longleftrightarrow> d = 32" using Cons.prems by auto
  moreover have "occurs_in (32 # w @ [32]) (d # t @ [32]) \<longleftrightarrow> class_scan (d = 32) w t"
    by (rule Cons.IH) (use Cons.prems in simp_all)
  ultimately show ?case by (simp only: class_scan_Cons)
qed

text \<open>A selector for a class means the same as the selector for a word of the attribute \<open>class\<close>, although one is a regular
  expression and the other a search in the text with its white space collapsed.
\<close>

theorem class_is_word:
  assumes "name \<noteq> []" "\<forall>c \<in> set name. \<not> is_white_unit c \<and> c \<noteq> 92"
  shows "filter_CLASS doc xml name e \<longleftrightarrow> filter_ATTR doc xml class_name AttrWord (attr_check AttrWord name) e"
proof -
  have "sizzle_unescape name = name" using assms(2) by (induction name) auto
  then have check: "attr_check AttrWord name = 32 # name @ [32]" by (simp add: attr_check_def)
  have "class_scan True name s \<longleftrightarrow> attr_test AttrWord (32 # name @ [32]) s" for s
    using occurs_word [of name "collapse_white s" 32] class_scan_collapse [of name True s] assms collapse_white_blank
    by (simp add: attr_test_def)
  moreover have "\<not> class_scan True name []" using assms(1) by simp
  ultimately show ?thesis unfolding check filter_CLASS_def filter_ATTR_def by (simp del: class_scan.simps split: option.split)
qed

theorem class_is_word_witness:
  "filter_CLASS (DNode 1 [80] [(class_name, [97, 9, 98])] [] []) False [98] [] \<and>
   filter_ATTR (DNode 1 [80] [(class_name, [97, 9, 98])] [] []) False class_name AttrWord (attr_check AttrWord [98]) []"
proof -
  have "filter_CLASS (DNode 1 [80] [(class_name, [97, 9, 98])] [] []) False [98] []" by code_simp
  then show ?thesis using class_is_word [of "[98]" "DNode 1 [80] [(class_name, [97, 9, 98])] [] []" False "[]"] by (simp add: is_white_unit_def)
qed

section \<open>Positions in a set\<close>

definition wanted :: "position \<Rightarrow> int \<Rightarrow> int \<Rightarrow> int \<Rightarrow> bool" where
  "wanted pos n k j \<longleftrightarrow>
     (let from_end = if k < 0 then k + n else k in
      case pos of
        PosFirst \<Rightarrow> j = 0 | PosLast \<Rightarrow> j = n - 1 | PosEq \<Rightarrow> j = from_end
      | PosEven \<Rightarrow> even j | PosOdd \<Rightarrow> odd j | PosLt \<Rightarrow> j < from_end | PosGt \<Rightarrow> from_end < j)"

lemma match_indexes_wanted: "0 \<le> j \<Longrightarrow> j < n \<Longrightarrow> j \<in> set (match_indexes pos n k) \<longleftrightarrow> wanted pos n k j"
proof (cases pos)
  case PosOdd
  then have "j mod 2 = 1 \<Longrightarrow> 0 \<le> j \<Longrightarrow> 1 \<le> j" by presburger
  then show "0 \<le> j \<Longrightarrow> j < n \<Longrightarrow> ?thesis" using PosOdd by (auto simp: match_indexes_def wanted_def odd_iff_mod_2_eq_one)
qed (auto simp: match_indexes_def wanted_def Let_def even_iff_mod_2_eq_zero)

lemma foldl_take_match:
  "length found = length seed \<Longrightarrow> (\<forall>j < length seed. found ! j = None \<or> seed ! j = None) \<Longrightarrow>
   (case foldl take_match (seed, found) js of (seed', found') \<Rightarrow>
      length seed' = length seed \<and> length found' = length seed \<and>
      (\<forall>j < length seed. seed' ! j = (if int j \<in> set js then None else seed ! j) \<and>
         found' ! j = (if int j \<in> set js \<and> seed ! j \<noteq> None then seed ! j else found ! j)))"
proof (induction js arbitrary: seed found)
  case (Cons i js)
  show ?case
  proof (cases "0 \<le> i \<and> i < int (length seed) \<and> seed ! nat i \<noteq> None")
    case True
    then have i: "nat i < length seed" "\<And>j. int j = i \<longleftrightarrow> j = nat i" by auto
    have "\<forall>j < length seed. found[nat i := seed ! nat i] ! j = None \<or> seed[nat i := None] ! j = None"
      using Cons.prems i(1) by (auto simp: nth_list_update)
    from Cons.IH [of "found[nat i := seed ! nat i]" "seed[nat i := None]"] this show ?thesis
      using True Cons.prems i by (auto simp: take_match_def nth_list_update)
  next
    case False
    then have "take_match (seed, found) i = (seed, found)" by (auto simp: take_match_def)
    moreover have "seed ! j = None" if "int j = i" "j < length seed" for j using False that by auto
    ultimately show ?thesis using Cons.IH [of found seed] Cons.prems by auto
  qed
qed simp

text \<open>The positional pseudo classes split the set: exactly the elements at the positions they name, counted from the end for
  negative arguments, move to the matches at the same index, all others stay, and nothing outside of the set is touched.
\<close>

theorem positional_split:
  "length (fst (positional_pseudo pos k seed)) = length seed \<and> length (snd (positional_pseudo pos k seed)) = length seed \<and>
   (\<forall>j < length seed.
      fst (positional_pseudo pos k seed) ! j = (if wanted pos (int (length seed)) k (int j) then None else seed ! j) \<and>
      snd (positional_pseudo pos k seed) ! j = (if wanted pos (int (length seed)) k (int j) then seed ! j else None))"
  using foldl_take_match [of "replicate (length seed) None" seed "rev (match_indexes pos (int (length seed)) k)"]
  by (auto simp: positional_pseudo_def match_indexes_wanted split: prod.splits)

theorem positional_split_witness:
  "fst (positional_pseudo PosLt (- 1) [Some 4, Some 5, Some (6::nat)]) ! 1 = None \<and> snd (positional_pseudo PosLt (- 1) [Some 4, Some 5, Some (6::nat)]) ! 1 = Some 5"
  using positional_split [of PosLt "- 1" "[Some 4, Some 5, Some (6::nat)]"] by (auto simp: wanted_def dest: spec [of _ 1])

end
