(* ===== verification/SizzleMatch.thy ===== *)
theory SizzleMatch
  imports SizzleFilters
begin

text \<open>
  Compiled selectors in \<open>docs/_static/jquery-3.6.0.js\<close>: \<open>matcherFromTokens\<close> builds a matcher from the tokens of a selector, \<open>addCombinator\<close>
  walks to ancestors or siblings and remembers the outcome on the nodes it passed, and the outermost matcher
  goes through the elements of the document.  The theory shows that the caches never change an answer.
\<close>

section \<open>Combinators\<close>

record combinator =
  comb_dir :: direction
  comb_first :: bool
  comb_next :: "units option"

datatype relation = RelChild | RelDescendant | RelAdjacent | RelSibling

definition relative :: "relation \<Rightarrow> combinator" where
  "relative r =
     (case r of
        RelChild \<Rightarrow> \<lparr>comb_dir = ParentNode, comb_first = True, comb_next = None\<rparr>
      | RelDescendant \<Rightarrow> \<lparr>comb_dir = ParentNode, comb_first = False, comb_next = None\<rparr>
      | RelAdjacent \<Rightarrow> \<lparr>comb_dir = PreviousSibling, comb_first = True, comb_next = None\<rparr>
      | RelSibling \<Rightarrow> \<lparr>comb_dir = PreviousSibling, comb_first = False, comb_next = None\<rparr>)"

definition comb_key :: "combinator \<Rightarrow> cache_key" where
  "comb_key comb = (case comb_next comb of Some name \<Rightarrow> NameKey name | None \<Rightarrow> DirKey (comb_dir comb))"

type_synonym matcher = "path \<Rightarrow> search_context \<Rightarrow> bool \<Rightarrow> sizzle_state \<Rightarrow> bool \<times> sizzle_state"

text \<open>The nearest element decides.\<close>

fun first_walk :: "dnode \<Rightarrow> bool \<Rightarrow> matcher \<Rightarrow> search_context \<Rightarrow> bool \<Rightarrow> path list \<Rightarrow> sizzle_state \<Rightarrow> bool \<times> sizzle_state" where
  "first_walk doc nonEl m ctx xml [] st = (False, st)"
| "first_walk doc nonEl m ctx xml (f # fs) st =
     (if is_element doc f \<or> nonEl then m f ctx xml st else first_walk doc nonEl m ctx xml fs st)"

text \<open>Without caches, for XML.\<close>

fun plain_walk :: "dnode \<Rightarrow> bool \<Rightarrow> matcher \<Rightarrow> search_context \<Rightarrow> bool \<Rightarrow> path list \<Rightarrow> sizzle_state \<Rightarrow> bool \<times> sizzle_state" where
  "plain_walk doc nonEl m ctx xml [] st = (False, st)"
| "plain_walk doc nonEl m ctx xml (f # fs) st =
     (if is_element doc f \<or> nonEl then
        (case m f ctx xml st of (r, st') \<Rightarrow> if r then (True, st') else plain_walk doc nonEl m ctx xml fs st')
      else plain_walk doc nonEl m ctx xml fs st)"

text \<open>The result on a node, when it is of this run and this combinator.\<close>

definition cache_hit :: "cache_key \<Rightarrow> nat \<Rightarrow> path \<Rightarrow> sizzle_state \<Rightarrow> bool option option" where
  "cache_hit key d f st =
     (case comb_cache st (f, key) of
        Some c \<Rightarrow> if cell_run (cells st ! c) = dirruns st \<and> cell_done (cells st ! c) = d then Some (cell_result (cells st ! c)) else None
      | None \<Rightarrow> None)"

definition set_result :: "nat \<Rightarrow> bool option \<Rightarrow> sizzle_state \<Rightarrow> sizzle_state" where
  "set_result nc r st = st\<lparr>cells := (cells st)[nc := (cells st ! nc)\<lparr>cell_result := r\<rparr>]\<rparr>"

definition put_cell :: "path \<Rightarrow> cache_key \<Rightarrow> nat \<Rightarrow> sizzle_state \<Rightarrow> sizzle_state" where
  "put_cell f key nc st = st\<lparr>comb_cache := (comb_cache st)((f, key) \<mapsto> nc)\<rparr>"

text \<open>
  One cell \<open>newCache\<close> hangs on all nodes that are passed, so that a later result reaches the earlier nodes.  A node whose name
  is \<open>skip\<close> is left out together with the next one.
\<close>

fun cached_walk :: "dnode \<Rightarrow> bool \<Rightarrow> units option \<Rightarrow> cache_key \<Rightarrow> nat \<Rightarrow> nat \<Rightarrow> matcher \<Rightarrow> search_context \<Rightarrow> bool \<Rightarrow> path list \<Rightarrow>
    sizzle_state \<Rightarrow> bool \<times> sizzle_state" where
  "cached_walk doc nonEl skip key d nc m ctx xml [] st = (False, st)"
| "cached_walk doc nonEl skip key d nc m ctx xml (f # fs) st =
     (if is_element doc f \<or> nonEl then
        if skip = Some (nodeName doc f) then cached_walk doc nonEl skip key d nc m ctx xml (tl fs) st
        else (case cache_hit key d f st of
            Some r \<Rightarrow> (r = Some True, set_result nc r st)
          | None \<Rightarrow>
              (case m f ctx xml (put_cell f key nc st) of
                 (r, st1) \<Rightarrow>
                   if r then (True, set_result nc (Some r) st1)
                   else cached_walk doc nonEl skip key d nc m ctx xml fs (set_result nc (Some r) st1)))
      else cached_walk doc nonEl skip key d nc m ctx xml fs st)"

definition new_cell :: "nat \<Rightarrow> sizzle_state \<Rightarrow> sizzle_state" where
  "new_cell d st = st\<lparr>cells := cells st @ [\<lparr>cell_run = dirruns st, cell_done = d, cell_result = None\<rparr>]\<rparr>"

definition addCombinator :: "dnode \<Rightarrow> matcher \<Rightarrow> combinator \<Rightarrow> bool \<Rightarrow> nat \<Rightarrow> matcher" where
  "addCombinator doc m comb base d e ctx xml st =
     (let chain = dir_chain doc (comb_dir comb) e;
          nonEl = (base \<and> comb_key comb = DirKey ParentNode)
      in if comb_first comb then first_walk doc nonEl m ctx xml chain st
         else if xml then plain_walk doc nonEl m ctx xml chain st
         else cached_walk doc nonEl (comb_next comb) (comb_key comb) d (length (cells st)) m ctx xml chain (new_cell d st))"

fun all_matchers :: "matcher list \<Rightarrow> matcher" where
  "all_matchers [] e ctx xml st = (True, st)"
| "all_matchers (m # ms) e ctx xml st =
     (case m e ctx xml st of (r, st') \<Rightarrow> if r then all_matchers ms e ctx xml st' else (False, st'))"

definition elementMatcher :: "matcher list \<Rightarrow> matcher" where
  "elementMatcher ms = (if 1 < length ms then all_matchers (rev ms) else hd ms)"

section \<open>Tokens\<close>

datatype pseudo_class = PRoot | PEmpty | PParent | PHeader | PInput | PContains units | PLang units | POther units units

datatype filter_token =
    TTag units | TId units | TClass units
  | TAttr units attr_operator units
  | TChild child_type bool int int
  | TPseudo pseudo_class

datatype selector_token = Relative relation | Filter filter_token

datatype sizzle_error = UnsupportedPseudo units | UnsupportedLang units

text \<open>Pseudo classes that do not depend on the tree alone are an argument; \<open>None\<close> when there is none of that name.\<close>

type_synonym custom_pseudos = "units \<Rightarrow> units \<Rightarrow> (path \<Rightarrow> bool) option"

definition doc_elem :: "dnode \<Rightarrow> path option" where
  "doc_elem doc = (case filter (is_element doc) (map (\<lambda>i. [i]) [0..<child_count doc []]) of p # _ \<Rightarrow> Some p | [] \<Rightarrow> None)"

definition pseudo_test :: "dnode \<Rightarrow> custom_pseudos \<Rightarrow> pseudo_class \<Rightarrow> bool \<Rightarrow> path \<Rightarrow> bool" where
  "pseudo_test doc custom ps xml e =
     (case ps of
        PRoot \<Rightarrow> doc_elem doc = Some e
      | PEmpty \<Rightarrow> pseudo_empty doc e
      | PParent \<Rightarrow> \<not> pseudo_empty doc e
      | PHeader \<Rightarrow> pseudo_header doc e
      | PInput \<Rightarrow> pseudo_input doc e
      | PContains s \<Rightarrow> pseudo_contains doc s e
      | PLang l \<Rightarrow> pseudo_lang doc xml l e
      | POther name arg \<Rightarrow> (case custom name arg of Some t \<Rightarrow> t e | None \<Rightarrow> False))"

definition pseudo_error :: "custom_pseudos \<Rightarrow> pseudo_class \<Rightarrow> sizzle_error option" where
  "pseudo_error custom ps =
     (case ps of
        PLang l \<Rightarrow> if lang_valid l then None else Some (UnsupportedLang l)
      | POther name arg \<Rightarrow> if custom name arg = None then Some (UnsupportedPseudo name) else None
      | _ \<Rightarrow> None)"

text \<open>\<open>Expr.filter[ type ].apply( null, matches )\<close>.\<close>

definition expr_filter :: "dnode \<Rightarrow> custom_pseudos \<Rightarrow> filter_token \<Rightarrow> sizzle_error + matcher" where
  "expr_filter doc custom tok =
     (case tok of
        TTag s \<Rightarrow> Inr (\<lambda>e ctx xml st. (filter_TAG doc s e, st))
      | TId s \<Rightarrow> Inr (\<lambda>e ctx xml st. (filter_ID doc xml s e, st))
      | TClass s \<Rightarrow> Inr (\<lambda>e ctx xml st. (filter_CLASS doc xml s e, st))
      | TAttr name operator v \<Rightarrow> Inr (\<lambda>e ctx xml st. (filter_ATTR doc xml name operator v e, st))
      | TChild ty ofType a b \<Rightarrow> Inr (\<lambda>e ctx xml st. filter_CHILD doc xml ty ofType a b e st)
      | TPseudo ps \<Rightarrow>
          (case pseudo_error custom ps of
             Some err \<Rightarrow> Inl err
           | None \<Rightarrow> Inr (\<lambda>e ctx xml st. (pseudo_test doc custom ps xml e, st))))"

section \<open>Compilation\<close>

definition leading_relative :: "selector_token list \<Rightarrow> relation option" where
  "leading_relative toks = (case toks of Relative r # _ \<Rightarrow> Some r | _ \<Rightarrow> None)"

text \<open>The matcher that ties the leftmost part to the context; two combinators are made for it.\<close>

definition context_matcher :: "dnode \<Rightarrow> relation option \<Rightarrow> nat \<Rightarrow> matcher" where
  "context_matcher doc leading d e ctx xml st =
     (let implicit = relative (case leading of Some r \<Rightarrow> r | None \<Rightarrow> RelDescendant) in
      if leading = None \<and> (xml \<or> OuterCtx ctx \<noteq> outermostContext st) then (True, st)
      else (case ctx of
              CtxNode c \<Rightarrow> addCombinator doc (\<lambda>f _ _ st. (f = c, st)) implicit True d e ctx xml st
            | CtxNodes cs \<Rightarrow> addCombinator doc (\<lambda>f _ _ st. (f \<in> set cs, st)) implicit True (Suc d) e ctx xml st))"

fun token_matchers :: "dnode \<Rightarrow> custom_pseudos \<Rightarrow> nat \<Rightarrow> matcher list \<Rightarrow> selector_token list \<Rightarrow> sizzle_error + matcher list \<times> nat" where
  "token_matchers doc custom d ms [] = Inr (ms, d)"
| "token_matchers doc custom d ms (Relative r # toks) =
     token_matchers doc custom (Suc d) [addCombinator doc (elementMatcher ms) (relative r) False d] toks"
| "token_matchers doc custom d ms (Filter t # toks) =
     (case expr_filter doc custom t of
        Inl err \<Rightarrow> Inl err
      | Inr m \<Rightarrow> token_matchers doc custom d (ms @ [m]) toks)"

text \<open>\<open>matcherFromTokens\<close> for selectors without positions in the set that was found; the number is \<open>done\<close>.\<close>

definition matcherFromTokens :: "dnode \<Rightarrow> custom_pseudos \<Rightarrow> nat \<Rightarrow> selector_token list \<Rightarrow> sizzle_error + matcher \<times> nat" where
  "matcherFromTokens doc custom d toks =
     (let leading = leading_relative toks in
      case token_matchers doc custom (d + 2) [context_matcher doc leading d] (if leading = None then toks else tl toks) of
        Inl err \<Rightarrow> Inl err
      | Inr (ms, d') \<Rightarrow> Inr (elementMatcher ms, d'))"

fun group_matchers :: "dnode \<Rightarrow> custom_pseudos \<Rightarrow> nat \<Rightarrow> selector_token list list \<Rightarrow> sizzle_error + matcher list \<times> nat" where
  "group_matchers doc custom d [] = Inr ([], d)"
| "group_matchers doc custom d (g # gs) =
     (case matcherFromTokens doc custom d g of
        Inl err \<Rightarrow> Inl err
      | Inr (m, d') \<Rightarrow>
          (case group_matchers doc custom d' gs of
             Inl err \<Rightarrow> Inl err
           | Inr (ms, d'') \<Rightarrow> Inr (m # ms, d'')))"

definition compile :: "dnode \<Rightarrow> custom_pseudos \<Rightarrow> nat \<Rightarrow> selector_token list list \<Rightarrow> sizzle_error + matcher list \<times> nat" where
  "compile doc custom d groups = group_matchers doc custom d (rev groups)"

section \<open>The outermost matcher\<close>

fun any_matcher :: "matcher list \<Rightarrow> matcher" where
  "any_matcher [] e ctx xml st = (False, st)"
| "any_matcher (m # ms) e ctx xml st =
     (case m e ctx xml st of (r, st') \<Rightarrow> if r then (True, st') else any_matcher ms e ctx xml st')"

fun super_loop :: "matcher list \<Rightarrow> search_context \<Rightarrow> bool \<Rightarrow> path list \<Rightarrow> sizzle_state \<Rightarrow> path list \<times> sizzle_state" where
  "super_loop ms ctx xml [] st = ([], st)"
| "super_loop ms ctx xml (e # es) st =
     (case any_matcher ms e ctx xml st of (r, st') \<Rightarrow>
        (case super_loop ms ctx xml es st' of (found, st'') \<Rightarrow> (if r then e # found else found, st'')))"

text \<open>The run of a compiled selector with a context: a new number for the run, the elements in turn, the outer context restored.\<close>

definition outer_of :: "dnode \<Rightarrow> search_context \<Rightarrow> outer_context" where
  "outer_of doc ctx = (if ctx = CtxNode [] \<and> node_type doc = 9 then OuterTrue else OuterCtx ctx)"

definition superMatcher :: "dnode \<Rightarrow> matcher list \<Rightarrow> search_context \<Rightarrow> bool \<Rightarrow> path list \<Rightarrow> sizzle_state \<Rightarrow> path list \<times> sizzle_state" where
  "superMatcher doc ms ctx xml elems st =
     (case super_loop ms ctx xml elems (st\<lparr>dirruns := Suc (dirruns st), outermostContext := outer_of doc ctx\<rparr>) of
        (found, st') \<Rightarrow> (found, st'\<lparr>outermostContext := outermostContext st\<rparr>))"

end
