(* ===== verification/SizzleTokens.thy ===== *)
theory SizzleTokens
  imports SizzleMatch
begin

text \<open>
  The tokenizer of selectors in \<open>docs/_static/jquery-3.6.0.js\<close>: the expressions of \<open>matchExpr\<close>, the prefilters that complete
  their matches, and one turn of the loop of \<open>tokenize\<close>, which takes tokens from the front of the text.
\<close>

section \<open>Expressions\<close>

text \<open>Each recogniser gives the text it has matched at the beginning, and what it has read from it.\<close>

definition skip_white :: "units \<Rightarrow> units" where
  "skip_white s = dropWhile is_white_unit s"

text \<open>The text between a position and a later one.\<close>

definition until_rest :: "units \<Rightarrow> units \<Rightarrow> units" where
  "until_rest s r = take (length s - length r) s"

text \<open>\<open>rcomma\<close> and \<open>rcombinators\<close>: white space alone is the descendant combinator.\<close>

definition comma_match :: "units \<Rightarrow> units option" where
  "comma_match s = (case skip_white s of c # r \<Rightarrow> if c = 44 then Some (until_rest s (skip_white r)) else None | [] \<Rightarrow> None)"

definition combinator_match :: "units \<Rightarrow> (units \<times> relation) option" where
  "combinator_match s =
     (let t = skip_white s;
          white = (if length t < length s then Some (until_rest s t, RelDescendant) else None)
      in case t of
           c # r \<Rightarrow>
             if c = 62 then Some (until_rest s (skip_white r), RelChild)
             else if c = 43 then Some (until_rest s (skip_white r), RelAdjacent)
             else if c = 126 then Some (until_rest s (skip_white r), RelSibling)
             else white
         | [] \<Rightarrow> white)"

definition tag_match :: "units \<Rightarrow> (units \<times> filter_token) option" where
  "tag_match s =
     (case take_identifier s of
        ([], _) \<Rightarrow> (case s of c # r \<Rightarrow> if c = 42 then Some ([42], TTag [42]) else None | [] \<Rightarrow> None)
      | (name, _) \<Rightarrow> Some (name, TTag name))"

definition class_match :: "units \<Rightarrow> (units \<times> filter_token) option" where
  "class_match s =
     (case s of
        c # r \<Rightarrow> if c = 46 \<and> fst (take_identifier r) \<noteq> [] then Some (46 # fst (take_identifier r), TClass (fst (take_identifier r))) else None
      | [] \<Rightarrow> None)"

definition id_match :: "units \<Rightarrow> (units \<times> filter_token) option" where
  "id_match s =
     (case s of
        c # r \<Rightarrow> if c = 35 \<and> fst (take_identifier r) \<noteq> [] then Some (35 # fst (take_identifier r), TId (fst (take_identifier r))) else None
      | [] \<Rightarrow> None)"

definition line_end :: "nat \<Rightarrow> bool" where
  "line_end c \<longleftrightarrow> c \<in> {10, 13, 8232, 8233}"

text \<open>The inside of a quoted string and the text behind the closing quote.\<close>

fun scan_quoted :: "nat \<Rightarrow> units \<Rightarrow> (units \<times> units) option" where
  "scan_quoted q [] = None"
| "scan_quoted q (c # s) =
     (if c = q then Some ([], s)
      else if c = 92 then
        (case s of
           d # r \<Rightarrow> if line_end d then None else map_option (\<lambda>(v, rest). (c # d # v, rest)) (scan_quoted q r)
         | [] \<Rightarrow> None)
      else map_option (\<lambda>(v, rest). (c # v, rest)) (scan_quoted q s))"

definition operator_of :: "nat \<Rightarrow> attr_operator option" where
  "operator_of c =
     map_of [(42, AttrSub), (94, AttrPrefix), (36, AttrSuffix), (124, AttrDash), (33, AttrNe), (126, AttrWord)] c"

definition take_operator :: "units \<Rightarrow> (attr_operator \<times> units) option" where
  "take_operator s =
     (case s of
        c # r \<Rightarrow>
          if c = 61 then Some (AttrEq, r)
          else (case (operator_of c, r) of (Some operator, d # r') \<Rightarrow> if d = 61 then Some (operator, r') else None | _ \<Rightarrow> None)
      | [] \<Rightarrow> None)"

definition take_value :: "units \<Rightarrow> (units \<times> units) option" where
  "take_value s =
     (case s of
        [] \<Rightarrow> None
      | c # r \<Rightarrow>
          if c = 39 \<or> c = 34 then scan_quoted c r
          else (case take_identifier s of ([], _) \<Rightarrow> None | (v, rest) \<Rightarrow> Some (v, rest)))"

definition close_bracket :: "units \<Rightarrow> units option" where
  "close_bracket s = (case skip_white s of c # r \<Rightarrow> if c = 93 then Some r else None | [] \<Rightarrow> None)"

text \<open>The part with operator and value, up to the closing bracket.\<close>

definition attr_tail :: "units \<Rightarrow> (attr_operator \<times> units \<times> units) option" where
  "attr_tail s =
     (case take_operator (skip_white s) of
        Some (operator, r) \<Rightarrow>
          (case take_value (skip_white r) of
             Some (v, r') \<Rightarrow> map_option (\<lambda>rest. (operator, v, rest)) (close_bracket r')
           | None \<Rightarrow> None)
      | None \<Rightarrow> None)"

text \<open>The expression \<open>attributes\<close> with \<open>preFilter.ATTR\<close>.\<close>

definition attr_match :: "units \<Rightarrow> (units \<times> filter_token) option" where
  "attr_match s =
     (case s of
        [] \<Rightarrow> None
      | c # r \<Rightarrow>
          if c \<noteq> 91 then None
          else (case take_identifier (skip_white r) of
                  ([], _) \<Rightarrow> None
                | (name, r') \<Rightarrow>
                    (case attr_tail r' of
                       Some (operator, v, rest) \<Rightarrow>
                         Some (until_rest s rest, TAttr (sizzle_unescape name) operator (attr_check operator v))
                     | None \<Rightarrow>
                         map_option (\<lambda>rest. (until_rest s rest, TAttr (sizzle_unescape name) AttrExists [])) (close_bracket r'))))"

section \<open>Child expressions\<close>

text \<open>A word at the beginning, whatever the case.\<close>

definition strip_word :: "units \<Rightarrow> units \<Rightarrow> units option" where
  "strip_word w s = (if lower_units (take (length w) s) = w then Some (drop (length w) s) else None)"

definition child_names :: "(units \<times> child_type) list" where
  "child_names =
     [([111, 110, 108, 121], COnly), ([102, 105, 114, 115, 116], CFirst), ([108, 97, 115, 116], CLast),
      ([110, 116, 104], CNth), ([110, 116, 104, 45, 108, 97, 115, 116], CNthLast)]"

definition child_kinds :: "(units \<times> bool) list" where
  "child_kinds = [([99, 104, 105, 108, 100], False), ([111, 102, 45, 116, 121, 112, 101], True)]"

text \<open>The alternatives of an expression in turn.\<close>

fun first_some :: "('a \<Rightarrow> 'b option) \<Rightarrow> 'a list \<Rightarrow> 'b option" where
  "first_some f [] = None"
| "first_some f (x # xs) = (case f x of Some y \<Rightarrow> Some y | None \<Rightarrow> first_some f xs)"

definition child_head :: "units \<Rightarrow> ((child_type \<times> bool) \<times> units) option" where
  "child_head s =
     first_some (\<lambda>(name, ty). case strip_word (58 # name @ [45]) s of
         Some r \<Rightarrow> first_some (\<lambda>(kind, ofType). map_option (\<lambda>rest. ((ty, ofType), rest)) (strip_word kind r)) child_kinds
       | None \<Rightarrow> None) child_names"

definition take_sign :: "units \<Rightarrow> units \<times> units" where
  "take_sign s = (case s of c # r \<Rightarrow> if c = 43 \<or> c = 45 then ([c], r) else ([], s) | [] \<Rightarrow> ([], s))"

definition close_paren :: "units \<Rightarrow> units option" where
  "close_paren s = (case skip_white s of c # r \<Rightarrow> if c = 41 then Some r else None | [] \<Rightarrow> None)"

text \<open>\<open>an\<close>: sign, digits and the letter.\<close>

definition take_xn :: "units \<Rightarrow> ((units \<times> units) \<times> units) option" where
  "take_xn s =
     (let (sign, r) = take_sign s; ds = takeWhile is_digit_unit r in
      case drop (length ds) r of c # rest \<Rightarrow> if c = 110 \<or> c = 78 then Some ((sign, ds), rest) else None | [] \<Rightarrow> None)"

text \<open>\<open>b\<close> and the closing parenthesis; \<open>b\<close> may be missing.\<close>

definition take_y_close :: "units \<Rightarrow> ((units \<times> units) option \<times> units) option" where
  "take_y_close s =
     (let (sign, r) = take_sign (skip_white s); r' = skip_white r; ds = takeWhile is_digit_unit r' in
      case (if ds = [] then None else close_paren (drop (length ds) r')) of
        Some rest \<Rightarrow> Some (Some (sign, ds), rest)
      | None \<Rightarrow> map_option (\<lambda>rest. (None, rest)) (close_paren s))"

text \<open>The argument behind the parenthesis: its text (of which, but for the two words, only matters whether it is empty), the two
  parts, and the rest.\<close>

definition child_argument :: "units \<Rightarrow> (units \<times> (units \<times> units) option \<times> (units \<times> units) option \<times> units) option" where
  "child_argument s =
     (let word = (\<lambda>w. case strip_word w s of
            Some r \<Rightarrow> map_option (\<lambda>rest. (until_rest s r, None, None, rest)) (close_paren r) | None \<Rightarrow> None);
          plain = map_option (\<lambda>(y, rest). (if y = None then [] else until_rest s rest, None, y, rest)) (take_y_close s)
      in case word even_name of
           Some m \<Rightarrow> Some m
         | None \<Rightarrow>
             (case word odd_name of
                Some m \<Rightarrow> Some m
              | None \<Rightarrow>
                  (case take_xn s of
                     Some (xn, r) \<Rightarrow>
                       (case take_y_close r of Some (y, rest) \<Rightarrow> Some (until_rest s rest, Some xn, y, rest) | None \<Rightarrow> plain)
                   | None \<Rightarrow> plain)))"

text \<open>\<open>matchExpr.CHILD\<close> and its prefilter.  Without a fitting argument the name alone is matched.\<close>

definition child_parts :: "units \<Rightarrow> (units \<times> child_type \<times> bool \<times> units \<times> (units \<times> units) option \<times> (units \<times> units) option) option" where
  "child_parts s =
     (case child_head s of
        None \<Rightarrow> None
      | Some ((ty, ofType), r) \<Rightarrow>
          (case (case r of c # r' \<Rightarrow> if c = 40 then child_argument (skip_white r') else None | [] \<Rightarrow> None) of
             Some (arg, xn, y, rest) \<Rightarrow> Some (until_rest s rest, ty, ofType, arg, xn, y)
           | None \<Rightarrow> Some (until_rest s r, ty, ofType, [], None, None)))"

definition child_match :: "units \<Rightarrow> units + (units \<times> filter_token) option" where
  "child_match s =
     (case child_parts s of
        None \<Rightarrow> Inr None
      | Some (v, ty, ofType, arg, xn, y) \<Rightarrow>
          (case prefilter_CHILD ty arg xn y of
             Inl _ \<Rightarrow> Inl v
           | Inr (Some (a, b)) \<Rightarrow> Inr (Some (v, TChild ty ofType a b))
           | Inr None \<Rightarrow> Inr (Some (v, TChild ty ofType 0 0))))"

section \<open>The text that recognisers match\<close>

text \<open>What the tokenizer relies on: a match is a part of the text at its beginning, and not empty.\<close>

locale recogniser =
  fixes recognise :: "units \<Rightarrow> (units \<times> 'a) option"
  assumes consumes: "recognise s = Some (v, t) \<Longrightarrow> prefix v s \<and> v \<noteq> []"
begin

lemma shorter: "recognise s = Some (v, t) \<Longrightarrow> length (drop (length v) s) < length s"
  using consumes by (fastforce simp: prefix_def)

lemma split: "recognise s = Some (v, t) \<Longrightarrow> v @ drop (length v) s = s"
  using consumes by (fastforce simp: prefix_def)

end

lemma escape_at_suffix: "escape_at s = Some (us, q) \<Longrightarrow> suffix q s"
  by (auto simp: escape_at_def Let_def suffix_drop suffix_Cons intro: suffix_order.trans [OF suffix_tl suffix_drop] split: if_splits list.splits)

lemma take_identifier_prefix: "take_identifier s = (m, r) \<Longrightarrow> s = m @ r"
proof (induction s arbitrary: m r rule: take_identifier.induct)
  case (2 c s)
  show ?case
  proof (cases "c = 92")
    case True
    show ?thesis
    proof (cases "escape_at s")
      case (Some ur)
      obtain us q where ur: "ur = (us, q)" by (cases ur)
      obtain m' where m': "take_identifier q = (m', r)" "m = c # take (length s - length q) s @ m'"
        using 2(3) True Some ur by (auto split: prod.splits)
      obtain p where "s = p @ q" using Some ur escape_at_suffix unfolding suffix_def by blast
      then show ?thesis using 2(1) [OF True Some ur [symmetric] m'(1)] m'(2) by simp
    qed (use 2(3) True in auto)
  next
    case False
    then show ?thesis using 2(2,3) by (auto split: if_splits prod.splits)
  qed
qed simp

lemma take_identifier_suffix: "take_identifier s = (m, r) \<Longrightarrow> suffix r s"
  by (drule take_identifier_prefix) (simp add: suffix_def)

lemma skip_white_suffix [simp]: "suffix (skip_white s) s"
  by (simp add: skip_white_def suffix_dropWhile)

lemma until_rest_append: "suffix r s \<Longrightarrow> until_rest s r @ r = s"
  by (auto simp: until_rest_def suffix_def)

lemma until_rest_consumes: "strict_suffix r s \<Longrightarrow> prefix (until_rest s r) s \<and> until_rest s r \<noteq> []"
  by (auto simp: until_rest_def strict_suffix_def suffix_def)

lemma strict_suffix_hd: "suffix (c # r) s \<Longrightarrow> suffix q r \<Longrightarrow> strict_suffix q s"
  by (auto simp: strict_suffix_def suffix_def)

lemma scan_quoted_suffix: "scan_quoted q s = Some (v, r) \<Longrightarrow> suffix r s"
  by (induction q s arbitrary: v r rule: scan_quoted.induct) (auto simp: suffix_Cons split: if_splits list.splits)

lemma close_suffix:
  "close_bracket s = Some r \<Longrightarrow> strict_suffix r s" "close_paren s = Some r \<Longrightarrow> strict_suffix r s"
proof -
  have "strict_suffix r s" if "skip_white s = c # r" for c
    using strict_suffix_hd [of c r s r] skip_white_suffix [of s] that by simp
  then show "close_bracket s = Some r \<Longrightarrow> strict_suffix r s" "close_paren s = Some r \<Longrightarrow> strict_suffix r s"
    by (auto simp: close_bracket_def close_paren_def split: list.splits if_splits)
qed

lemma take_operator_suffix: "take_operator s = Some (operator, r) \<Longrightarrow> suffix r s"
  by (auto simp: take_operator_def suffix_Cons split: list.splits if_splits option.splits)

lemma take_value_suffix: "take_value s = Some (v, r) \<Longrightarrow> suffix r s"
proof (cases s)
  case (Cons c q)
  assume v: "take_value s = Some (v, r)"
  show ?thesis
  proof (cases "c = 39 \<or> c = 34")
    case True
    then show ?thesis using v Cons scan_quoted_suffix by (auto simp: take_value_def suffix_Cons split: if_splits)
  next
    case False
    then have "take_identifier s = (v, r)" using v Cons by (auto simp: take_value_def simp del: take_identifier.simps split: list.splits prod.splits)
    then show ?thesis by (rule take_identifier_suffix)
  qed
qed (simp add: take_value_def)

lemma attr_tail_suffix: "attr_tail s = Some (operator, v, r) \<Longrightarrow> suffix r s"
proof -
  assume "attr_tail s = Some (operator, v, r)"
  then obtain p q where "take_operator (skip_white s) = Some (operator, p)" "take_value (skip_white p) = Some (v, q)" "close_bracket q = Some r"
    by (auto simp: attr_tail_def split: option.splits)
  then show ?thesis using take_operator_suffix take_value_suffix close_suffix(1) skip_white_suffix
    by (meson strict_suffix_def suffix_order.trans)
qed

lemma attr_match_consumes: "attr_match s = Some (v, t) \<Longrightarrow> prefix v s \<and> v \<noteq> []"
proof -
  assume m: "attr_match s = Some (v, t)"
  then obtain r name r' where r: "s = 91 # r" "take_identifier (skip_white r) = (name, r')"
    by (auto simp: attr_match_def split: list.splits if_splits prod.splits)
  then have "suffix r' r" using take_identifier_suffix skip_white_suffix suffix_order.trans by metis
  moreover obtain rest where "v = until_rest s rest" "suffix rest r'"
    using m r by (auto simp: attr_match_def strict_suffix_def dest: attr_tail_suffix close_suffix(1) split: list.splits option.splits)
  ultimately show ?thesis using until_rest_consumes [of rest s] strict_suffix_Cons [of rest 91 r] r(1) suffix_order.trans by metis
qed

interpretation attr: recogniser attr_match
  by unfold_locales (rule attr_match_consumes)

interpretation tag: recogniser tag_match
  by unfold_locales (auto simp: tag_match_def dest!: take_identifier_prefix split: prod.splits list.splits if_splits)

lemma identifier_behind: "prefix (fst (take_identifier r)) r"
  using take_identifier_prefix [of r "fst (take_identifier r)" "snd (take_identifier r)"] by (metis prefixI prod.collapse)

interpretation classes: recogniser class_match
  by unfold_locales (auto simp: class_match_def identifier_behind split: list.splits if_splits)

interpretation id: recogniser id_match
  by unfold_locales (auto simp: id_match_def identifier_behind split: list.splits if_splits)

lemma strip_word_suffix: "strip_word w s = Some r \<Longrightarrow> suffix r s \<and> length r = length s - length w \<and> (w \<noteq> [] \<longrightarrow> s \<noteq> [])"
  by (auto simp: strip_word_def lower_units_def suffix_drop split: if_splits)

lemma first_some_Some: "first_some f xs = Some y \<Longrightarrow> \<exists>x \<in> set xs. f x = Some y"
  by (induction xs) (auto split: option.splits)

lemma child_head_suffix: "child_head s = Some (k, r) \<Longrightarrow> strict_suffix r s"
proof -
  assume "child_head s = Some (k, r)"
  then obtain name q kind where q: "strip_word (58 # name @ [45]) s = Some q" "strip_word kind q = Some r"
    unfolding child_head_def by (fastforce dest!: first_some_Some split: option.splits)
  then have "suffix r q" "suffix q s" "length q < length s" using strip_word_suffix by (fastforce)+
  then show ?thesis using suffix_order.trans [of r q s] suffix_length_le [of r q] by (auto simp: strict_suffix_def)
qed

lemma take_y_close_suffix: "take_y_close s = Some (y, r) \<Longrightarrow> suffix r s"
proof -
  assume y: "take_y_close s = Some (y, r)"
  obtain sign q where q: "take_sign (skip_white s) = (sign, q)" by fastforce
  have "suffix q (skip_white s)" using q by (auto simp: take_sign_def suffix_Cons split: list.splits if_splits)
  then have "suffix (drop n (skip_white q)) s" for n using skip_white_suffix suffix_drop suffix_order.trans by metis
  moreover have "(\<exists>n. close_paren (drop n (skip_white q)) = Some r) \<or> close_paren s = Some r"
    using y q by (auto simp: take_y_close_def Let_def split: option.splits if_splits)
  ultimately show ?thesis using close_suffix(2) unfolding strict_suffix_def by (metis suffix_order.trans)
qed

lemma take_xn_suffix: "take_xn s = Some (xn, r) \<Longrightarrow> suffix r s"
proof -
  assume x: "take_xn s = Some (xn, r)"
  obtain sign q where q: "take_sign s = (sign, q)" by fastforce
  have "suffix q s" using q by (auto simp: take_sign_def suffix_Cons split: list.splits if_splits)
  moreover obtain n c where "drop n q = c # r" using x q by (auto simp: take_xn_def Let_def split: list.splits if_splits)
  then have "suffix r q" by (metis suffix_ConsD suffix_drop)
  ultimately show ?thesis using suffix_order.trans by blast
qed

lemma child_argument_suffix: "child_argument s = Some (arg, xn, y, r) \<Longrightarrow> suffix r s"
proof -
  assume m: "child_argument s = Some (arg, xn, y, r)"
  have "(\<exists>w q. strip_word w s = Some q \<and> close_paren q = Some r) \<or> (\<exists>y q. suffix q s \<and> take_y_close q = Some (y, r))"
    using m take_xn_suffix by (auto simp: child_argument_def Let_def split: option.splits prod.splits)
  then show ?thesis using strip_word_suffix close_suffix(2) take_y_close_suffix unfolding strict_suffix_def by (metis suffix_order.trans)
qed

lemma child_parts_consumes: "child_parts s = Some (v, x) \<Longrightarrow> prefix v s \<and> v \<noteq> []"
proof -
  assume m: "child_parts s = Some (v, x)"
  then obtain ty ofType r where r: "child_head s = Some ((ty, ofType), r)" by (auto simp: child_parts_def split: option.splits)
  have "\<exists>rest. suffix rest r \<and> v = until_rest s rest"
  proof (cases "\<exists>q. r = 40 # q \<and> child_argument (skip_white q) \<noteq> None")
    case True
    then obtain q arg xn y rest where q: "r = 40 # q" "child_argument (skip_white q) = Some (arg, xn, y, rest)" by auto
    then have "suffix rest q" using child_argument_suffix [OF q(2)] suffix_order.trans [OF _ skip_white_suffix] by blast
    then have "suffix rest r" using q(1) by (simp add: suffix_Cons)
    moreover have "v = until_rest s rest" using m by (simp add: child_parts_def r q)
    ultimately show ?thesis by blast
  next
    case False
    then have "(case r of c # r' \<Rightarrow> if c = 40 then child_argument (skip_white r') else None | [] \<Rightarrow> None) = None"
      by (cases r) (auto simp del: not_None_eq)
    then have "v = until_rest s r" using m by (simp add: child_parts_def r)
    then show ?thesis by blast
  qed
  then show ?thesis using child_head_suffix [OF r] until_rest_consumes by (metis suffix_order.le_less_trans)
qed

interpretation child: recogniser child_parts
  by unfold_locales (rule child_parts_consumes)

section \<open>Pseudo classes\<close>

text \<open>The second form of an argument: no parentheses or brackets but in escapes and attribute selectors.\<close>

function scan_simple :: "units \<Rightarrow> units \<times> units" where
  "scan_simple [] = ([], [])"
| "scan_simple (c # s) =
     (if c = 92 then
        (case s of
           d # r \<Rightarrow> if line_end d then ([], c # s) else (case scan_simple r of (v, rest) \<Rightarrow> (c # d # v, rest))
         | [] \<Rightarrow> ([], c # s))
      else if c = 91 then
        (case attr_match (c # s) of
           Some (a, _) \<Rightarrow> (case scan_simple (drop (length a) (c # s)) of (v, rest) \<Rightarrow> (a @ v, rest))
         | None \<Rightarrow> ([], c # s))
      else if c = 40 \<or> c = 41 \<or> c = 93 then ([], c # s)
      else (case scan_simple s of (v, rest) \<Rightarrow> (c # v, rest)))"
  by pat_completeness auto
termination
  by (relation "measure length") (auto dest: attr.shorter)

declare scan_simple.simps [simp del]

text \<open>The third form: everything up to the last closing parenthesis of the line.\<close>

definition scan_any :: "units \<Rightarrow> units option" where
  "scan_any s =
     (let line = takeWhile (\<lambda>c. \<not> line_end c) s; tail = dropWhile (\<lambda>c. c \<noteq> 41) (rev line) in
      if tail = [] then None else Some (rev (tl tail)))"

datatype argument = NoArgument | Quoted units | Simple units | Anything units

text \<open>Each form has to be followed by the closing parenthesis; the first that fits is taken.\<close>

definition after_paren :: "units \<Rightarrow> units option" where
  "after_paren s = (case s of c # r \<Rightarrow> if c = 41 then Some r else None | [] \<Rightarrow> None)"

definition quoted_argument :: "units \<Rightarrow> (argument \<times> units) option" where
  "quoted_argument s =
     (case s of
        q # r \<Rightarrow>
          if q = 39 \<or> q = 34 then
            (case scan_quoted q r of Some (v, r') \<Rightarrow> map_option (\<lambda>rest. (Quoted v, rest)) (after_paren r') | None \<Rightarrow> None)
          else None
      | [] \<Rightarrow> None)"

definition simple_argument :: "units \<Rightarrow> (argument \<times> units) option" where
  "simple_argument s = (case scan_simple s of (v, r) \<Rightarrow> map_option (\<lambda>rest. (Simple v, rest)) (after_paren r))"

definition any_argument :: "units \<Rightarrow> (argument \<times> units) option" where
  "any_argument s = map_option (\<lambda>v. (Anything v, drop (length v + 1) s)) (scan_any s)"

definition pseudo_argument :: "units \<Rightarrow> (argument \<times> units) option" where
  "pseudo_argument s = first_some (\<lambda>f. f s) [quoted_argument, simple_argument, any_argument]"

text \<open>\<open>matchExpr.PSEUDO\<close>: the text, the name, the argument.\<close>

definition pseudo_parts :: "units \<Rightarrow> (units \<times> units \<times> argument) option" where
  "pseudo_parts s =
     (case s of
        [] \<Rightarrow> None
      | c # r \<Rightarrow>
          if c \<noteq> 58 then None
          else (case take_identifier r of
                  ([], _) \<Rightarrow> None
                | (name, r') \<Rightarrow>
                    (case (case r' of d # q \<Rightarrow> if d = 40 then pseudo_argument q else None | [] \<Rightarrow> None) of
                       Some (arg, rest) \<Rightarrow> Some (until_rest s rest, name, arg)
                     | None \<Rightarrow> Some (c # name, name, NoArgument))))"

text \<open>\<open>rpseudo.test\<close>: a pseudo class occurs somewhere.\<close>

fun has_pseudo :: "units \<Rightarrow> bool" where
  "has_pseudo [] \<longleftrightarrow> False"
| "has_pseudo (c # s) \<longleftrightarrow> c = 58 \<and> fst (take_identifier s) \<noteq> [] \<or> has_pseudo s"

text \<open>
  \<open>preFilter.PSEUDO\<close>.  An argument of the third form reaches too far when text follows with a parenthesis of its own; the tokenizer
  itself (\<open>inner\<close>, which returns the number of units it could not read) finds where to look for the closing parenthesis.
\<close>

definition cut_argument :: "units \<Rightarrow> nat \<Rightarrow> units \<Rightarrow> units \<times> units" where
  "cut_argument a excess v =
     (let k = length a - excess + length (takeWhile (\<lambda>c. c \<noteq> 41) (drop (length a - excess) a)) in
      if k < length a then (take (length v - (length a - k)) v, take k a)
      else (take (length v - (length a + 1)) v, []))"

definition prefilter_PSEUDO :: "(units \<Rightarrow> units + nat) \<Rightarrow> units \<Rightarrow> argument \<Rightarrow> units + (units \<times> units) option" where
  "prefilter_PSEUDO inner v arg =
     (if child_parts v \<noteq> None then Inr None
      else case arg of
        NoArgument \<Rightarrow> Inr (Some (v, []))
      | Quoted a \<Rightarrow> Inr (Some (v, a))
      | Simple a \<Rightarrow> Inr (Some (v, a))
      | Anything a \<Rightarrow>
          if a \<noteq> [] \<and> has_pseudo a then
            (case inner a of
               Inl err \<Rightarrow> Inl err
             | Inr excess \<Rightarrow> Inr (Some (if excess = 0 then (v, a) else cut_argument a excess v)))
          else Inr (Some (v, a)))"

text \<open>\<open>Expr.pseudos[ pseudo ] || Expr.setFilters[ pseudo.toLowerCase() ]\<close>.\<close>

definition known_pseudos :: "units \<Rightarrow> (units \<times> pseudo_class) list" where
  "known_pseudos arg =
     [([114, 111, 111, 116], PRoot), ([101, 109, 112, 116, 121], PEmpty), ([112, 97, 114, 101, 110, 116], PParent),
      ([104, 101, 97, 100, 101, 114], PHeader), ([105, 110, 112, 117, 116], PInput),
      ([99, 111, 110, 116, 97, 105, 110, 115], PContains arg), ([108, 97, 110, 103], PLang arg)]"

definition pseudo_of :: "units \<Rightarrow> units \<Rightarrow> pseudo_class" where
  "pseudo_of name arg =
     (case map_of (known_pseudos arg) name of
        Some p \<Rightarrow> p
      | None \<Rightarrow> (case map_of (known_pseudos arg) (lower_units name) of Some p \<Rightarrow> p | None \<Rightarrow> POther name arg))"

definition pseudo_match :: "(units \<Rightarrow> units + nat) \<Rightarrow> units \<Rightarrow> units + (units \<times> filter_token) option" where
  "pseudo_match inner s =
     (case pseudo_parts s of
        None \<Rightarrow> Inr None
      | Some (v, name, arg) \<Rightarrow>
          (case prefilter_PSEUDO inner v arg of
             Inl err \<Rightarrow> Inl err
           | Inr None \<Rightarrow> Inr None
           | Inr (Some (v', a)) \<Rightarrow> Inr (Some (v', TPseudo (pseudo_of name a)))))"

section \<open>The tokenizer\<close>

datatype token_type = TypeTAG | TypeCLASS | TypeATTR | TypeCHILD | TypePSEUDO | TypeID

text \<open>The types in the order in which they were put into \<open>Expr.filter\<close>.\<close>

definition token_types :: "token_type list" where
  "token_types = [TypeTAG, TypeCLASS, TypeATTR, TypeCHILD, TypePSEUDO, TypeID]"

definition match_type :: "(units \<Rightarrow> units + nat) \<Rightarrow> token_type \<Rightarrow> units \<Rightarrow> units + (units \<times> filter_token) option" where
  "match_type inner ty s =
     (case ty of
        TypeTAG \<Rightarrow> Inr (tag_match s)
      | TypeCLASS \<Rightarrow> Inr (class_match s)
      | TypeATTR \<Rightarrow> Inr (attr_match s)
      | TypeCHILD \<Rightarrow> child_match s
      | TypePSEUDO \<Rightarrow> pseudo_match inner s
      | TypeID \<Rightarrow> Inr (id_match s))"

type_synonym lexeme = "units \<times> selector_token"

definition push_token :: "lexeme \<Rightarrow> lexeme list list \<Rightarrow> lexeme list list" where
  "push_token tok groups = butlast groups @ [last groups @ [tok]]"

text \<open>One pass over the types; each may take one token.\<close>

fun filter_pass :: "(units \<Rightarrow> units + nat) \<Rightarrow> token_type list \<Rightarrow> bool \<Rightarrow> units \<Rightarrow> lexeme list list \<Rightarrow> units + bool \<times> units \<times> lexeme list list" where
  "filter_pass inner [] matched soFar groups = Inr (matched, soFar, groups)"
| "filter_pass inner (ty # tys) matched soFar groups =
     (case match_type inner ty soFar of
        Inl err \<Rightarrow> Inl err
      | Inr None \<Rightarrow> filter_pass inner tys matched soFar groups
      | Inr (Some (v, t)) \<Rightarrow> filter_pass inner tys True (drop (length v) soFar) (push_token (v, Filter t) groups))"

text \<open>The beginning of a turn: a comma, unless it is at the end, or the first turn begins a group.\<close>

definition begin_group :: "bool \<Rightarrow> units \<Rightarrow> lexeme list list \<Rightarrow> units \<times> lexeme list list" where
  "begin_group first soFar groups =
     (if first then (soFar, groups @ [[]])
      else case comma_match soFar of
        Some v \<Rightarrow> (if drop (length v) soFar = [] then soFar else drop (length v) soFar, groups @ [[]])
      | None \<Rightarrow> (soFar, groups))"

definition take_combinator :: "units \<Rightarrow> lexeme list list \<Rightarrow> bool \<times> units \<times> lexeme list list" where
  "take_combinator soFar groups =
     (case combinator_match soFar of
        Some (v, r) \<Rightarrow> (True, drop (length v) soFar, push_token (v, Relative r) groups)
      | None \<Rightarrow> (False, soFar, groups))"

definition token_turn :: "(units \<Rightarrow> units + nat) \<Rightarrow> bool \<Rightarrow> units \<Rightarrow> lexeme list list \<Rightarrow> units + bool \<times> units \<times> lexeme list list" where
  "token_turn inner first soFar groups =
     (case begin_group first soFar groups of
        (s1, g1) \<Rightarrow> (case take_combinator s1 g1 of (m2, s2, g2) \<Rightarrow> filter_pass inner token_types m2 s2 g2))"

section \<open>Every turn makes progress\<close>

lemma scan_simple_suffix: "scan_simple s = (v, r) \<Longrightarrow> suffix r s"
proof (induction s arbitrary: v r rule: scan_simple.induct)
  case 1
  then show ?case by (simp add: scan_simple.simps)
next
  case (2 c s)
  show ?case
  proof (cases "c = 92")
    case True
    then show ?thesis using 2 by (subst (asm) scan_simple.simps) (auto simp: suffix_Cons split: list.splits if_splits prod.splits)
  next
    case no_escape: False
    show ?thesis
    proof (cases "c = 91")
      case True
      then show ?thesis
      proof (cases "attr_match (c # s)")
        case (Some at)
        obtain a t where at: "at = (a, t)" by (cases at)
        obtain w where w: "scan_simple (drop (length a) (c # s)) = (w, r)"
          using 2(4) Some at True by (subst (asm) scan_simple.simps) (auto split: prod.splits)
        then have "suffix r (drop (length a) (c # s))" using 2(2) [OF no_escape True Some at [symmetric]] by blast
        then show ?thesis using suffix_drop suffix_order.trans by blast
      qed (use 2(4) True in \<open>subst (asm) scan_simple.simps, auto\<close>)
    next
      case False
      then show ?thesis using 2(3) [OF no_escape False] 2(4) no_escape
        by (subst (asm) scan_simple.simps) (auto simp: suffix_Cons split: if_splits prod.splits)
    qed
  qed
qed

lemma after_paren_suffix: "after_paren s = Some r \<Longrightarrow> suffix r s"
  by (auto simp: after_paren_def suffix_Cons split: list.splits if_splits)

lemma scan_any_split: "scan_any s = Some v \<Longrightarrow> \<exists>rest. s = v @ 41 # rest"
proof -
  assume v: "scan_any s = Some v"
  define ln where "ln = takeWhile (\<lambda>c. \<not> line_end c) s"
  define tail where "tail = dropWhile (\<lambda>c. c \<noteq> 41) (rev ln)"
  have tail: "tail \<noteq> []" "v = rev (tl tail)" using v by (auto simp: scan_any_def ln_def tail_def Let_def split: if_splits)
  then have "hd tail = 41" unfolding tail_def using hd_dropWhile by blast
  then have "tail = 41 # rev v" using tail by (cases tail) auto
  moreover have "\<exists>front. rev ln = front @ tail" unfolding tail_def by (metis takeWhile_dropWhile_id)
  ultimately obtain front where "rev ln = front @ 41 # rev v" by blast
  then have "ln = v @ 41 # rev front" by (metis append.assoc append_Cons append_Nil rev.simps(2) rev_append rev_rev_ident)
  moreover obtain rest where "s = ln @ rest" unfolding ln_def by (metis takeWhile_dropWhile_id)
  ultimately show ?thesis by auto
qed

lemma pseudo_argument_suffix:
  assumes "pseudo_argument s = Some (arg, r)"
  shows "suffix r s" "arg = Anything a \<Longrightarrow> length a + length r < length s"
proof -
  consider "quoted_argument s = Some (arg, r)" | "simple_argument s = Some (arg, r)" | "any_argument s = Some (arg, r)"
    using assms by (auto simp: pseudo_argument_def split: option.splits)
  then have "suffix r s \<and> (\<forall>a. arg = Anything a \<longrightarrow> length a + length r < length s)"
  proof cases
    case 1
    then obtain q s' v r' where "s = q # s'" "scan_quoted q s' = Some (v, r')" "after_paren r' = Some r" "arg = Quoted v"
      by (auto simp: quoted_argument_def split: list.splits if_splits option.splits)
    then show ?thesis using scan_quoted_suffix after_paren_suffix suffix_order.trans by (fastforce simp: suffix_Cons)
  next
    case 2
    then obtain v r' where "scan_simple s = (v, r')" "after_paren r' = Some r" "arg = Simple v"
      by (auto simp: simple_argument_def split: prod.splits)
    then show ?thesis using scan_simple_suffix after_paren_suffix suffix_order.trans by fastforce
  next
    case 3
    then obtain v where v: "scan_any s = Some v" "arg = Anything v" "r = drop (length v + 1) s" by (auto simp: any_argument_def)
    then show ?thesis using scan_any_split [OF v(1)] by (auto simp: suffix_drop)
  qed
  then show "suffix r s" "arg = Anything a \<Longrightarrow> length a + length r < length s" by auto
qed

lemma pseudo_parts_consumes:
  assumes "pseudo_parts s = Some (v, name, arg)"
  shows "prefix v s" "v \<noteq> []" "arg = Anything a \<Longrightarrow> length a + 2 \<le> length v"
proof -
  obtain r r' where r: "s = 58 # r" "take_identifier r = (name, r')" "name \<noteq> []"
    using assms by (auto simp: pseudo_parts_def split: list.splits if_splits prod.splits option.splits)
  then have "suffix r' r" "r = name @ r'" using take_identifier_suffix take_identifier_prefix by blast+
  consider (none) "v = 58 # name" "arg = NoArgument" | (arg) q rest where "r' = 40 # q" "pseudo_argument q = Some (arg, rest)" "v = until_rest s rest"
    using assms r by (auto simp: pseudo_parts_def split: list.splits if_splits prod.splits option.splits)
  then have "prefix v s \<and> v \<noteq> [] \<and> (\<forall>a. arg = Anything a \<longrightarrow> length a + 2 \<le> length v)"
  proof cases
    case none
    then show ?thesis using r(1) \<open>r = name @ r'\<close> by simp
  next
    case arg
    have sub: "suffix rest q" using pseudo_argument_suffix(1) [OF arg(2)] .
    then have "strict_suffix rest s" using arg(1) r(1) \<open>r = name @ r'\<close>
      by (auto simp: strict_suffix_Cons suffix_def)
    moreover have "length a + 2 \<le> length v" if "arg = Anything a" for a
      using pseudo_argument_suffix(2) [OF arg(2) that] arg(1,3) r(1) \<open>r = name @ r'\<close> by (simp add: until_rest_def)
    ultimately show ?thesis using until_rest_consumes [of rest s] arg(3) by simp
  qed
  then show "prefix v s" "v \<noteq> []" "arg = Anything a \<Longrightarrow> length a + 2 \<le> length v" by auto
qed

lemma prefilter_PSEUDO_consumes:
  assumes "prefilter_PSEUDO inner v arg = Inr (Some (v', b))" "v \<noteq> []" "\<And>a. arg = Anything a \<Longrightarrow> length a + 2 \<le> length v"
  shows "prefix v' v \<and> v' \<noteq> []"
proof (cases arg)
  case (Anything a)
  have "length a + 2 \<le> length v" using assms(3) Anything by blast
  then show ?thesis using assms(1,2) Anything
    by (auto simp: prefilter_PSEUDO_def cut_argument_def Let_def take_is_prefix split: if_splits sum.splits)
qed (use assms(1,2) in \<open>auto simp: prefilter_PSEUDO_def split: if_splits\<close>)

lemma match_type_consumes: "match_type inner ty s = Inr (Some (v, t)) \<Longrightarrow> prefix v s \<and> v \<noteq> []"
proof (cases ty)
  case TypeCHILD
  assume "match_type inner ty s = Inr (Some (v, t))"
  then obtain x where "child_parts s = Some (v, x)" using TypeCHILD
    by (auto simp: match_type_def child_match_def split: option.splits sum.splits prod.splits)
  then show ?thesis by (rule child.consumes)
next
  case TypePSEUDO
  assume "match_type inner ty s = Inr (Some (v, t))"
  then obtain u name arg b where u: "pseudo_parts s = Some (u, name, arg)" "prefilter_PSEUDO inner u arg = Inr (Some (v, b))"
    using TypePSEUDO by (auto simp: match_type_def pseudo_match_def split: option.splits sum.splits)
  show ?thesis using prefilter_PSEUDO_consumes [OF u(2)] pseudo_parts_consumes [OF u(1)] prefix_order.trans by blast
qed (use attr.consumes tag.consumes classes.consumes id.consumes in \<open>simp_all add: match_type_def\<close>)

lemma filter_pass_shorter:
  "filter_pass inner tys matched s g = Inr (matched', s', g') \<Longrightarrow> suffix s' s \<and> (matched' \<longrightarrow> matched \<or> length s' < length s)"
proof (induction inner tys matched s g rule: filter_pass.induct)
  case (2 inner ty tys matched s g)
  show ?case
  proof (cases "match_type inner ty s")
    case (Inr m)
    show ?thesis
    proof (cases m)
      case (Some vt)
      obtain v t where vt: "vt = (v, t)" by (cases vt)
      have "length (drop (length v) s) < length s" using match_type_consumes [of inner ty s v t] Inr Some vt by (auto simp: prefix_def)
      moreover have "suffix s' (drop (length v) s)" using 2(2) [OF Inr Some vt [symmetric]] 2(3) Inr Some vt by simp
      ultimately show ?thesis using suffix_drop suffix_order.trans suffix_length_le by (meson le_less_trans)
    qed (use 2 Inr in simp)
  qed (use 2 in simp)
qed simp

lemma combinator_match_consumes: "combinator_match s = Some (v, r) \<Longrightarrow> prefix v s \<and> v \<noteq> []"
proof -
  assume m: "combinator_match s = Some (v, r)"
  have behind: "strict_suffix (skip_white q) s" if "skip_white s = c # q" for c q
    using strict_suffix_hd [of c q s "skip_white q"] skip_white_suffix [of s] that by simp
  have "strict_suffix (skip_white s) s" if "length (skip_white s) < length s" using that by (auto simp: strict_suffix_def)
  then obtain q where "strict_suffix q s" "v = until_rest s q"
    using m behind by (auto simp: combinator_match_def Let_def split: list.splits if_splits)
  then show ?thesis using until_rest_consumes by simp
qed

interpretation combinator: recogniser combinator_match
  by unfold_locales (rule combinator_match_consumes)

end
