(* ===== verification/SizzleCache.thy ===== *)
theory SizzleCache
  imports SizzleMatch
begin

text \<open>
  The caches of compiled selectors are sound: a matcher that uses them answers as the same matcher without
  caches.  Each combinator has a number; the results stored under a number have to agree with what that combinator
  decides, and matchers may only add cells under numbers of their own.
\<close>

section \<open>Sound caches\<close>

definition runs_past :: "sizzle_state \<Rightarrow> bool" where
  "runs_past st \<longleftrightarrow> (\<forall>c \<in> set (cells st). cell_run c \<le> dirruns st) \<and> (\<forall>ek c. comb_cache st ek = Some c \<longrightarrow> c < length (cells st)) \<and>
     (\<forall>p r i k. nth_cache st p = Some (r, i, k) \<longrightarrow> r \<le> dirruns st)"

text \<open>\<open>D d e\<close> is the decision of combinator \<open>d\<close> when it arrives at \<open>e\<close>; \<open>B\<close> are the combinators in question.\<close>

definition caches_ok :: "dnode \<Rightarrow> (nat \<Rightarrow> path \<Rightarrow> bool) \<Rightarrow> nat set \<Rightarrow> sizzle_state \<Rightarrow> bool" where
  "caches_ok doc D B st \<longleftrightarrow> runs_past st \<and> nth_valid doc st \<and>
     (\<forall>e k c. comb_cache st (e, k) = Some c \<and> cell_run (cells st ! c) = dirruns st \<and> cell_done (cells st ! c) \<in> B \<longrightarrow>
        cell_result (cells st ! c) = Some (D (cell_done (cells st ! c)) e))"

text \<open>The state after a matcher: old cells are kept, except for those in \<open>X\<close>, and new ones are numbered in \<open>B\<close>.\<close>

definition grows :: "nat set \<Rightarrow> nat set \<Rightarrow> sizzle_state \<Rightarrow> sizzle_state \<Rightarrow> bool" where
  "grows X B st st' \<longleftrightarrow> dirruns st' = dirruns st \<and> outermostContext st' = outermostContext st \<and> length (cells st) \<le> length (cells st') \<and>
     (\<forall>i < length (cells st). (i \<notin> X \<longrightarrow> cells st' ! i = cells st ! i) \<and>
        cell_run (cells st' ! i) = cell_run (cells st ! i) \<and> cell_done (cells st' ! i) = cell_done (cells st ! i)) \<and>
     (\<forall>i. length (cells st) \<le> i \<and> i < length (cells st') \<longrightarrow> cell_done (cells st' ! i) \<in> B) \<and>
     (\<forall>ek c. comb_cache st' ek = Some c \<longrightarrow> comb_cache st ek = Some c \<or> c \<in> X \<or> length (cells st) \<le> c)"

lemma grows_refl [simp]: "grows X B st st"
  by (auto simp: grows_def)

lemma grows_trans: "grows X B st st1 \<Longrightarrow> grows X B st1 st2 \<Longrightarrow> grows X B st st2"
  unfolding grows_def by (smt (verit) le_trans not_le order_less_le_trans)

lemma grows_mono: "grows X B st st' \<Longrightarrow> X \<subseteq> Y \<Longrightarrow> B \<subseteq> C \<Longrightarrow> grows Y C st st'"
  unfolding grows_def subset_iff by meson

lemma grows_same_caches: "same_caches st st' \<Longrightarrow> grows X B st st'"
  by (auto simp: same_caches_def grows_def)

lemma grows_entry: "grows X B st st' \<Longrightarrow> comb_cache st' ek = Some c \<Longrightarrow> c < length (cells st) \<Longrightarrow> c \<notin> X \<Longrightarrow> comb_cache st ek = Some c"
  unfolding grows_def by (meson leD)

lemma grows_new: "grows X B st st' \<Longrightarrow> c < length (cells st') \<Longrightarrow> cell_done (cells st' ! c) \<notin> B \<Longrightarrow> c < length (cells st)"
  unfolding grows_def by (meson not_le)

lemma grows_cell: "grows X B st st' \<Longrightarrow> c < length (cells st) \<Longrightarrow> c \<notin> X \<Longrightarrow> cells st' ! c = cells st ! c"
  by (simp add: grows_def)

lemma grows_run: "grows X B st st' \<Longrightarrow> dirruns st' = dirruns st \<and> outermostContext st' = outermostContext st \<and> length (cells st) \<le> length (cells st')"
  by (simp add: grows_def)

lemma caches_ok_frame:
  assumes "caches_ok doc D C st" "grows {} B st st'" "caches_ok doc D B st'" "B \<subseteq> C"
  shows "caches_ok doc D C st'"
proof -
  have "cell_result (cells st' ! c) = Some (D (cell_done (cells st' ! c)) e)"
    if c: "comb_cache st' (e, k) = Some c" "cell_run (cells st' ! c) = dirruns st'" "cell_done (cells st' ! c) \<in> C" for e k c
  proof (cases "cell_done (cells st' ! c) \<in> B")
    case False
    have "c < length (cells st')" using assms(3) c by (auto simp: caches_ok_def runs_past_def)
    then have "c < length (cells st)" using grows_new [OF assms(2)] False by blast
    moreover from this have "cells st' ! c = cells st ! c" "comb_cache st (e, k) = Some c" "dirruns st' = dirruns st"
      using grows_cell [OF assms(2)] grows_entry [OF assms(2) c(1)] grows_run [OF assms(2)] by auto
    ultimately show ?thesis using assms(1) c by (auto simp: caches_ok_def)
  qed (use assms(3) c in \<open>auto simp: caches_ok_def\<close>)
  then show ?thesis using assms(3) by (auto simp: caches_ok_def)
qed

text \<open>A matcher computes a predicate, on the nodes in \<open>A\<close> and in a run with a given context.\<close>

definition computes ::
  "dnode \<Rightarrow> (nat \<Rightarrow> path \<Rightarrow> bool) \<Rightarrow> outer_context \<Rightarrow> search_context \<Rightarrow> bool \<Rightarrow> nat set \<Rightarrow> path set \<Rightarrow> matcher \<Rightarrow> (path \<Rightarrow> bool) \<Rightarrow> bool" where
  "computes doc D oc ctx xml B A m P \<longleftrightarrow>
     (\<forall>e st. e \<in> A \<and> caches_ok doc D B st \<and> outermostContext st = oc \<longrightarrow>
        fst (m e ctx xml st) = P e \<and> caches_ok doc D B (snd (m e ctx xml st)) \<and> grows {} B st (snd (m e ctx xml st)))"

lemma computesD:
  assumes "computes doc D oc ctx xml B A m P" "e \<in> A" "caches_ok doc D B st" "outermostContext st = oc"
  obtains st' where "m e ctx xml st = (P e, st')" "caches_ok doc D B st'" "grows {} B st st'" "outermostContext st' = oc"
proof (rule that [of "snd (m e ctx xml st)"])
  have "fst (m e ctx xml st) = P e \<and> caches_ok doc D B (snd (m e ctx xml st)) \<and> grows {} B st (snd (m e ctx xml st))"
    using assms unfolding computes_def by blast
  then show "m e ctx xml st = (P e, snd (m e ctx xml st))" "caches_ok doc D B (snd (m e ctx xml st))"
      "grows {} B st (snd (m e ctx xml st))" "outermostContext (snd (m e ctx xml st)) = oc"
    using assms(4) by (auto simp: prod_eq_iff grows_def)
qed

lemma computes_mono:
  assumes "computes doc D oc ctx xml B A m P" "B \<subseteq> C"
  shows "computes doc D oc ctx xml C A m P"
  unfolding computes_def
proof (intro allI impI)
  fix e st assume e: "e \<in> A \<and> caches_ok doc D C st \<and> outermostContext st = oc"
  then have "caches_ok doc D B st" using assms(2) by (auto simp: caches_ok_def)
  with e obtain st' where "m e ctx xml st = (P e, st')" "caches_ok doc D B st'" "grows {} B st st'"
    by - (rule computesD [OF assms(1), of e st]; auto)
  then show "fst (m e ctx xml st) = P e \<and> caches_ok doc D C (snd (m e ctx xml st)) \<and> grows {} C st (snd (m e ctx xml st))"
    using caches_ok_frame [of doc D C st B st'] e assms(2) grows_mono [of "{}" B st st' "{}" C] by simp
qed

lemma computes_pure: "(\<And>e st. e \<in> A \<Longrightarrow> m e ctx xml st = (P e, st)) \<Longrightarrow> computes doc D oc ctx xml B A m P"
  by (simp add: computes_def)

section \<open>Lists of matchers\<close>

lemma computes_all:
  "list_all2 (computes doc D oc ctx xml B A) ms Ps \<Longrightarrow>
   computes doc D oc ctx xml B A (all_matchers ms) (\<lambda>e. \<forall>P \<in> set Ps. P e)"
proof (induction rule: list_all2_induct)
  case (Cons m ms P Ps)
  show ?case unfolding computes_def
  proof (intro allI impI)
    fix e st assume e: "e \<in> A \<and> caches_ok doc D B st \<and> outermostContext st = oc"
    obtain st1 where 1: "m e ctx xml st = (P e, st1)" "caches_ok doc D B st1" "grows {} B st st1" "outermostContext st1 = oc"
      by (rule computesD [OF Cons(1), of e st]) (use e in auto)
    obtain st2 where "all_matchers ms e ctx xml st1 = (\<forall>P \<in> set Ps. P e, st2)" "caches_ok doc D B st2" "grows {} B st1 st2"
      by (rule computesD [OF Cons(3), of e st1]) (use e 1 in auto)
    then show "fst (all_matchers (m # ms) e ctx xml st) = (\<forall>P \<in> set (P # Ps). P e) \<and>
        caches_ok doc D B (snd (all_matchers (m # ms) e ctx xml st)) \<and> grows {} B st (snd (all_matchers (m # ms) e ctx xml st))"
      using 1 grows_trans by auto
  qed
qed (simp add: computes_def)

lemma computes_element:
  assumes "list_all2 (computes doc D oc ctx xml B A) ms Ps" "ms \<noteq> []"
  shows "computes doc D oc ctx xml B A (elementMatcher ms) (\<lambda>e. \<forall>P \<in> set Ps. P e)"
proof (cases "1 < length ms")
  case True
  have "list_all2 (computes doc D oc ctx xml B A) (rev ms) (rev Ps)" using assms(1) by (simp add: list_all2_rev)
  from computes_all [OF this] show ?thesis using True by (simp add: elementMatcher_def)
next
  case False
  then obtain m P where "ms = [m]" "Ps = [P]" "computes doc D oc ctx xml B A m P"
    using assms by (cases ms; cases Ps) (auto simp: not_less)
  then show ?thesis by (simp add: elementMatcher_def)
qed

lemma computes_any:
  "list_all2 (computes doc D oc ctx xml B A) ms Ps \<Longrightarrow>
   computes doc D oc ctx xml B A (any_matcher ms) (\<lambda>e. \<exists>P \<in> set Ps. P e)"
proof (induction rule: list_all2_induct)
  case (Cons m ms P Ps)
  show ?case unfolding computes_def
  proof (intro allI impI)
    fix e st assume e: "e \<in> A \<and> caches_ok doc D B st \<and> outermostContext st = oc"
    obtain st1 where 1: "m e ctx xml st = (P e, st1)" "caches_ok doc D B st1" "grows {} B st st1" "outermostContext st1 = oc"
      by (rule computesD [OF Cons(1), of e st]) (use e in auto)
    obtain st2 where "any_matcher ms e ctx xml st1 = (\<exists>P \<in> set Ps. P e, st2)" "caches_ok doc D B st2" "grows {} B st1 st2"
      by (rule computesD [OF Cons(3), of e st1]) (use e 1 in auto)
    then show "fst (any_matcher (m # ms) e ctx xml st) = (\<exists>P \<in> set (P # Ps). P e) \<and>
        caches_ok doc D B (snd (any_matcher (m # ms) e ctx xml st)) \<and> grows {} B st (snd (any_matcher (m # ms) e ctx xml st))"
      using 1 grows_trans by auto
  qed
qed (simp add: computes_def)

section \<open>Walks\<close>

text \<open>What the walks decide: the nearest visited node, or some visited node that is not skipped.\<close>

definition nearest :: "(path \<Rightarrow> bool) \<Rightarrow> (path \<Rightarrow> bool) \<Rightarrow> path list \<Rightarrow> bool" where
  "nearest visit P fs = (case filter visit fs of f # _ \<Rightarrow> P f | [] \<Rightarrow> False)"

fun some_visited :: "(path \<Rightarrow> bool) \<Rightarrow> (path \<Rightarrow> bool) \<Rightarrow> (path \<Rightarrow> bool) \<Rightarrow> path list \<Rightarrow> bool" where
  "some_visited visit skip P [] \<longleftrightarrow> False"
| "some_visited visit skip P (f # fs) \<longleftrightarrow>
     (if visit f then if skip f then some_visited visit skip P (tl fs) else P f \<or> some_visited visit skip P fs
      else some_visited visit skip P fs)"

lemma some_visited_no_skip: "some_visited visit (\<lambda>_. False) P fs \<longleftrightarrow> (\<exists>f \<in> set fs. visit f \<and> P f)"
  by (induction fs) auto

lemma computes_first_walk:
  assumes "computes doc D oc ctx xml B {f. is_element doc f \<or> nonEl} m P" "caches_ok doc D B st" "outermostContext st = oc"
  shows "fst (first_walk doc nonEl m ctx xml fs st) = nearest (\<lambda>f. is_element doc f \<or> nonEl) P fs \<and>
     caches_ok doc D B (snd (first_walk doc nonEl m ctx xml fs st)) \<and> grows {} B st (snd (first_walk doc nonEl m ctx xml fs st))"
  using assms by (induction fs) (auto simp: nearest_def computes_def)

lemma computes_plain_walk:
  assumes "computes doc D oc ctx xml B {f. is_element doc f \<or> nonEl} m P" "caches_ok doc D B st" "outermostContext st = oc"
  shows "fst (plain_walk doc nonEl m ctx xml fs st) = some_visited (\<lambda>f. is_element doc f \<or> nonEl) (\<lambda>_. False) P fs \<and>
     caches_ok doc D B (snd (plain_walk doc nonEl m ctx xml fs st)) \<and> grows {} B st (snd (plain_walk doc nonEl m ctx xml fs st))"
  using assms(2,3)
proof (induction fs arbitrary: st)
  case (Cons f fs)
  show ?case
  proof (cases "is_element doc f \<or> nonEl")
    case True
    obtain st1 where 1: "m f ctx xml st = (P f, st1)" "caches_ok doc D B st1" "grows {} B st st1" "outermostContext st1 = oc"
      by (rule computesD [OF assms(1), of f st]) (use True Cons.prems in auto)
    show ?thesis using Cons.IH [OF 1(2,4)] 1 True grows_trans by auto
  qed (use Cons in auto)
qed simp

text \<open>The rest of a walk from a node is the walk that starts at the node.\<close>

fun chained :: "dnode \<Rightarrow> direction \<Rightarrow> path list \<Rightarrow> bool" where
  "chained doc dir [] \<longleftrightarrow> True"
| "chained doc dir (f # fs) \<longleftrightarrow> fs = dir_chain doc dir f \<and> chained doc dir fs"

lemma chained_dir_chain: "chained doc dir (dir_chain doc dir e)"
proof (induction "dir_chain doc dir e" arbitrary: e)
  case (Cons f fs)
  then have "dir_chain doc dir e = f # dir_chain doc dir f" using dir_chain_ConsD [of doc dir e f fs] by simp
  then show ?case using Cons by simp
qed (metis chained.simps(1))

lemma chained_tl: "chained doc dir fs \<Longrightarrow> chained doc dir (tl fs)"
  by (cases fs) auto

text \<open>In the midst of a walk: the cell of this walk hangs on nodes whose decision is that of the rest of the walk.\<close>

definition walking :: "dnode \<Rightarrow> (nat \<Rightarrow> path \<Rightarrow> bool) \<Rightarrow> nat set \<Rightarrow> nat \<Rightarrow> nat \<Rightarrow> bool \<Rightarrow> sizzle_state \<Rightarrow> bool" where
  "walking doc D B d nc rest st \<longleftrightarrow> caches_ok doc D B st \<and>
     nc < length (cells st) \<and> cell_run (cells st ! nc) = dirruns st \<and> cell_done (cells st ! nc) = d \<and>
     (\<forall>e k. comb_cache st (e, k) = Some nc \<longrightarrow> D d e = rest) \<and>
     (\<forall>e k c. comb_cache st (e, k) = Some c \<and> c \<noteq> nc \<and> cell_run (cells st ! c) = dirruns st \<and> cell_done (cells st ! c) = d \<longrightarrow>
        cell_result (cells st ! c) = Some (D d e))"

definition unmatched :: "nat \<Rightarrow> sizzle_state \<Rightarrow> bool" where
  "unmatched nc st \<longleftrightarrow> (\<forall>ek. comb_cache st ek = Some nc \<longrightarrow> cell_result (cells st ! nc) = Some False)"

lemma set_result_simps [simp]:
  "dirruns (set_result nc r st) = dirruns st" "outermostContext (set_result nc r st) = outermostContext st"
  "length (cells (set_result nc r st)) = length (cells st)" "comb_cache (set_result nc r st) = comb_cache st"
  "nth_cache (set_result nc r st) = nth_cache st"
  "i < length (cells st) \<Longrightarrow> cell_run (cells (set_result nc r st) ! i) = cell_run (cells st ! i)"
  "i < length (cells st) \<Longrightarrow> cell_done (cells (set_result nc r st) ! i) = cell_done (cells st ! i)"
  "i < length (cells st) \<Longrightarrow> cell_result (cells (set_result nc r st) ! i) = (if i = nc then r else cell_result (cells st ! i))"
  by (cases "nc < length (cells st)"; simp add: set_result_def nth_list_update list_update_beyond)+

lemma set_result_other: "i \<noteq> nc \<Longrightarrow> cells (set_result nc r st) ! i = cells st ! i"
  by (simp add: set_result_def)

lemma grows_set_result: "nc \<in> X \<Longrightarrow> grows X B st (set_result nc r st)"
  by (auto simp: grows_def intro: set_result_other)

lemma runs_past_set_result: "runs_past st \<Longrightarrow> runs_past (set_result nc r st)"
  unfolding runs_past_def all_set_conv_all_nth by simp

lemma nth_valid_cong: "nth_valid doc st \<Longrightarrow> dirruns st' = dirruns st \<Longrightarrow> nth_cache st' = nth_cache st \<Longrightarrow> nth_valid doc st'"
  by (simp add: nth_valid_def)

lemma caches_ok_entry: "caches_ok doc D B st \<Longrightarrow> comb_cache st (e, k) = Some c \<Longrightarrow> c < length (cells st)"
  by (simp add: caches_ok_def runs_past_def)

lemma caches_ok_result:
  "caches_ok doc D B st \<Longrightarrow> comb_cache st (e, k) = Some c \<Longrightarrow> cell_run (cells st ! c) = dirruns st \<Longrightarrow> cell_done (cells st ! c) \<in> B \<Longrightarrow>
   cell_result (cells st ! c) = Some (D (cell_done (cells st ! c)) e)"
  by (simp add: caches_ok_def)

text \<open>The end of a walk: the decision goes into the cell.\<close>

lemma walking_end:
  assumes "walking doc D B d nc rest st" "d \<notin> B"
  shows "caches_ok doc D (insert d B) (set_result nc (Some rest) st)"
  unfolding caches_ok_def
proof (intro conjI allI impI)
  note ok = assms(1) [unfolded walking_def, THEN conjunct1]
  show "runs_past (set_result nc (Some rest) st)" using ok runs_past_set_result by (auto simp: caches_ok_def)
  show "nth_valid doc (set_result nc (Some rest) st)" using ok by (auto simp: caches_ok_def intro: nth_valid_cong)
  fix e k c
  assume a: "comb_cache (set_result nc (Some rest) st) (e, k) = Some c \<and>
     cell_run (cells (set_result nc (Some rest) st) ! c) = dirruns (set_result nc (Some rest) st) \<and>
     cell_done (cells (set_result nc (Some rest) st) ! c) \<in> insert d B"
  then have c: "comb_cache st (e, k) = Some c" "c < length (cells st)" using caches_ok_entry [OF ok] by auto
  then show "cell_result (cells (set_result nc (Some rest) st) ! c) = Some (D (cell_done (cells (set_result nc (Some rest) st) ! c)) e)"
    using a assms caches_ok_result [OF ok c(1)] by (auto simp: walking_def)
qed

lemma walking_end_unmatched:
  assumes "walking doc D B d nc False st" "unmatched nc st" "d \<notin> B"
  shows "caches_ok doc D (insert d B) st"
proof -
  note ok = assms(1) [unfolded walking_def, THEN conjunct1]
  have "cell_result (cells st ! c) = Some (D (cell_done (cells st ! c)) e)"
    if "comb_cache st (e, k) = Some c" "cell_run (cells st ! c) = dirruns st" "cell_done (cells st ! c) \<in> insert d B" for e k c
    using that assms caches_ok_result [OF ok that(1,2)] by (cases "c = nc") (auto simp: walking_def unmatched_def)
  then show ?thesis using ok by (auto simp: caches_ok_def)
qed

lemma put_cell_simps [simp]:
  "dirruns (put_cell f key nc st) = dirruns st" "outermostContext (put_cell f key nc st) = outermostContext st"
  "cells (put_cell f key nc st) = cells st" "nth_cache (put_cell f key nc st) = nth_cache st"
  "comb_cache (put_cell f key nc st) = (comb_cache st)((f, key) \<mapsto> nc)"
  by (simp_all add: put_cell_def)

lemma walking_put:
  assumes "walking doc D B d nc rest st" "d \<notin> B" "D d f = rest"
  shows "walking doc D B d nc rest (put_cell f key nc st)"
proof -
  note ok = assms(1) [unfolded walking_def, THEN conjunct1]
  have "caches_ok doc D B (put_cell f key nc st)"
    using ok assms(1,2) by (auto simp: caches_ok_def runs_past_def walking_def intro: nth_valid_cong)
  then show ?thesis using assms(1,3) by (auto simp: walking_def)
qed

lemma walking_inner:
  assumes "walking doc D B d nc rest st" "d \<notin> B" "grows {} B st st'" "caches_ok doc D B st'"
  shows "walking doc D B d nc rest st'"
  unfolding walking_def
proof (intro conjI allI impI)
  have nc: "nc < length (cells st)" using assms(1) by (simp add: walking_def)
  note cell = grows_cell [OF assms(3), simplified] and entry = grows_entry [OF assms(3), simplified] and run = grows_run [OF assms(3)]
  show "nc < length (cells st')" using nc run by simp
  show "cell_run (cells st' ! nc) = dirruns st'" "cell_done (cells st' ! nc) = d"
    using assms(1) cell [OF nc] run by (auto simp: walking_def)
  fix e k
  show "D d e = rest" if "comb_cache st' (e, k) = Some nc"
    using entry [OF that nc] assms(1) unfolding walking_def by blast
  fix c
  assume c: "comb_cache st' (e, k) = Some c \<and> c \<noteq> nc \<and> cell_run (cells st' ! c) = dirruns st' \<and> cell_done (cells st' ! c) = d"
  then have old: "c < length (cells st)"
    using grows_new [OF assms(3)] caches_ok_entry [OF assms(4)] assms(2) by auto
  then show "cell_result (cells st' ! c) = Some (D d e)"
    using c assms(1) cell [OF old] entry [of "(e, k)" c] run by (auto simp: walking_def)
qed (rule assms(4))

lemma walking_result:
  assumes "walking doc D B d nc rest st" "d \<notin> B"
  shows "walking doc D B d nc rest (set_result nc r st)"
  unfolding walking_def
proof (intro conjI allI impI)
  note ok = assms(1) [unfolded walking_def, THEN conjunct1]
  have other: "c \<noteq> nc" if "comb_cache st (e, k) = Some c" "cell_done (cells st ! c) \<in> B" for e k c
    using that assms by (auto simp: walking_def)
  show "caches_ok doc D B (set_result nc r st)"
    unfolding caches_ok_def
  proof (intro conjI allI impI)
    show "runs_past (set_result nc r st)" using ok runs_past_set_result by (auto simp: caches_ok_def)
    show "nth_valid doc (set_result nc r st)" using ok by (auto simp: caches_ok_def intro: nth_valid_cong)
    fix e k c
    assume "comb_cache (set_result nc r st) (e, k) = Some c \<and> cell_run (cells (set_result nc r st) ! c) = dirruns (set_result nc r st) \<and>
       cell_done (cells (set_result nc r st) ! c) \<in> B"
    then show "cell_result (cells (set_result nc r st) ! c) = Some (D (cell_done (cells (set_result nc r st) ! c)) e)"
      using other [of e k c] caches_ok_entry [OF ok, of e k c] caches_ok_result [OF ok, of e k c] by auto
  qed
  show "nc < length (cells (set_result nc r st))" "cell_run (cells (set_result nc r st) ! nc) = dirruns (set_result nc r st)"
    "cell_done (cells (set_result nc r st) ! nc) = d"
    using assms(1) by (auto simp: walking_def)
  fix e k
  show "D d e = rest" if "comb_cache (set_result nc r st) (e, k) = Some nc" using that assms(1) by (auto simp: walking_def)
  fix c
  assume "comb_cache (set_result nc r st) (e, k) = Some c \<and> c \<noteq> nc \<and>
     cell_run (cells (set_result nc r st) ! c) = dirruns (set_result nc r st) \<and> cell_done (cells (set_result nc r st) ! c) = d"
  then show "cell_result (cells (set_result nc r st) ! c) = Some (D d e)"
    using assms(1) caches_ok_entry [OF ok, of e k c] by (auto simp: walking_def)
qed

lemma cache_hit_result:
  assumes "walking doc D B d nc rest st" "comb_cache st (f, key) \<noteq> Some nc" "cache_hit key d f st = Some r"
  shows "r = Some (D d f)"
proof -
  obtain c where "comb_cache st (f, key) = Some c" "cell_run (cells st ! c) = dirruns st" "cell_done (cells st ! c) = d" "r = cell_result (cells st ! c)"
    using assms(3) by (auto simp: cache_hit_def split: option.splits if_splits)
  then show ?thesis using assms(1,2) by (auto simp: walking_def)
qed

definition fresh_for :: "nat \<Rightarrow> path list \<Rightarrow> sizzle_state \<Rightarrow> bool" where
  "fresh_for nc fs st \<longleftrightarrow> (\<forall>f \<in> set fs. \<forall>k. comb_cache st (f, k) \<noteq> Some nc)"

lemma fresh_for_step:
  assumes "fresh_for nc (f # fs) st" "f \<notin> set fs" "nc < length (cells st)" "grows {} B (put_cell f key nc st) st'"
  shows "fresh_for nc fs (set_result nc r st')"
  unfolding fresh_for_def
proof (intro ballI allI)
  fix g k assume g: "g \<in> set fs"
  show "comb_cache (set_result nc r st') (g, k) \<noteq> Some nc"
    using grows_entry [OF assms(4), of "(g, k)" nc] assms(1-3) g by (auto simp: fresh_for_def split: if_splits)
qed

text \<open>What a walk leaves behind.\<close>

definition walk_done :: "dnode \<Rightarrow> (nat \<Rightarrow> path \<Rightarrow> bool) \<Rightarrow> nat set \<Rightarrow> nat \<Rightarrow> nat \<Rightarrow> sizzle_state \<Rightarrow> bool \<Rightarrow> bool \<times> sizzle_state \<Rightarrow> bool" where
  "walk_done doc D B d nc st rest res \<longleftrightarrow> fst res = rest \<and> caches_ok doc D (insert d B) (snd res) \<and> grows {nc} B st (snd res)"

text \<open>A node that is visited for the first time: the cell goes onto it and the inner matcher decides.\<close>

lemma walking_visit:
  assumes inner: "computes doc D oc ctx xml B A m P" and d: "d \<notin> B"
    and st: "walking doc D B d nc rest st" "outermostContext st = oc" and f: "f \<in> A" "D d f = rest"
  obtains st1 where "m f ctx xml (put_cell f key nc st) = (P f, st1)" "grows {} B (put_cell f key nc st) st1"
    "walking doc D B d nc rest (set_result nc r st1)" "caches_ok doc D (insert d B) (set_result nc (Some rest) st1)"
    "grows {nc} B st (set_result nc r st1)" "outermostContext st1 = oc" "nc < length (cells st1)"
proof -
  note put = walking_put [OF st(1) d f(2), of key]
  obtain st1 where 1: "m f ctx xml (put_cell f key nc st) = (P f, st1)" "caches_ok doc D B st1"
      "grows {} B (put_cell f key nc st) st1" "outermostContext st1 = oc"
    by (rule computesD [OF inner, of f "put_cell f key nc st"]) (use put f(1) st(2) in \<open>auto simp: walking_def\<close>)
  have w1: "walking doc D B d nc rest st1" by (rule walking_inner [OF put d 1(3,2)])
  have "grows {nc} B st (put_cell f key nc st)" by (auto simp: grows_def)
  then have "grows {nc} B st (set_result nc r st1)"
    using grows_trans grows_mono [OF 1(3)] grows_set_result [of nc "{nc}" B st1] by (meson empty_subsetI insertI1 order_refl)
  then show ?thesis using that 1 w1 walking_end [OF w1 d] walking_result [OF w1 d] by (auto simp: walking_def)
qed

lemma computes_cached_walk:
  fixes nonEl skip doc
  defines "visit \<equiv> \<lambda>f. is_element doc f \<or> nonEl" and "skips \<equiv> \<lambda>f. skip = Some (nodeName doc f)"
  assumes inner: "computes doc D oc ctx xml B {f. is_element doc f \<or> nonEl} m P" and d: "d \<notin> B"
    and D: "\<And>f. visit f \<Longrightarrow> \<not> skips f \<Longrightarrow> D d f = (P f \<or> some_visited visit skips P (dir_chain doc dir f))"
  shows "chained doc dir fs \<Longrightarrow> walking doc D B d nc (some_visited visit skips P fs) st \<Longrightarrow> unmatched nc st \<Longrightarrow>
     outermostContext st = oc \<Longrightarrow> fresh_for nc fs st \<Longrightarrow>
     walk_done doc D B d nc st (some_visited visit skips P fs) (cached_walk doc nonEl skip key d nc m ctx xml fs st)"
proof (induction "length fs" arbitrary: fs st rule: less_induct)
  case less
  note walking = less.prems(2)
  show ?case
  proof (cases fs)
    case Nil
    then show ?thesis using walking_end_unmatched [OF _ less.prems(3) d] walking by (simp add: walk_done_def)
  next
    case (Cons f gs)
    have gs: "gs = dir_chain doc dir f" "chained doc dir gs" "f \<notin> set gs"
      using less.prems(1) Cons dir_chain_fresh by auto
    have fresh: "fresh_for nc gs st" "fresh_for nc (tl gs) st" "comb_cache st (f, key) \<noteq> Some nc"
      using less.prems(5) Cons by (auto simp: fresh_for_def) (metis list.sel(2) list.set_sel(2))
    consider "\<not> visit f" | "visit f" "skips f" | "visit f" "\<not> skips f" by blast
    then show ?thesis
    proof cases
      case 3
      have Df: "D d f = some_visited visit skips P fs" using D [OF 3] Cons gs(1) 3 by simp
      obtain st1 where 1: "m f ctx xml (put_cell f key nc st) = (P f, st1)" "grows {} B (put_cell f key nc st) st1"
          "walking doc D B d nc (some_visited visit skips P fs) (set_result nc (Some (P f)) st1)"
          "caches_ok doc D (insert d B) (set_result nc (Some (some_visited visit skips P fs)) st1)"
          "grows {nc} B st (set_result nc (Some (P f)) st1)" "outermostContext st1 = oc" "nc < length (cells st1)"
        by (rule walking_visit [OF inner d walking less.prems(4)]) (use 3(1) Df in \<open>auto simp: visit_def\<close>)
      have "walk_done doc D B d nc (set_result nc (Some False) st1) (some_visited visit skips P gs)
          (cached_walk doc nonEl skip key d nc m ctx xml gs (set_result nc (Some False) st1))" if "\<not> P f"
      proof (rule less.hyps)
        show "fresh_for nc gs (set_result nc (Some False) st1)"
          by (rule fresh_for_step [OF _ gs(3) _ 1(2)]) (use less.prems(5) Cons walking in \<open>simp_all add: walking_def\<close>)
      qed (use that 1 3 Cons gs(2) in \<open>auto simp: unmatched_def\<close>)
      then show ?thesis using cache_hit_result [OF walking fresh(3)] walking_end [OF walking d] grows_set_result [of nc "{nc}" B st] 1 3 Cons Df
        by (auto simp: walk_done_def visit_def skips_def split: option.split intro: grows_trans)
    qed (use less.hyps [of gs st] less.hyps [of "tl gs" st] less.prems fresh gs Cons chained_tl in \<open>simp_all add: visit_def skips_def\<close>)
  qed
qed

section \<open>Combinators\<close>

definition comb_visits :: "dnode \<Rightarrow> combinator \<Rightarrow> bool \<Rightarrow> path \<Rightarrow> bool" where
  "comb_visits doc comb base f \<longleftrightarrow> is_element doc f \<or> base \<and> comb_key comb = DirKey ParentNode"

definition comb_skips :: "dnode \<Rightarrow> combinator \<Rightarrow> bool \<Rightarrow> path \<Rightarrow> bool" where
  "comb_skips doc comb xml f \<longleftrightarrow> \<not> xml \<and> comb_next comb = Some (nodeName doc f)"

definition comb_meaning :: "dnode \<Rightarrow> combinator \<Rightarrow> bool \<Rightarrow> bool \<Rightarrow> (path \<Rightarrow> bool) \<Rightarrow> path \<Rightarrow> bool" where
  "comb_meaning doc comb base xml P e =
     (if comb_first comb then nearest (comb_visits doc comb base) P (dir_chain doc (comb_dir comb) e)
      else some_visited (comb_visits doc comb base) (comb_skips doc comb xml) P (dir_chain doc (comb_dir comb) e))"

lemma walking_new_cell:
  assumes "caches_ok doc D (insert d B) st" "d \<notin> B"
  shows "walking doc D B d (length (cells st)) rest (new_cell d st)" "unmatched (length (cells st)) (new_cell d st)"
    "fresh_for (length (cells st)) fs (new_cell d st)" "grows {} (insert d B) st (new_cell d st)"
proof -
  have old: "comb_cache st (e, k) \<noteq> Some (length (cells st))" "comb_cache st (e, k) = Some c \<Longrightarrow> c < length (cells st)" for e k c
    using caches_ok_entry [OF assms(1)] by auto
  have "nth_valid doc (new_cell d st)" using assms(1) by (auto simp: caches_ok_def new_cell_def intro: nth_valid_cong)
  moreover have "runs_past (new_cell d st)" using assms(1) old by (auto simp: caches_ok_def runs_past_def new_cell_def intro: less_SucI)
  ultimately have "caches_ok doc D B (new_cell d st)"
    using assms(1) old by (auto simp: caches_ok_def new_cell_def nth_append)
  then show "walking doc D B d (length (cells st)) rest (new_cell d st)"
    using assms(1) old by (auto simp: walking_def new_cell_def nth_append caches_ok_def)
  show "unmatched (length (cells st)) (new_cell d st)" "fresh_for (length (cells st)) fs (new_cell d st)"
    using old by (auto simp: unmatched_def fresh_for_def new_cell_def)
  show "grows {} (insert d B) st (new_cell d st)" by (auto simp: grows_def new_cell_def nth_append less_Suc_eq)
qed

lemma grows_cut: "grows {} C st st1 \<Longrightarrow> grows {length (cells st)} B st1 st2 \<Longrightarrow> B \<subseteq> C \<Longrightarrow> grows {} C st st2"
  unfolding grows_def by (smt (verit, best) empty_iff in_mono le_trans nat_less_le not_le order_less_le_trans singletonD)

lemma computes_addCombinator:
  assumes inner: "computes doc D oc ctx xml B {f. comb_visits doc comb base f} m P" and d: "d \<notin> B"
    and D: "\<And>f. D d f = (P f \<or> some_visited (comb_visits doc comb base) (comb_skips doc comb xml) P (dir_chain doc (comb_dir comb) f))"
  shows "computes doc D oc ctx xml (insert d B) UNIV (addCombinator doc m comb base d) (comb_meaning doc comb base xml P)"
  unfolding computes_def
proof (intro allI impI)
  fix e :: path and st assume e: "e \<in> UNIV \<and> caches_ok doc D (insert d B) st \<and> outermostContext st = oc"
  let ?nonEl = "base \<and> comb_key comb = DirKey ParentNode" and ?fs = "dir_chain doc (comb_dir comb) e"
  let ?res = "addCombinator doc m comb base d e ctx xml st"
  have visits: "comb_visits doc comb base = (\<lambda>f. is_element doc f \<or> ?nonEl)" by (simp add: comb_visits_def fun_eq_iff)
  note inner' = inner [unfolded visits] and weak = computes_mono [OF inner subset_insertI [of B d], unfolded visits]
  show "fst ?res = comb_meaning doc comb base xml P e \<and> caches_ok doc D (insert d B) (snd ?res) \<and> grows {} (insert d B) st (snd ?res)"
  proof (cases "comb_first comb \<or> xml")
    case True
    then show ?thesis using computes_first_walk [OF weak, of st ?fs] computes_plain_walk [OF weak, of st ?fs] e
      by (auto simp: addCombinator_def comb_meaning_def comb_skips_def [abs_def] visits Let_def)
  next
    case False
    note new = walking_new_cell [OF e [THEN conjunct2, THEN conjunct1] d]
    have "comb_skips doc comb xml = (\<lambda>f. comb_next comb = Some (nodeName doc f))" using False by (simp add: comb_skips_def fun_eq_iff)
    then have "walk_done doc D B d (length (cells st)) (new_cell d st) (comb_meaning doc comb base xml P e) ?res"
      using computes_cached_walk [OF inner' d _ chained_dir_chain new(1,2) _ new(3)] False D e
      by (simp add: addCombinator_def comb_meaning_def visits Let_def new_cell_def)
    then show ?thesis using grows_cut [OF new(4)] by (auto simp: walk_done_def)
  qed
qed

end
