(* ===== verification/SizzleSelect.thy ===== *)
theory SizzleSelect
  imports SizzleCache
begin

text \<open>
  What selectors mean, and that the compiled matchers of SizzleMatch select what they mean: from the elements of a document,
  in document order, those that some group of the selector describes.
\<close>

section \<open>Meaning\<close>

text \<open>Documents: only elements and the root have children.\<close>

fun inner_ok :: "dnode \<Rightarrow> bool" where
  "inner_ok (DNode t nm at v cs) \<longleftrightarrow> (cs = [] \<or> t = 1) \<and> (\<forall>c \<in> set cs. inner_ok c)"

definition doc_ok :: "dnode \<Rightarrow> bool" where
  "doc_ok doc \<longleftrightarrow> (\<forall>c \<in> set (child_nodes doc). inner_ok c)"

text \<open>The nodes that stand in a relation to a node: parent, ancestors, the sibling just before, all siblings before.\<close>

fun relatives :: "(path \<Rightarrow> bool) \<Rightarrow> (path \<Rightarrow> bool) \<Rightarrow> relation \<Rightarrow> path \<Rightarrow> path set" where
  "relatives up side RelChild e = {p. up p \<and> (\<exists>i. e = i # p)}"
| "relatives up side RelDescendant e = {f. up f \<and> strict_suffix f e}"
| "relatives up side RelSibling e = {f. side f \<and> (\<exists>i j p. e = i # p \<and> f = j # p \<and> j < i)}"
| "relatives up side RelAdjacent e = {f. side f \<and> (\<exists>i j p. e = i # p \<and> f = j # p \<and> j < i \<and> (\<forall>k. j < k \<and> k < i \<longrightarrow> \<not> side (k # p)))}"

definition related :: "dnode \<Rightarrow> relation \<Rightarrow> path \<Rightarrow> path set" where
  "related doc = relatives (is_element doc) (is_element doc)"

text \<open>The context may be a node that is not an element.\<close>

definition base_related :: "dnode \<Rightarrow> relation \<Rightarrow> path \<Rightarrow> path set" where
  "base_related doc = relatives (\<lambda>_. True) (is_element doc)"

definition context_nodes :: "search_context \<Rightarrow> path set" where
  "context_nodes ctx = (case ctx of CtxNode c \<Rightarrow> {c} | CtxNodes cs \<Rightarrow> set cs)"

definition in_context :: "dnode \<Rightarrow> outer_context \<Rightarrow> search_context \<Rightarrow> bool \<Rightarrow> relation option \<Rightarrow> path \<Rightarrow> bool" where
  "in_context doc oc ctx xml leading e \<longleftrightarrow>
     leading = None \<and> (xml \<or> OuterCtx ctx \<noteq> oc) \<or>
     context_nodes ctx \<inter> base_related doc (case leading of Some r \<Rightarrow> r | None \<Rightarrow> RelDescendant) e \<noteq> {}"

definition filter_holds :: "dnode \<Rightarrow> custom_pseudos \<Rightarrow> bool \<Rightarrow> filter_token \<Rightarrow> path \<Rightarrow> bool" where
  "filter_holds doc custom xml t e =
     (case t of
        TTag s \<Rightarrow> filter_TAG doc s e
      | TId s \<Rightarrow> filter_ID doc xml s e
      | TClass s \<Rightarrow> filter_CLASS doc xml s e
      | TAttr name operator v \<Rightarrow> filter_ATTR doc xml name operator v e
      | TChild ty ofType a b \<Rightarrow> child_spec doc ty ofType a b e
      | TPseudo ps \<Rightarrow> pseudo_test doc custom ps xml e)"

text \<open>From left to right, the elements that the tokens so far lead to.\<close>

fun tokens_hold :: "dnode \<Rightarrow> custom_pseudos \<Rightarrow> bool \<Rightarrow> (path \<Rightarrow> bool) \<Rightarrow> selector_token list \<Rightarrow> path \<Rightarrow> bool" where
  "tokens_hold doc custom xml P [] = P"
| "tokens_hold doc custom xml P (Relative r # toks) = tokens_hold doc custom xml (\<lambda>e. \<exists>f \<in> related doc r e. P f) toks"
| "tokens_hold doc custom xml P (Filter t # toks) = tokens_hold doc custom xml (\<lambda>e. P e \<and> filter_holds doc custom xml t e) toks"

definition selects :: "dnode \<Rightarrow> custom_pseudos \<Rightarrow> outer_context \<Rightarrow> search_context \<Rightarrow> bool \<Rightarrow> selector_token list \<Rightarrow> path \<Rightarrow> bool" where
  "selects doc custom oc ctx xml toks =
     (let leading = leading_relative toks in
      tokens_hold doc custom xml (in_context doc oc ctx xml leading) (if leading = None then toks else tl toks))"

text \<open>\<open>:nth-last-child\<close> in HTML is not among the tokens.\<close>

definition no_cached_last :: "bool \<Rightarrow> selector_token list \<Rightarrow> bool" where
  "no_cached_last xml toks \<longleftrightarrow> (\<forall>ofType a b. Filter (TChild CNthLast ofType a b) \<in> set toks \<longrightarrow> xml \<or> ofType)"

section \<open>Relations and walks\<close>

lemma inner_ok_child: "inner_ok n \<Longrightarrow> c \<in> set (child_nodes n) \<Longrightarrow> inner_ok c \<and> node_type n = 1"
  by (cases n) auto

lemma doc_ok_inner: "doc_ok doc \<Longrightarrow> p \<noteq> [] \<Longrightarrow> node_at doc p = Some n \<Longrightarrow> inner_ok n"
proof (induction p arbitrary: n)
  case (Cons i p)
  then obtain q where q: "node_at doc p = Some q" "i < length (child_nodes q)" "n = child_nodes q ! i"
    by (auto split: option.splits if_splits)
  then have c: "n \<in> set (child_nodes q)" by simp
  show ?case
  proof (cases "p = []")
    case True
    then show ?thesis using q c Cons.prems(1) by (auto simp: doc_ok_def)
  next
    case False
    then show ?thesis using Cons.IH [OF Cons.prems(1) False q(1)] inner_ok_child [OF _ c] by blast
  qed
qed simp

lemma parent_element:
  assumes "doc_ok doc" "is_element doc (i # p)" "p \<noteq> []"
  shows "is_element doc p"
proof -
  obtain q where q: "node_at doc p = Some q" "i < length (child_nodes q)"
    using assms(2) by (auto simp: is_element_def split: option.splits if_splits)
  then have "child_nodes q ! i \<in> set (child_nodes q)" by simp
  then show ?thesis using inner_ok_child [OF doc_ok_inner [OF assms(1,3) q(1)]] q(1) by (simp add: is_element_def)
qed

lemma nearest_parent:
  assumes "is_element doc e" "doc_ok doc \<or> base"
  shows "nearest (\<lambda>f. is_element doc f \<or> base) P (dir_chain doc ParentNode e) \<longleftrightarrow>
     (\<exists>f \<in> relatives (\<lambda>f. is_element doc f \<or> base) side RelChild e. P f)"
proof (cases e)
  case Nil
  then show ?thesis by (subst dir_chain.simps) (simp add: nearest_def)
next
  case (Cons i p)
  have chain: "dir_chain doc ParentNode (i # p) = p # dir_chain doc ParentNode p" by (subst dir_chain.simps) simp
  show ?thesis
  proof (cases "is_element doc p \<or> base")
    case True
    then show ?thesis using Cons by (auto simp: chain nearest_def)
  next
    case False
    then have "p = []" using parent_element assms Cons by blast
    then have "dir_chain doc ParentNode p = []" by (subst dir_chain.simps) simp
    then show ?thesis using False Cons by (simp add: chain nearest_def)
  qed
qed

lemma nearest_previous:
  "nearest side P (dir_chain doc PreviousSibling e) \<longleftrightarrow> (\<exists>f \<in> relatives up side RelAdjacent e. P f)"
proof (cases e)
  case Nil
  then show ?thesis by (subst dir_chain.simps) (simp add: nearest_def)
next
  case (Cons i p)
  have "nearest side P (map (\<lambda>j. j # p) (rev [0..<i])) \<longleftrightarrow>
     (\<exists>j < i. side (j # p) \<and> (\<forall>k. j < k \<and> k < i \<longrightarrow> \<not> side (k # p)) \<and> P (j # p))"
  proof (induction i)
    case (Suc i)
    show ?case
    proof (cases "side (i # p)")
      case True
      then show ?thesis by (auto simp: nearest_def less_Suc_eq)
    next
      case False
      then have "nearest side P (map (\<lambda>j. j # p) (rev [0..<Suc i])) = nearest side P (map (\<lambda>j. j # p) (rev [0..<i]))"
        by (simp add: nearest_def)
      then show ?thesis using Suc False by (auto simp: less_Suc_eq)
    qed
  qed (simp add: nearest_def)
  then show ?thesis using Cons by (auto simp: dir_chain_previous)
qed

lemma relative_meaning:
  assumes "is_element doc e" "doc_ok doc \<or> base"
  shows "comb_meaning doc (relative r) base xml P e \<longleftrightarrow>
     (\<exists>f \<in> relatives (\<lambda>f. is_element doc f \<or> base) (is_element doc) r e. P f)"
proof -
  have skips: "comb_skips doc (relative r) xml = (\<lambda>_. False)" by (auto simp: comb_skips_def relative_def fun_eq_iff split: relation.splits)
  have visits: "comb_visits doc (relative r) base = (\<lambda>f. is_element doc f \<or> base \<and> comb_dir (relative r) = ParentNode)"
    by (auto simp: comb_visits_def comb_key_def relative_def fun_eq_iff split: relation.splits)
  have meaning: "comb_meaning doc (relative r) base xml P e =
     (if comb_first (relative r)
      then nearest (\<lambda>f. is_element doc f \<or> base \<and> comb_dir (relative r) = ParentNode) P (dir_chain doc (comb_dir (relative r)) e)
      else \<exists>f \<in> set (dir_chain doc (comb_dir (relative r)) e). (is_element doc f \<or> base \<and> comb_dir (relative r) = ParentNode) \<and> P f)"
    unfolding comb_meaning_def visits skips by (simp add: some_visited_no_skip)
  have previous: "set (dir_chain doc PreviousSibling e) = {f. \<exists>i j p. e = i # p \<and> f = j # p \<and> j < i}"
    by (cases e) (simp add: dir_chain.simps [of doc PreviousSibling "[]"], auto simp: dir_chain_previous)
  show ?thesis unfolding meaning
    using nearest_parent [OF assms, of P "is_element doc"] nearest_previous [of "is_element doc" P doc e]
    by (cases r) (auto simp: relative_def dir_chain_parent previous)
qed

section \<open>Compiled selectors compute their meaning\<close>

abbreviation "elements doc \<equiv> {e. is_element doc e}"

lemma computes_cong:
  assumes "computes doc D oc ctx xml B A m P" "\<And>d. d \<in> B \<Longrightarrow> D' d = D d" "\<And>e. e \<in> A \<Longrightarrow> Q e = P e"
  shows "computes doc D' oc ctx xml B A m Q"
proof -
  have "caches_ok doc D' B = caches_ok doc D B" using assms(2) by (auto simp: caches_ok_def fun_eq_iff)
  then show ?thesis using assms(1,3) by (simp add: computes_def)
qed

lemma computes_sub: "computes doc D oc ctx xml B A m P \<Longrightarrow> A' \<subseteq> A \<Longrightarrow> computes doc D oc ctx xml B A' m P"
  unfolding computes_def by blast

lemma caches_ok_nth:
  assumes "caches_ok doc D B st" "same_caches st st'" "nth_valid doc st'"
    and "\<And>p r i k. nth_cache st' p = Some (r, i, k) \<Longrightarrow> r \<le> dirruns st"
  shows "caches_ok doc D B st'"
  using assms by (auto simp: caches_ok_def same_caches_def runs_past_def)

lemma last_scan_nth [simp]: "nth_cache (snd (last_scan doc e k fs st)) = nth_cache st"
  by (induction doc e k fs st rule: last_scan.induct) (auto simp: Let_def)

lemma nth_backward_nth: "nth_backward doc e st = (k, st') \<Longrightarrow> nth_cache st' = nth_cache st"
  by (auto simp: nth_backward_def Let_def split: option.splits if_splits)

lemma filter_CHILD_runs:
  "nth_cache (snd (filter_CHILD doc xml ty ofType a b e st)) p = Some (r, i, k) \<Longrightarrow>
   r = dirruns st \<or> nth_cache st p = Some (r, i, k)"
  by (auto simp: filter_CHILD_def nth_forward_def dest: nth_backward_nth split: child_type.splits if_splits prod.splits option.splits)

lemma computes_filter:
  assumes "expr_filter doc custom t = Inr m" "\<And>ofType a b. t = TChild CNthLast ofType a b \<Longrightarrow> xml \<or> ofType"
  shows "computes doc D oc ctx xml B (elements doc) m (filter_holds doc custom xml t)"
proof (cases t)
  case (TChild ty ofType a b)
  have m: "m = (\<lambda>e ctx xml st. filter_CHILD doc xml ty ofType a b e st)" using assms(1) TChild by (simp add: expr_filter_def)
  show ?thesis unfolding computes_def
  proof (intro allI impI)
    fix e st assume e: "e \<in> elements doc \<and> caches_ok doc D B st \<and> outermostContext st = oc"
    let ?st' = "snd (m e ctx xml st)"
    have exact: "fst (m e ctx xml st) = child_spec doc ty ofType a b e" "nth_valid doc ?st'" "same_caches st ?st'"
      using filter_CHILD_exact [of doc st e ty xml ofType a b] e assms(2) TChild by (auto simp: m caches_ok_def)
    have "r \<le> dirruns st" if "nth_cache ?st' p = Some (r, i, k)" for p r i k
    proof -
      have past: "nth_cache st p = Some (r, i, k) \<Longrightarrow> r \<le> dirruns st" using e unfolding caches_ok_def runs_past_def by blast
      then show ?thesis using filter_CHILD_runs [of doc xml ty ofType a b e st p r i k] that by (auto simp: m)
    qed
    then show "fst (m e ctx xml st) = filter_holds doc custom xml t e \<and> caches_ok doc D B ?st' \<and> grows {} B st ?st'"
      using exact e caches_ok_nth grows_same_caches TChild by (auto simp: filter_holds_def)
  qed
qed (use assms(1) in \<open>auto simp: expr_filter_def filter_holds_def split: option.splits intro!: computes_pure\<close>)

text \<open>A combinator gets the next number, so that all inner numbers are smaller.\<close>

lemma computes_relative:
  assumes "computes doc D oc ctx xml {..<d} A m P" "elements doc \<subseteq> A" "base \<Longrightarrow> A = UNIV" "doc_ok doc \<or> base"
  obtains D' where "\<And>i. i < d \<Longrightarrow> D' i = D i"
    "computes doc D' oc ctx xml {..<Suc d} (elements doc) (addCombinator doc m (relative r) base d)
       (\<lambda>e. \<exists>f \<in> relatives (\<lambda>f. is_element doc f \<or> base) (is_element doc) r e. P f)"
proof
  let ?D = "D(d := \<lambda>f. P f \<or> some_visited (comb_visits doc (relative r) base) (comb_skips doc (relative r) xml) P (dir_chain doc (comb_dir (relative r)) f))"
  show "?D i = D i" if "i < d" for i using that by simp
  have visits: "{f. comb_visits doc (relative r) base f} \<subseteq> A" using assms(2,3) by (auto simp: comb_visits_def)
  have inner: "computes doc ?D oc ctx xml {..<d} {f. comb_visits doc (relative r) base f} m P"
    by (rule computes_cong [OF computes_sub [OF assms(1) visits]]) auto
  have "computes doc ?D oc ctx xml (insert d {..<d}) UNIV (addCombinator doc m (relative r) base d) (comb_meaning doc (relative r) base xml P)"
    by (rule computes_addCombinator [OF inner]) auto
  then show "computes doc ?D oc ctx xml {..<Suc d} (elements doc) (addCombinator doc m (relative r) base d)
       (\<lambda>e. \<exists>f \<in> relatives (\<lambda>f. is_element doc f \<or> base) (is_element doc) r e. P f)"
    unfolding lessThan_Suc by (rule computes_cong [OF computes_sub]) (use relative_meaning [OF _ assms(4)] in auto)
qed

lemma computes_list_mono:
  assumes "list_all2 (computes doc D oc ctx xml {..<d} A) ms Ps" "\<And>i. i < d \<Longrightarrow> D' i = D i" "d \<le> d'"
  shows "list_all2 (computes doc D' oc ctx xml {..<d'} A) ms Ps"
proof (rule list_all2_mono [OF assms(1)])
  fix m P assume m: "computes doc D oc ctx xml {..<d} A m P"
  have "computes doc D' oc ctx xml {..<d} A m P" by (rule computes_cong [OF m]) (use assms(2) in auto)
  then show "computes doc D' oc ctx xml {..<d'} A m P" by (rule computes_mono) (use assms(3) in auto)
qed

lemma no_cached_last_tl: "no_cached_last xml (t # toks) \<Longrightarrow> no_cached_last xml toks"
  unfolding no_cached_last_def by (meson list.set_intros(2))

lemma computes_tokens:
  "token_matchers doc custom d ms toks = Inr (ms', d') \<Longrightarrow> list_all2 (computes doc D oc ctx xml {..<d} (elements doc)) ms Ps \<Longrightarrow>
     ms \<noteq> [] \<Longrightarrow> no_cached_last xml toks \<Longrightarrow> doc_ok doc \<Longrightarrow>
     \<exists>D' Ps'. (\<forall>i < d. D' i = D i) \<and> d \<le> d' \<and> ms' \<noteq> [] \<and> list_all2 (computes doc D' oc ctx xml {..<d'} (elements doc)) ms' Ps' \<and>
       (\<lambda>e. \<forall>P \<in> set Ps'. P e) = tokens_hold doc custom xml (\<lambda>e. \<forall>P \<in> set Ps. P e) toks"
proof (induction doc custom d ms toks arbitrary: D Ps rule: token_matchers.induct)
  case (1 doc custom d ms)
  then show ?case by (intro exI [of _ D] exI [of _ Ps]) auto
next
  case (2 doc custom d ms r toks)
  let ?P = "\<lambda>e. \<forall>P \<in> set Ps. P e" and ?m = "addCombinator doc (elementMatcher ms) (relative r) False d"
  obtain D1 where D1: "\<And>i. i < d \<Longrightarrow> D1 i = D i"
    "computes doc D1 oc ctx xml {..<Suc d} (elements doc) ?m (\<lambda>e. \<exists>f \<in> related doc r e. ?P f)"
    by (rule computes_relative [OF computes_element [OF 2(3,4)], where base = False and r = r]) (use 2(6) in \<open>auto simp: related_def\<close>)
  then obtain D' Ps' where "\<forall>i < Suc d. D' i = D1 i" "Suc d \<le> d'" "ms' \<noteq> []" "list_all2 (computes doc D' oc ctx xml {..<d'} (elements doc)) ms' Ps'"
      "(\<lambda>e. \<forall>P \<in> set Ps'. P e) = tokens_hold doc custom xml (\<lambda>e. \<exists>f \<in> related doc r e. ?P f) toks"
    using 2(1) [of D1 "[\<lambda>e. \<exists>f \<in> related doc r e. ?P f]"] 2(2,6) no_cached_last_tl [OF 2(5)] by auto
  then show ?case using D1(1) by (intro exI [of _ D'] exI [of _ Ps']) simp
next
  case (3 doc custom d ms t toks)
  obtain m where m: "expr_filter doc custom t = Inr m" using 3(2) by (auto split: sum.splits)
  have "computes doc D oc ctx xml {..<d} (elements doc) m (filter_holds doc custom xml t)"
    by (rule computes_filter [OF m]) (use 3(5) in \<open>auto simp: no_cached_last_def\<close>)
  then have "list_all2 (computes doc D oc ctx xml {..<d} (elements doc)) (ms @ [m]) (Ps @ [filter_holds doc custom xml t])"
    using 3(3) by (simp add: list_all2_appendI)
  moreover have "(\<lambda>e. \<forall>P \<in> set (Ps @ [filter_holds doc custom xml t]). P e) = (\<lambda>e. (\<forall>P \<in> set Ps. P e) \<and> filter_holds doc custom xml t e)"
    by auto
  ultimately show ?case using 3(1) [OF m, of D "Ps @ [filter_holds doc custom xml t]"] 3(2,5,6) m no_cached_last_tl by simp
qed

text \<open>The matcher for the context has two combinators of its own.\<close>

lemma computes_context:
  obtains D' where "\<And>i. i < d \<Longrightarrow> D' i = D i"
    "computes doc D' oc ctx xml {..<d + 2} (elements doc) (context_matcher doc leading d) (in_context doc oc ctx xml leading)"
proof -
  define dd where "dd = (case ctx of CtxNode c \<Rightarrow> d | CtxNodes cs \<Rightarrow> Suc d)"
  define r where "r = (case leading of Some r \<Rightarrow> r | None \<Rightarrow> RelDescendant)"
  have nodes: "computes doc D oc ctx xml B UNIV (\<lambda>f _ _ st. (f \<in> context_nodes ctx, st)) (\<lambda>f. f \<in> context_nodes ctx)" for D B
    by (rule computes_pure) simp
  obtain D1 where D1: "\<And>i. i < dd \<Longrightarrow> D1 i = D i"
    "computes doc D1 oc ctx xml {..<Suc dd} (elements doc)
       (addCombinator doc (\<lambda>f _ _ st. (f \<in> context_nodes ctx, st)) (relative r) True dd)
       (\<lambda>e. \<exists>f \<in> base_related doc r e. f \<in> context_nodes ctx)"
    by (rule computes_relative [OF nodes [of D "{..<dd}"], where base = True and r = r]) (auto simp: base_related_def)
  have whole: "computes doc D1 oc ctx xml {..<d + 2} (elements doc)
       (addCombinator doc (\<lambda>f _ _ st. (f \<in> context_nodes ctx, st)) (relative r) True dd)
       (\<lambda>e. \<exists>f \<in> base_related doc r e. f \<in> context_nodes ctx)"
    by (rule computes_mono [OF D1(2)]) (auto simp: dd_def split: search_context.splits)
  have "context_matcher doc leading d e ctx xml st =
     (if leading = None \<and> (xml \<or> OuterCtx ctx \<noteq> outermostContext st) then (True, st)
      else addCombinator doc (\<lambda>f _ _ st. (f \<in> context_nodes ctx, st)) (relative r) True dd e ctx xml st)" for e st
    by (auto simp: context_matcher_def context_nodes_def r_def dd_def Let_def split: search_context.splits)
  moreover have "in_context doc oc ctx xml leading e \<longleftrightarrow>
     leading = None \<and> (xml \<or> OuterCtx ctx \<noteq> oc) \<or> (\<exists>f \<in> base_related doc r e. f \<in> context_nodes ctx)" for e
    by (auto simp: in_context_def r_def)
  ultimately have "computes doc D1 oc ctx xml {..<d + 2} (elements doc) (context_matcher doc leading d) (in_context doc oc ctx xml leading)"
    using whole by (auto simp: computes_def)
  moreover have "D1 i = D i" if "i < d" for i using D1(1) that by (auto simp: dd_def split: search_context.splits)
  ultimately show ?thesis using that by blast
qed

lemma computes_selector:
  assumes "matcherFromTokens doc custom d toks = Inr (m, d')" "no_cached_last xml toks" "doc_ok doc"
  obtains D' where "\<And>i. i < d \<Longrightarrow> D' i = D i" "d \<le> d'" "computes doc D' oc ctx xml {..<d'} (elements doc) m (selects doc custom oc ctx xml toks)"
proof -
  define leading where "leading = leading_relative toks"
  define rest where "rest = (if leading = None then toks else tl toks)"
  obtain ms where ms: "token_matchers doc custom (d + 2) [context_matcher doc leading d] rest = Inr (ms, d')" "m = elementMatcher ms"
    using assms(1) by (auto simp: matcherFromTokens_def Let_def leading_def rest_def split: sum.splits prod.splits)
  have last: "no_cached_last xml rest" using assms(2) by (cases toks) (auto simp: rest_def dest: no_cached_last_tl)
  obtain D1 where D1: "\<And>i. i < d \<Longrightarrow> D1 i = D i"
    "computes doc D1 oc ctx xml {..<d + 2} (elements doc) (context_matcher doc leading d) (in_context doc oc ctx xml leading)"
    by (rule computes_context [where D = D and d = d and doc = doc and oc = oc and ctx = ctx and xml = xml and leading = leading]) blast
  then obtain D' Ps where D': "\<forall>i < d + 2. D' i = D1 i" "d + 2 \<le> d'" "ms \<noteq> []"
      "list_all2 (computes doc D' oc ctx xml {..<d'} (elements doc)) ms Ps"
      "(\<lambda>e. \<forall>P \<in> set Ps. P e) = tokens_hold doc custom xml (in_context doc oc ctx xml leading) rest"
    using computes_tokens [OF ms(1), of D1 oc ctx xml "[in_context doc oc ctx xml leading]"] last assms(3) by auto
  then have "computes doc D' oc ctx xml {..<d'} (elements doc) m (selects doc custom oc ctx xml toks)"
    using computes_element [OF D'(4,3)] by (simp add: ms(2) selects_def leading_def rest_def Let_def)
  then show ?thesis using that [of D'] D' D1(1) by simp
qed

lemma computes_groups:
  "group_matchers doc custom d gs = Inr (ms, d') \<Longrightarrow> (\<And>g. g \<in> set gs \<Longrightarrow> no_cached_last xml g) \<Longrightarrow> doc_ok doc \<Longrightarrow>
   \<exists>D'. (\<forall>i < d. D' i = D i) \<and> d \<le> d' \<and>
     list_all2 (computes doc D' oc ctx xml {..<d'} (elements doc)) ms (map (selects doc custom oc ctx xml) gs)"
proof (induction doc custom d gs arbitrary: D ms rule: group_matchers.induct)
  case (2 doc custom d g gs)
  obtain m d1 ms1 where m: "matcherFromTokens doc custom d g = Inr (m, d1)" "group_matchers doc custom d1 gs = Inr (ms1, d')" "ms = m # ms1"
    using 2(2) by (auto split: sum.splits prod.splits)
  obtain D1 where D1: "\<And>i. i < d \<Longrightarrow> D1 i = D i" "d \<le> d1" "computes doc D1 oc ctx xml {..<d1} (elements doc) m (selects doc custom oc ctx xml g)"
    by (rule computes_selector [OF m(1), where D = D and oc = oc and ctx = ctx and xml = xml]) (use 2(3,4) in auto)
  obtain D' where D': "\<forall>i < d1. D' i = D1 i" "d1 \<le> d'"
      "list_all2 (computes doc D' oc ctx xml {..<d'} (elements doc)) ms1 (map (selects doc custom oc ctx xml) gs)"
    using 2(1) [OF m(1) refl, of ms1 D1] m(2) 2(3,4) by auto
  have "list_all2 (computes doc D' oc ctx xml {..<d'} (elements doc)) [m] [selects doc custom oc ctx xml g]"
    by (rule computes_list_mono [of _ D1 _ _ _ d1]) (use D1(3) D'(1,2) in auto)
  then show ?case using D1(1,2) D' m(3) by (intro exI [of _ D']) auto
qed auto

lemma super_loop_filter:
  assumes "computes doc D oc ctx xml B (elements doc) (any_matcher ms) P"
  shows "caches_ok doc D B st \<Longrightarrow> outermostContext st = oc \<Longrightarrow> set es \<subseteq> elements doc \<Longrightarrow>
     fst (super_loop ms ctx xml es st) = filter P es \<and> caches_ok doc D B (snd (super_loop ms ctx xml es st))"
proof (induction es arbitrary: st)
  case (Cons e es)
  obtain st1 where 1: "any_matcher ms e ctx xml st = (P e, st1)" "caches_ok doc D B st1" "outermostContext st1 = oc"
    by (rule computesD [OF assms, of e st]) (use Cons.prems in auto)
  then show ?case using Cons.IH [OF 1(2,3)] Cons.prems(3) by (auto split: prod.split)
qed simp

text \<open>At the beginning of a run no result is of that run.\<close>

lemma caches_ok_start:
  assumes "runs_past st"
  shows "caches_ok doc D B (st\<lparr>dirruns := Suc (dirruns st), outermostContext := oc\<rparr>)"
proof -
  have "cell_run (cells st ! c) \<noteq> Suc (dirruns st)" if "comb_cache st (e, k) = Some c" for e k c
  proof -
    have "cells st ! c \<in> set (cells st)" using assms that by (auto simp: runs_past_def)
    then show ?thesis using assms by (fastforce simp: runs_past_def)
  qed
  moreover have "nth_cache st p \<noteq> Some (Suc (dirruns st), i, k)" for p i k
    using assms unfolding runs_past_def by (metis not_less_eq_eq order_refl)
  ultimately show ?thesis using assms by (auto simp: caches_ok_def runs_past_def nth_valid_def le_SucI)
qed

lemma runs_past_outer [simp]: "runs_past (st\<lparr>outermostContext := oc\<rparr>) = runs_past st"
  by (simp add: runs_past_def)

lemma superMatcher_selects:
  assumes "compile doc custom d groups = Inr (ms, d')" "doc_ok doc" "\<And>g. g \<in> set groups \<Longrightarrow> no_cached_last xml g" "runs_past st"
    "set es \<subseteq> elements doc"
  shows "fst (superMatcher doc ms ctx xml es st) = filter (\<lambda>e. \<exists>g \<in> set groups. selects doc custom (outer_of doc ctx) ctx xml g e) es \<and>
     runs_past (snd (superMatcher doc ms ctx xml es st))"
proof -
  let ?st = "st\<lparr>dirruns := Suc (dirruns st), outermostContext := outer_of doc ctx\<rparr>"
  obtain D where "list_all2 (computes doc D (outer_of doc ctx) ctx xml {..<d'} (elements doc)) ms (map (selects doc custom (outer_of doc ctx) ctx xml) (rev groups))"
    using computes_groups [OF assms(1) [unfolded compile_def]] assms(2,3) by (metis set_rev)
  from super_loop_filter [OF computes_any [OF this] caches_ok_start [OF assms(4)] _ assms(5)]
  have "fst (super_loop ms ctx xml es ?st) = filter (\<lambda>e. \<exists>g \<in> set groups. selects doc custom (outer_of doc ctx) ctx xml g e) es \<and>
      runs_past (snd (super_loop ms ctx xml es ?st))"
    by (simp add: caches_ok_def)
  then show ?thesis by (auto simp: superMatcher_def split: prod.split)
qed

section \<open>Selection from a document\<close>

lemma node_at_append: "node_at doc (q @ p) = (case node_at doc p of Some n \<Rightarrow> node_at n q | None \<Rightarrow> None)"
  by (induction q) (auto split: option.splits)

lemma all_elements_below: "set (all_elements doc p) = {q @ p | q. q \<noteq> [] \<and> is_element doc (q @ p)}"
proof (cases "node_at doc p")
  case (Some n)
  then have "is_element doc (q @ p) = is_element n q" for q by (simp add: is_element_def node_at_append)
  then show ?thesis using Some by (simp add: all_elements_def elements_sub(1))
qed (simp add: all_elements_def is_element_def node_at_append)

text \<open>C25:
  A compiled selector finds what it means: among the elements below a node, in document order and each once, exactly
  those that some group of the selector describes, whatever earlier runs have left in the caches; and the caches
  are again fit for the next run.  The pseudo classes that depend on more than the tree are arbitrary.
\<close>

theorem compiled_selector_exact:
  assumes "compile doc custom d groups = Inr (ms, d')" "doc_ok doc" "\<forall>g \<in> set groups. no_cached_last xml g" "runs_past st"
  shows "fst (superMatcher doc ms (CtxNode c) xml (all_elements doc start) st) =
       filter (\<lambda>e. \<exists>g \<in> set groups. selects doc custom (outer_of doc (CtxNode c)) (CtxNode c) xml g e) (all_elements doc start) \<and>
     runs_past (snd (superMatcher doc ms (CtxNode c) xml (all_elements doc start) st))"
  by (rule superMatcher_selects [OF assms(1,2) _ assms(4)]) (use assms(3) all_elements_below [of doc start] in auto)

text \<open>A document with two spans and a paragraph in a division.\<close>

definition spans_and_paragraph :: dnode where
  "spans_and_paragraph = DNode 9 [] [] []
     [DNode 1 [68, 73, 86] [] [] [DNode 1 [83] [] [] [], DNode 1 [83] [] [] [], DNode 1 [80] [] [] []]]"

definition no_caches :: sizzle_state where
  "no_caches = \<lparr>dirruns = 0, outermostContext = NoOuter, cells = [], comb_cache = Map.empty, nth_cache = Map.empty, last_cache = Map.empty\<rparr>"

definition run_groups :: "dnode \<Rightarrow> custom_pseudos \<Rightarrow> selector_token list list \<Rightarrow> path list" where
  "run_groups doc custom groups =
     (case compile doc custom 0 groups of
        Inr (ms, d) \<Rightarrow> fst (superMatcher doc ms (CtxNode []) False (all_elements doc []) no_caches) | Inl err \<Rightarrow> [])"

definition second_then_p :: "selector_token list" where
  "second_then_p = [Filter (TChild CNth False 0 2), Relative RelSibling, Filter (TTag [112])]"

definition third_last_then_p :: "selector_token list" where
  "third_last_then_p = [Filter (TChild CNthLast False 0 3), Relative RelSibling, Filter (TTag [112])]"

theorem compiled_selector_exact_witness:
  "\<exists>ms d'. compile spans_and_paragraph (\<lambda>_ _. None) 0 [second_then_p] = Inr (ms, d') \<and> doc_ok spans_and_paragraph \<and>
     fst (superMatcher spans_and_paragraph ms (CtxNode []) False (all_elements spans_and_paragraph []) no_caches) =
       filter (selects spans_and_paragraph (\<lambda>_ _. None) OuterTrue (CtxNode []) False second_then_p) [[0], [0, 0], [1, 0], [2, 0]]"
proof -
  obtain ms d' where ms: "compile spans_and_paragraph (\<lambda>_ _. None) 0 [second_then_p] = Inr (ms, d')"
    by (simp add: compile_def second_then_p_def matcherFromTokens_def leading_relative_def expr_filter_def)
  have ok: "doc_ok spans_and_paragraph" "runs_past no_caches" "no_cached_last False second_then_p"
    by (simp_all add: doc_ok_def spans_and_paragraph_def runs_past_def no_caches_def no_cached_last_def second_then_p_def)
  have "all_elements spans_and_paragraph [] = [[0], [0, 0], [1, 0], [2, 0]]" "outer_of spans_and_paragraph (CtxNode []) = OuterTrue"
    by code_simp+
  then show ?thesis using ms ok compiled_selector_exact [OF ms ok(1), of False no_caches "[]" "[]"] by auto
qed

lemma run_second_then_p: "run_groups spans_and_paragraph (\<lambda>_ _. None) [second_then_p] = [[2, 0]]"
  by code_simp

text \<open>C26:
  The counts that \<open>:nth-last-child\<close> leaves on elements may be wrong: the search begins at the element itself and numbers the
  siblings before it from one, before it starts again at the last child.  In a division with two spans and a
  paragraph, \<open>:nth-last-child(3) ~ p\<close> describes the paragraph, and the compiled selector does not find it.
\<close>

theorem nth_last_child_miscounts:
  "run_groups spans_and_paragraph (\<lambda>_ _. None) [third_last_then_p] = [] \<and>
   selects spans_and_paragraph (\<lambda>_ _. None) OuterTrue (CtxNode []) False third_last_then_p [2, 0]"
proof
  show "run_groups spans_and_paragraph (\<lambda>_ _. None) [third_last_then_p] = []" by code_simp
  have "child_spec spans_and_paragraph CNthLast False 0 3 [0, 0]" "is_element spans_and_paragraph [0, 0]"
    by (simp_all add: child_spec_def last_place_def same_kind_def is_element_def child_count_def spans_and_paragraph_def upt_rec)
  moreover have "filter_TAG spans_and_paragraph [112] [2, 0]" by code_simp
  ultimately show "selects spans_and_paragraph (\<lambda>_ _. None) OuterTrue (CtxNode []) False third_last_then_p [2, 0]"
    by (auto simp: selects_def leading_relative_def third_last_then_p_def in_context_def filter_holds_def related_def intro!: exI [of _ "[0, 0]"])
qed

end
