(* ===== verification/SizzleTokenize.thy ===== *)
theory SizzleTokenize
  imports SizzleTokens SizzleSelect
begin

text \<open>
  The loop of \<open>tokenize\<close> in \<open>docs/_static/jquery-3.6.0.js\<close>: it ends, nothing of the text is lost, and text that was escaped
  with \<open>Sizzle.escape\<close> comes out as the identifier it was.
\<close>

section \<open>The loop\<close>

lemma begin_group_suffix: "begin_group first s g = (s1, g1) \<Longrightarrow> suffix s1 s"
  by (auto simp: begin_group_def suffix_drop split: if_splits option.splits)

lemma take_combinator_shorter: "take_combinator s g = (m, s', g') \<Longrightarrow> suffix s' s \<and> (m \<longrightarrow> length s' < length s)"
  by (auto simp: take_combinator_def suffix_drop dest: combinator.shorter split: option.splits)

lemma token_turn_shorter:
  assumes "token_turn inner first s g = Inr (m, s', g')"
  shows "suffix s' s" "m \<Longrightarrow> length s' < length s"
proof -
  obtain s1 g1 where 1: "begin_group first s g = (s1, g1)" by fastforce
  obtain m2 s2 g2 where 2: "take_combinator s1 g1 = (m2, s2, g2)" by (metis prod.exhaust)
  have 3: "filter_pass inner token_types m2 s2 g2 = Inr (m, s', g')" using assms 1 2 by (simp add: token_turn_def)
  note parts = begin_group_suffix [OF 1] take_combinator_shorter [OF 2] filter_pass_shorter [OF 3]
  show "suffix s' s" using parts suffix_order.trans by metis
  show "m \<Longrightarrow> length s' < length s" using parts suffix_length_le by (metis (no_types, lifting) le_less_trans less_le_trans)
qed

text \<open>While there is text and a turn has matched something.\<close>

function token_loop :: "(units \<Rightarrow> units + nat) \<Rightarrow> bool \<Rightarrow> units \<Rightarrow> lexeme list list \<Rightarrow> units + units \<times> lexeme list list" where
  "token_loop inner first soFar groups =
     (if soFar = [] then Inr (soFar, groups)
      else case token_turn inner first soFar groups of
        Inl err \<Rightarrow> Inl err
      | Inr (matched, soFar', groups') \<Rightarrow>
          if matched then token_loop inner False soFar' groups' else Inr (soFar', groups'))"
  by pat_completeness auto
termination
  by (relation "measure (\<lambda>(inner, first, soFar, groups). length soFar)") (auto dest: token_turn_shorter(2))

declare token_loop.simps [simp del]

text \<open>
  \<open>tokenize( selector, true )\<close>: the number of units that are not read.  The argument bounds the depth of nested pseudo classes;
  arguments are shorter than the text, so that the length of the text is enough.
\<close>

fun parse_only :: "nat \<Rightarrow> units \<Rightarrow> units + nat" where
  "parse_only 0 s = Inr (length s)"
| "parse_only (Suc n) s =
     (case token_loop (parse_only n) True s [] of Inl err \<Rightarrow> Inl err | Inr (rest, groups) \<Rightarrow> Inr (length rest))"

definition tokenize :: "units \<Rightarrow> units + lexeme list list" where
  "tokenize selector =
     (case token_loop (parse_only (length selector)) True selector [] of
        Inl err \<Rightarrow> Inl err
      | Inr (rest, groups) \<Rightarrow> if rest \<noteq> [] then Inl selector else Inr groups)"

definition toSelector :: "lexeme list \<Rightarrow> units" where
  "toSelector tokens = concat (map fst tokens)"

section \<open>Depth\<close>

lemma match_type_cong:
  assumes "\<And>a. length a < length s \<Longrightarrow> f a = g a"
  shows "match_type f ty s = match_type g ty s"
proof -
  have "prefilter_PSEUDO f v arg = prefilter_PSEUDO g v arg" if v: "pseudo_parts s = Some (v, name, arg)" for v name arg
  proof (cases arg)
    case (Anything a)
    have "length a < length s" using pseudo_parts_consumes(1,3) [OF v] Anything prefix_length_le by fastforce
    then show ?thesis using assms Anything by (simp add: prefilter_PSEUDO_def)
  qed (simp_all add: prefilter_PSEUDO_def)
  then have "pseudo_match f s = pseudo_match g s" by (auto simp: pseudo_match_def split: option.split)
  then show ?thesis by (cases ty) (simp_all add: match_type_def)
qed

lemma filter_pass_cong:
  "(\<And>a. length a < length s \<Longrightarrow> f a = g a) \<Longrightarrow> filter_pass f tys m s gs = filter_pass g tys m s gs"
proof (induction tys arbitrary: m s gs)
  case (Cons ty tys)
  have ih: "filter_pass f tys m' (drop n s) gs' = filter_pass g tys m' (drop n s) gs'" for m' n gs' by (rule Cons.IH) (use Cons.prems in simp)
  show ?case using match_type_cong [OF Cons.prems] ih [of _ 0] ih by (auto split: sum.split option.split)
qed simp

lemma token_turn_cong:
  assumes "\<And>a. length a < length s \<Longrightarrow> f a = g a"
  shows "token_turn f first s gs = token_turn g first s gs"
proof -
  obtain s1 g1 where 1: "begin_group first s gs = (s1, g1)" by fastforce
  obtain m2 s2 g2 where 2: "take_combinator s1 g1 = (m2, s2, g2)" by (metis prod.exhaust)
  have "length s2 \<le> length s" using begin_group_suffix [OF 1] take_combinator_shorter [OF 2] suffix_length_le by (meson le_trans)
  then show ?thesis using 1 2 filter_pass_cong [of s2 f g] assms by (simp add: token_turn_def)
qed

lemma token_loop_cong:
  "(\<And>a. length a < length s \<Longrightarrow> f a = g a) \<Longrightarrow> token_loop f first s gs = token_loop g first s gs"
proof (induction f first s gs rule: token_loop.induct)
  case (1 f first s gs)
  note turn = token_turn_cong [OF 1(2)]
  have "token_loop f False s' g' = token_loop g False s' g'" if "s \<noteq> []" "token_turn f first s gs = Inr (True, s', g')" for s' g'
    by (rule 1(1) [OF that refl refl]) (use token_turn_shorter(2) [OF that(2)] 1(2) in auto)
  then show ?case using turn by (subst (1 2) token_loop.simps) (auto split: sum.split)
qed

text \<open>More depth than the length of the text changes nothing.\<close>

lemma parse_only_depth: "length s < n \<Longrightarrow> parse_only n s = parse_only (Suc (length s)) s"
proof (induction n arbitrary: s rule: less_induct)
  case (less n)
  obtain m where m: "n = Suc m" using less.prems by (cases n) auto
  have "parse_only m a = parse_only (length s) a" if "length a < length s" for a
    using less.IH [of m a] less.IH [of "length s" a] that less.prems m by simp
  then have "token_loop (parse_only m) True s [] = token_loop (parse_only (length s)) True s []" by (rule token_loop_cong)
  then show ?case using m by simp
qed

section \<open>Nothing is lost\<close>

definition is_comma :: "units \<Rightarrow> bool" where
  "is_comma x \<longleftrightarrow> (\<exists>u v. (\<forall>c \<in> set (u @ v). is_white_unit c) \<and> x = u @ 44 # v)"

definition groups_text :: "units list \<Rightarrow> lexeme list list \<Rightarrow> units" where
  "groups_text seps groups = concat (map2 (\<lambda>sep g. sep @ toSelector g) seps groups)"

definition read_so_far :: "units \<Rightarrow> units \<Rightarrow> lexeme list list \<Rightarrow> bool" where
  "read_so_far s soFar groups \<longleftrightarrow>
     (\<exists>seps. length seps = length groups \<and> seps \<noteq> [] \<and> hd seps = [] \<and> (\<forall>x \<in> set (tl seps). is_comma x) \<and> s = groups_text seps groups @ soFar)"

lemma skip_white_split: "\<exists>u. (\<forall>c \<in> set u. is_white_unit c) \<and> s = u @ skip_white s"
  by (intro exI [of _ "takeWhile is_white_unit s"]) (auto simp: skip_white_def dest: set_takeWhileD)

lemma comma_match_comma: "comma_match s = Some v \<Longrightarrow> is_comma v \<and> v @ drop (length v) s = s"
proof -
  assume "comma_match s = Some v"
  then obtain r where r: "skip_white s = 44 # r" "v = until_rest s (skip_white r)"
    by (auto simp: comma_match_def split: list.splits if_splits)
  obtain u where u: "\<forall>c \<in> set u. is_white_unit c" "s = u @ skip_white s" using skip_white_split by blast
  obtain w where w: "\<forall>c \<in> set w. is_white_unit c" "r = w @ skip_white r" using skip_white_split by blast
  have s: "s = (u @ 44 # w) @ skip_white r" using u(2) w(2) r(1) by simp
  then have "v = u @ 44 # w" unfolding r(2) until_rest_def by (metis add_diff_cancel_right' append_eq_conv_conj length_append)
  then show ?thesis using u(1) w(1) s by (auto simp: is_comma_def)
qed

lemma groups_text_push:
  assumes "length seps = length groups" "groups \<noteq> []"
  shows "groups_text seps (push_token (v, t) groups) = groups_text seps groups @ v"
proof -
  obtain gs g where g: "groups = gs @ [g]" using assms(2) by (metis rev_exhaust)
  obtain ss x where x: "seps = ss @ [x]" using assms by (metis length_0_conv rev_exhaust)
  show ?thesis using assms(1) by (simp add: g x groups_text_def push_token_def toSelector_def)
qed

lemma read_token:
  assumes "read_so_far s soFar groups" "v @ drop (length v) soFar = soFar"
  shows "read_so_far s (drop (length v) soFar) (push_token (v, t) groups)"
proof -
  obtain seps where seps: "length seps = length groups" "seps \<noteq> []" "hd seps = []" "\<forall>x \<in> set (tl seps). is_comma x" "s = groups_text seps groups @ soFar"
    using assms(1) by (auto simp: read_so_far_def)
  have "groups \<noteq> []" using seps(1,2) by auto
  moreover from this have "length (push_token (v, t) groups) = length groups" by (simp add: push_token_def)
  ultimately show ?thesis using seps assms(2) groups_text_push [OF seps(1), of v t]
    by (auto simp: read_so_far_def intro!: exI [of _ seps])
qed

lemma prefix_drop: "prefix v s \<Longrightarrow> v @ drop (length v) s = s"
  by (auto simp: prefix_def)

lemma filter_pass_reads:
  "filter_pass inner tys m soFar groups = Inr (m', soFar', groups') \<Longrightarrow> read_so_far s soFar groups \<Longrightarrow> read_so_far s soFar' groups'"
proof (induction inner tys m soFar groups rule: filter_pass.induct)
  case (2 inner ty tys m soFar groups)
  show ?case
  proof (cases "match_type inner ty soFar")
    case (Inr k)
    show ?thesis
    proof (cases k)
      case (Some vt)
      obtain v t where vt: "vt = (v, t)" by (cases vt)
      have "read_so_far s (drop (length v) soFar) (push_token (v, Filter t) groups)"
        by (rule read_token [OF 2(4) prefix_drop]) (use match_type_consumes [of inner ty soFar v t] Inr Some vt in simp)
      then show ?thesis using 2(2) [OF Inr Some vt [symmetric]] 2(3) Inr Some vt by simp
    qed (use 2 Inr in simp)
  qed (use 2 in simp)
qed simp

lemma take_combinator_reads:
  "take_combinator soFar groups = (m, soFar', groups') \<Longrightarrow> read_so_far s soFar groups \<Longrightarrow> read_so_far s soFar' groups'"
  using read_token [OF _ combinator.split] by (auto simp: take_combinator_def split: option.splits)

text \<open>A comma at the end is never taken.\<close>

lemma skip_white_white: "\<forall>c \<in> set u. is_white_unit c \<Longrightarrow> skip_white (u @ s) = skip_white s"
  by (induction u) (auto simp: skip_white_def)

lemma skip_white_44 [simp]: "skip_white (44 # v) = 44 # v"
  by (simp add: skip_white_def is_white_unit_def)

lemma comma_match_all: "is_comma s \<Longrightarrow> comma_match s = Some s"
proof -
  assume "is_comma s"
  then obtain u v where uv: "\<forall>c \<in> set (u @ v). is_white_unit c" "s = u @ 44 # v" by (auto simp: is_comma_def)
  then have "skip_white s = 44 # v" using skip_white_white [of u "44 # v"] by simp
  moreover have "skip_white v = []" using uv(1) skip_white_white [of v "[]"] by (simp add: skip_white_def)
  ultimately show ?thesis by (simp add: comma_match_def until_rest_def)
qed

lemma match_type_44: "match_type inner ty (44 # v) = Inr None"
proof -
  have "take_identifier (44 # v) = ([], 44 # v)" by (simp add: is_word_unit_def is_digit_unit_def)
  moreover have "child_head (44 # v) = None"
    by (simp add: child_head_def child_names_def strip_word_def lower_units_def lower_unit_def)
  ultimately show ?thesis
    by (cases ty) (auto simp: match_type_def tag_match_def class_match_def attr_match_def child_match_def child_parts_def pseudo_match_def pseudo_parts_def id_match_def simp del: take_identifier.simps)
qed

lemma stuck_turn:
  assumes "is_comma soFar" "token_turn inner False soFar groups = Inr (m, soFar', groups')"
  shows "is_comma soFar'"
proof -
  obtain u v where uv: "\<forall>c \<in> set (u @ v). is_white_unit c" "soFar = u @ 44 # v" using assms(1) by (auto simp: is_comma_def)
  have start: "begin_group False soFar groups = (soFar, groups @ [[]])" using comma_match_all [OF assms(1)] by (simp add: begin_group_def)
  have skip: "skip_white soFar = 44 # v" using uv skip_white_white [of u "44 # v"] by simp
  obtain m2 g2 where comb: "take_combinator soFar (groups @ [[]]) = (m2, 44 # v, g2)"
  proof (cases u)
    case Nil
    then show ?thesis using that [of False] uv(2) skip by (simp add: take_combinator_def combinator_match_def)
  next
    case (Cons c w)
    then have "combinator_match soFar = Some (u, RelDescendant)" using skip uv(2) by (simp add: combinator_match_def until_rest_def)
    then show ?thesis using that uv(2) by (simp add: take_combinator_def)
  qed
  have "filter_pass inner tys m2 (44 # v) g2 = Inr (m2, 44 # v, g2)" for tys by (induction tys) (simp_all add: match_type_44)
  then have "soFar' = 44 # v" using assms(2) start comb by (simp add: token_turn_def)
  then show ?thesis unfolding is_comma_def using uv(1) by (intro exI [of _ "[]"] exI [of _ v]) simp
qed

text \<open>All groups but the last have tokens, and the last one has when the turn has matched something.\<close>

definition filled :: "bool \<Rightarrow> lexeme list list \<Rightarrow> bool" where
  "filled matched groups \<longleftrightarrow> groups \<noteq> [] \<and> (\<forall>g \<in> set (butlast groups). g \<noteq> []) \<and> (matched \<longrightarrow> last groups \<noteq> [])"

lemma filled_push: "filled m groups \<Longrightarrow> filled m' (push_token tok groups)"
  by (simp add: filled_def push_token_def)

lemma filled_mono: "filled m groups \<Longrightarrow> (m' \<longrightarrow> m) \<Longrightarrow> filled m' groups"
  by (auto simp: filled_def)

lemma filled_all: "filled True groups \<longleftrightarrow> groups \<noteq> [] \<and> (\<forall>g \<in> set groups. g \<noteq> [])"
  by (cases groups rule: rev_cases) (auto simp: filled_def)

lemma filled_new: "filled True groups \<or> groups = [] \<Longrightarrow> filled False (groups @ [[]])"
  unfolding filled_all by (auto simp: filled_def)

lemma filter_pass_filled: "filter_pass inner tys m s groups = Inr (m', s', groups') \<Longrightarrow> filled m groups \<Longrightarrow> filled m' groups'"
  by (induction inner tys m s groups rule: filter_pass.induct) (auto simp: filled_push split: sum.splits option.splits)

lemma take_combinator_filled: "take_combinator s groups = (m, s', groups') \<Longrightarrow> filled False groups \<Longrightarrow> filled m groups'"
  by (auto simp: take_combinator_def intro: filled_push split: option.splits)

lemma filter_pass_unmatched: "filter_pass inner tys m s groups = Inr (False, s', groups') \<Longrightarrow> \<not> m \<and> s' = s"
  by (induction tys arbitrary: m s groups) (auto split: sum.splits option.splits dest: spec)

lemma unmatched_turn: "token_turn inner first s groups = Inr (False, s', groups') \<Longrightarrow> s \<noteq> [] \<Longrightarrow> s' \<noteq> []"
  by (auto simp: token_turn_def take_combinator_def begin_group_def dest!: filter_pass_unmatched split: prod.splits option.splits if_splits)

lemma turn_reads:
  assumes "token_turn inner first soFar groups = Inr (m, soFar', groups')"
    and "begin_group first soFar groups = (s1, g1)" "read_so_far s s1 g1" "filled False g1"
  shows "read_so_far s soFar' groups'" "filled m groups'"
proof -
  obtain m2 s2 g2 where 2: "take_combinator s1 g1 = (m2, s2, g2)" by (metis prod.exhaust)
  have 3: "filter_pass inner token_types m2 s2 g2 = Inr (m, soFar', groups')" using assms(1,2) 2 by (simp add: token_turn_def)
  show "read_so_far s soFar' groups'" using filter_pass_reads [OF 3] take_combinator_reads [OF 2] assms(3) by blast
  show "filled m groups'" using filter_pass_filled [OF 3] take_combinator_filled [OF 2] assms(4) by blast
qed

lemma begin_first: "begin_group True s [] = (s, [[]])" "read_so_far s s [[]]" "filled False [[]]"
  by (auto simp: begin_group_def filled_def read_so_far_def groups_text_def toSelector_def intro!: exI [of _ "[[]]"])

lemma begin_later:
  assumes "read_so_far s soFar groups" "filled True groups" "begin_group False soFar groups = (s1, g1)"
  shows "is_comma soFar \<or> read_so_far s s1 g1 \<and> filled False g1"
proof (cases "comma_match soFar")
  case (Some v)
  note comma = comma_match_comma [OF Some]
  show ?thesis
  proof (cases "drop (length v) soFar = []")
    case True
    then show ?thesis using comma by (metis append_Nil2)
  next
    case False
    obtain seps where seps: "length seps = length groups" "seps \<noteq> []" "hd seps = []" "\<forall>x \<in> set (tl seps). is_comma x" "s = groups_text seps groups @ soFar"
      using assms(1) by (auto simp: read_so_far_def)
    have "s = groups_text (seps @ [v]) (groups @ [[]]) @ drop (length v) soFar"
      using seps(1,5) comma by (simp add: groups_text_def toSelector_def)
    then have "read_so_far s (drop (length v) soFar) (groups @ [[]])"
      unfolding read_so_far_def using seps comma by (intro exI [of _ "seps @ [v]"]) auto
    then show ?thesis using assms(2,3) Some False filled_new by (auto simp: begin_group_def)
  qed
qed (use assms filled_mono [of True groups False] in \<open>auto simp: begin_group_def\<close>)

lemma stuck_loop: "is_comma soFar \<Longrightarrow> token_loop inner False soFar groups = Inr (rest, groups') \<Longrightarrow> rest \<noteq> []"
proof (induction inner False soFar groups rule: token_loop.induct)
  case (1 inner soFar groups)
  have "soFar \<noteq> []" using 1(2) by (auto simp: is_comma_def)
  then obtain m s2 g2 where turn: "token_turn inner False soFar groups = Inr (m, s2, g2)"
    using 1(3) by (subst (asm) token_loop.simps) (auto split: sum.splits)
  have c: "is_comma s2" by (rule stuck_turn [OF 1(2) turn])
  show ?case
  proof (cases m)
    case True
    then show ?thesis using 1(1) [OF \<open>soFar \<noteq> []\<close> turn refl refl _ c] 1(3) \<open>soFar \<noteq> []\<close> turn
      by (subst (asm) (2) token_loop.simps) simp
  next
    case False
    then have "rest = s2" using 1(3) \<open>soFar \<noteq> []\<close> turn by (subst (asm) token_loop.simps) simp
    then show ?thesis using c by (auto simp: is_comma_def)
  qed
qed

lemma loop_reads:
  "token_loop inner first soFar groups = Inr (rest, groups') \<Longrightarrow> soFar \<noteq> [] \<or> \<not> first \<Longrightarrow>
   first \<and> soFar = s \<and> groups = [] \<or> \<not> first \<and> read_so_far s soFar groups \<and> filled True groups \<Longrightarrow>
   rest = [] \<Longrightarrow> read_so_far s rest groups' \<and> filled True groups'"
proof (induction inner first soFar groups rule: token_loop.induct)
  case (1 inner first soFar groups)
  show ?case
  proof (cases "soFar = []")
    case True
    then show ?thesis using 1(2,3,4) by (subst (asm) token_loop.simps) auto
  next
    case False
    then obtain m s2 g2 where turn: "token_turn inner first soFar groups = Inr (m, s2, g2)"
      using 1(2) by (subst (asm) token_loop.simps) (auto split: sum.splits)
    obtain s1 g1 where start: "begin_group first soFar groups = (s1, g1)" by fastforce
    have "\<not> (\<not> first \<and> is_comma soFar)" using stuck_loop [of soFar inner groups rest groups'] 1(2,5) by auto
    then have "read_so_far s s1 g1 \<and> filled False g1" using 1(4) start begin_first begin_later [of s soFar groups s1 g1] by auto
    then have after: "read_so_far s s2 g2" "filled m g2" using turn_reads [OF turn start] by blast+
    show ?thesis
    proof (cases m)
      case True
      have "token_loop inner False s2 g2 = Inr (rest, groups')" using 1(2) False turn True by (subst (asm) token_loop.simps) simp
      then show ?thesis using 1(1) [OF False turn refl refl True] after True 1(5) by simp
    next
      case unmatched: False
      then have "rest = s2" "groups' = g2" using 1(2) False turn by (subst (asm) token_loop.simps, simp)+
      moreover have "s2 \<noteq> []" using unmatched_turn [of inner first soFar groups s2 g2] turn unmatched False by simp
      ultimately show ?thesis using 1(5) by simp
    qed
  qed
qed

text \<open>C22: 
  What \<open>tokenize\<close> accepts it accounts for unit by unit: the values of the tokens of each group, joined by \<open>toSelector\<close>, and the commas
  between the groups, with white space around them, are the selector again.  There is a group, and none of them is empty: a comma at
  the beginning or at the end, or two in a row, are not accepted.
\<close>

theorem tokenize_lossless:
  assumes "tokenize s = Inr groups" "s \<noteq> []"
  shows "groups \<noteq> [] \<and> (\<forall>g \<in> set groups. g \<noteq> []) \<and>
    (\<exists>seps. length seps = length groups \<and> hd seps = [] \<and>
       (\<forall>x \<in> set (tl seps). \<exists>u v. (\<forall>c \<in> set (u @ v). is_white_unit c) \<and> x = u @ 44 # v) \<and>
       s = concat (map2 (\<lambda>sep g. sep @ toSelector g) seps groups))"
proof -
  have loop: "token_loop (parse_only (length s)) True s [] = Inr ([], groups)"
    using assms(1) by (auto simp: tokenize_def split: sum.splits if_splits)
  then have "read_so_far s [] groups \<and> filled True groups" using assms(2) by (intro loop_reads [OF loop]) auto
  then show ?thesis unfolding filled_all read_so_far_def groups_text_def is_comma_def by auto
qed

definition two_groups :: "lexeme list list" where
  "two_groups = [[([97], Filter (TTag [97])), ([46, 98], Filter (TClass [98]))], [([62], Relative RelChild), ([99], Filter (TTag [99]))]]"

theorem tokenize_lossless_witness:
  "\<exists>seps. tokenize [97, 46, 98, 32, 44, 62, 99] = Inr two_groups \<and> length seps = 2 \<and> hd seps = [] \<and>
     [97, 46, 98, 32, 44, 62, 99] = concat (map2 (\<lambda>sep g. sep @ toSelector g) seps two_groups)"
proof -
  have "tokenize [97, 46, 98, 32, 44, 62, 99] = Inr two_groups" by code_simp
  moreover have "length two_groups = 2" by (simp add: two_groups_def)
  ultimately show ?thesis using tokenize_lossless [of "[97, 46, 98, 32, 44, 62, 99]" two_groups] by auto
qed

section \<open>Compiled text\<close>

text \<open>\<open>compile( selector )\<close>: the errors of the tokenizer, and those of pseudo classes that are not known.\<close>

datatype selector_error = Unrecognized units | Unsupported sizzle_error

definition compile_selector :: "dnode \<Rightarrow> custom_pseudos \<Rightarrow> nat \<Rightarrow> units \<Rightarrow> selector_error + matcher list \<times> nat" where
  "compile_selector doc custom d selector =
     (case tokenize selector of
        Inl err \<Rightarrow> Inl (Unrecognized err)
      | Inr match \<Rightarrow>
          (case compile doc custom d (map (map snd) match) of
             Inl err \<Rightarrow> Inl (Unsupported err)
           | Inr compiled \<Rightarrow> Inr compiled))"

lemma escape_not_empty: "s \<noteq> [] \<Longrightarrow> sizzle_escape s \<noteq> []"
proof -
  assume "s \<noteq> []"
  obtain es where es: "sizzle_escape s = concat es" "list_all2 reads_as es (map nul_replaced s)" using escape_parts by blast
  then have "sizzle_unescape (sizzle_escape s) = map nul_replaced s" using reads_list by metis
  then show ?thesis using \<open>s \<noteq> []\<close> by auto
qed

lemma escape_identifier: "take_identifier (sizzle_escape s) = (sizzle_escape s, [])"
proof -
  obtain es where es: "sizzle_escape s = concat es" "list_all2 reads_as es (map nul_replaced s)" using escape_parts by blast
  then show ?thesis using reads_list [OF es(2), of "[]"] by simp
qed

lemma unescape_escape: "sizzle_unescape (sizzle_escape s) = map nul_replaced s"
  using escape_parts [of s] reads_list by metis

text \<open>Behind a hash sign only the type ID matches.\<close>

lemma match_type_35: "ty \<noteq> TypeID \<Longrightarrow> match_type inner ty (35 # v) = Inr None"
proof -
  assume "ty \<noteq> TypeID"
  have "take_identifier (35 # v) = ([], 35 # v)" by (simp add: is_word_unit_def is_digit_unit_def)
  moreover have "child_head (35 # v) = None"
    by (simp add: child_head_def child_names_def strip_word_def lower_units_def lower_unit_def)
  ultimately show ?thesis using \<open>ty \<noteq> TypeID\<close>
    by (cases ty) (auto simp: match_type_def tag_match_def class_match_def attr_match_def child_match_def child_parts_def pseudo_match_def pseudo_parts_def simp del: take_identifier.simps)
qed

lemma tokenize_id:
  assumes "take_identifier v = (v, [])" "v \<noteq> []"
  shows "tokenize (35 # v) = Inr [[(35 # v, Filter (TId v))]]"
proof -
  have "match_type inner TypeID (35 # v) = Inr (Some (35 # v, TId v))" for inner
    using assms by (simp add: match_type_def id_match_def)
  moreover have "combinator_match (35 # v) = None" by (simp add: combinator_match_def skip_white_def is_white_unit_def)
  ultimately have "token_turn inner True (35 # v) [] = Inr (True, [], [[(35 # v, Filter (TId v))]])" for inner
    by (simp add: token_turn_def begin_group_def take_combinator_def token_types_def match_type_35 push_token_def)
  then show ?thesis by (simp add: tokenize_def token_loop.simps)
qed

text \<open>C23: 
  The text from the beginning to the end: for any text that is not empty, the selector of a hash sign and the escaped text is
  accepted and compiled, whatever units the text has, and finds the elements whose attribute \<open>id\<close> is that text (with the replacement
  character for NUL), and only them.
\<close>

theorem escaped_id_selects:
  assumes "s \<noteq> []" "doc_ok doc" "node_type doc = 9" "runs_past st"
  shows "\<exists>ms d'. compile_selector doc custom d (35 # sizzle_escape s) = Inr (ms, d') \<and>
     fst (superMatcher doc ms (CtxNode []) xml (all_elements doc []) st) =
       filter (\<lambda>e. getAttribute doc xml id_name e = Some (map (\<lambda>c. if c = 0 then 65533 else c) s)) (all_elements doc [])"
proof -
  let ?g = "[Filter (TId (sizzle_escape s))]"
  obtain ms d' where ms: "compile doc custom d [?g] = Inr (ms, d')"
    by (simp add: compile_def matcherFromTokens_def leading_relative_def expr_filter_def)
  have "tokenize (35 # sizzle_escape s) = Inr [[(35 # sizzle_escape s, Filter (TId (sizzle_escape s)))]]"
    by (rule tokenize_id [OF escape_identifier escape_not_empty [OF assms(1)]])
  then have compiled: "compile_selector doc custom d (35 # sizzle_escape s) = Inr (ms, d')" using ms by (simp add: compile_selector_def)
  have "selects doc custom (outer_of doc (CtxNode [])) (CtxNode []) xml ?g e \<longleftrightarrow>
      getAttribute doc xml id_name e = Some (map (\<lambda>c. if c = 0 then 65533 else c) s)" for e
    using assms(3) by (simp add: selects_def leading_relative_def in_context_def outer_of_def filter_holds_def filter_ID_def unescape_escape nul_replaced_def [abs_def])
  moreover have "set (all_elements doc []) \<subseteq> elements doc" using all_elements_below [of doc "[]"] by auto
  ultimately show ?thesis using compiled superMatcher_selects [OF ms assms(2) _ assms(4), of xml "all_elements doc []" "CtxNode []"]
    by (auto simp: no_cached_last_def)
qed

definition strange_id :: dnode where
  "strange_id = DNode 9 [] [] [] [DNode 1 [68, 73, 86] [(id_name, [49, 46])] [] [DNode 1 [80] [(id_name, [49])] [] []]]"

theorem escaped_id_selects_witness:
  "\<exists>ms d'. compile_selector strange_id (\<lambda>_ _. None) 0 (35 # sizzle_escape [49, 46]) = Inr (ms, d') \<and>
     fst (superMatcher strange_id ms (CtxNode []) False (all_elements strange_id []) no_caches) = [[0]]"
proof -
  have "doc_ok strange_id" "node_type strange_id = 9" "runs_past no_caches"
    by (simp_all add: doc_ok_def strange_id_def runs_past_def no_caches_def)
  moreover have "filter (\<lambda>e. getAttribute strange_id False id_name e = Some [49, 46]) (all_elements strange_id []) = [[0]]" by code_simp
  ultimately show ?thesis using escaped_id_selects [of "[49, 46]" strange_id no_caches "\<lambda>_ _. None" 0 False] by simp
qed

end
