(* ===== verification/JqueryTraversal.thy ===== *)
theory JqueryTraversal
  imports SizzleOrder SizzleTokenize
begin

text \<open>
  Moving through documents in \<open>docs/_static/jquery-3.6.0.js\<close>: \<open>filter\<close>, \<open>not\<close>, \<open>find\<close>, \<open>closest\<close>, \<open>index\<close>, \<open>add\<close>, \<open>has\<close> and the family of
  \<open>parents\<close>, \<open>nextAll\<close>, \<open>siblings\<close>, \<open>children\<close> and so on.  Which elements a selector string matches is an argument here; for \<open>find\<close> it
  is the compiled selector of SizzleMatch, from its text on.
\<close>

section \<open>Steps from one node\<close>

definition type_of_node :: "dnode \<Rightarrow> path \<Rightarrow> nat" where
  "type_of_node doc e = (case node_at doc e of Some n \<Rightarrow> node_type n | None \<Rightarrow> 0)"

text \<open>\<open>dir\<close>: the elements in a direction, up to the document or to an element that is \<open>until\<close>.\<close>

fun dir_loop :: "dnode \<Rightarrow> (path \<Rightarrow> bool) option \<Rightarrow> path list \<Rightarrow> path list" where
  "dir_loop doc until [] = []"
| "dir_loop doc until (f # fs) =
     (if type_of_node doc f = 9 then []
      else if is_element doc f then
        (if (case until of Some u \<Rightarrow> u f | None \<Rightarrow> False) then [] else f # dir_loop doc until fs)
      else dir_loop doc until fs)"

definition dir_jq :: "dnode \<Rightarrow> direction \<Rightarrow> (path \<Rightarrow> bool) option \<Rightarrow> path \<Rightarrow> path list" where
  "dir_jq doc d until e = dir_loop doc until (dir_chain doc d e)"

text \<open>\<open>siblings\<close>: the elements from the first child on, without the given one.\<close>

definition siblings_jq :: "dnode \<Rightarrow> path option \<Rightarrow> path option \<Rightarrow> path list" where
  "siblings_jq doc n elem =
     (case n of
        Some f \<Rightarrow> filter (\<lambda>g. is_element doc g \<and> Some g \<noteq> elem) (f # dir_chain doc NextSibling f)
      | None \<Rightarrow> [])"

definition firstChild :: "dnode \<Rightarrow> path \<Rightarrow> path option" where
  "firstChild doc e = (if child_count doc e = 0 then None else Some (0 # e))"

text \<open>\<open>sibling\<close>: the next element in a direction.\<close>

fun first_element :: "dnode \<Rightarrow> path list \<Rightarrow> path option" where
  "first_element doc [] = None"
| "first_element doc (f # fs) = (if is_element doc f then Some f else first_element doc fs)"

definition sibling_jq :: "dnode \<Rightarrow> direction \<Rightarrow> path \<Rightarrow> path option" where
  "sibling_jq doc d e = first_element doc (dir_chain doc d e)"

definition option_list :: "'a option \<Rightarrow> 'a list" where
  "option_list x = (case x of Some a \<Rightarrow> [a] | None \<Rightarrow> [])"

section \<open>Filters\<close>

datatype qualifier = QFun "nat \<Rightarrow> path \<Rightarrow> bool" | QNode path | QNodes "path list" | QSelector "path \<Rightarrow> bool"

text \<open>\<open>jQuery.grep\<close> with the index.\<close>

definition grep_indexed :: "(nat \<Rightarrow> path \<Rightarrow> bool) \<Rightarrow> path list \<Rightarrow> path list" where
  "grep_indexed f elems = map snd (filter (\<lambda>(i, e). f i e) (zip [0..<length elems] elems))"

text \<open>\<open>jQuery.filter\<close>: only elements are matched against a selector.\<close>

definition filter_expr :: "dnode \<Rightarrow> (path \<Rightarrow> bool) \<Rightarrow> bool \<Rightarrow> path list \<Rightarrow> path list" where
  "filter_expr doc matches negated elems =
     (let expr = (\<lambda>e. matches e \<noteq> negated) in
      if length elems = 1 \<and> is_element doc (hd elems) then (if expr (hd elems) then [hd elems] else [])
      else filter expr (filter (is_element doc) elems))"

definition winnow :: "dnode \<Rightarrow> qualifier \<Rightarrow> bool \<Rightarrow> path list \<Rightarrow> path list" where
  "winnow doc q negated elems =
     (case q of
        QFun f \<Rightarrow> grep_indexed (\<lambda>i e. f i e \<noteq> negated) elems
      | QNode n \<Rightarrow> grep_indexed (\<lambda>i e. (e = n) \<noteq> negated) elems
      | QNodes ns \<Rightarrow> grep_indexed (\<lambda>i e. (e \<in> set ns) \<noteq> negated) elems
      | QSelector matches \<Rightarrow> filter_expr doc matches negated elems)"

definition contains_jq :: "dnode \<Rightarrow> path \<Rightarrow> path \<Rightarrow> bool" where
  "contains_jq doc a b \<longleftrightarrow> a \<in> set (dir_chain doc ParentNode b)"

text \<open>The variant for browsers with \<open>contains\<close>, which is true of the node itself.\<close>

definition contains_native :: "dnode \<Rightarrow> path \<Rightarrow> path \<Rightarrow> bool" where
  "contains_native doc a b \<longleftrightarrow>
     (case dir_step doc ParentNode b of
        None \<Rightarrow> False
      | Some bup \<Rightarrow> a = bup \<or> type_of_node doc bup = 1 \<and>
          (case if type_of_node doc a = 9 then doc_elem doc else Some a of Some adown \<Rightarrow> suffix adown bup | None \<Rightarrow> False))"

definition has_jq :: "dnode \<Rightarrow> path list \<Rightarrow> path list \<Rightarrow> path list" where
  "has_jq doc targets this = winnow doc (QFun (\<lambda>i e. list_ex (contains_jq doc e) targets)) False this"

section \<open>Sets of nodes\<close>

text \<open>\<open>dup\<close> says whether the sort meets a node twice, which is when \<open>hasDuplicate\<close> gets set.\<close>

definition find_nodes :: "dnode \<Rightarrow> path list \<Rightarrow> path list \<Rightarrow> path list" where
  "find_nodes doc this targets = winnow doc (QFun (\<lambda>i e. list_ex (\<lambda>c. contains_jq doc c e) this)) False targets"

fun find_each :: "(path \<Rightarrow> 's \<Rightarrow> path list \<times> 's) \<Rightarrow> path list \<Rightarrow> path list \<Rightarrow> 's \<Rightarrow> path list \<times> 's" where
  "find_each query [] ret st = (ret, st)"
| "find_each query (c # cs) ret st = (case query c st of (found, st') \<Rightarrow> find_each query cs (ret @ found) st')"

definition find_jq :: "dnode \<Rightarrow> (path list \<Rightarrow> bool) \<Rightarrow> (path \<Rightarrow> 's \<Rightarrow> path list \<times> 's) \<Rightarrow> path list \<Rightarrow> 's \<Rightarrow> path list \<times> 's" where
  "find_jq doc dup query this st =
     (case find_each query this [] st of (ret, st') \<Rightarrow> (if 1 < length this then uniqueSort doc (dup ret) ret else ret, st'))"

text \<open>\<open>closest\<close>, with a set of targets or a selector.\<close>

fun closest_up :: "dnode \<Rightarrow> (path \<Rightarrow> bool) + path list \<Rightarrow> path option \<Rightarrow> path list \<Rightarrow> path list" where
  "closest_up doc sel context [] = []"
| "closest_up doc sel context (f # fs) =
     (if Some f = context then []
      else if type_of_node doc f < 11 \<and> (case sel of Inr targets \<Rightarrow> f \<in> set targets | Inl matches \<Rightarrow> is_element doc f \<and> matches f) then [f]
      else closest_up doc sel context fs)"

definition closest_jq :: "dnode \<Rightarrow> (path list \<Rightarrow> bool) \<Rightarrow> (path \<Rightarrow> bool) + path list \<Rightarrow> path option \<Rightarrow> path list \<Rightarrow> path list" where
  "closest_jq doc dup sel context this =
     (let matched = concat (map (\<lambda>e. closest_up doc sel context (e # dir_chain doc ParentNode e)) this) in
      if 1 < length matched then uniqueSort doc (dup matched) matched else matched)"

definition index_jq :: "dnode \<Rightarrow> path list \<Rightarrow> int" where
  "index_jq doc this =
     (case this of e # _ \<Rightarrow> if dir_step doc ParentNode e \<noteq> None then int (length (dir_jq doc PreviousSibling None e)) else - 1
      | [] \<Rightarrow> - 1)"

definition add_jq :: "dnode \<Rightarrow> (path list \<Rightarrow> bool) \<Rightarrow> path list \<Rightarrow> path list \<Rightarrow> path list" where
  "add_jq doc dup others this = uniqueSort doc (dup (this @ others)) (this @ others)"

datatype traversal = MParent | MParents | MParentsUntil | MNext | MPrev | MNextAll | MPrevAll | MNextUntil | MPrevUntil
  | MSiblings | MChildren | MContents

definition traverse_one :: "dnode \<Rightarrow> (path \<Rightarrow> bool) option \<Rightarrow> traversal \<Rightarrow> path \<Rightarrow> path list" where
  "traverse_one doc until t e =
     (case t of
        MParent \<Rightarrow> option_list (case dir_step doc ParentNode e of Some p \<Rightarrow> if type_of_node doc p \<noteq> 11 then Some p else None | None \<Rightarrow> None)
      | MParents \<Rightarrow> dir_jq doc ParentNode None e
      | MParentsUntil \<Rightarrow> dir_jq doc ParentNode until e
      | MNext \<Rightarrow> option_list (sibling_jq doc NextSibling e)
      | MPrev \<Rightarrow> option_list (sibling_jq doc PreviousSibling e)
      | MNextAll \<Rightarrow> dir_jq doc NextSibling None e
      | MPrevAll \<Rightarrow> dir_jq doc PreviousSibling None e
      | MNextUntil \<Rightarrow> dir_jq doc NextSibling until e
      | MPrevUntil \<Rightarrow> dir_jq doc PreviousSibling until e
      | MSiblings \<Rightarrow> siblings_jq doc (case dir_step doc ParentNode e of Some p \<Rightarrow> firstChild doc p | None \<Rightarrow> None) (Some e)
      | MChildren \<Rightarrow> siblings_jq doc (firstChild doc e) None
      | MContents \<Rightarrow> map (\<lambda>i. i # e) [0..<child_count doc e])"

definition guaranteedUnique :: "traversal \<Rightarrow> bool" where
  "guaranteedUnique t \<longleftrightarrow> t \<in> {MChildren, MContents, MNext, MPrev}"

definition rparentsprev :: "traversal \<Rightarrow> bool" where
  "rparentsprev t \<longleftrightarrow> t \<in> {MParents, MParentsUntil, MPrevUntil, MPrevAll}"

definition traverse :: "dnode \<Rightarrow> (path list \<Rightarrow> bool) \<Rightarrow> traversal \<Rightarrow> (path \<Rightarrow> bool) option \<Rightarrow> (path \<Rightarrow> bool) option \<Rightarrow> path list \<Rightarrow> path list" where
  "traverse doc dup t until selector this =
     (let found = concat (map (traverse_one doc until t) this);
          matched = (case selector of Some matches \<Rightarrow> filter_expr doc matches False found | None \<Rightarrow> found)
      in if 1 < length this then
           (let unique = (if guaranteedUnique t then matched else uniqueSort doc (dup matched) matched) in
            if rparentsprev t then rev unique else unique)
         else matched)"

section \<open>Order of the nodes that are reached\<close>

lemma filter_expr_elements: "filter_expr doc matches negated elems = filter (\<lambda>e. is_element doc e \<and> matches e \<noteq> negated) elems"
  by (cases elems) (auto simp: filter_expr_def Let_def length_Suc_conv)

lemma sibling_before [simp]: "doc_before (i # p) (j # p) \<longleftrightarrow> i < j"
  by (simp add: doc_before_def)

lemma sorted_siblings: "sorted_wrt doc_before (map (\<lambda>j. j # p) [i..<n])"
  by (simp add: sorted_wrt_map sorted_wrt_upt)

lemma dir_chain_Nil: "dir_chain doc d [] = []"
  by (subst dir_chain.simps) simp

lemma sorted_parents: "sorted_wrt doc_before (rev (dir_chain doc ParentNode e))"
proof (induction e)
  case (Cons i p)
  have "dir_chain doc ParentNode (i # p) = p # dir_chain doc ParentNode p" by (subst dir_chain.simps) simp
  then show ?case using Cons by (auto simp: sorted_wrt_append dir_chain_parent intro: strict_suffix_before)
qed (simp add: dir_chain_Nil)

definition in_order :: "direction \<Rightarrow> path list \<Rightarrow> bool" where
  "in_order d xs = sorted_wrt doc_before (if d = NextSibling then xs else rev xs)"

lemma child_exists: "node_at doc (i # p) \<noteq> None \<longleftrightarrow> i < child_count doc p"
  by (auto simp: child_count_def split: option.splits)

lemma child_exists_Some: "(\<exists>n. node_at doc (i # p) = Some n) \<longleftrightarrow> i < child_count doc p"
  using child_exists [of doc i p] by (simp del: node_at.simps)

lemma child_existsD: "node_at doc (i # p) = Some n \<Longrightarrow> i < child_count doc p"
  using child_exists_Some by blast

lemma in_order_chain: "node_at doc e \<noteq> None \<Longrightarrow> in_order d (dir_chain doc d e)"
proof (cases d)
  case PreviousSibling
  then show ?thesis by (cases e) (auto simp: in_order_def dir_chain_previous dir_chain_Nil rev_map sorted_siblings)
next
  case NextSibling
  assume "node_at doc e \<noteq> None"
  then show ?thesis using NextSibling
    by (cases e) (auto simp: in_order_def dir_chain_next dir_chain_Nil sorted_siblings dest: child_existsD simp del: node_at.simps)
qed (simp add: in_order_def sorted_parents)

lemma in_order_subseq: "subseq xs ys \<Longrightarrow> in_order d ys \<Longrightarrow> in_order d xs"
  by (auto simp: in_order_def sorted_wrt_rev intro: sorted_wrt_subseq)

lemma chain_exists: "node_at doc e \<noteq> None \<Longrightarrow> f \<in> set (dir_chain doc d e) \<Longrightarrow> node_at doc f \<noteq> None"
proof (cases d)
  case ParentNode
  assume e: "node_at doc e \<noteq> None" "f \<in> set (dir_chain doc d e)"
  then obtain q where "e = q @ f" using ParentNode by (auto simp: dir_chain_parent strict_suffix_def suffix_def)
  then show ?thesis using e(1) by (auto simp: node_at_append split: option.splits)
next
  case PreviousSibling
  assume e: "node_at doc e \<noteq> None" "f \<in> set (dir_chain doc d e)"
  then show ?thesis using PreviousSibling by (cases e) (auto simp: dir_chain_previous dir_chain_Nil child_exists_Some dest: child_existsD simp del: node_at.simps)
next
  case NextSibling
  assume e: "node_at doc e \<noteq> None" "f \<in> set (dir_chain doc d e)"
  then show ?thesis using NextSibling by (cases e) (auto simp: dir_chain_next dir_chain_Nil child_exists_Some dest: child_existsD simp del: node_at.simps)
qed

lemma dir_loop_subseq: "subseq (dir_loop doc until fs) fs"
  by (induction fs) auto

lemma dir_jq_facts:
  assumes "node_at doc e \<noteq> None"
  shows "in_order d (dir_jq doc d until e)" "f \<in> set (dir_jq doc d until e) \<Longrightarrow> node_at doc f \<noteq> None"
proof -
  have sub: "subseq (dir_jq doc d until e) (dir_chain doc d e)" by (simp add: dir_jq_def dir_loop_subseq)
  then show "in_order d (dir_jq doc d until e)" using in_order_subseq in_order_chain [OF assms] by blast
  show "f \<in> set (dir_jq doc d until e) \<Longrightarrow> node_at doc f \<noteq> None"
    using chain_exists [OF assms] subseq_set_subset [OF sub] by blast
qed

lemma children_list: "siblings_jq doc (firstChild doc p) elem = filter (\<lambda>g. is_element doc g \<and> Some g \<noteq> elem) (map (\<lambda>j. j # p) [0..<child_count doc p])"
proof (cases "child_count doc p")
  case (Suc n)
  have "map (\<lambda>j. j # p) [0..<child_count doc p] = (0 # p) # dir_chain doc NextSibling (0 # p)"
    using Suc upt_conv_Cons [of 0 "child_count doc p"] by (simp add: dir_chain_next)
  then show ?thesis using Suc by (simp add: siblings_jq_def firstChild_def)
qed (simp add: siblings_jq_def firstChild_def)

lemma first_element_in: "first_element doc fs = Some f \<Longrightarrow> f \<in> set fs \<and> is_element doc f"
  by (induction fs) (auto split: if_splits)

definition traverse_dir :: "traversal \<Rightarrow> direction" where
  "traverse_dir t = (if rparentsprev t then PreviousSibling else NextSibling)"

lemma in_order_traverse_one:
  assumes "node_at doc e \<noteq> None"
  shows "in_order (traverse_dir t) (traverse_one doc until t e)"
proof -
  have one: "sorted_wrt doc_before (option_list x)" for x :: "path option" by (cases x) (auto simp: option_list_def)
  have all: "in_order NextSibling (siblings_jq doc (firstChild doc p) x)" for p x
    unfolding children_list by (rule in_order_subseq [OF subseq_filter_left]) (simp add: in_order_def sorted_siblings)
  have none: "in_order NextSibling (siblings_jq doc None x)" for x by (simp add: siblings_jq_def in_order_def)
  note dir = dir_jq_facts(1) [OF assms]
  show ?thesis
    using one all none dir [of NextSibling] dir [of PreviousSibling] dir [of ParentNode]
    by (cases t) (auto simp: traverse_one_def traverse_dir_def rparentsprev_def in_order_def sorted_siblings split: option.split)
qed

lemma traverse_one_exists:
  assumes "node_at doc e \<noteq> None" "f \<in> set (traverse_one doc until t e)"
  shows "node_at doc f \<noteq> None"
proof -
  have child: "f \<in> set (siblings_jq doc (firstChild doc p) x) \<Longrightarrow> node_at doc f \<noteq> None" for p x
    unfolding children_list by (auto simp: child_exists_Some simp del: node_at.simps)
  have none: "set (siblings_jq doc None x) = {}" for x by (simp add: siblings_jq_def)
  have first: "f \<in> set (option_list (sibling_jq doc d e)) \<Longrightarrow> node_at doc f \<noteq> None" for d
    using first_element_in [of doc "dir_chain doc d e" f] chain_exists [OF assms(1), of f d]
    by (auto simp: sibling_jq_def option_list_def split: option.splits)
  have parent: "dir_step doc ParentNode e = Some f \<Longrightarrow> node_at doc f \<noteq> None"
    using assms(1) by (cases e) (auto split: option.splits)
  show ?thesis using assms(2) child none first parent dir_jq_facts(2) [OF assms(1)]
    by (cases t) (auto simp: traverse_one_def option_list_def child_exists_Some simp del: node_at.simps split: option.splits if_splits)
qed

text \<open>What a traversal has found before the sort.\<close>

definition traverse_found :: "dnode \<Rightarrow> traversal \<Rightarrow> (path \<Rightarrow> bool) option \<Rightarrow> (path \<Rightarrow> bool) option \<Rightarrow> path list \<Rightarrow> path list" where
  "traverse_found doc t until selector this =
     filter (\<lambda>f. case selector of Some matches \<Rightarrow> is_element doc f \<and> matches f | None \<Rightarrow> True) (concat (map (traverse_one doc until t) this))"

lemma traverse_unfold:
  "traverse doc dup t until selector this =
     (let matched = traverse_found doc t until selector this in
      if 1 < length this then
        (let unique = (if guaranteedUnique t then matched else uniqueSort doc (dup matched) matched) in
         if rparentsprev t then rev unique else unique)
      else matched)"
  by (cases selector) (simp_all add: traverse_def traverse_found_def filter_expr_elements Let_def)

text \<open>The methods whose results are sorted: each node that is reached from some node of the set, once, in document order or its reverse.\<close>

lemma traversal_sorted:
  assumes "node_type doc = 9" "\<forall>e \<in> set this. node_at doc e \<noteq> None" "\<forall>xs. distinct xs \<or> dup xs" "\<not> guaranteedUnique t"
  shows "set (traverse doc dup t until selector this) =
       {f. \<exists>e \<in> set this. f \<in> set (traverse_one doc until t e) \<and> (case selector of Some matches \<Rightarrow> is_element doc f \<and> matches f | None \<Rightarrow> True)} \<and>
     sorted_wrt doc_before (if rparentsprev t then rev (traverse doc dup t until selector this) else traverse doc dup t until selector this)"
proof -
  let ?found = "traverse_found doc t until selector this"
  have set: "set ?found = {f. \<exists>e \<in> set this. f \<in> set (traverse_one doc until t e) \<and> (case selector of Some matches \<Rightarrow> is_element doc f \<and> matches f | None \<Rightarrow> True)}"
    by (auto simp: traverse_found_def)
  have exist: "node_at doc f \<noteq> None" if "f \<in> set ?found" for f using that assms(2) traverse_one_exists unfolding set by blast
  note unique = uniqueSort_ordered [OF assms(1), of ?found "dup ?found", OF exist]
  show ?thesis
  proof (cases "1 < length this")
    case True
    then show ?thesis using unique assms(3,4) set by (auto simp: traverse_unfold Let_def)
  next
    case False
    have "in_order (traverse_dir t) ?found"
    proof (cases this)
      case (Cons e es)
      then have "es = []" using False by simp
      then show ?thesis using in_order_traverse_one [of doc e t until] assms(2) Cons
        by (auto simp: traverse_found_def intro: in_order_subseq [OF subseq_filter_left])
    qed (simp add: traverse_found_def in_order_def)
    then show ?thesis using False set by (auto simp: traverse_unfold Let_def in_order_def traverse_dir_def split: if_splits)
  qed
qed

section \<open>Methods that keep sets unique\<close>

lemma first_element_next:
  assumes "first_element doc (dir_chain doc NextSibling (i # p)) = Some f" "i < child_count doc p"
  obtains k where "f = k # p" "i < k" "is_element doc f" "\<And>j. i < j \<Longrightarrow> j < k \<Longrightarrow> \<not> is_element doc (j # p)"
proof -
  have "first_element doc (map (\<lambda>j. j # p) [Suc i..<n]) = Some f \<Longrightarrow>
     \<exists>k. f = k # p \<and> i < k \<and> is_element doc f \<and> (\<forall>j. i < j \<and> j < k \<longrightarrow> \<not> is_element doc (j # p))" for n
  proof (induction "n - Suc i" arbitrary: i)
    case (Suc m)
    then have "[Suc i..<n] = Suc i # [Suc (Suc i)..<n]" by (simp add: upt_conv_Cons)
    then have first: "first_element doc (map (\<lambda>j. j # p) [Suc i..<n]) =
        (if is_element doc (Suc i # p) then Some (Suc i # p) else first_element doc (map (\<lambda>j. j # p) [Suc (Suc i)..<n]))" by simp
    have m: "m = n - Suc (Suc i)" using Suc.hyps(2) by simp
    show ?case
    proof (cases "is_element doc (Suc i # p)")
      case True
      then show ?thesis using Suc.prems first by auto
    next
      case False
      then obtain k where "f = k # p" "Suc i < k" "is_element doc f" "\<forall>j. Suc i < j \<and> j < k \<longrightarrow> \<not> is_element doc (j # p)"
        using Suc.hyps(1) [OF m] Suc.prems first by auto
      then show ?thesis using False by (metis Suc_lessD Suc_lessI)
    qed
  qed simp
  then have "\<exists>k. f = k # p \<and> i < k \<and> is_element doc f \<and> (\<forall>j. i < j \<and> j < k \<longrightarrow> \<not> is_element doc (j # p))"
    using assms by (simp add: dir_chain_next)
  then show ?thesis using that by blast
qed

lemma next_injective:
  assumes "sibling_jq doc NextSibling e = Some f" "sibling_jq doc NextSibling e' = Some f" "is_element doc e" "is_element doc e'"
  shows "e = e'"
proof (cases e; cases e')
  fix i p j q assume e: "e = i # p" "e' = j # q"
  note bounds = is_element_child [OF assms(3) [unfolded e]] is_element_child [OF assms(4) [unfolded e]]
  obtain k where k: "f = k # p" "i < k" "\<And>m. i < m \<Longrightarrow> m < k \<Longrightarrow> \<not> is_element doc (m # p)"
    by (rule first_element_next [of doc i p f]) (use assms(1) bounds e in \<open>auto simp: sibling_jq_def\<close>)
  obtain l where l: "f = l # q" "j < l" "\<And>m. j < m \<Longrightarrow> m < l \<Longrightarrow> \<not> is_element doc (m # q)"
    by (rule first_element_next [of doc j q f]) (use assms(2) bounds e in \<open>auto simp: sibling_jq_def\<close>)
  have "i = j" using k l assms(3,4) e by (metis linorder_neqE_nat list.inject)
  then show ?thesis using k(1) l(1) e by simp
qed (use assms in \<open>auto simp: sibling_jq_def dir_chain_Nil\<close>)

lemma first_element_previous:
  "first_element doc (dir_chain doc PreviousSibling (i # p)) = Some f \<Longrightarrow>
   \<exists>k. f = k # p \<and> k < i \<and> is_element doc f \<and> (\<forall>j. k < j \<and> j < i \<longrightarrow> \<not> is_element doc (j # p))"
proof (induction i)
  case (Suc i)
  then show ?case by (cases "is_element doc (i # p)") (auto simp: dir_chain_previous less_Suc_eq)
qed (simp add: dir_chain_previous)

lemma previous_injective:
  assumes "sibling_jq doc PreviousSibling e = Some f" "sibling_jq doc PreviousSibling e' = Some f" "is_element doc e" "is_element doc e'"
  shows "e = e'"
proof (cases e; cases e')
  fix i p j q assume e: "e = i # p" "e' = j # q"
  obtain k where k: "f = k # p" "k < i" "\<And>m. k < m \<Longrightarrow> m < i \<Longrightarrow> \<not> is_element doc (m # p)"
    using first_element_previous [of doc i p f] assms(1) e by (auto simp: sibling_jq_def)
  obtain l where l: "f = l # q" "l < j" "\<And>m. l < m \<Longrightarrow> m < j \<Longrightarrow> \<not> is_element doc (m # q)"
    using first_element_previous [of doc j q f] assms(2) e by (auto simp: sibling_jq_def)
  have "i = j" using k l assms(3,4) e by (metis linorder_neqE_nat list.inject)
  then show ?thesis using k(1) l(1) e by simp
qed (use assms in \<open>auto simp: sibling_jq_def dir_chain_Nil\<close>)

lemma set_option_list: "f \<in> set (option_list x) \<longleftrightarrow> x = Some f"
  by (auto simp: option_list_def split: option.split)

lemma distinct_concat_map:
  assumes "distinct xs" "\<And>x. x \<in> set xs \<Longrightarrow> distinct (f x)" "\<And>x y. x \<in> set xs \<Longrightarrow> y \<in> set xs \<Longrightarrow> x \<noteq> y \<Longrightarrow> set (f x) \<inter> set (f y) = {}"
  shows "distinct (concat (map f xs))"
  using assms by (induction xs) auto

text \<open>The methods that are said to keep a set unique do so for sets of elements: \<open>children\<close>, \<open>contents\<close>, \<open>next\<close> and \<open>prev\<close> of different elements
  have no node in common.
\<close>

lemma guaranteed_unique_elements:
  assumes "guaranteedUnique t" "distinct this" "\<forall>e \<in> set this. is_element doc e"
  shows "distinct (traverse doc dup t until selector this)"
proof -
  have "distinct (concat (map (traverse_one doc until t) this))"
  proof (rule distinct_concat_map [OF assms(2)])
    fix x assume "x \<in> set this"
    show "distinct (traverse_one doc until t x)" using assms(1)
      by (auto simp: guaranteedUnique_def traverse_one_def option_list_def children_list distinct_map inj_on_def split: option.split)
    fix y assume y: "x \<in> set this" "y \<in> set this" "x \<noteq> y"
    show "set (traverse_one doc until t x) \<inter> set (traverse_one doc until t y) = {}"
      using assms(1,3) y next_injective [of doc x _ y] previous_injective [of doc x _ y]
      by (auto simp: guaranteedUnique_def traverse_one_def set_option_list children_list)
  qed
  then have "distinct (traverse_found doc t until selector this)" by (simp add: traverse_found_def)
  then show ?thesis using assms(1) by (simp add: traverse_unfold Let_def)
qed

lemma traversal_set:
  "set (traverse doc dup t until selector this) =
     (if 1 < length this \<and> \<not> guaranteedUnique t
      then set (uniqueSort doc (dup (traverse_found doc t until selector this)) (traverse_found doc t until selector this))
      else set (traverse_found doc t until selector this))"
  by (simp add: traverse_unfold Let_def)

text \<open>C21:
  A traversal from a set of nodes reaches exactly what it reaches from each of them.  For \<open>parent\<close>, \<open>parents\<close>, \<open>siblings\<close>, \<open>nextAll\<close>, \<open>prevAll\<close> and
  the variants with \<open>until\<close> it does so once and in document order, in reverse for ancestors and preceding siblings; the order is the same
  for sets with one node, which are not sorted.  The results of \<open>children\<close>, \<open>contents\<close>, \<open>next\<close> and \<open>prev\<close> are not sorted; they are without
  duplicates when the set has none and consists of elements (with text nodes in it they may repeat).  The sort has to notice duplicates.
\<close>

theorem traversal_ordered:
  assumes "node_type doc = 9" "\<forall>e \<in> set this. node_at doc e \<noteq> None" "\<forall>xs. distinct xs \<or> dup xs"
  shows "set (traverse doc dup t until selector this) =
       {f. \<exists>e \<in> set this. f \<in> set (traverse_one doc until t e) \<and> (case selector of Some matches \<Rightarrow> is_element doc f \<and> matches f | None \<Rightarrow> True)} \<and>
     (if guaranteedUnique t
      then distinct this \<and> (\<forall>e \<in> set this. is_element doc e) \<longrightarrow> distinct (traverse doc dup t until selector this)
      else sorted_wrt doc_before
        (if rparentsprev t then rev (traverse doc dup t until selector this) else traverse doc dup t until selector this))"
proof (cases "guaranteedUnique t")
  case True
  have "set (traverse doc dup t until selector this) =
      {f. \<exists>e \<in> set this. f \<in> set (traverse_one doc until t e) \<and> (case selector of Some matches \<Rightarrow> is_element doc f \<and> matches f | None \<Rightarrow> True)}"
    using True by (auto simp: traversal_set traverse_found_def)
  then show ?thesis using True guaranteed_unique_elements [OF True] by simp
next
  case False
  with traversal_sorted [OF assms False] show ?thesis by simp
qed

theorem traversal_ordered_witness:
  "set (traverse spans_and_paragraph (\<lambda>_. True) MParents None None [[0, 0], [2, 0]]) =
     {f. \<exists>e \<in> {[0, 0], [2, 0]}. f \<in> set (traverse_one spans_and_paragraph None MParents e)} \<and>
   sorted_wrt doc_before (rev (traverse spans_and_paragraph (\<lambda>_. True) MParents None None [[0, 0], [2, 0]])) \<and>
   distinct (traverse spans_and_paragraph (\<lambda>_. True) MNext None None [[0, 0], [1, 0]])"
proof -
  have ok: "node_type spans_and_paragraph = 9" "\<forall>e \<in> set [[0, 0], [2, 0]]. node_at spans_and_paragraph e \<noteq> None"
      "\<forall>e \<in> set [[0, 0], [1, 0]]. node_at spans_and_paragraph e \<noteq> None"
      "\<forall>e \<in> set [[0, 0], [1, 0]]. is_element spans_and_paragraph e"
    by (simp_all add: spans_and_paragraph_def is_element_def)
  from traversal_ordered [OF ok(1,2), of "\<lambda>_. True" MParents None None]
    traversal_ordered [OF ok(1,3), of "\<lambda>_. True" MNext None None] ok(4)
  show ?thesis by (simp add: guaranteedUnique_def rparentsprev_def)
qed

text \<open>A paragraph with an image, a text and an image.\<close>

definition image_text_image :: dnode where
  "image_text_image = DNode 9 [] [] [] [DNode 1 [80] [] [] [DNode 1 [73] [] [] [], DNode 3 [] [] [120] [], DNode 1 [73] [] [] []]]"

text \<open>For sets with text nodes, which \<open>contents\<close> returns, \<open>next\<close> is not unique although the code relies on it: the contents of a
  paragraph with an image, a text and an image are three different nodes, and the last image is next to two of them.
\<close>

theorem next_repeats_after_text:
  "traverse image_text_image (\<lambda>xs. \<not> distinct xs) MContents None None [[0]] = [[0, 0], [1, 0], [2, 0]] \<and>
   traverse image_text_image (\<lambda>xs. \<not> distinct xs) MNext None None [[0, 0], [1, 0], [2, 0]] = [[2, 0], [2, 0]]"
  by (intro conjI; code_simp)

section \<open>Searching below several nodes\<close>

lemma before_below: "q \<noteq> [] \<Longrightarrow> doc_before (i # p) (q @ i # p)"
  by (intro strict_suffix_before) (auto simp: strict_suffix_def suffix_def)

lemma before_sibling_trees: "i < j \<Longrightarrow> doc_before (q @ i # p) (r @ j # p)"
  by (simp add: doc_before_def)

lemma elements_sorted:
  "sorted_wrt doc_before (elements_in p n)" "sorted_wrt doc_before (elements_among p i cs)"
proof (induction p n and p i cs rule: elements_in_elements_among.induct)
  case (3 p i c cs)
  have below: "\<exists>q. q \<noteq> [] \<and> f = q @ i # p" if "f \<in> set (elements_in (i # p) c)" for f
    using that by (auto simp: elements_sub)
  have later: "\<exists>q j. i < j \<and> f = q @ j # p" if "f \<in> set (elements_among p (Suc i) cs)" for f
  proof -
    obtain q j where "f = q @ (Suc i + j) # p" using \<open>f \<in> _\<close> by (auto simp: elements_sub)
    then show ?thesis by (intro exI [of _ q] exI [of _ "Suc i + j"]) simp
  qed
  have "doc_before f g" if "f \<in> set (elements_in (i # p) c)" "g \<in> set (elements_among p (Suc i) cs)" for f g
    using below [OF that(1)] later [OF that(2)] before_sibling_trees by blast
  moreover have "doc_before (i # p) g" if "g \<in> set (elements_among p (Suc i) cs)" for g
    using later [OF that] before_sibling_trees [of i _ "[]"] by auto
  moreover have "doc_before (i # p) f" if "f \<in> set (elements_in (i # p) c)" for f using below [OF that] before_below by blast
  ultimately show ?case using 3 by (auto simp: sorted_wrt_append)
qed auto

lemma all_elements_sorted: "sorted_wrt doc_before (all_elements doc p)"
  by (simp add: all_elements_def elements_sorted split: option.split)

text \<open>The parts of a document and elements can be asked for the elements below them.\<close>

definition testContext :: "dnode \<Rightarrow> path option \<Rightarrow> path option" where
  "testContext doc p =
     (case p of Some q \<Rightarrow> if type_of_node doc q \<in> {1, 9} then Some q else None | None \<Rightarrow> None)"

definition rsibling :: "units \<Rightarrow> bool" where
  "rsibling s \<longleftrightarrow> list_ex (\<lambda>u. u = 43 \<or> u = 126) s"

text \<open>The node below which candidates are searched: for a selector text with a plus or a tilde the parent of the context.\<close>

definition outermost_of :: "dnode \<Rightarrow> units \<Rightarrow> path \<Rightarrow> path" where
  "outermost_of doc selector c =
     (if rsibling selector then (case testContext doc (dir_step doc ParentNode c) of Some p \<Rightarrow> p | None \<Rightarrow> c) else c)"

text \<open>
  The query of \<open>find\<close> from one node: the compiled selector, when \<open>select\<close> has no seed.  Nodes other than elements, documents and
  fragments find nothing.
\<close>

definition compiled_query :: "dnode \<Rightarrow> units \<Rightarrow> matcher list \<Rightarrow> bool \<Rightarrow> path \<Rightarrow> sizzle_state \<Rightarrow> path list \<times> sizzle_state" where
  "compiled_query doc selector ms xml c st =
     (if type_of_node doc c \<notin> {1, 9, 11} then ([], st)
      else superMatcher doc ms (CtxNode c) xml (all_elements doc (outermost_of doc selector c)) st)"

lemma find_each_selects:
  assumes "\<And>c st. runs_past st \<Longrightarrow> fst (query c st) = R c \<and> runs_past (snd (query c st))"
  shows "runs_past st \<Longrightarrow> fst (find_each query cs ret st) = ret @ concat (map R cs) \<and> runs_past (snd (find_each query cs ret st))"
proof (induction cs arbitrary: ret st)
  case (Cons c cs)
  obtain st' where "query c st = (R c, st')" "runs_past st'" using assms [OF Cons.prems] by (metis prod.collapse)
  then show ?case using Cons.IH [of st' "ret @ R c"] by simp
qed simp

text \<open>The candidates of a context: the elements below it, or below its parent for a text with a plus or a tilde.\<close>

definition in_reach :: "dnode \<Rightarrow> units \<Rightarrow> path \<Rightarrow> path \<Rightarrow> bool" where
  "in_reach doc selector c e \<longleftrightarrow>
     is_element doc e \<and> type_of_node doc c \<in> {1, 9, 11} \<and>
     strict_suffix (if c \<noteq> [] \<and> type_of_node doc (tl c) \<in> {1, 9} \<and> (43 \<in> set selector \<or> 126 \<in> set selector) then tl c else c) e"

lemma outermost_of_eq:
  "outermost_of doc selector c =
     (if c \<noteq> [] \<and> type_of_node doc (tl c) \<in> {1, 9} \<and> (43 \<in> set selector \<or> 126 \<in> set selector) then tl c else c)"
  by (cases c) (auto simp: outermost_of_def testContext_def rsibling_def list_ex_iff)

lemma all_elements_suffix: "e \<in> set (all_elements doc p) \<longleftrightarrow> is_element doc e \<and> strict_suffix p e"
  unfolding all_elements_below by (auto simp: strict_suffix_def suffix_def)

lemma compiled_query_selects:
  assumes "compile doc custom d groups = Inr (ms, d')" "doc_ok doc" "\<forall>g \<in> set groups. no_cached_last xml g" "runs_past st"
  shows "fst (compiled_query doc selector ms xml c st) =
      (if type_of_node doc c \<notin> {1, 9, 11} then []
       else filter (\<lambda>e. \<exists>g \<in> set groups. selects doc custom (outer_of doc (CtxNode c)) (CtxNode c) xml g e)
              (all_elements doc (outermost_of doc selector c)))
    \<and> runs_past (snd (compiled_query doc selector ms xml c st))"
proof -
  have "set (all_elements doc (outermost_of doc selector c)) \<subseteq> elements doc"
    using all_elements_below [of doc "outermost_of doc selector c"] by auto
  with superMatcher_selects [OF assms(1,2) _ assms(4), of xml] assms(3,4) show ?thesis
    unfolding compiled_query_def by simp
qed

text \<open>C20:
  \<open>find\<close> on a set of nodes with the text of a selector that is tokenized and compiled: run from each node in turn, over caches left by the
  earlier runs, it gives in document order and without duplicates the elements that the selector describes with
  some node of the set as context, among the elements below that node, or below its parent when the text has a plus or a tilde.
  This is the way of \<open>Sizzle\<close> without seed and native shortcuts; HTML \<open>:nth-last-child\<close> is excluded.
\<close>

theorem find_compiled:
  assumes "compile_selector doc custom d selector = Inr (ms, d')" "tokenize selector = Inr match"
    "doc_ok doc" "\<forall>g \<in> set match. no_cached_last xml (map snd g)" "runs_past st"
    "node_type doc = 9" "\<forall>xs. distinct xs \<or> dup xs"
  shows "set (fst (find_jq doc dup (compiled_query doc selector ms xml) this st)) =
       {e. \<exists>c \<in> set this. in_reach doc selector c e \<and>
          (\<exists>g \<in> set match. selects doc custom (outer_of doc (CtxNode c)) (CtxNode c) xml (map snd g) e)} \<and>
     sorted_wrt doc_before (fst (find_jq doc dup (compiled_query doc selector ms xml) this st))"
proof -
  let ?groups = "map (map snd) match" and ?query = "compiled_query doc selector ms xml"
  let ?sel = "\<lambda>c e. \<exists>g \<in> set ?groups. selects doc custom (outer_of doc (CtxNode c)) (CtxNode c) xml g e"
  define R where "R c = (if type_of_node doc c \<notin> {1, 9, 11} then []
    else filter (?sel c) (all_elements doc (outermost_of doc selector c)))" for c
  have ms: "compile doc custom d ?groups = Inr (ms, d')"
    using assms(1,2) by (auto simp: compile_selector_def split: sum.splits)
  have "fst (?query c st) = R c \<and> runs_past (snd (?query c st))" if "runs_past st" for c st
    unfolding R_def by (rule compiled_query_selects [OF ms assms(3) _ that]) (use assms(4) in auto)
  then have "fst (find_each ?query this [] st) = concat (map R this)"
    using find_each_selects [of ?query R st this "[]"] assms(5) by simp
  then have fst: "fst (find_jq doc dup ?query this st) =
     (let ret = concat (map R this) in if 1 < length this then uniqueSort doc (dup ret) ret else ret)"
    by (auto simp: find_jq_def Let_def split: prod.split)
  have exist: "node_at doc e \<noteq> None" if "e \<in> set (concat (map R this))" for e
    using that all_elements_below [of doc] by (fastforce simp: R_def is_element_def split: option.splits if_splits)
  have one: "sorted_wrt doc_before (R c)" for c
    unfolding R_def by (auto intro!: sorted_wrt_filter all_elements_sorted)
  have "set (R c) = {e. in_reach doc selector c e \<and> ?sel c e}" for c
    by (rule set_eqI) (simp add: R_def all_elements_suffix in_reach_def outermost_of_eq)
  then have "set (concat (map R this)) = {e. \<exists>c \<in> set this. in_reach doc selector c e \<and> ?sel c e}" by auto
  moreover have "sorted_wrt doc_before (concat (map R this))" if "\<not> 1 < length this" using that one by (cases this) auto
  moreover have "set (uniqueSort doc (dup (concat (map R this))) (concat (map R this))) = set (concat (map R this)) \<and>
      sorted_wrt doc_before (uniqueSort doc (dup (concat (map R this))) (concat (map R this)))"
    using uniqueSort_ordered [OF assms(6), of "concat (map R this)" "dup (concat (map R this))"] exist assms(7) by blast
  ultimately show ?thesis by (simp add: fst Let_def)
qed

theorem find_compiled_witness:
  "\<exists>ms d'. compile_selector spans_and_paragraph (\<lambda>_ _. None) 0 [126, 42] = Inr (ms, d') \<and>
     [2, 0] \<in> set (fst (find_jq spans_and_paragraph (\<lambda>xs. \<not> distinct xs) (compiled_query spans_and_paragraph [126, 42] ms False)
       [[0, 0], [1, 0]] no_caches))"
proof -
  let ?doc = "spans_and_paragraph" and ?match = "[[([126], Relative RelSibling), ([42], Filter (TTag [42]))]]"
  have match: "tokenize [126, 42] = Inr ?match" by code_simp
  obtain ms d' where ms: "compile ?doc (\<lambda>_ _. None) 0 (map (map snd) ?match) = Inr (ms, d')"
    by (simp add: compile_def matcherFromTokens_def leading_relative_def expr_filter_def)
  then have compiled: "compile_selector ?doc (\<lambda>_ _. None) 0 [126, 42] = Inr (ms, d')"
    using match by (simp add: compile_selector_def)
  have ok: "doc_ok ?doc" "runs_past no_caches" "\<forall>g \<in> set ?match. no_cached_last False (map snd g)" "node_type ?doc = 9"
    by (simp_all add: doc_ok_def spans_and_paragraph_def runs_past_def no_caches_def no_cached_last_def)
  have reach: "in_reach ?doc [126, 42] [0, 0] [2, 0]"
    by (simp add: in_reach_def is_element_def type_of_node_def spans_and_paragraph_def strict_suffix_def suffix_def)
  have sel: "selects ?doc (\<lambda>_ _. None) (outer_of ?doc (CtxNode [0, 0])) (CtxNode [0, 0]) False (map snd (hd ?match)) [2, 0]"
    by (auto simp: selects_def leading_relative_def in_context_def context_nodes_def base_related_def filter_holds_def filter_TAG_def is_element_def
        spans_and_paragraph_def)
  have "[2, 0] \<in> {e. \<exists>c \<in> set [[0, 0], [1, 0]]. in_reach ?doc [126, 42] c e \<and>
      (\<exists>g \<in> set ?match. selects ?doc (\<lambda>_ _. None) (outer_of ?doc (CtxNode c)) (CtxNode c) False (map snd g) e)}"
    using reach sel by auto
  with find_compiled [OF compiled match ok(1,3,2,4), of "\<lambda>xs. \<not> distinct xs" "[[0, 0], [1, 0]]"] compiled
  show ?thesis by blast
qed

section \<open>Filters, ancestors and places\<close>

lemma mset_grep_partition: "mset (grep_indexed (\<lambda>i e. f i e \<noteq> False) xs) + mset (grep_indexed (\<lambda>i e. f i e \<noteq> True) xs) = mset xs"
proof -
  have "mset (map snd (filter P zs)) + mset (map snd (filter (\<lambda>z. \<not> P z) zs)) = mset (map snd zs)" for P and zs :: "(nat \<times> path) list"
    by (induction zs) auto
  from this [of "\<lambda>(i, e). f i e" "zip [0..<length xs] xs"] show ?thesis by (simp add: grep_indexed_def case_prod_unfold)
qed

text \<open>
  \<open>filter\<close> and \<open>not\<close> split a set of elements.  Nodes that are not elements are kept by neither when the qualifier is a selector.
\<close>

lemma winnow_partition:
  assumes "(\<forall>e \<in> set xs. is_element doc e) \<or> (\<forall>m. q \<noteq> QSelector m)"
  shows "mset (winnow doc q False xs) + mset (winnow doc q True xs) = mset xs"
proof (cases q)
  case (QSelector m)
  then have "\<forall>e \<in> set xs. is_element doc e" using assms by blast
  then have "winnow doc q b xs = filter (\<lambda>e. m e \<noteq> b) xs" for b
    using QSelector by (simp add: winnow_def filter_expr_elements cong: filter_cong)
  then show ?thesis using multiset_partition [of "mset xs" m] by simp
qed (use mset_grep_partition [of _ xs] mset_grep_partition [of "\<lambda>i e. e = _" xs] in \<open>simp_all add: winnow_def mset_grep_partition\<close>)

text \<open>\<open>closest\<close> takes the nearest candidate below the context.\<close>

lemma closest_up_nearest:
  "closest_up doc sel context fs =
     take 1 (filter (\<lambda>f. type_of_node doc f < 11 \<and> (case sel of Inr targets \<Rightarrow> f \<in> set targets | Inl matches \<Rightarrow> is_element doc f \<and> matches f))
       (takeWhile (\<lambda>f. Some f \<noteq> context) fs))"
  by (induction fs) auto

lemma dir_loop_elements: "(\<And>f. f \<in> set fs \<Longrightarrow> type_of_node doc f \<noteq> 9) \<Longrightarrow> dir_loop doc None fs = filter (is_element doc) fs"
  by (induction fs) auto

text \<open>\<open>index\<close> is the place among the elements of the parent, counted from zero.\<close>

lemma index_place:
  assumes "is_element doc (i # p)" "\<And>j. j < i \<Longrightarrow> type_of_node doc (j # p) \<noteq> 9"
  shows "index_jq doc ((i # p) # rest) + 1 = int (place (is_element doc) (i # p))"
proof -
  have "dir_jq doc PreviousSibling None (i # p) = filter (is_element doc) (map (\<lambda>j. j # p) (rev [0..<i]))"
    unfolding dir_jq_def dir_chain_previous by (rule dir_loop_elements) (use assms(2) in auto)
  then have "length (dir_jq doc PreviousSibling None (i # p)) = length (filter (\<lambda>j. is_element doc (j # p)) [0..<i])"
    by (simp add: filter_map comp_def rev_filter [symmetric])
  then show ?thesis using assms(1) by (simp add: index_jq_def place_def)
qed

text \<open>Both variants of \<open>contains\<close> say whether one node is a proper ancestor of the other, in a document with one outermost element.\<close>

lemma suffix_singleton: "p \<noteq> [] \<Longrightarrow> suffix [last p] p"
  by (metis append_butlast_last_id suffixI)

lemma contains_agree:
  assumes "doc_ok doc" "node_type doc = 9" "is_element doc b" "\<And>i j. is_element doc [i] \<Longrightarrow> is_element doc [j] \<Longrightarrow> i = j"
    and "\<And>p. p \<noteq> [] \<Longrightarrow> type_of_node doc p \<noteq> 9"
  shows "contains_native doc a b \<longleftrightarrow> contains_jq doc a b"
proof (cases b)
  case (Cons i p)
  have elem: "is_element doc q" if "q \<noteq> []" "suffix q p" for q
  proof -
    note q = that
    have "is_element doc (u @ q) \<Longrightarrow> is_element doc q" for u
      by (induction u) (use parent_element [OF assms(1)] q(1) in auto)
    moreover obtain u where "p = u @ q" using q(2) by (auto simp: suffix_def)
    ultimately show ?thesis using assms(3) Cons by (metis append_Cons)
  qed
  have root: "doc_elem doc = Some [last p]" if "p \<noteq> []"
  proof -
    have el: "is_element doc [last p]" using elem [of "[last p]"] suffix_singleton [OF that] by simp
    then have "[last p] \<in> set (filter (is_element doc) (map (\<lambda>i. [i]) [0..<child_count doc []]))"
      using is_element_child [of doc "last p" "[]"] by auto
    moreover have "x = [last p]" if "x \<in> set (filter (is_element doc) (map (\<lambda>i. [i]) [0..<child_count doc []]))" for x
      using that assms(4) [OF el] by auto
    ultimately obtain xs where "filter (is_element doc) (map (\<lambda>i. [i]) [0..<child_count doc []]) = [last p] # xs"
      by (metis list.exhaust list.set_intros(1) empty_iff list.set(1))
    then show ?thesis by (simp add: doc_elem_def)
  qed
  have type1: "type_of_node doc q = Suc 0 \<longleftrightarrow> is_element doc q" for q by (auto simp: type_of_node_def is_element_def split: option.split)
  have type9: "type_of_node doc q = 9 \<longleftrightarrow> q = []" for q using assms(2,5) by (cases "q = []") (auto simp: type_of_node_def)
  have chain: "contains_jq doc a b \<longleftrightarrow> suffix a p" using Cons by (simp add: contains_jq_def dir_chain_parent strict_suffix_Cons)
  show ?thesis
  proof (cases "p = []")
    case True
    then show ?thesis using Cons chain assms(2) by (auto simp: contains_native_def type1 type9 is_element_def)
  next
    case False
    then show ?thesis using Cons chain root [OF False] elem [OF False] suffix_singleton [OF False]
      by (auto simp: contains_native_def type1 type9)
  qed
qed (simp add: contains_native_def contains_jq_def dir_chain_Nil)

end
