(* ===== verification/JqueryTrigger.thy ===== *)
theory JqueryTrigger
  imports JqueryDispatch
begin

text \<open>
  Events that a program triggers, in \<open>docs/_static/jquery-3.6.0.js\<close>: \<open>jQuery.event.trigger\<close> computes the path of an event up to the
  window, serves the handlers of each element on it (theory JqueryDispatch) and the functions stored as properties (\<open>onclick\<close>), and calls
  the method of the element that has the name of the event.  Around that call \<open>jQuery.event.triggered\<close> tells the handles of all elements
  to ignore the native event the method causes.
\<close>

section \<open>State and page\<close>

text \<open>
  \<open>tr_muted\<close>: the properties that are set to \<open>null\<close> for the time of a call; \<open>tr_stoppers\<close>: where \<open>stopPropagationCallback\<close> listens.
\<close>

record trig_state =
  tr_core :: ev_state
  tr_triggered :: "string option"
  tr_muted :: "nat \<Rightarrow> string \<Rightarrow> bool"
  tr_stoppers :: "nat \<Rightarrow> string \<Rightarrow> bool"

text \<open>
  What the browser supplies: \<open>pg_owner\<close> is \<open>ownerDocument\<close> or else the document of the page, \<open>pg_view\<close> the window of a document,
  \<open>pg_link\<close> whether the name of a node is \<open>a\<close> (\<open>None\<close> for objects without a name), \<open>pg_leveraged\<close> whether a controller keeps arguments
  for the element, \<open>pg_on\<close> functions stored as properties, and \<open>pg_method\<close> the methods of elements.
\<close>

record page =
  pg_dom :: dom
  pg_isWindow :: "nat \<Rightarrow> bool"
  pg_owner :: "nat \<Rightarrow> nat"
  pg_view :: "nat \<Rightarrow> nat"
  pg_link :: "nat \<Rightarrow> bool option"
  pg_leveraged :: "nat \<Rightarrow> bool"
  pg_on :: "nat \<Rightarrow> string \<Rightarrow> (jq_event \<Rightarrow> ev_state \<Rightarrow> reply \<times> jq_event \<times> ev_state) option"
  pg_method :: "nat \<Rightarrow> string \<Rightarrow> (trig_state \<Rightarrow> nat option \<times> trig_state) option"

section \<open>The event\<close>

text \<open>The first argument: a name, or an event object, of which is known whether it has a target.\<close>

datatype trigger_arg = TypeName string | EventObject bool jq_event

definition new_event :: "string \<Rightarrow> nat \<Rightarrow> jq_event" where
  "new_event t target =
     \<lparr>e_original = None, e_simulated = False, e_type = t, e_target = target, e_related = None, e_button = 0, e_isTrigger = 0,
      e_namespace = None, e_rnamespace = None, e_prevented = False, e_stopped = False, e_immediate = False, e_result = NoReply,
      e_delegateTarget = target, e_currentTarget = target, e_handleObj = None, e_data = AUndef\<rparr>"

fun arg_type :: "trigger_arg \<Rightarrow> string" where
  "arg_type (TypeName t) = t"
| "arg_type (EventObject _ ev) = e_type ev"

fun arg_namespaces :: "trigger_arg \<Rightarrow> string list" where
  "arg_namespaces (TypeName _) = []"
| "arg_namespaces (EventObject _ ev) = (case e_namespace ev of Some ns \<Rightarrow> split_char (CHR ''.'') ns | None \<Rightarrow> [])"

text \<open>Namespaces in the name of the type replace those of the event.\<close>

definition trigger_type :: "trigger_arg \<Rightarrow> string" where
  "trigger_type arg = takeWhile (\<lambda>c. c \<noteq> CHR ''.'') (arg_type arg)"

definition trigger_namespaces :: "trigger_arg \<Rightarrow> string list" where
  "trigger_namespaces arg =
     (if CHR ''.'' \<in> set (arg_type arg) then sort (split_char (CHR ''.'') (tl (dropWhile (\<lambda>c. c \<noteq> CHR ''.'') (arg_type arg))))
      else arg_namespaces arg)"

definition prepare_event :: "trigger_arg \<Rightarrow> nat \<Rightarrow> bool \<Rightarrow> jq_event" where
  "prepare_event arg elem onlyHandlers =
     (let ns = trigger_namespaces arg; namespace = join ''.'' ns;
          ev = (case arg of
                  TypeName _ \<Rightarrow> new_event (trigger_type arg) elem
                | EventObject has_target ev \<Rightarrow> if has_target then ev else ev\<lparr>e_target := elem\<rparr>) in
      ev\<lparr>e_isTrigger := (if onlyHandlers then 2 else 3), e_namespace := Some namespace,
         e_rnamespace := (if namespace = [] then None else Some ns), e_result := NoReply\<rparr>)"

definition ontype :: "string \<Rightarrow> string option" where
  "ontype t = (if CHR '':'' \<in> set t then None else Some (''on'' @ t))"

section \<open>The path\<close>

text \<open>\<open>rfocusMorph\<close>.\<close>

definition focus_morph :: "string \<Rightarrow> bool" where
  "focus_morph s \<longleftrightarrow> s = ''focusinfocus'' \<or> s = ''focusoutblur''"

fun parent_chain :: "nat \<Rightarrow> dom \<Rightarrow> nat option \<Rightarrow> nat list option" where
  "parent_chain n d None = Some []"
| "parent_chain 0 d (Some c) = None"
| "parent_chain (Suc n) d (Some c) = map_option (Cons c) (parent_chain n d (dom_parent d c))"

definition bubbleType :: "dom \<Rightarrow> string \<Rightarrow> string" where
  "bubbleType d t = (case delegateType (special_of d t) of Some b \<Rightarrow> b | None \<Rightarrow> t)"

definition event_path :: "nat \<Rightarrow> page \<Rightarrow> bool \<Rightarrow> nat \<Rightarrow> string \<Rightarrow> nat list option" where
  "event_path n pg onlyHandlers elem t =
     (let d = pg_dom pg in
      if onlyHandlers \<or> t = ''load'' \<or> pg_isWindow pg elem then Some [elem]
      else
        map_option (\<lambda>up. let tmp = last (elem # up) in
            elem # up @ (if tmp = pg_owner pg elem then [pg_view pg tmp] else []))
          (parent_chain n d (if focus_morph (bubbleType d t @ t) then Some elem else dom_parent d elem)))"

text \<open>The element itself gets the type under which handlers are bound, those above it the type that bubbles.\<close>

definition typed_path :: "dom \<Rightarrow> string \<Rightarrow> nat list \<Rightarrow> (nat \<times> string) list" where
  "typed_path d t path =
     (case path of
        [] \<Rightarrow> []
      | elem # up \<Rightarrow> (elem, case bindType (special_of d t) of Some b \<Rightarrow> b | None \<Rightarrow> t) # map (\<lambda>cur. (cur, bubbleType d t)) up)"

section \<open>Handlers on the path\<close>

text \<open>\<open>special.trigger\<close> of clicks, \<open>focus\<close> and \<open>blur\<close>: the element is claimed by a controller before the event.\<close>

definition force_setup :: "dom \<Rightarrow> nat \<Rightarrow> string \<Rightarrow> ev_state \<Rightarrow> ev_state" where
  "force_setup d elem t st =
     (if ev_claim st elem t then st
      else case event_add d elem t (Plain TrueFn) AUndef None st of Inr st' \<Rightarrow> st' | Inl _ \<Rightarrow> st)"

definition special_trigger :: "dom \<Rightarrow> nat \<Rightarrow> string \<Rightarrow> ev_state \<Rightarrow> ev_state" where
  "special_trigger d elem t st =
     (case sp_setup (special_of d t) of
        ClaimCheckable \<Rightarrow> if dom_checkable d elem then force_setup d elem t st else st
      | ClaimFocus \<Rightarrow> force_setup d elem t st
      | _ \<Rightarrow> st)"

text \<open>The handle of an element, which all its native listeners and \<open>trigger\<close> call.\<close>

definition event_handle :: "nat \<Rightarrow> dom \<Rightarrow> behaviour_fn \<Rightarrow> string option \<Rightarrow> nat \<Rightarrow> jq_event \<Rightarrow> ev_state \<Rightarrow> dispatched option" where
  "event_handle n d beh triggered elem ev st =
     (if triggered = Some (e_type ev) then Some (None, ev, st, []) else dispatch n d beh elem ev st)"

definition jquery_handler :: "nat \<Rightarrow> page \<Rightarrow> behaviour_fn \<Rightarrow> nat \<Rightarrow> jq_event \<Rightarrow> trig_state \<Rightarrow> dispatched option" where
  "jquery_handler n pg beh cur ev ts =
     (let st = tr_core ts in
      if dict_has (get_events st cur) (e_type ev) \<and> ev_handle st cur then event_handle n (pg_dom pg) beh (tr_triggered ts) cur ev st
      else Some (None, ev, st, []))"

definition on_function :: "page \<Rightarrow> string option \<Rightarrow> nat \<Rightarrow> trig_state \<Rightarrow> (jq_event \<Rightarrow> ev_state \<Rightarrow> reply \<times> jq_event \<times> ev_state) option" where
  "on_function pg on cur ts = (case on of Some p \<Rightarrow> if tr_muted ts cur p then None else pg_on pg cur p | None \<Rightarrow> None)"

definition native_handler :: "page \<Rightarrow> string option \<Rightarrow> nat \<Rightarrow> jq_event \<Rightarrow> trig_state \<Rightarrow> nat option \<times> jq_event \<times> trig_state" where
  "native_handler pg on cur ev ts =
     (case on_function pg on cur ts of
        Some f \<Rightarrow>
          if dom_accepts (pg_dom pg) cur then
            (case f ev (tr_core ts) of
               (Raise x, ev', st') \<Rightarrow> (Some x, ev', ts\<lparr>tr_core := st'\<rparr>)
             | (r, ev', st') \<Rightarrow>
                 (None, if r = ReplyFalse then preventDefault (ev'\<lparr>e_result := r\<rparr>) else ev'\<lparr>e_result := r\<rparr>, ts\<lparr>tr_core := st'\<rparr>))
          else (None, ev, ts)
      | None \<Rightarrow> (None, ev, ts))"

type_synonym served_log = "(nat \<times> handle_obj) list"

definition visit :: "nat \<Rightarrow> page \<Rightarrow> behaviour_fn \<Rightarrow> string option \<Rightarrow> nat \<Rightarrow> jq_event \<Rightarrow> trig_state \<Rightarrow> (nat option \<times> jq_event \<times> trig_state \<times> served_log) option" where
  "visit n pg beh on cur ev ts =
     (case jquery_handler n pg beh cur ev ts of
        None \<Rightarrow> None
      | Some (Some x, ev', st', log) \<Rightarrow> Some (Some x, ev', ts\<lparr>tr_core := st'\<rparr>, log)
      | Some (None, ev', st', log) \<Rightarrow>
          (case native_handler pg on cur ev' (ts\<lparr>tr_core := st'\<rparr>) of (x, ev'', ts') \<Rightarrow> Some (x, ev'', ts', log)))"

text \<open>The loop over the path; the second component is \<open>lastElement\<close>.\<close>

fun fire_path :: "nat \<Rightarrow> page \<Rightarrow> behaviour_fn \<Rightarrow> string option \<Rightarrow> (nat \<times> string) list \<Rightarrow> nat \<Rightarrow> jq_event \<Rightarrow> trig_state \<Rightarrow> served_log \<Rightarrow>
    (nat option \<times> nat \<times> jq_event \<times> trig_state \<times> served_log) option" where
  "fire_path n pg beh on [] lastElement ev ts log = Some (None, lastElement, ev, ts, log)"
| "fire_path n pg beh on ((cur, t) # path) lastElement ev ts log =
     (if e_stopped ev then Some (None, lastElement, ev, ts, log)
      else case visit n pg beh on cur (ev\<lparr>e_type := t\<rparr>) ts of
        None \<Rightarrow> None
      | Some (Some x, ev', ts', log') \<Rightarrow> Some (Some x, cur, ev', ts', log @ log')
      | Some (None, ev', ts', log') \<Rightarrow> fire_path n pg beh on path cur ev' ts' (log @ log'))"

section \<open>The default action\<close>

text \<open>\<open>special._default\<close> is missing or returns \<open>false\<close>.\<close>

definition default_allowed :: "page \<Rightarrow> string \<Rightarrow> jq_event \<Rightarrow> bool" where
  "default_allowed pg t ev =
     (case sp_setup (special_of (pg_dom pg) t) of
        ClaimCheckable \<Rightarrow>
          \<not> (dom_checkable (pg_dom pg) (e_target ev) \<and> pg_leveraged pg (e_target ev)) \<and> pg_link pg (e_target ev) = Some False
      | ClaimFocus \<Rightarrow> False
      | _ \<Rightarrow> True)"

text \<open>The call of the method; when it raises, nothing is put back.\<close>

definition call_method :: "page \<Rightarrow> string \<Rightarrow> string \<Rightarrow> nat \<Rightarrow> nat \<Rightarrow> bool \<Rightarrow> (trig_state \<Rightarrow> nat option \<times> trig_state) \<Rightarrow> trig_state \<Rightarrow> nat option \<times> trig_state" where
  "call_method pg t on elem lastElement stopped f ts =
     (let tmp = on_function pg (Some on) elem ts \<noteq> None;
          muted = (\<lambda>b ts. ts\<lparr>tr_muted := (tr_muted ts)(elem := (tr_muted ts elem)(on := b))\<rparr>);
          stopper = (\<lambda>b ts. ts\<lparr>tr_stoppers := (tr_stoppers ts)(lastElement := (tr_stoppers ts lastElement)(t := b))\<rparr>);
          ts1 = (if tmp then muted True ts else ts)\<lparr>tr_triggered := Some t\<rparr> in
      case f (if stopped then stopper True ts1 else ts1) of
        (Some x, ts2) \<Rightarrow> (Some x, ts2)
      | (None, ts2) \<Rightarrow>
          (let ts3 = (if stopped then stopper False ts2 else ts2)\<lparr>tr_triggered := None\<rparr> in
           (None, if tmp then muted False ts3 else ts3)))"

definition default_action :: "page \<Rightarrow> string \<Rightarrow> nat \<Rightarrow> nat \<Rightarrow> jq_event \<Rightarrow> trig_state \<Rightarrow> nat option \<times> trig_state" where
  "default_action pg t elem lastElement ev ts =
     (if default_allowed pg t ev \<and> dom_accepts (pg_dom pg) elem \<and> \<not> pg_isWindow pg elem then
        (case (ontype t, pg_method pg elem t) of
           (Some on, Some f) \<Rightarrow> call_method pg t on elem lastElement (e_stopped ev) f ts
         | _ \<Rightarrow> (None, ts))
      else (None, ts))"

section \<open>trigger\<close>

text \<open>
  The result: an exception, the event object unless the event was dropped at once, the state, and the handle objects that were served.
\<close>

type_synonym trigger_result = "nat option \<times> jq_event option \<times> trig_state \<times> served_log"

definition trigger :: "nat \<Rightarrow> page \<Rightarrow> behaviour_fn \<Rightarrow> trigger_arg \<Rightarrow> nat \<Rightarrow> bool \<Rightarrow> trig_state \<Rightarrow> trigger_result option" where
  "trigger n pg beh arg elem onlyHandlers ts =
     (let d = pg_dom pg; t = trigger_type arg in
      if dom_nodeType d elem = 3 \<or> dom_nodeType d elem = 8 then Some (None, None, ts, [])
      else if focus_morph (arg_type arg @ (case tr_triggered ts of Some s \<Rightarrow> s | None \<Rightarrow> ''undefined'')) then Some (None, None, ts, [])
      else
        (let ts1 = (if onlyHandlers then ts else ts\<lparr>tr_core := special_trigger d elem t (tr_core ts)\<rparr>) in
         case event_path n pg onlyHandlers elem t of
           None \<Rightarrow> None
         | Some path \<Rightarrow>
             (case fire_path n pg beh (ontype t) (typed_path d t path) elem (prepare_event arg elem onlyHandlers) ts1 [] of
                None \<Rightarrow> None
              | Some (Some x, lastElement, ev, ts2, log) \<Rightarrow> Some (Some x, Some ev, ts2, log)
              | Some (None, lastElement, ev, ts2, log) \<Rightarrow>
                  (let ev1 = ev\<lparr>e_type := t\<rparr> in
                   if \<not> onlyHandlers \<and> \<not> e_prevented ev then
                     (case default_action pg t elem lastElement ev1 ts2 of (x, ts3) \<Rightarrow> Some (x, Some ev1, ts3, log))
                   else Some (None, Some ev1, ts2, log)))))"

text \<open>\<open>simulate\<close>: the event under another type, for the capturing listeners of \<open>focusin\<close> and \<open>focusout\<close>.\<close>

definition simulate :: "nat \<Rightarrow> page \<Rightarrow> behaviour_fn \<Rightarrow> string \<Rightarrow> nat \<Rightarrow> jq_event \<Rightarrow> trig_state \<Rightarrow> trigger_result option" where
  "simulate n pg beh t elem ev ts = trigger n pg beh (EventObject True (ev\<lparr>e_type := t, e_simulated := True\<rparr>)) elem False ts"

text \<open>The methods of matched sets.  An event object is used for all elements.\<close>

fun trigger_fn :: "nat \<Rightarrow> page \<Rightarrow> behaviour_fn \<Rightarrow> trigger_arg \<Rightarrow> nat list \<Rightarrow> trig_state \<Rightarrow> (nat option \<times> trig_state \<times> served_log) option" where
  "trigger_fn n pg beh arg [] ts = Some (None, ts, [])"
| "trigger_fn n pg beh arg (elem # elems) ts =
     (case trigger n pg beh arg elem False ts of
        None \<Rightarrow> None
      | Some (Some x, ev, ts', log) \<Rightarrow> Some (Some x, ts', log)
      | Some (None, ev, ts', log) \<Rightarrow>
          map_option (\<lambda>(x, ts'', log'). (x, ts'', log @ log'))
            (trigger_fn n pg beh (case (arg, ev) of (EventObject _ _, Some ev') \<Rightarrow> EventObject True ev' | _ \<Rightarrow> arg) elems ts'))"

definition triggerHandler :: "nat \<Rightarrow> page \<Rightarrow> behaviour_fn \<Rightarrow> trigger_arg \<Rightarrow> nat list \<Rightarrow> trig_state \<Rightarrow> trigger_result option" where
  "triggerHandler n pg beh arg elems ts =
     (case elems of [] \<Rightarrow> Some (None, None, ts, []) | elem # _ \<Rightarrow> trigger n pg beh arg elem True ts)"

section \<open>Functions that leave the handlers alone\<close>

text \<open>
  What a function may do to the event: set marks, never take one back, and leave target, button and namespaces.  The
  handler lists stay as they are.
\<close>

definition calm :: "jq_event \<Rightarrow> ev_state \<Rightarrow> jq_event \<Rightarrow> ev_state \<Rightarrow> bool" where
  "calm ev st ev' st' \<longleftrightarrow>
     e_target ev' = e_target ev \<and> e_button ev' = e_button ev \<and> e_rnamespace ev' = e_rnamespace ev \<and>
     (e_stopped ev \<longrightarrow> e_stopped ev') \<and> ((e_immediate ev \<longrightarrow> e_stopped ev) \<longrightarrow> e_immediate ev' \<longrightarrow> e_stopped ev') \<and>
     ev_events st' = ev_events st \<and> ev_handle st' = ev_handle st"

definition quiet :: "behaviour_fn \<Rightarrow> bool" where
  "quiet beh \<longleftrightarrow> (\<forall>f elem ev st. case beh f elem ev st of (r, ev', st') \<Rightarrow> calm ev st ev' st')"

definition quiet_page :: "page \<Rightarrow> bool" where
  "quiet_page pg \<longleftrightarrow> (\<forall>cur p f ev st. pg_on pg cur p = Some f \<longrightarrow> (case f ev st of (r, ev', st') \<Rightarrow> calm ev st ev' st'))"

definition no_once :: "ev_state \<Rightarrow> bool" where
  "no_once st \<longleftrightarrow> (\<forall>e t ho f. ho \<in> set (handlers (handlers_of st e t)) \<longrightarrow> ho_handler ho \<noteq> Once f)"

lemma calm_refl [simp]: "calm ev st ev st"
  by (simp add: calm_def)

lemma calm_trans: "calm ev st ev' st' \<Longrightarrow> calm ev' st' ev'' st'' \<Longrightarrow> calm ev st ev'' st''"
  by (auto simp: calm_def)

lemma calm_updates [simp]:
  "calm (ev\<lparr>e_type := t\<rparr>) st ev' st' = calm ev st ev' st'" "calm ev st (ev'\<lparr>e_type := t\<rparr>) st' = calm ev st ev' st'"
  "calm (ev\<lparr>e_currentTarget := c\<rparr>) st ev' st' = calm ev st ev' st'" "calm (ev\<lparr>e_delegateTarget := c\<rparr>) st ev' st' = calm ev st ev' st'"
  "calm (ev\<lparr>e_handleObj := h, e_data := a\<rparr>) st ev' st' = calm ev st ev' st'" "calm ev st (ev'\<lparr>e_result := r\<rparr>) st' = calm ev st ev' st'"
  by (simp_all add: calm_def)

lemma calm_prevent [simp]: "calm ev st (preventDefault ev') st' = calm ev st ev' st'"
  by (simp add: calm_def preventDefault_def on_native_def)

lemma calm_after_reply: "calm ev st ev' st' \<Longrightarrow> calm ev st (after_reply r ev') st'"
  by (auto simp: calm_def after_reply_def preventDefault_def stopPropagation_def on_native_def)

lemma quiet_namespaces: "quiet beh \<Longrightarrow> keeps_namespaces beh"
  unfolding quiet_def keeps_namespaces_def calm_def by (auto split: prod.splits) (metis fst_conv prod.collapse snd_conv)

lemma call_fn_calm: "quiet beh \<Longrightarrow> \<forall>g. f \<noteq> Once g \<Longrightarrow> call_fn d beh f elem ev st = (r, ev', st') \<Longrightarrow> calm ev st ev' st'"
  unfolding quiet_def by (cases f) (auto split: prod.splits)

lemma serve_calm:
  assumes "quiet beh" "\<forall>g. ho_handler ho \<noteq> Once g" "serve d beh ho elem ev st = (r, ev', st')"
  shows "calm ev st ev' st'"
proof (cases "map_of hover_types (ho_origType ho)")
  case None
  then show ?thesis using assms call_fn_calm by (simp add: serve_def)
next
  case (Some base)
  obtain r1 ev1 st1 where c: "call_fn d beh (ho_handler ho) elem (ev\<lparr>e_type := ho_origType ho\<rparr>) st = (r1, ev1, st1)" by (metis prod_cases3)
  have "calm ev st ev1 st1" using call_fn_calm [OF assms(1,2) c] by simp
  then show ?thesis using assms(3) Some c by (auto simp: serve_def split: if_splits reply.splits)
qed

lemma run_handlers_calm:
  assumes "quiet beh"
  shows "\<forall>ho \<in> set hos. \<forall>g. ho_handler ho \<noteq> Once g \<Longrightarrow> run_handlers d beh elem hos ev st log = (x, ev', st', log') \<Longrightarrow> calm ev st ev' st'"
proof (induction hos arbitrary: ev st log)
  case (Cons ho hos)
  show ?case
  proof (cases "e_immediate ev \<or> \<not> ns_admits ev ho")
    case False
    obtain r ev1 st1 where s: "serve d beh ho elem (ev\<lparr>e_handleObj := Some ho, e_data := ho_data ho\<rparr>) st = (r, ev1, st1)" by (metis prod_cases3)
    have c: "calm ev st ev1 st1" using serve_calm [OF assms _ s] Cons.prems(1) by simp
    show ?thesis
    proof (cases "\<exists>y. r = Raise y")
      case no: False
      then have "run_handlers d beh elem hos (after_reply r ev1) st1 (log @ [(elem, ho)]) = (x, ev', st', log')"
        using Cons.prems(2) False s by (cases r) auto
      then have "calm (after_reply r ev1) st1 ev' st'" using Cons.IH Cons.prems(1) by simp
      then show ?thesis using calm_trans [OF calm_after_reply [OF c]] by blast
    qed (use Cons.prems(2) False s c in auto)
  qed (use Cons in \<open>auto split: if_splits\<close>)
qed simp

lemma run_queue_calm:
  assumes "quiet beh"
  shows "\<forall>(e, hos) \<in> set q. \<forall>ho \<in> set hos. \<forall>g. ho_handler ho \<noteq> Once g \<Longrightarrow> run_queue d beh q ev st log = (x, ev', st', log') \<Longrightarrow> calm ev st ev' st'"
proof (induction q arbitrary: ev st log)
  case (Cons p q)
  obtain elem hos where p: "p = (elem, hos)" by fastforce
  obtain y ev1 st1 log1 where r: "run_handlers d beh elem hos (ev\<lparr>e_currentTarget := elem\<rparr>) st log = (y, ev1, st1, log1)" by (metis prod_cases4)
  have c: "calm ev st ev1 st1" using run_handlers_calm [OF assms _ r] Cons.prems(1) p by simp
  show ?case
  proof (cases "e_stopped ev")
    case False
    then show ?thesis using Cons r p c calm_trans by (cases y) auto
  qed (use Cons.prems p in auto)
qed simp

lemma scan_delegates_sub: "set (scan_delegates d this cur hos cache) \<subseteq> set hos"
  by (induction hos arbitrary: cache) (auto simp: Let_def)

lemma handler_queue_sub: "handler_queue n d this ev hl = Some q \<Longrightarrow> (e, hos) \<in> set q \<Longrightarrow> set hos \<subseteq> set (handlers hl)"
  using scan_delegates_sub [of d this] set_take_subset [of "nat (delegateCount hl)" "handlers hl"] set_drop_subset [of "nat (delegateCount hl)" "handlers hl"]
  by (fastforce simp: handler_queue_def Let_def split: if_splits)

lemma dispatch_calm:
  assumes "quiet beh" "no_once st" "dispatch n d beh this ev st = Some (x, ev', st', log)"
  shows "calm ev st ev' st'"
proof -
  obtain q where q: "handler_queue n d this (ev\<lparr>e_delegateTarget := this\<rparr>) (handlers_of st this (e_type ev)) = Some q"
    "run_queue d beh q (ev\<lparr>e_delegateTarget := this\<rparr>) st [] = (x, ev', st', log)"
    using assms(3) by (auto simp: dispatch_def)
  then show ?thesis using run_queue_calm [OF assms(1) _ q(2)] handler_queue_sub [OF q(1)] assms(2) unfolding no_once_def by fastforce
qed

section \<open>The handlers that are served\<close>

text \<open>On each element of the path what a dispatch to it serves, from the target of the event upwards.\<close>

definition trigger_spec :: "nat \<Rightarrow> dom \<Rightarrow> jq_event \<Rightarrow> ev_state \<Rightarrow> (nat \<times> string) list \<Rightarrow> served_log" where
  "trigger_spec n d ev st tpath =
     concat (map (\<lambda>(cur, t). dispatch_spec d cur (ev\<lparr>e_type := t\<rparr>) (handlers (handlers_of st cur t)) (the (up_path n d cur (e_target ev)))) tpath)"

lemma handlers_of_cong: "ev_events st' = ev_events st \<Longrightarrow> handlers_of st' e t = handlers_of st e t"
  by (simp add: handlers_of_def get_events_def)

lemma no_once_cong: "ev_events st' = ev_events st \<Longrightarrow> no_once st' = no_once st"
  by (simp add: no_once_def handlers_of_cong [of st' st])

lemma dispatch_spec_calm:
  "calm ev st ev' st' \<Longrightarrow> dispatch_spec d c (ev'\<lparr>e_type := t\<rparr>) hs path = dispatch_spec d c (ev\<lparr>e_type := t\<rparr>) hs path"
  by (simp add: calm_def dispatch_spec_def live_def [abs_def] ns_admits_def)

lemma trigger_spec_calm: "calm ev st ev' st' \<Longrightarrow> trigger_spec n d ev' st0 tpath = trigger_spec n d ev st0 tpath"
  unfolding trigger_spec_def using dispatch_spec_calm [of ev st ev' st'] by (simp add: calm_def)

lemma native_handler_calm:
  "quiet_page pg \<Longrightarrow> native_handler pg on cur ev ts = (x, ev', ts') \<Longrightarrow> calm ev (tr_core ts) ev' (tr_core ts') \<and> tr_triggered ts' = tr_triggered ts"
  unfolding quiet_page_def
  by (fastforce simp: native_handler_def on_function_def split: option.splits if_splits prod.splits reply.splits)

text \<open>A state with the handler lists of a state that is in order.\<close>

definition with_lists :: "dom \<Rightarrow> ev_state \<Rightarrow> ev_state \<Rightarrow> bool" where
  "with_lists d st0 st \<longleftrightarrow> ev_wf d st0 \<and> guids_ok d st0 \<and> no_once st0 \<and> ev_events st = ev_events st0 \<and> ev_handle st = ev_handle st0"

lemma with_lists_calm: "with_lists d st0 st \<Longrightarrow> calm ev st ev' st' \<Longrightarrow> with_lists d st0 st'"
  by (simp add: with_lists_def calm_def)

lemma jquery_handler_served:
  assumes "quiet beh" "with_lists (pg_dom pg) st0 (tr_core ts)" "tr_triggered ts = None" "up_path n (pg_dom pg) cur (e_target ev) = Some path"
    "e_immediate ev \<longrightarrow> e_stopped ev"
  shows "\<exists>x ev' st' log rest. jquery_handler n pg beh cur ev ts = Some (x, ev', st', log) \<and>
    dispatch_spec (pg_dom pg) cur ev (handlers (handlers_of st0 cur (e_type ev))) path = log @ rest \<and>
    (rest = [] \<or> x \<noteq> None \<or> e_stopped ev') \<and> calm ev (tr_core ts) ev' st'"
proof -
  let ?st = "tr_core ts"
  have wf: "ev_wf (pg_dom pg) st0" "guids_ok (pg_dom pg) st0" and no: "no_once ?st" and same: "ev_events ?st = ev_events st0" "ev_handle ?st = ev_handle st0"
    using assms(2) no_once_cong [of ?st st0] by (auto simp: with_lists_def)
  have hs: "handlers_of ?st cur t = handlers_of st0 cur t" for t using handlers_of_cong [OF same(1)] .
  show ?thesis
  proof (cases "dict_has (get_events ?st cur) (e_type ev) \<and> ev_handle ?st cur")
    case True
    then have go: "jquery_handler n pg beh cur ev ts = dispatch n (pg_dom pg) beh cur ev ?st"
      using assms(3) by (simp add: jquery_handler_def event_handle_def)
    note lists = ev_wf_handlers(1) [OF wf, of cur "e_type ev", folded hs] ev_wf_handlers(2) [OF wf, of _ cur "e_type ev", folded hs]
    obtain x ev' st' log rest where r: "dispatch n (pg_dom pg) beh cur ev ?st = Some (x, ev', st', log)"
      "dispatch_spec (pg_dom pg) cur ev (handlers (handlers_of ?st cur (e_type ev))) path = log @ rest"
      "rest = [] \<or> x \<noteq> None \<or> e_stopped ev' \<or> e_immediate ev'"
      using dispatch_list_served [OF lists(1) quiet_namespaces [OF assms(1)] assms(4), OF lists(2)] by blast
    have calm: "calm ev ?st ev' st'" by (rule dispatch_calm [OF assms(1) no r(1)])
    then have "rest = [] \<or> x \<noteq> None \<or> e_stopped ev'" using r(3) assms(5) by (auto simp: calm_def)
    moreover have "jquery_handler n pg beh cur ev ts = Some (x, ev', st', log)" using go r(1) by simp
    ultimately show ?thesis using r(2) calm unfolding hs by blast
  next
    case False
    have "ev_handle st0 cur" if "dict_has (get_events st0 cur) (e_type ev)"
      using that wf(1) by (auto simp: ev_wf_def get_events_def dict_has_iff)
    then have "\<not> dict_has (get_events st0 cur) (e_type ev)" using False same by (auto simp: get_events_def)
    then have "handlers (handlers_of st0 cur (e_type ev)) = []" by (simp add: handlers_of_def dict_has_iff)
    moreover have "jquery_handler n pg beh cur ev ts = Some (None, ev, ?st, [])" using False by (auto simp: jquery_handler_def Let_def)
    ultimately show ?thesis by (simp add: dispatch_spec_def)
  qed
qed

lemma visit_served:
  assumes "quiet beh" "quiet_page pg" "with_lists (pg_dom pg) st0 (tr_core ts)" "tr_triggered ts = None"
    "up_path n (pg_dom pg) cur (e_target ev) = Some path" "e_immediate ev \<longrightarrow> e_stopped ev"
  shows "\<exists>x ev' ts' log rest. visit n pg beh on cur ev ts = Some (x, ev', ts', log) \<and>
    dispatch_spec (pg_dom pg) cur ev (handlers (handlers_of st0 cur (e_type ev))) path = log @ rest \<and>
    (rest = [] \<or> x \<noteq> None \<or> e_stopped ev') \<and> calm ev (tr_core ts) ev' (tr_core ts') \<and> tr_triggered ts' = None"
proof -
  obtain x ev1 st1 log rest where h: "jquery_handler n pg beh cur ev ts = Some (x, ev1, st1, log)"
    "dispatch_spec (pg_dom pg) cur ev (handlers (handlers_of st0 cur (e_type ev))) path = log @ rest"
    "rest = [] \<or> x \<noteq> None \<or> e_stopped ev1" "calm ev (tr_core ts) ev1 st1"
    using jquery_handler_served [OF assms(1,3-6)] by blast
  show ?thesis
  proof (cases x)
    case None
    obtain y ev2 ts2 where n: "native_handler pg on cur ev1 (ts\<lparr>tr_core := st1\<rparr>) = (y, ev2, ts2)" by (metis prod_cases3)
    have c: "calm ev1 st1 ev2 (tr_core ts2)" "tr_triggered ts2 = None" using native_handler_calm [OF assms(2) n] assms(4) by auto
    then have "rest = [] \<or> e_stopped ev2" using h(3) None by (auto simp: calm_def)
    moreover have "visit n pg beh on cur ev ts = Some (y, ev2, ts2, log)" using h(1) None n by (simp add: visit_def)
    ultimately show ?thesis using h(2) c calm_trans [OF h(4) c(1)] by blast
  next
    case (Some y)
    then have "visit n pg beh on cur ev ts = Some (Some y, ev1, ts\<lparr>tr_core := st1\<rparr>, log)" using h(1) by (simp add: visit_def)
    then show ?thesis using h(2,4) assms(4) by (intro exI [of _ "Some y"] exI [of _ ev1] exI [of _ "ts\<lparr>tr_core := st1\<rparr>"] exI [of _ log] exI [of _ rest]) simp
  qed
qed

lemma fire_served:
  assumes "quiet beh" "quiet_page pg"
  shows "with_lists (pg_dom pg) st0 (tr_core ts) \<Longrightarrow> tr_triggered ts = None \<Longrightarrow> e_immediate ev \<longrightarrow> e_stopped ev \<Longrightarrow>
    \<forall>(cur, t) \<in> set tpath. up_path n (pg_dom pg) cur (e_target ev) \<noteq> None \<Longrightarrow>
    \<exists>x l ev' ts' log' rest. fire_path n pg beh on tpath lastElement ev ts log = Some (x, l, ev', ts', log @ log') \<and>
      trigger_spec n (pg_dom pg) ev st0 tpath = log' @ rest \<and> (rest = [] \<or> x \<noteq> None \<or> e_stopped ev')"
proof (induction tpath arbitrary: lastElement ev ts log)
  case Nil
  then show ?case by (simp add: trigger_spec_def)
next
  case (Cons p tpath)
  obtain cur t where p: "p = (cur, t)" by fastforce
  show ?case
  proof (cases "e_stopped ev")
    case True
    then show ?thesis using p by simp
  next
    case False
    obtain path where path: "up_path n (pg_dom pg) cur (e_target ev) = Some path" using Cons.prems(4) p by auto
    obtain x ev1 ts1 log1 rest1 where v: "visit n pg beh on cur (ev\<lparr>e_type := t\<rparr>) ts = Some (x, ev1, ts1, log1)"
      "dispatch_spec (pg_dom pg) cur (ev\<lparr>e_type := t\<rparr>) (handlers (handlers_of st0 cur t)) path = log1 @ rest1"
      "rest1 = [] \<or> x \<noteq> None \<or> e_stopped ev1" "calm ev (tr_core ts) ev1 (tr_core ts1)" "tr_triggered ts1 = None"
      using visit_served [OF assms Cons.prems(1,2), of n cur "ev\<lparr>e_type := t\<rparr>" path on] path Cons.prems(3) by auto
    have spec: "trigger_spec n (pg_dom pg) ev st0 (p # tpath) = log1 @ rest1 @ trigger_spec n (pg_dom pg) ev st0 tpath"
      using v(2) p path by (simp add: trigger_spec_def)
    show ?thesis
    proof (cases x)
      case None
      have go: "fire_path n pg beh on (p # tpath) lastElement ev ts log = fire_path n pg beh on tpath cur ev1 ts1 (log @ log1)"
        using False p v(1) None by simp
      obtain y l ev' ts' log' rest where ih: "fire_path n pg beh on tpath cur ev1 ts1 (log @ log1) = Some (y, l, ev', ts', (log @ log1) @ log')"
        "trigger_spec n (pg_dom pg) ev1 st0 tpath = log' @ rest" "rest = [] \<or> y \<noteq> None \<or> e_stopped ev'"
        using Cons.IH [of ts1 ev1 cur "log @ log1"] with_lists_calm [OF Cons.prems(1) v(4)] v(4,5) Cons.prems(3,4) by (auto simp: calm_def)
      have same: "trigger_spec n (pg_dom pg) ev st0 tpath = log' @ rest" using ih(2) trigger_spec_calm [OF v(4)] by metis
      show ?thesis
      proof (cases "rest1 = []")
        case True
        then show ?thesis using go ih(1,3) spec same by (intro exI [of _ y] exI [of _ l] exI [of _ ev'] exI [of _ ts'] exI [of _ "log1 @ log'"] exI [of _ rest]) simp
      next
        case no: False
        then have "e_stopped ev1" using v(3) None by simp
        then have "fire_path n pg beh on tpath cur ev1 ts1 (log @ log1) = Some (None, cur, ev1, ts1, log @ log1)" by (cases tpath) auto
        then show ?thesis using go spec \<open>e_stopped ev1\<close> by simp
      qed
    next
      case (Some y)
      then show ?thesis using False p v(1) spec by simp
    qed
  qed
qed

lemma parent_chain_ends:
  assumes "\<And>c p. dom_parent d c = Some p \<Longrightarrow> rank p < (rank c :: nat)"
  shows "rank c < n \<Longrightarrow> \<exists>up. parent_chain n d (Some c) = Some up"
proof (induction n arbitrary: c)
  case (Suc n)
  show ?case
  proof (cases "dom_parent d c")
    case None
    then show ?thesis by simp
  next
    case (Some p)
    then show ?thesis using Suc.IH [of p] assms [OF Some] Suc.prems by auto
  qed
qed simp

lemma event_path_ends:
  assumes "\<And>c p. dom_parent (pg_dom pg) c = Some p \<Longrightarrow> rank p < (rank c :: nat)" "rank elem < n"
  shows "\<exists>path. event_path n pg onlyHandlers elem t = Some path"
proof -
  have "\<exists>up. parent_chain n (pg_dom pg) (dom_parent (pg_dom pg) elem) = Some up"
  proof (cases "dom_parent (pg_dom pg) elem")
    case (Some p)
    then show ?thesis using parent_chain_ends [of "pg_dom pg" rank p n, OF assms(1)] assms(1) [OF Some] assms(2) by simp
  qed simp
  then show ?thesis using parent_chain_ends [of "pg_dom pg" rank elem n, OF assms(1,2)]
    by (auto simp: event_path_def Let_def)
qed

lemma not_morph_undefined: "\<not> focus_morph (name @ ''undefined'')"
proof -
  have "name @ ''undefined'' \<noteq> w" if "last w \<noteq> CHR ''d''" for w :: string
  proof
    assume "name @ ''undefined'' = w"
    then have "last w = last (name @ ''undefined'')" by simp
    then show False using that by simp
  qed
  then show ?thesis by (simp add: focus_morph_def)
qed

lemma special_trigger_wf: "ev_wf d st \<and> guids_ok d st \<Longrightarrow> ev_wf d (special_trigger d elem t st) \<and> guids_ok d (special_trigger d elem t st)"
  using ev_wf_add [of d st elem t "Plain TrueFn" AUndef None] guids_ok_add [of d st elem t TrueFn AUndef None]
  by (auto simp: special_trigger_def force_setup_def split: setup_kind.split sum.split)

lemma trigger_fired:
  assumes "dom_nodeType (pg_dom pg) elem \<notin> {3, 8}" "\<not> focus_morph (arg_type arg @ (case tr_triggered ts of Some s \<Rightarrow> s | None \<Rightarrow> ''undefined''))"
    "event_path n pg only elem (trigger_type arg) = Some path"
    "fire_path n pg beh (ontype (trigger_type arg)) (typed_path (pg_dom pg) (trigger_type arg) path) elem (prepare_event arg elem only)
       (if only then ts else ts\<lparr>tr_core := special_trigger (pg_dom pg) elem (trigger_type arg) (tr_core ts)\<rparr>) [] = Some (x, l, ev, ts2, log)"
  shows "trigger n pg beh arg elem only ts =
     (case x of
        Some y \<Rightarrow> Some (Some y, Some ev, ts2, log)
      | None \<Rightarrow>
          if \<not> only \<and> \<not> e_prevented ev then
            (case default_action pg (trigger_type arg) elem l (ev\<lparr>e_type := trigger_type arg\<rparr>) ts2 of (y, ts3) \<Rightarrow> Some (y, Some (ev\<lparr>e_type := trigger_type arg\<rparr>), ts3, log))
          else Some (None, Some (ev\<lparr>e_type := trigger_type arg\<rparr>), ts2, log))"
  unfolding trigger_def Let_def using assms by (cases x) simp_all

text \<open>Registration of functions that are not wrapped by \<open>one\<close> adds no wrapped ones.\<close>

lemma no_once_put:
  "no_once st \<Longrightarrow> (\<And>ho f. ho \<in> set (handlers hl) \<Longrightarrow> ho_handler ho \<noteq> Once f) \<Longrightarrow> no_once (put_handlers elem t hl st)"
  by (auto simp: no_once_def handlers_of_def get_events_def put_handlers_def split: option.splits if_splits)

lemma no_once_push:
  assumes "no_once st" "\<forall>f. ho_handler ho \<noteq> Once f"
  shows "no_once (push_handler elem t ho st)"
proof -
  let ?hl = "insert_handler ho (handlers_of st elem t)"
  have sub: "set (handlers ?hl) \<subseteq> insert ho (set (handlers (handlers_of st elem t)))"
    by (auto simp: insert_handler_def dest: in_set_takeD in_set_dropD)
  have "ho_handler h \<noteq> Once f" if "h \<in> set (handlers ?hl)" for h f
    using that sub assms unfolding no_once_def by blast
  then have "no_once (put_handlers elem t ?hl st)" by (rule no_once_put [OF assms(1)])
  then show ?thesis by (simp add: push_handler_def no_once_def handlers_of_def get_events_def)
qed

lemma no_once_leverage: "no_once st \<Longrightarrow> no_once (leverageNative elem t st)"
  unfolding leverageNative_def Let_def
  by (rule no_once_push) (simp_all add: no_once_def handlers_of_def get_events_def)

lemma no_once_setup: "no_once st \<Longrightarrow> no_once (setup_type d elem t st)"
proof -
  assume no: "no_once st"
  have listen: "no_once (listen d elem t st)" if "no_once st" for st
    using that by (simp add: listen_def no_once_def handlers_of_def get_events_def)
  show ?thesis
  proof (cases "sp_setup (special_of d t)")
    case (Capture orig)
    with no show ?thesis by (simp add: setup_type_def Let_def no_once_def handlers_of_def get_events_def)
  qed (use no listen no_once_leverage in \<open>simp_all add: setup_type_def\<close>)
qed

lemma no_once_add_type:
  assumes "no_once st" "\<forall>g. f \<noteq> Once g"
  shows "no_once (add_type d elem (Plain f) dat selector word st)"
proof -
  obtain origType rest where w: "split_type word = (origType, rest)" by fastforce
  let ?t = "kept_type d selector origType"
  have "no_once (setup_type d elem ?t (put_handlers elem ?t \<lparr>handlers = [], delegateCount = 0\<rparr> st))"
    by (intro no_once_setup no_once_put assms(1)) simp
  then have "no_once (if dict_has (get_events st elem) ?t then st
      else setup_type d elem ?t (put_handlers elem ?t \<lparr>handlers = [], delegateCount = 0\<rparr> st))"
    using assms(1) by simp
  from no_once_push [OF this] assms show ?thesis
    by (simp add: add_type_def w Let_def make_handle_obj_def)
qed

lemma no_once_add:
  assumes "no_once st" "\<forall>g. f \<noteq> Once g" "event_add d elem types (Plain f) dat selector st = Inr st'"
  shows "no_once st'"
proof -
  have folded: "no_once (fold (add_type d elem (Plain f) dat sel) ws st)" if "no_once st" for ws sel st
    using that
  proof (induction ws arbitrary: st)
    case (Cons w ws)
    from Cons.IH [OF no_once_add_type [OF Cons.prems assms(2)]] show ?case by simp
  qed simp
  let ?st1 = "ensure_guid f st"
  let ?st2 = "?st1\<lparr>ev_events := (ev_events ?st1)(elem \<mapsto> get_events ?st1 elem), ev_handle := (ev_handle ?st1)(elem := True)\<rparr>"
  have "get_events ?st2 e = get_events st e" for e
    by (simp add: get_events_def ensure_guid_def split: option.split)
  then have "no_once ?st2" using assms(1) by (simp add: no_once_def handlers_of_def)
  from folded [OF this] assms(1,3) show ?thesis by (auto simp: event_add_def Let_def split: if_splits)
qed

lemma no_once_elems:
  assumes "\<forall>g. f \<noteq> Once g"
  shows "no_once st \<Longrightarrow> no_once (fst (add_to_elems d types (Plain f) dat selector elems st))"
proof (induction elems arbitrary: st)
  case (Cons elem elems)
  then show ?case
    by (cases "event_add d elem types (Plain f) dat selector st") (simp_all add: no_once_add [OF _ assms])
qed simp

lemma no_once_special_trigger:
  assumes "no_once st"
  shows "no_once (special_trigger d elem t st)"
proof -
  have "no_once (force_setup d elem t st)"
    using assms no_once_add [of st TrueFn d elem t AUndef None] by (auto simp: force_setup_def split: sum.split)
  with assms show ?thesis by (simp add: special_trigger_def split: setup_kind.split)
qed

text \<open>The ancestors of a node, from its parent to the root.\<close>

inductive ancestors :: "dom \<Rightarrow> nat \<Rightarrow> nat list \<Rightarrow> bool" for d where
  at_root: "dom_parent d c = None \<Longrightarrow> ancestors d c []"
| above: "dom_parent d c = Some p \<Longrightarrow> ancestors d p ups \<Longrightarrow> ancestors d c (p # ups)"

lemma ancestors_chain: "ancestors d c ups \<Longrightarrow> length ups < n \<Longrightarrow> parent_chain n d (Some c) = Some (c # ups)"
proof (induction arbitrary: n rule: ancestors.induct)
  case (at_root c)
  then show ?case by (cases n) auto
next
  case (above c p ups)
  then show ?case by (cases n) auto
qed

lemma ancestors_parent_chain:
  "ancestors d c ups \<Longrightarrow> length ups < n \<Longrightarrow> parent_chain n d (dom_parent d c) = Some ups"
  by (erule ancestors.cases) (auto dest: ancestors_chain [of _ _ _ n])

lemma ancestors_up_path:
  "ancestors d c ups \<Longrightarrow> length ups < n \<Longrightarrow> up_path n d this c = Some (takeWhile (\<lambda>e. e \<noteq> this) (c # ups))"
proof (induction arbitrary: n rule: ancestors.induct)
  case (at_root c)
  then obtain m where "n = Suc m" by (cases n) auto
  with at_root show ?case by (cases m) auto
next
  case (above c p ups)
  then show ?case by (cases n) auto
qed

text \<open>The types for which the library keeps handlers under their own name on the whole path.\<close>

definition plain_type :: "string \<Rightarrow> bool" where
  "plain_type t \<longleftrightarrow> t \<notin> set [''load'', ''focus'', ''blur'', ''mouseenter'', ''mouseleave'', ''pointerenter'', ''pointerleave'']"

lemma plain_type_special: "plain_type t \<Longrightarrow> delegateType (special_of d t) = None \<and> bindType (special_of d t) = None"
  by (auto simp: plain_type_def special_of_def focus_types_def hover_types_def)

lemma plain_typed_path:
  assumes "plain_type t" "ancestors (pg_dom pg) elem ups" "length ups < n"
  shows "\<exists>path. event_path n pg only elem t = Some path \<and>
    path = elem # (if only \<or> pg_isWindow pg elem then []
      else ups @ (if last (elem # ups) = pg_owner pg elem then [pg_view pg (pg_owner pg elem)] else [])) \<and>
    typed_path (pg_dom pg) t path = map (\<lambda>cur. (cur, t)) path"
proof -
  have bubble: "bubbleType (pg_dom pg) t = t" using plain_type_special [OF assms(1)] by (simp add: bubbleType_def)
  have "\<not> focus_morph (t @ t)"
  proof
    assume "focus_morph (t @ t)"
    then have tt: "t @ t = ''focusinfocus'' \<or> t @ t = ''focusoutblur''" by (simp add: focus_morph_def)
    then have "length (t @ t) = 12" by (auto dest!: arg_cong [of _ _ length])
    then have "length t = 6" by simp
    then have "take 6 (t @ t) = drop 6 (t @ t)" by (simp only: take_append drop_append) simp
    with tt show False by (elim disjE) (simp_all only:, simp_all)
  qed
  then show ?thesis
    using ancestors_parent_chain [OF assms(2,3)] assms(1) plain_type_special [OF assms(1), of "pg_dom pg"] bubble
    by (auto simp: event_path_def typed_path_def plain_type_def Let_def)
qed

text \<open>C19: 
  A triggered event of a type other than \<open>load\<close>, \<open>focus\<close>, \<open>blur\<close> and the types of \<open>hover\<close>: the handlers that are served are those of the element,
  then those of its ancestors from the parent to the root, and then, when the root is the document of the element, those of the window,
  each as a dispatch of the event to that element serves them (delegated handlers for the elements from the target up to it, then its own).
  For \<open>triggerHandler\<close>, and for the window, only the handlers of the element itself are served.  All of them are served, in that
  order, unless a function stops the event or raises.  This is for functions that do not change handlers or the target and
  namespaces of the event, and for handlers that were not bound with \<open>one\<close>.
\<close>

theorem trigger_bubbles:
  assumes "t = trigger_type (TypeName name)" "plain_type t" "ev_reachable (pg_dom pg) (tr_core ts)" "tr_triggered ts = None"
    "quiet beh" "quiet_page pg" "no_once (tr_core ts)"
    "dom_nodeType (pg_dom pg) elem \<notin> {3, 8}" "ancestors (pg_dom pg) elem ups" "length ups < n"
    "path = elem # (if only \<or> pg_isWindow pg elem then []
       else ups @ (if last (elem # ups) = pg_owner pg elem then [pg_view pg (pg_owner pg elem)] else []))"
    "st = (if only then tr_core ts else special_trigger (pg_dom pg) elem t (tr_core ts))"
  shows "\<exists>x ev' ts' log rest. trigger n pg beh (TypeName name) elem only ts = Some (x, Some ev', ts', log) \<and>
    concat (map (\<lambda>cur. dispatch_spec (pg_dom pg) cur (prepare_event (TypeName name) elem only)
        (handlers (handlers_of st cur t)) (takeWhile (\<lambda>e. e \<noteq> cur) (elem # ups))) path) = log @ rest \<and>
    (rest = [] \<or> x \<noteq> None \<or> e_stopped ev')"
proof -
  let ?d = "pg_dom pg" and ?ev = "prepare_event (TypeName name) elem only"
  let ?ts = "if only then ts else ts\<lparr>tr_core := special_trigger ?d elem t (tr_core ts)\<rparr>"
  have path: "event_path n pg only elem t = Some path" "typed_path ?d t path = map (\<lambda>cur. (cur, t)) path"
    using plain_typed_path [OF assms(2,9,10)] assms(11) by blast+
  have ev: "e_target ?ev = elem" "\<not> e_immediate ?ev" "?ev\<lparr>e_type := t\<rparr> = ?ev"
    by (simp_all add: prepare_event_def Let_def new_event_def assms(1))
  have lists: "with_lists ?d st (tr_core ?ts)" "tr_triggered ?ts = None"
    using ev_reachable_wf [OF assms(3)] special_trigger_wf [of ?d "tr_core ts"] assms(4,7,12) no_once_special_trigger by (auto simp: with_lists_def)
  have up: "up_path n ?d cur elem = Some (takeWhile (\<lambda>e. e \<noteq> cur) (elem # ups))" for cur
    by (rule ancestors_up_path [OF assms(9,10)])
  then have ups: "\<forall>(cur, u) \<in> set (typed_path ?d t path). up_path n ?d cur (e_target ?ev) \<noteq> None" using ev(1) by auto
  obtain x l ev' ts' log rest where f: "fire_path n pg beh (ontype t) (typed_path ?d t path) elem ?ev ?ts [] = Some (x, l, ev', ts', log)"
    "trigger_spec n ?d ?ev st (typed_path ?d t path) = log @ rest" "rest = [] \<or> x \<noteq> None \<or> e_stopped ev'"
    using fire_served [OF assms(5,6) lists _ ups, of "ontype t" elem "[]"] ev(2) by auto
  have spec: "trigger_spec n ?d ?ev st (typed_path ?d t path) =
      concat (map (\<lambda>cur. dispatch_spec ?d cur ?ev (handlers (handlers_of st cur t)) (takeWhile (\<lambda>e. e \<noteq> cur) (elem # ups))) path)"
    unfolding trigger_spec_def path(2) ev(1) up map_map comp_def by (simp add: ev(3))
  note go = trigger_fired [of pg elem "TypeName name" ts n only path beh x l ev' ts' log, folded assms(1), OF _ _ path(1) f(1)]
  obtain y ts3 where "default_action pg t elem l (ev'\<lparr>e_type := t\<rparr>) ts' = (y, ts3)" by fastforce
  then have "\<exists>y ev2 ts2. trigger n pg beh (TypeName name) elem only ts = Some (y, Some ev2, ts2, log) \<and> (x \<noteq> None \<longrightarrow> y \<noteq> None) \<and> e_stopped ev2 = e_stopped ev'"
    using go assms(4,8) not_morph_undefined [of name] by (cases x) auto
  then show ?thesis using f(2,3) unfolding spec by blast
qed

text \<open>A page for the witnesses: elements 0 to 9, document 10, window 11; the method \<open>save\<close> raises.\<close>

definition demo_page :: page where
  "demo_page = \<lparr>pg_dom = demo_dom, pg_isWindow = (\<lambda>n. n = 11), pg_owner = (\<lambda>_. 10), pg_view = (\<lambda>_. 11), pg_link = (\<lambda>_. Some False),
     pg_leveraged = (\<lambda>_. False), pg_on = (\<lambda>_ _. None), pg_method = (\<lambda>_ t. if t = ''save'' then Some (\<lambda>ts. (Some 7, ts)) else None)\<rparr>"

definition idle :: behaviour_fn where
  "idle f elem ev st = (NoReply, ev, st)"

definition trig_start :: "ev_state \<Rightarrow> trig_state" where
  "trig_start st = \<lparr>tr_core = st, tr_triggered = None, tr_muted = (\<lambda>_ _. False), tr_stoppers = (\<lambda>_ _. False)\<rparr>"

lemma idle_quiet: "quiet idle" "quiet_page demo_page"
  by (simp_all add: quiet_def idle_def quiet_page_def demo_page_def)

text \<open>A handler on an element, its document and the window.\<close>

definition three_handlers :: ev_state where
  "three_handlers = register demo_dom (On [8, 10, 11] ''keyup'' (AFn (User 0)) AUndef AUndef False) ev_initial"

lemma three_handlers_no_once: "no_once three_handlers"
proof -
  have "no_once ev_initial" by (simp add: no_once_def handlers_of_def get_events_def ev_initial_def)
  then have "no_once (fst (add_to_elems demo_dom ''keyup'' (Plain (User 0)) AUndef None [8, 10, 11] ev_initial))"
    by (intro no_once_elems) simp
  then show ?thesis by (simp add: three_handlers_def on_types_def on_arguments_def nullish_def del: add_to_elems.simps)
qed

theorem trigger_bubbles_witness:
  "\<exists>x ev' ts' log rest. trigger 12 demo_page idle (TypeName ''keyup'') 8 False (trig_start three_handlers) = Some (x, Some ev', ts', log) \<and>
    concat (map (\<lambda>cur. dispatch_spec demo_dom cur (prepare_event (TypeName ''keyup'') 8 False)
        (handlers (handlers_of three_handlers cur ''keyup'')) (takeWhile (\<lambda>e. e \<noteq> cur) [8, 9, 10])) [8, 9, 10, 11]) = log @ rest \<and>
    map fst (log @ rest) = [8, 10, 11] \<and> (rest = [] \<or> x \<noteq> None \<or> e_stopped ev')"
proof -
  have t: "''keyup'' = trigger_type (TypeName ''keyup'')" by (simp add: trigger_type_def)
  have plain: "plain_type ''keyup''" by code_simp
  have same: "special_trigger demo_dom 8 ''keyup'' three_handlers = three_handlers"
    by (simp add: special_trigger_def special_of_def focus_types_def hover_types_def)
  have "ancestors demo_dom 10 []" by (rule ancestors.at_root) (simp add: demo_dom_def)
  then have "ancestors demo_dom 9 [10]" by (rule ancestors.above [rotated]) (simp add: demo_dom_def)
  then have up: "ancestors demo_dom 8 [9, 10]" by (rule ancestors.above [rotated]) (simp add: demo_dom_def)
  have reach: "ev_reachable demo_dom three_handlers" unfolding three_handlers_def by (intro ev_reachable.intros)
  have served: "map fst (concat (map (\<lambda>cur. dispatch_spec demo_dom cur (prepare_event (TypeName ''keyup'') 8 False)
        (handlers (handlers_of three_handlers cur ''keyup'')) (takeWhile (\<lambda>e. e \<noteq> cur) [8, 9, 10])) [8, 9, 10, 11])) = [8, 10, 11]"
    by code_simp
  have page: "pg_dom demo_page = demo_dom" "pg_isWindow demo_page 8 = False" "pg_owner demo_page 8 = 10" "pg_view demo_page 10 = 11"
    "dom_nodeType demo_dom 8 = 1"
    by (simp_all add: demo_page_def demo_dom_def)
  obtain x ev' ts' log rest where r:
    "trigger 12 demo_page idle (TypeName ''keyup'') 8 False (trig_start three_handlers) = Some (x, Some ev', ts', log)"
    "concat (map (\<lambda>cur. dispatch_spec demo_dom cur (prepare_event (TypeName ''keyup'') 8 False)
        (handlers (handlers_of three_handlers cur ''keyup'')) (takeWhile (\<lambda>e. e \<noteq> cur) [8, 9, 10])) [8, 9, 10, 11]) = log @ rest"
    "rest = [] \<or> x \<noteq> None \<or> e_stopped ev'"
    using trigger_bubbles [OF t plain, of demo_page "trig_start three_handlers" idle 8 "[9, 10]" 12 "[8, 9, 10, 11]" False three_handlers]
      reach idle_quiet three_handlers_no_once same up
    unfolding page by (auto simp: page trig_start_def)
  with served show ?thesis by metis
qed

section \<open>The mark of triggered events\<close>

definition tame :: "behaviour_fn \<Rightarrow> bool" where
  "tame beh \<longleftrightarrow> (\<forall>f elem ev st x. fst (beh f elem ev st) \<noteq> Raise x)"

definition tame_page :: "page \<Rightarrow> bool" where
  "tame_page pg \<longleftrightarrow> (\<forall>cur p f ev st x. pg_on pg cur p = Some f \<longrightarrow> fst (f ev st) \<noteq> Raise x)"

text \<open>A method that raises has not triggered another event on the way.\<close>

definition methods_keep_mark :: "page \<Rightarrow> bool" where
  "methods_keep_mark pg \<longleftrightarrow> (\<forall>elem t f ts x ts'. pg_method pg elem t = Some f \<longrightarrow> f ts = (Some x, ts') \<longrightarrow> tr_triggered ts' = tr_triggered ts)"

lemma call_fn_tame: "tame beh \<Longrightarrow> fst (call_fn d beh f elem ev st) \<noteq> Raise x"
  by (induction d beh f elem ev st rule: call_fn.induct) (auto simp: tame_def)

lemma serve_tame: "tame beh \<Longrightarrow> fst (serve d beh ho elem ev st) \<noteq> Raise x"
  using call_fn_tame [of beh d "ho_handler ho" elem ev st x] call_fn_tame [of beh d "ho_handler ho" elem "ev\<lparr>e_type := ho_origType ho\<rparr>" st x]
  by (auto simp: serve_def split: option.split prod.split reply.split)

lemma run_handlers_tame: "tame beh \<Longrightarrow> fst (run_handlers d beh elem hos ev st log) = None"
proof (induction hos arbitrary: ev st log)
  case (Cons ho hos)
  obtain r ev1 st1 where s: "serve d beh ho elem (ev\<lparr>e_handleObj := Some ho, e_data := ho_data ho\<rparr>) st = (r, ev1, st1)" by (metis prod_cases3)
  have "r \<noteq> Raise x" for x using serve_tame [OF Cons.prems, of d ho elem _ st x] s by (metis fst_conv)
  then show ?case using Cons.IH [OF Cons.prems] s by (cases r) auto
qed simp

lemma run_queue_tame: "tame beh \<Longrightarrow> fst (run_queue d beh q ev st log) = None"
proof (induction q arbitrary: ev st log)
  case (Cons p q)
  obtain elem hos where "p = (elem, hos)" by fastforce
  then show ?case using Cons.IH [OF Cons.prems] run_handlers_tame [OF Cons.prems, of d elem hos "ev\<lparr>e_currentTarget := elem\<rparr>" st log]
    by (auto split: prod.split option.split)
qed simp

lemma native_handler_tame:
  assumes "tame_page pg" "native_handler pg on cur ev ts = (x, ev', ts')"
  shows "x = None \<and> tr_triggered ts' = tr_triggered ts"
proof (cases "on_function pg on cur ts")
  case (Some f)
  obtain r ev1 st1 where f: "f ev (tr_core ts) = (r, ev1, st1)" by (metis prod_cases3)
  obtain p where "pg_on pg cur p = Some f" using Some by (auto simp: on_function_def split: option.splits if_splits)
  then have "r \<noteq> Raise y" for y using assms(1) f unfolding tame_page_def by (metis fst_conv)
  then show ?thesis using assms(2) Some f by (cases r) (auto simp: native_handler_def split: if_splits)
qed (use assms(2) in \<open>simp add: native_handler_def\<close>)

lemma visit_tame:
  assumes "tame beh" "tame_page pg" "visit n pg beh on cur ev ts = Some (x, ev', ts', log)"
  shows "x = None \<and> tr_triggered ts' = tr_triggered ts"
proof -
  obtain y ev1 st1 log1 where h: "jquery_handler n pg beh cur ev ts = Some (y, ev1, st1, log1)"
    using assms(3) by (cases "jquery_handler n pg beh cur ev ts") (auto simp: visit_def)
  have "y = None" using h run_queue_tame [OF assms(1)]
    by (auto simp: jquery_handler_def event_handle_def dispatch_def Let_def split: if_splits) (metis fst_conv)
  then have "native_handler pg on cur ev1 (ts\<lparr>tr_core := st1\<rparr>) = (x, ev', ts')" using assms(3) h by (auto simp: visit_def split: prod.splits)
  then show ?thesis using native_handler_tame [OF assms(2)] by fastforce
qed

lemma fire_tame:
  assumes "tame beh" "tame_page pg"
  shows "fire_path n pg beh on tpath l ev ts log = Some (x, l', ev', ts', log') \<Longrightarrow> x = None \<and> tr_triggered ts' = tr_triggered ts"
proof (induction tpath arbitrary: l ev ts log)
  case (Cons p tpath)
  obtain cur t where p: "p = (cur, t)" by fastforce
  show ?case
  proof (cases "e_stopped ev")
    case False
    then obtain y ev1 ts1 log1 where v: "visit n pg beh on cur (ev\<lparr>e_type := t\<rparr>) ts = Some (y, ev1, ts1, log1)"
      using Cons.prems p by (auto split: option.splits)
    note tame = visit_tame [OF assms v]
    then have "fire_path n pg beh on tpath cur ev1 ts1 (log @ log1) = Some (x, l', ev', ts', log')" using Cons.prems p False v by simp
    then show ?thesis using Cons.IH tame by simp
  qed (use Cons.prems p in simp)
qed simp

lemma call_method_mark:
  assumes "call_method pg t on elem l stopped f ts = (x, ts')"
  shows "\<exists>ts1. tr_triggered ts1 = Some t \<and> (x \<noteq> None \<longrightarrow> f ts1 = (x, ts')) \<and> (x = None \<longrightarrow> tr_triggered ts' = None)"
proof -
  define ts0 where "ts0 = (if on_function pg (Some on) elem ts \<noteq> None then ts\<lparr>tr_muted := (tr_muted ts)(elem := (tr_muted ts elem)(on := True))\<rparr> else ts)\<lparr>tr_triggered := Some t\<rparr>"
  define ts1 where "ts1 = (if stopped then ts0\<lparr>tr_stoppers := (tr_stoppers ts0)(l := (tr_stoppers ts0 l)(t := True))\<rparr> else ts0)"
  obtain y ts2 where f: "f ts1 = (y, ts2)" by fastforce
  have "tr_triggered ts1 = Some t" by (simp add: ts1_def ts0_def)
  moreover have "x \<noteq> None \<longrightarrow> f ts1 = (x, ts')" "x = None \<longrightarrow> tr_triggered ts' = None"
    using assms f unfolding call_method_def Let_def ts0_def [symmetric] ts1_def [symmetric] by (cases y; auto)+
  ultimately show ?thesis by blast
qed

lemma default_action_mark:
  assumes "default_action pg t elem l ev ts = (x, ts')"
  shows "x = None \<Longrightarrow> tr_triggered ts' = None \<or> tr_triggered ts' = tr_triggered ts"
    "x \<noteq> None \<Longrightarrow> methods_keep_mark pg \<Longrightarrow> tr_triggered ts' = Some t"
proof -
  have "(x = None \<longrightarrow> tr_triggered ts' = None \<or> tr_triggered ts' = tr_triggered ts) \<and> (x \<noteq> None \<longrightarrow> methods_keep_mark pg \<longrightarrow> tr_triggered ts' = Some t)"
  proof (cases "\<exists>on f. pg_method pg elem t = Some f \<and> default_action pg t elem l ev ts = call_method pg t on elem l (e_stopped ev) f ts")
    case True
    then obtain on f where f: "pg_method pg elem t = Some f" "call_method pg t on elem l (e_stopped ev) f ts = (x, ts')" using assms by auto
    then obtain ts1 where "tr_triggered ts1 = Some t" "x \<noteq> None \<longrightarrow> f ts1 = (x, ts')" "x = None \<longrightarrow> tr_triggered ts' = None"
      using call_method_mark [OF f(2)] by blast
    then show ?thesis using f(1) unfolding methods_keep_mark_def by (cases x) auto
  next
    case False
    then have "default_action pg t elem l ev ts = (None, ts)" unfolding default_action_def by (auto split: option.splits)
    then show ?thesis using assms by simp
  qed
  then show "x = None \<Longrightarrow> tr_triggered ts' = None \<or> tr_triggered ts' = tr_triggered ts"
    "x \<noteq> None \<Longrightarrow> methods_keep_mark pg \<Longrightarrow> tr_triggered ts' = Some t" by auto
qed

text \<open>What a call of \<open>trigger\<close> does to the mark when no function raises before the default action.\<close>

lemma trigger_mark:
  assumes "trigger n pg beh arg elem False ts = Some (x, ev', ts', log)" "tame beh" "tame_page pg" "methods_keep_mark pg"
  shows "(x = None \<longrightarrow> tr_triggered ts' \<in> {None, tr_triggered ts}) \<and> (x \<noteq> None \<longrightarrow> tr_triggered ts' = Some (trigger_type arg))"
proof (cases "ev' = None")
  case True
  have "ev' \<noteq> None \<or> x = None \<and> ts' = ts"
    using assms(1) unfolding trigger_def Let_def by (auto split: if_splits option.splits prod.splits)
  then show ?thesis using True by auto
next
  case False
  then have ok: "dom_nodeType (pg_dom pg) elem \<notin> {3, 8}" "\<not> focus_morph (arg_type arg @ (case tr_triggered ts of Some s \<Rightarrow> s | None \<Rightarrow> ''undefined''))"
    using assms(1) by (auto simp: trigger_def Let_def split: if_splits)
  obtain path y l ev ts2 log2 where f: "event_path n pg False elem (trigger_type arg) = Some path"
    "fire_path n pg beh (ontype (trigger_type arg)) (typed_path (pg_dom pg) (trigger_type arg) path) elem (prepare_event arg elem False)
       (if False then ts else ts\<lparr>tr_core := special_trigger (pg_dom pg) elem (trigger_type arg) (tr_core ts)\<rparr>) [] = Some (y, l, ev, ts2, log2)"
    using assms(1) ok unfolding trigger_def Let_def by (auto split: option.splits)
  have y: "y = None" "tr_triggered ts2 = tr_triggered ts" using fire_tame [OF assms(2,3) f(2)] by auto
  show ?thesis
  proof (cases "e_prevented ev")
    case True
    then show ?thesis using trigger_fired [OF ok f] assms(1) y by simp
  next
    case False
    then have "default_action pg (trigger_type arg) elem l (ev\<lparr>e_type := trigger_type arg\<rparr>) ts2 = (x, ts')"
      using trigger_fired [OF ok f] assms(1) y by (auto split: prod.splits)
    from default_action_mark [OF this] show ?thesis using y(2) assms(4) by auto
  qed
qed

section \<open>Handlers only\<close>

lemma run_handlers_log: "run_handlers d beh elem hos ev st log = (x, ev', st', log') \<Longrightarrow> snd ` set log' \<subseteq> snd ` set log \<union> set hos"
proof (induction hos arbitrary: ev st log)
  case (Cons ho hos)
  obtain r ev1 st1 where s: "serve d beh ho elem (ev\<lparr>e_handleObj := Some ho, e_data := ho_data ho\<rparr>) st = (r, ev1, st1)" by (metis prod_cases3)
  show ?case
  proof (cases "e_immediate ev \<or> \<not> ns_admits ev ho")
    case True
    then show ?thesis using Cons.prems Cons.IH [of ev st log] by (auto split: if_splits)
  next
    case False
    then show ?thesis
      using Cons.prems Cons.IH [of "after_reply r ev1" st1 "log @ [(elem, ho)]"] s by (cases r) auto
  qed
qed simp

lemma run_queue_log: "run_queue d beh q ev st log = (x, ev', st', log') \<Longrightarrow> snd ` set log' \<subseteq> snd ` set log \<union> (\<Union>(e, hos) \<in> set q. set hos)"
proof (induction q arbitrary: ev st log)
  case (Cons p q)
  obtain elem hos where p: "p = (elem, hos)" by fastforce
  obtain y ev1 st1 log1 where r: "run_handlers d beh elem hos (ev\<lparr>e_currentTarget := elem\<rparr>) st log = (y, ev1, st1, log1)" by (metis prod_cases4)
  show ?case using Cons.prems Cons.IH [of ev1 st1 log1] run_handlers_log [OF r] r p by (cases y) (auto split: if_splits)
qed simp

lemma visit_local:
  assumes "visit n pg beh on cur ev ts = Some (x, ev', ts', log)"
  shows "\<exists>st'. ts' = ts\<lparr>tr_core := st'\<rparr>" "snd ` set log \<subseteq> set (handlers (handlers_of (tr_core ts) cur (e_type ev)))"
proof -
  obtain y ev1 st1 where h: "jquery_handler n pg beh cur ev ts = Some (y, ev1, st1, log)"
    using assms by (auto simp: visit_def split: option.splits prod.splits)
  show "\<exists>st'. ts' = ts\<lparr>tr_core := st'\<rparr>"
    using assms h by (auto simp: visit_def native_handler_def split: option.splits prod.splits if_splits reply.splits)
  show "snd ` set log \<subseteq> set (handlers (handlers_of (tr_core ts) cur (e_type ev)))"
  proof (cases "log = []")
    case False
    then have "dispatch n (pg_dom pg) beh cur ev (tr_core ts) = Some (y, ev1, st1, log)"
      using h by (auto simp: jquery_handler_def event_handle_def Let_def split: if_splits)
    then obtain q where q: "handler_queue n (pg_dom pg) cur (ev\<lparr>e_delegateTarget := cur\<rparr>) (handlers_of (tr_core ts) cur (e_type ev)) = Some q"
      "run_queue (pg_dom pg) beh q (ev\<lparr>e_delegateTarget := cur\<rparr>) (tr_core ts) [] = (y, ev1, st1, log)"
      by (auto simp: dispatch_def)
    show ?thesis using run_queue_log [OF q(2)] handler_queue_sub [OF q(1)] by fastforce
  qed simp
qed

lemma fire_one: "\<not> e_stopped ev \<Longrightarrow> fire_path n pg beh on [(cur, t)] l ev ts [] = Some (x, l', ev', ts', log) \<Longrightarrow>
    visit n pg beh on cur (ev\<lparr>e_type := t\<rparr>) ts = Some (x, ev', ts', log)"
  by (auto split: option.splits)

text \<open>
  \<open>triggerHandler\<close> serves handlers of the element only, whatever they do, and calls no method: apart from what functions do to the handler
  lists the state stays as it is.
\<close>

lemma triggerHandler_local:
  assumes "triggerHandler n pg beh (TypeName name) (elem # elems) ts = Some (x, ev', ts', log)"
  shows "\<exists>st'. ts' = ts\<lparr>tr_core := st'\<rparr>"
    "snd ` set log \<subseteq> set (handlers (handlers_of (tr_core ts) elem (snd (hd (typed_path (pg_dom pg) (trigger_type (TypeName name)) [elem])))))"
proof -
  let ?t = "trigger_type (TypeName name)"
  define b where "b = snd (hd (typed_path (pg_dom pg) ?t [elem]))"
  have one: "typed_path (pg_dom pg) ?t [elem] = [(elem, b)]" by (simp add: b_def typed_path_def)
  have ev: "\<not> e_stopped (prepare_event (TypeName name) elem True)" by (simp add: prepare_event_def Let_def new_event_def)
  consider "ts' = ts" "log = []"
    | x1 ev1 where "visit n pg beh (ontype ?t) elem ((prepare_event (TypeName name) elem True)\<lparr>e_type := b\<rparr>) ts = Some (x1, ev1, ts', log)"
    using assms fire_one [OF ev] unfolding triggerHandler_def trigger_def Let_def
    by (auto simp: event_path_def one simp del: fire_path.simps split: if_splits option.splits)
  then have "(\<exists>st'. ts' = ts\<lparr>tr_core := st'\<rparr>) \<and> snd ` set log \<subseteq> set (handlers (handlers_of (tr_core ts) elem b))"
  proof cases
    case 1
    then show ?thesis by (auto intro: exI [of _ "tr_core ts"])
  next
    case 2
    then show ?thesis using visit_local [OF 2] by simp
  qed
  then show "\<exists>st'. ts' = ts\<lparr>tr_core := st'\<rparr>"
    "snd ` set log \<subseteq> set (handlers (handlers_of (tr_core ts) elem (snd (hd (typed_path (pg_dom pg) ?t [elem])))))" by (auto simp: b_def)
qed

section \<open>After a method that raised\<close>

text \<open>
  What may happen on the page without a call of a method by \<open>trigger\<close>: native events reach the handles of elements, handlers are registered
  and removed, and events are triggered, by \<open>triggerHandler\<close> or for elements without a method of that name.  The functions called meanwhile
  are arbitrary, and may raise.
\<close>

inductive methodless :: "page \<Rightarrow> trig_state \<Rightarrow> trig_state \<Rightarrow> bool" for pg ts where
  none_yet: "methodless pg ts ts"
| native_event: "methodless pg ts ts1 \<Longrightarrow>
    event_handle n (pg_dom pg) beh (tr_triggered ts1) cur ev (tr_core ts1) = Some (x, ev', st', log) \<Longrightarrow>
    methodless pg ts (ts1\<lparr>tr_core := st'\<rparr>)"
| registered: "methodless pg ts ts1 \<Longrightarrow> methodless pg ts (ts1\<lparr>tr_core := register (pg_dom pg) reg (tr_core ts1)\<rparr>)"
| triggered: "methodless pg ts ts1 \<Longrightarrow> only \<or> pg_method pg elem (trigger_type arg) = None \<Longrightarrow>
    trigger n pg beh arg elem only ts1 = Some (x, ev', ts2, log) \<Longrightarrow> methodless pg ts ts2"

lemma fire_local: "fire_path n pg beh on tpath l ev ts log = Some (x, l', ev', ts', log') \<Longrightarrow> \<exists>st'. ts' = ts\<lparr>tr_core := st'\<rparr>"
proof (induction tpath arbitrary: l ev ts log)
  case Nil
  then show ?case by (auto intro: exI [of _ "tr_core ts"])
next
  case (Cons p tpath)
  obtain cur t where p: "p = (cur, t)" by fastforce
  show ?case
  proof (cases "e_stopped ev")
    case True
    then show ?thesis using Cons.prems p by (auto intro: exI [of _ "tr_core ts"])
  next
    case False
    then obtain y ev1 ts1 log1 where v: "visit n pg beh on cur (ev\<lparr>e_type := t\<rparr>) ts = Some (y, ev1, ts1, log1)"
      using Cons.prems p by (auto split: option.splits)
    from visit_local(1) [OF v] obtain st1 where "ts1 = ts\<lparr>tr_core := st1\<rparr>" by blast
    then show ?thesis using Cons p False v by (cases y) fastforce+
  qed
qed

lemma trigger_methodless_mark:
  assumes "trigger n pg beh arg elem only ts = Some (x, ev', ts', log)" "only \<or> pg_method pg elem (trigger_type arg) = None"
  shows "tr_triggered ts' = tr_triggered ts"
proof -
  have "default_action pg (trigger_type arg) elem l ev ts2 = (None, ts2)" if "\<not> only" for l ev ts2
    using assms(2) that by (simp add: default_action_def split: option.split)
  then show ?thesis using assms(1) fire_local unfolding trigger_def Let_def
    by (auto split: if_splits option.splits prod.splits dest!: fire_local)
qed

lemma methodless_mark: "methodless pg ts ts' \<Longrightarrow> tr_triggered ts' = tr_triggered ts"
  by (induction rule: methodless.induct) (auto dest: trigger_methodless_mark)

text \<open>While the mark names the type of the event, a triggered event serves no handler.\<close>

lemma visit_marked:
  assumes "visit n pg beh on cur ev ts = Some (x, ev', ts', log)" "tr_triggered ts = Some (e_type ev)"
  shows "log = [] \<and> tr_triggered ts' = tr_triggered ts"
proof -
  obtain y ev1 st1 log1 where h: "jquery_handler n pg beh cur ev ts = Some (y, ev1, st1, log1)"
    using assms(1) by (cases "jquery_handler n pg beh cur ev ts") (auto simp: visit_def)
  have "log1 = []" using h assms(2) by (auto simp: jquery_handler_def event_handle_def Let_def split: if_splits)
  moreover have "log = log1" using assms(1) h by (cases y) (auto simp: visit_def split: prod.splits)
  ultimately show ?thesis using visit_local(1) [OF assms(1)] by auto
qed

lemma fire_marked:
  assumes "\<forall>(cur, u) \<in> set tpath. u = t"
  shows "fire_path n pg beh on tpath l ev ts log = Some (x, l', ev', ts', log') \<Longrightarrow> tr_triggered ts = Some t \<Longrightarrow> log' = log"
  using assms
proof (induction tpath arbitrary: l ev ts log)
  case (Cons p tpath)
  then obtain cur where p: "p = (cur, t)" by (cases p) auto
  show ?case
  proof (cases "e_stopped ev")
    case False
    then obtain y ev1 ts1 log1 where v: "visit n pg beh on cur (ev\<lparr>e_type := t\<rparr>) ts = Some (y, ev1, ts1, log1)"
      using Cons.prems(1) p by (auto split: option.splits)
    from visit_marked [OF v] Cons.prems(2) have "log1 = []" "tr_triggered ts1 = Some t" by simp_all
    then show ?thesis using Cons.IH [of cur ev1 ts1 log] Cons.prems(1,3) p False v by (cases y) auto
  qed (use Cons.prems p in simp)
qed simp

lemma trigger_marked:
  assumes "trigger n pg beh arg elem only ts = Some (x, ev', ts', log)" "tr_triggered ts = Some (trigger_type arg)"
    "plain_type (trigger_type arg)"
  shows "log = []"
proof -
  have "\<forall>(cur, u) \<in> set (typed_path (pg_dom pg) (trigger_type arg) path). u = trigger_type arg" for path
    using plain_type_special [OF assms(3), of "pg_dom pg"] by (auto simp: typed_path_def bubbleType_def split: list.splits)
  note none = fire_marked [OF this]
  show ?thesis using assms(1,2) unfolding trigger_def Let_def
    by (auto split: if_splits option.splits prod.splits dest!: none)
qed

text \<open>C29: 
  The mark \<open>jQuery.event.triggered\<close> around the call of a method.  When nothing raises, it is gone after \<open>trigger\<close>, or as it was.
  When the method of the element raises, the mark stays, and as long as \<open>trigger\<close> does not call a method again, whatever else happens (native
  events, registration of handlers, other events that are triggered), events of that type are ignored: the handles of all elements serve no
  handler for a native event, and triggering an event of that type (other than \<open>load\<close>, \<open>focus\<close>, \<open>blur\<close> and the types of \<open>hover\<close>) serves none.
  This is for handlers that do not raise before the method is called, and for methods that do not themselves trigger events on the way to
  the exception.
\<close>

theorem raising_method_deafens:
  assumes "trigger n pg beh arg elem False ts = Some (x, ev', ts1, log)" "tame beh" "tame_page pg" "methods_keep_mark pg"
    and "methodless pg ts1 ts2" and "t = trigger_type arg"
  shows "(x = None \<longrightarrow> tr_triggered ts1 \<in> {None, tr_triggered ts}) \<and>
    (x \<noteq> None \<longrightarrow> tr_triggered ts2 = Some t
      \<and> (\<forall>m beh2 cur ev. e_type ev = t \<longrightarrow>
           event_handle m (pg_dom pg) beh2 (tr_triggered ts2) cur ev (tr_core ts2) = Some (None, ev, tr_core ts2, []))
      \<and> (\<forall>m beh2 arg2 elem2 only y ev2 ts3 log2. plain_type t \<longrightarrow> trigger_type arg2 = t \<longrightarrow>
           trigger m pg beh2 arg2 elem2 only ts2 = Some (y, ev2, ts3, log2) \<longrightarrow> log2 = []))"
proof -
  have "tr_triggered ts2 = tr_triggered ts1" by (rule methodless_mark [OF assms(5)])
  with trigger_mark [OF assms(1-4)] show ?thesis
    unfolding assms(6) by (auto simp: event_handle_def dest: trigger_marked)
qed

theorem raising_method_deafens_witness:
  "\<exists>ev' ts1 ts2. trigger 12 demo_page idle (TypeName ''save'') 8 False (trig_start ev_initial) = Some (Some 7, ev', ts1, []) \<and>
     ts2 = ts1\<lparr>tr_core := register demo_dom (On [8] ''save'' (AFn (User 0)) AUndef AUndef False) (tr_core ts1)\<rparr> \<and>
     (\<forall>m beh cur ev. e_type ev = ''save'' \<longrightarrow>
        event_handle m demo_dom beh (tr_triggered ts2) cur ev (tr_core ts2) = Some (None, ev, tr_core ts2, []))"
proof -
  have "map_option (\<lambda>(x, ev, ts, log). (x, log)) (trigger 12 demo_page idle (TypeName ''save'') 8 False (trig_start ev_initial)) = Some (Some 7, [])"
    by code_simp
  then obtain ev' ts1 where t: "trigger 12 demo_page idle (TypeName ''save'') 8 False (trig_start ev_initial) = Some (Some 7, ev', ts1, [])" by auto
  have ok: "tame idle" "tame_page demo_page" "methods_keep_mark demo_page"
    by (auto simp: tame_def idle_def tame_page_def methods_keep_mark_def demo_page_def split: if_splits)
  have "pg_dom demo_page = demo_dom" by (simp add: demo_page_def)
  then have run: "methodless demo_page ts1 (ts1\<lparr>tr_core := register demo_dom (On [8] ''save'' (AFn (User 0)) AUndef AUndef False) (tr_core ts1)\<rparr>)"
    using methodless.registered [OF methodless.none_yet, of demo_page ts1] by metis
  let ?ts2 = "ts1\<lparr>tr_core := register demo_dom (On [8] ''save'' (AFn (User 0)) AUndef AUndef False) (tr_core ts1)\<rparr>"
  have "trigger_type (TypeName ''save'') = ''save''" by (simp add: trigger_type_def)
  with raising_method_deafens [OF t ok run refl] \<open>pg_dom demo_page = demo_dom\<close>
  have "\<forall>m beh cur ev. e_type ev = ''save'' \<longrightarrow>
      event_handle m demo_dom beh (tr_triggered ?ts2) cur ev (tr_core ?ts2) = Some (None, ev, tr_core ?ts2, [])" by auto
  with t show ?thesis by blast
qed

end
