(* ===== verification/SizzleTokenCache.thy ===== *)
theory SizzleTokenCache
  imports SizzleTokenize
begin

text \<open>
  The cache of tokenized selectors in \<open>docs/_static/jquery-3.6.0.js\<close>: \<open>createCache\<close> makes caches that forget their oldest entry,
  and \<open>tokenize\<close> looks into one, also when it calls itself on the argument of a pseudo class.
\<close>

section \<open>Model\<close>

record 'v key_cache =
  cache_keys :: "units list"
  cache_map :: "units \<rightharpoonup> 'v"

definition cacheLength :: nat where
  "cacheLength = 50"

definition createCache :: "'v key_cache" where
  "createCache = \<lparr>cache_keys = [], cache_map = Map.empty\<rparr>"

definition cache_put :: "units \<Rightarrow> 'v \<Rightarrow> 'v key_cache \<Rightarrow> 'v key_cache" where
  "cache_put key v c =
     (let keys = cache_keys c @ [key @ [32]] in
      if cacheLength < length keys then
        \<lparr>cache_keys = tl keys, cache_map = ((cache_map c)(hd keys := None))(key @ [32] \<mapsto> v)\<rparr>
      else \<lparr>cache_keys = keys, cache_map = (cache_map c)(key @ [32] \<mapsto> v)\<rparr>)"

definition cache_get :: "units \<Rightarrow> 'v key_cache \<Rightarrow> 'v option" where
  "cache_get key c = cache_map c (key @ [32])"

text \<open>\<open>tokenize( selector, true )\<close> and \<open>tokenize( selector )\<close>; only the second stores its result.\<close>

fun parse_only_cached :: "lexeme list list key_cache \<Rightarrow> nat \<Rightarrow> units \<Rightarrow> units + nat" where
  "parse_only_cached c 0 s = Inr (length s)"
| "parse_only_cached c (Suc n) s =
     (if cache_get s c \<noteq> None then Inr 0
      else case token_loop (parse_only_cached c n) True s [] of Inl err \<Rightarrow> Inl err | Inr (rest, groups) \<Rightarrow> Inr (length rest))"

definition tokenize_cached :: "units \<Rightarrow> lexeme list list key_cache \<Rightarrow> (units + lexeme list list) \<times> lexeme list list key_cache" where
  "tokenize_cached selector c =
     (case cache_get selector c of
        Some cached \<Rightarrow> (Inr cached, c)
      | None \<Rightarrow>
          (case token_loop (parse_only_cached c (length selector)) True selector [] of
             Inl err \<Rightarrow> (Inl err, c)
           | Inr (rest, groups) \<Rightarrow> if rest \<noteq> [] then (Inl selector, c) else (Inr groups, cache_put selector groups c)))"

text \<open>A sequence of calls.\<close>

fun tokenize_calls :: "units list \<Rightarrow> lexeme list list key_cache \<Rightarrow> (units + lexeme list list) list \<times> lexeme list list key_cache" where
  "tokenize_calls [] c = ([], c)"
| "tokenize_calls (s # ss) c =
     (case tokenize_cached s c of (r, c') \<Rightarrow> (case tokenize_calls ss c' of (rs, c'') \<Rightarrow> (r # rs, c'')))"

section \<open>Caches of bounded size\<close>

text \<open>A cache of a function: what it holds are values of the function, its keys are listed, and there are not too many.\<close>

locale bounded_cache =
  fixes f :: "units \<Rightarrow> 'e + 'v"
begin

definition sound :: "'v key_cache \<Rightarrow> bool" where
  "sound c \<longleftrightarrow> (\<forall>s v. cache_get s c = Some v \<longrightarrow> f s = Inr v) \<and> dom (cache_map c) \<subseteq> set (cache_keys c) \<and> length (cache_keys c) \<le> cacheLength"

lemma sound_create: "sound createCache"
  by (simp add: sound_def createCache_def cache_get_def)

lemma sound_get: "sound c \<Longrightarrow> cache_get s c = Some v \<Longrightarrow> f s = Inr v"
  by (simp add: sound_def)

lemma sound_put:
  assumes "sound c" "f s = Inr v"
  shows "sound (cache_put s v c)"
proof -
  define k where "k = s @ [32]"
  have old: "cache_map c (t @ [32]) = Some w \<Longrightarrow> f t = Inr w" for t w using assms(1) by (simp add: sound_def cache_get_def)
  have dom: "dom (cache_map c) \<subseteq> set (cache_keys c)" "length (cache_keys c) \<le> cacheLength" using assms(1) by (simp_all add: sound_def)
  show ?thesis
  proof (cases "cache_keys c")
    case Nil
    then show ?thesis using old dom assms(2)
      by (auto simp: sound_def cache_put_def cache_get_def Let_def cacheLength_def split: if_splits)
  next
    case (Cons k0 ks)
    then show ?thesis using old dom assms(2)
      by (auto simp: sound_def cache_put_def cache_get_def Let_def split: if_splits)
  qed
qed

lemma sound_size: "sound c \<Longrightarrow> finite (dom (cache_map c)) \<and> card (dom (cache_map c)) \<le> cacheLength"
  unfolding sound_def by (meson List.finite_set card_length card_mono finite_subset le_trans)

end

interpretation tokens: bounded_cache tokenize .

section \<open>The cache changes no result\<close>

lemma parse_only_accepted: "tokenize s = Inr groups \<Longrightarrow> length s < n \<Longrightarrow> parse_only n s = Inr 0"
  using parse_only_depth [of s n] by (auto simp: tokenize_def split: sum.splits if_splits)

lemma parse_only_cached_agrees: "tokens.sound c \<Longrightarrow> length s < n \<Longrightarrow> parse_only_cached c n s = parse_only n s"
proof (induction n arbitrary: s)
  case (Suc n)
  have "token_loop (parse_only_cached c n) True s [] = token_loop (parse_only n) True s []"
    by (rule token_loop_cong) (use Suc in simp)
  then show ?case using parse_only_accepted [of s _ "Suc n"] tokens.sound_get [OF Suc.prems(1), of s] Suc.prems(2) by auto
qed simp

lemma tokenize_cached_agrees:
  assumes "tokens.sound c"
  shows "fst (tokenize_cached s c) = tokenize s \<and> tokens.sound (snd (tokenize_cached s c))"
proof (cases "cache_get s c")
  case None
  have same: "token_loop (parse_only_cached c (length s)) True s [] = token_loop (parse_only (length s)) True s []"
    by (rule token_loop_cong) (rule parse_only_cached_agrees [OF assms])
  show ?thesis
  proof (cases "tokenize s")
    case (Inr groups)
    then show ?thesis using tokens.sound_put [OF assms Inr] None same
      by (auto simp: tokenize_cached_def tokenize_def split: sum.splits if_splits)
  qed (use None same assms in \<open>auto simp: tokenize_cached_def tokenize_def split: sum.splits if_splits\<close>)
qed (use assms tokens.sound_get in \<open>simp add: tokenize_cached_def\<close>)

text \<open>C24: 
  The cache of tokens is not seen from outside: in any sequence of calls each returns what \<open>tokenize\<close> computes for its
  selector alone, whatever the calls before have left in the cache; and the cache never has more than 50 entries.
\<close>

theorem token_cache_transparent:
  "fst (tokenize_calls selectors createCache) = map tokenize selectors \<and>
   finite (dom (cache_map (snd (tokenize_calls selectors createCache)))) \<and>
   card (dom (cache_map (snd (tokenize_calls selectors createCache)))) \<le> cacheLength"
proof -
  have "fst (tokenize_calls ss c) = map tokenize ss \<and> tokens.sound (snd (tokenize_calls ss c))" if "tokens.sound c" for ss c
    using that
  proof (induction ss arbitrary: c)
    case (Cons s ss)
    obtain r c' where r: "tokenize_cached s c = (r, c')" by fastforce
    obtain rs c'' where rs: "tokenize_calls ss c' = (rs, c'')" by fastforce
    have "r = tokenize s" "tokens.sound c'" using tokenize_cached_agrees [OF Cons.prems, of s] r by simp_all
    then show ?case using Cons.IH [of c'] r rs by simp
  qed simp
  then have calls: "fst (tokenize_calls selectors createCache) = map tokenize selectors" "tokens.sound (snd (tokenize_calls selectors createCache))"
    by (simp_all only: tokens.sound_create)
  then show ?thesis using tokens.sound_size [OF calls(2)] by simp
qed

end
