(* ===== verification/UnderscoreChain.thy ===== *)
theory UnderscoreChain
  imports JsSort
begin

text \<open>
  The wrapper objects of \<open>docs/_static/underscore-1.13.1.js\<close>: \<open>_(x).f(y)\<close> is \<open>_.f(x, y)\<close>, and in a chain the result is wrapped again.
  A wrapper is the mark \<open>_chain\<close> and the value; the identity of wrapper objects is not modelled.
\<close>

section \<open>Wrappers\<close>

datatype 'v wval = Raw 'v | Wrap bool 'v

text \<open>\<open>_$1( obj )\<close>: wrappers are not wrapped again.\<close>

fun wrap_us :: "'v wval \<Rightarrow> 'v wval" where
  "wrap_us (Raw v) = Wrap False v"
| "wrap_us (Wrap c v) = Wrap c v"

fun unwrapped :: "'v wval \<Rightarrow> 'v" where
  "unwrapped (Raw v) = v"
| "unwrapped (Wrap c v) = v"

definition value_us :: "'v wval \<Rightarrow> 'v wval" where
  "value_us w = Raw (unwrapped w)"

definition chain_us :: "'v wval \<Rightarrow> 'v wval" where
  "chain_us obj = Wrap True (unwrapped (wrap_us obj))"

text \<open>
  \<open>chainResult( instance, obj )\<close> with the mark of the instance.  \<open>_$1( obj ).chain()\<close> is the method that \<open>mixin\<close> has made from \<open>chain\<close>, and
  so ends in \<open>chainResult\<close> again, with the wrapper of \<open>obj\<close> as the instance.
\<close>

partial_function (option) chainResult :: "bool \<Rightarrow> 'v wval \<Rightarrow> 'v wval option" where
  "chainResult c obj =
     (if c then
        (case wrap_us obj of
           Wrap c' v \<Rightarrow> chainResult c' (chain_us (Raw v))
         | Raw v \<Rightarrow> None)
      else Some obj)"

section \<open>Methods\<close>

datatype call_error = NotAWrapper | NoMethod string

type_synonym 'v lib = "string \<Rightarrow> ('v wval list \<Rightarrow> 'v wval) option"

text \<open>\<open>mixin\<close>: the functions of an object become methods, in place of older ones of the same name.\<close>

definition mixin_us :: "(string \<times> ('v wval list \<Rightarrow> 'v wval)) list \<Rightarrow> 'v lib \<Rightarrow> 'v lib" where
  "mixin_us fs lib = fold (\<lambda>(name, f) lib. lib(name \<mapsto> f)) fs lib"

definition chain_method :: "'v wval list \<Rightarrow> 'v wval" where
  "chain_method args = chain_us (hd args)"

definition call_method_us :: "'v lib \<Rightarrow> string \<Rightarrow> 'v wval list \<Rightarrow> 'v wval \<Rightarrow> (call_error + 'v wval) option" where
  "call_method_us lib name args this =
     (case this of
        Raw v \<Rightarrow> Some (Inl NotAWrapper)
      | Wrap c v \<Rightarrow>
          (case lib name of
             None \<Rightarrow> Some (Inl (NoMethod name))
           | Some f \<Rightarrow> map_option Inr (chainResult c (f (Raw v # args)))))"

text \<open>A sequence of method calls, each on the result of the one before.\<close>

fun call_methods :: "'v lib \<Rightarrow> (string \<times> 'v wval list) list \<Rightarrow> 'v wval \<Rightarrow> (call_error + 'v wval) option" where
  "call_methods lib [] this = Some (Inr this)"
| "call_methods lib ((name, args) # calls) this =
     (case call_method_us lib name args this of
        None \<Rightarrow> None
      | Some (Inl err) \<Rightarrow> Some (Inl err)
      | Some (Inr w) \<Rightarrow> call_methods lib calls w)"

text \<open>Methods of arrays.  The deletion of the first property of an array that has become empty changes nothing here.\<close>

datatype 'a mutator = MPop | MPush "'a list" | MReverse | MShift | MSort "'a \<Rightarrow> 'a \<Rightarrow> int" | MSplice nat nat "'a list" | MUnshift "'a list"

fun mutate :: "'a mutator \<Rightarrow> 'a list \<Rightarrow> 'a list" where
  "mutate MPop xs = butlast xs"
| "mutate (MPush ys) xs = xs @ ys"
| "mutate MReverse xs = rev xs"
| "mutate MShift xs = tl xs"
| "mutate (MSort cmp) xs = sort_js cmp xs"
| "mutate (MSplice i n ys) xs = take i xs @ ys @ drop (i + n) xs"
| "mutate (MUnshift ys) xs = ys @ xs"

text \<open>\<open>None\<close> is a wrapped \<open>null\<close> or \<open>undefined\<close>.\<close>

definition mutator_method :: "'a mutator \<Rightarrow> 'a list option wval \<Rightarrow> (call_error + 'a list option wval) option" where
  "mutator_method m this =
     (case this of
        Raw v \<Rightarrow> Some (Inl NotAWrapper)
      | Wrap c obj \<Rightarrow> map_option Inr (chainResult c (Raw (map_option (mutate m) obj))))"

section \<open>Chains\<close>

lemma chainResult_plain [simp]: "chainResult False obj = Some obj"
  by (simp add: chainResult.simps)

lemma chainResult_chain: "obj \<noteq> Wrap True v \<Longrightarrow> unwrapped obj = v \<Longrightarrow> chainResult True obj = Some (Wrap True v)"
  by (cases obj) (auto simp: chainResult.simps [of True] chain_us_def)

text \<open>The recursion does not end when the result is a wrapper in a chain.\<close>

lemma chainResult_loops: "chainResult True (Wrap True v) = None"
proof -
  have "c \<longrightarrow> (\<forall>v. obj \<noteq> Wrap True v)" if "chainResult c obj = Some y" for c and obj y :: "'a wval"
  proof (rule chainResult.raw_induct [where P = "\<lambda>c obj y. c \<longrightarrow> (\<forall>v. obj \<noteq> Wrap True v)", OF _ that])
    fix f :: "bool \<Rightarrow> 'a wval \<Rightarrow> 'a wval option" and c obj y
    assume ih: "\<And>c obj y. f c obj = Some y \<Longrightarrow> c \<longrightarrow> (\<forall>v. obj \<noteq> Wrap True v)"
      and step: "(if c then (case wrap_us obj of Wrap c' v \<Rightarrow> f c' (chain_us (Raw v)) | Raw v \<Rightarrow> None) else Some obj) = Some y"
    show "c \<longrightarrow> (\<forall>v. obj \<noteq> Wrap True v)" using ih [of True] step by (fastforce simp: chain_us_def)
  qed
  then show ?thesis by (metis option.exhaust)
qed

lemma chainResult_exact: "chainResult True obj = (if \<exists>v. obj = Wrap True v then None else Some (Wrap True (unwrapped obj)))"
  using chainResult_chain [of obj "unwrapped obj"] chainResult_loops by auto

text \<open>The composition of the functions; there is no result when one of them returns a wrapper in a chain.\<close>

fun compose_calls :: "'v lib \<Rightarrow> (string \<times> 'v wval list) list \<Rightarrow> 'v \<Rightarrow> 'v option" where
  "compose_calls lib [] x = Some x"
| "compose_calls lib ((name, args) # calls) x =
     (case the (lib name) (Raw x # args) of
        Wrap True v \<Rightarrow> None
      | r \<Rightarrow> compose_calls lib calls (unwrapped r))"

text \<open>C16: 
  A chain of method calls is the composition of the functions, each with the result of the one before as its first argument;
  it returns if, and only if, none of the functions returns a wrapper that is itself in a chain.  On such a result, and so on a second
  call of \<open>chain\<close>, the wrapper and the method \<open>chain\<close> call each other without end.
\<close>

theorem chain_composes:
  assumes "\<forall>(name, args) \<in> set calls. lib name \<noteq> None"
  shows "call_methods lib calls (chain_us (Raw x)) = map_option (\<lambda>v. Inr (Wrap True v)) (compose_calls lib calls x) \<and>
    (lib ''chain'' = Some chain_method \<longrightarrow> call_methods lib (calls @ [(''chain'', [])]) (chain_us (Raw x)) = None)"
proof -
  have one: "call_method_us lib name args (Wrap True x) =
      (case the (lib name) (Raw x # args) of Wrap True v \<Rightarrow> None | r \<Rightarrow> Some (Inr (Wrap True (unwrapped r))))"
    if "lib name \<noteq> None" for name args x
    using that by (auto simp: call_method_us_def chainResult_exact split: wval.split bool.split)
  have all: "call_methods lib calls (Wrap True x) = map_option (\<lambda>v. Inr (Wrap True v)) (compose_calls lib calls x)"
    if "\<forall>(name, args) \<in> set calls. lib name \<noteq> None" for calls x
    using that
  proof (induction calls arbitrary: x)
    case (Cons call calls)
    obtain name args where "call = (name, args)" by fastforce
    then show ?case using Cons one [of name args x] by (auto split: wval.split bool.split)
  qed simp
  have "compose_calls lib (calls @ [(''chain'', [])]) x = None" if "lib ''chain'' = Some chain_method" for x
  proof (induction calls arbitrary: x)
    case Nil
    then show ?case using that by (simp add: chain_method_def chain_us_def)
  next
    case (Cons call calls)
    then show ?case by (cases call) (auto split: wval.split bool.split)
  qed
  then show ?thesis using all [OF assms, of x] all [of "calls @ [(''chain'', [])]" x] assms by (auto simp: chain_us_def)
qed

definition doubling :: "nat list lib" where
  "doubling = mixin_us [(''chain'', chain_method), (''twice'', \<lambda>args. Raw (concat (map (\<lambda>n. [n, n]) (unwrapped (hd args)))))] Map.empty"

theorem chain_composes_witness:
  "call_methods doubling [(''twice'', [])] (chain_us (Raw [1, 2])) = Some (Inr (Wrap True [1, 1, 2, 2])) \<and>
   call_methods doubling [(''twice'', []), (''chain'', [])] (chain_us (Raw [1, 2])) = None"
proof -
  have d: "doubling ''chain'' = Some chain_method" "doubling ''twice'' = Some (\<lambda>args. Raw (concat (map (\<lambda>n. [n, n]) (unwrapped (hd args)))))"
    by (simp_all add: doubling_def mixin_us_def)
  then show ?thesis using chain_composes [of "[(''twice'', [])]" doubling "[1, 2]"] by simp
qed

text \<open>Methods of arrays in a chain: the effects one after the other; a missing array stays missing.\<close>

lemma mutators_chain:
  "fold (\<lambda>m r. case r of Some (Inr w) \<Rightarrow> mutator_method m w | _ \<Rightarrow> r) ms (Some (Inr (chain_us (Raw obj)))) =
     Some (Inr (Wrap True (map_option (fold mutate ms) obj)))"
proof (induction ms arbitrary: obj)
  case (Cons m ms)
  have "mutator_method m (chain_us (Raw obj)) = Some (Inr (chain_us (Raw (map_option (mutate m) obj))))"
    by (simp add: mutator_method_def chain_us_def chainResult_exact)
  then show ?case using Cons.IH [of "map_option (mutate m) obj"] by (simp add: option.map_comp comp_def)
qed (simp add: chain_us_def option.map_id)

end
