(* ===== verification/Spec2Isabelle.thy ===== *)
theory Spec2Isabelle
  imports SearchUi Highlight DocTools UnderscoreCollections UnderscoreEqual UnderscoreFunctions
    UnderscoreText JqueryCore JqueryDeferred JqueryClasses JqueryQueue JqueryFx JqueryForms CompatHighlight
    JqueryRequest JqueryDispatch JqueryTraversal JqueryTrigger SizzleTokenCache UnderscoreChain
begin

text \<open>
  \<^bold>\<open>Verification of the scripts of the xtr documentation site.\<close>

  \<^bold>\<open>The program.\<close>  The pages under \<open>docs\<close> carry a search over the documentation, which runs in the browser.  The
  search page loads an index, asks \<open>searchtools.js\<close> for the pages that answer a query, and shows them one by one
  with a summary; a page that is opened from there reads the search words back and marks them
  (\<open>sphinx_highlight.js\<close>); \<open>doctools.js\<close> supplies translations, folding of the index and keyboard control.  The scripts
  come with \<open>underscore-1.13.1.js\<close> and \<open>jquery-3.6.0.js\<close>, which the theme and older extensions use, and a layer
  (\<open>_sphinx_javascript_frameworks_compat.js\<close>) that adds functions to them.  All files are under \<open>src/docs/_static\<close>.

  \<^bold>\<open>How the code is modelled.\<close>  A function of a script is a function here; its state is a record that is passed along, an
  object with properties an association list in the order of insertion (theory Prelude), an exception the left
  part of a sum.  Where code mutates shared objects (deep comparison, deep copies) there is a heap of cells.
  Functions passed by a caller are arguments; where they may call back into the library they are behaviours
  that act on the state.  Timers, clicks and arriving data are steps of inductive relations, so that statements
  hold for all interleavings.  Strings are lists of characters with codes below 256 and numbers of Underscore
  and jQuery are integers with NaN and the infinities.

  \<^bold>\<open>Shared theories.\<close>
  \<^item> Prelude: dictionaries (locale \<open>dictionary\<close>, interpreted on association lists), errors, list facts.
  \<^item> JsString, JsValue, JsSort: strings, values with the equalities of the language (locale \<open>js_equality\<close>, interpreted on
    strict equality and on the equality of \<open>includes\<close>), and the stable sort with a comparison function (locale \<open>comparator\<close>,
    interpreted on the order of results and on the criteria of \<open>sortBy\<close>).

  \<^bold>\<open>Documentation search\<close> (\<open>searchtools.js\<close>, \<open>doctools.js\<close>, \<open>sphinx_highlight.js\<close>)
  \<^item> SearchText: \<open>_escapeRegExp\<close>, \<open>_escapeHTML\<close>, \<open>splitQuery\<close>, \<open>Search._parseQuery\<close>.
  \<^item> SearchEngine: \<open>performObjectSearch\<close>, \<open>performTermsSearch\<close>, scoring, the order of results and the removal of duplicates.  The
    full text search is shown to return exactly the files that match, with the best score; an excluded term
    that is found ends the loop early, which loses results, and one that the index lists with a single other file raises.
  \<^item> SearchUi: the search page as a machine of timers, arriving index and queries.  Results appear once each, those of the
    main search by falling score and then those of other index entries; query and index may arrive in either order; the pulse
    never stops.
  \<^item> Highlight: the walk over the live list of child nodes, whose length is taken once.  It ends on every page and keeps all text;
    without inline SVG it computes a reference marking, in which the children behind a match may go unmarked.  Which elements have a
    method \<open>getBBox\<close> is an argument.  Search words survive the way to the opened page.
  \<^item> DocTools: translations, index folding, keys.

  \<^bold>\<open>Underscore\<close> (\<open>underscore-1.13.1.js\<close>)
  \<^item> UnderscoreArrays, UnderscoreObjects, UnderscoreCollections: finders, binary search, set operations, ranges, copying
    and paths, grouping, sorting, random choice, each against a specification.
  \<^item> UnderscoreEqual: \<open>isEqual\<close> on heaps with cycles; it ends, is sound for bisimilarity and complete on acyclic heaps.
  \<^item> UnderscoreFunctions: \<open>throttle\<close> and \<open>debounce\<close> as machines over calls, timers and cancellation; \<open>memoize\<close>, \<open>after\<close>, \<open>before\<close>.
  \<^item> UnderscoreText: escaping, the template compiler, identifiers.
  \<^item> UnderscoreChain: wrappers and chains.  A chain is the composition of its functions, and does not return when a result is itself in
    a chain (shown on a partial function).

  \<^bold>\<open>jQuery\<close> (\<open>jquery-3.6.0.js\<close>)
  \<^item> JqueryCore: type tests, list functions, matched sets and \<open>extend\<close> on a heap (deep copies share nothing).
  \<^item> JqueryCallbacks and JqueryDeferred: callback lists with callbacks that act on the list while it fires, and deferred
    objects built on them as a machine with a stack of activations: they settle once, listeners get the outcome
    they asked for, handlers of \<open>then\<close> run from timers.
  \<^item> JqueryClasses: class attributes (locale \<open>token_edit\<close>, interpreted on adding and on removing a class).
  \<^item> JqueryData and JqueryQueue: data attached to elements and queues of functions.
  \<^item> JqueryFx: the clock of animations as a machine of timers and calls of the browser.  It runs as long as there are timers; calls
    that are due when it stops are not taken back and may pile up.
  \<^item> JqueryForms: attributes, the values of form controls and the serialisation of forms, composed with UrlParams: what a form
    submits is what the page reads back, unless a field has the name of a member of \<open>Object.prototype\<close>, for which reading raises.
  \<^item> UrlParams and CompatHighlight: query strings written by \<open>jQuery.param\<close> and read by \<open>getQueryParameters\<close>; the older highlighter.
  \<^item> JqueryAjax and JqueryRequest: prefilters, choice of a response and its conversion along data types, and the life of
    requests as a machine of several requests: each is settled once, the counter of active requests is exact, and with the
    option \<open>throws\<close> an exception in a converter leaves it wrong for ever.
  \<^item> JqueryNamespaces, JqueryEvents, JqueryDispatch: event names, registration and removal of handlers with the special events of
    the library, and dispatch with delegation.  The data of all elements stay consistent, \<open>off\<close> undoes \<open>on\<close>, handlers
    are served in the documented order, \<open>one\<close> removes before it calls; the capturing listener for delegated focus
    handlers leaks.
  \<^item> JqueryTrigger: events triggered by program, built on dispatch.  Handlers are served along the chain of parents and then of
    the window; a method that raises leaves the mark \<open>jQuery.event.triggered\<close> set, and events of that type are ignored until another method
    that \<open>trigger\<close> calls returns.
  \<^item> SizzleText, SizzleDom, SizzleFilters, SizzleMatch, SizzleCache, SizzleSelect: the selector engine.  Escaped text is read back as one identifier;
    documents are trees whose nodes are named by paths; the filters (names, classes, attributes, places among siblings)
    and the compiled matchers pass along the caches they leave on nodes.  The caches of combinators are shown never to
    change an answer, so that a compiled selector finds what it means; the cache of \<open>:nth-last-child\<close> does change answers.
  \<^item> SizzleTokens, SizzleTokenize, SizzleTokenCache: the expressions of \<open>matchExpr\<close> (locale \<open>recogniser\<close>, interpreted on each of them), the prefilters and
    \<open>tokenize\<close>, which calls itself on the arguments of pseudo classes.  It ends, no unit of an accepted selector is lost, and the whole way
    from escaped text over tokens and compiled matchers finds the elements with that text as \<open>id\<close>.
    The bounded cache of tokens (locale \<open>bounded_cache\<close>) changes no result.
  \<^item> SizzleOrder and JqueryTraversal: document order, \<open>uniqueSort\<close> (on the locale \<open>comparator\<close>), filters and the methods that move
    through documents.  \<open>find\<close> is composed with tokenized and compiled selectors, and searches from the parent of the context for
    sibling selectors.  The results of sorted methods come once and in document order; \<open>children\<close>, \<open>contents\<close>, \<open>next\<close> and \<open>prev\<close>
    are not sorted, and \<open>next\<close> may repeat elements for sets with text nodes.

  \<^bold>\<open>Bounds.\<close>  Loops that the code ends by itself are total functions.  Fuel occurs where the loop may not end: the walk of the
  highlighter (proved to end on every page for a word that is not empty), the firing of callbacks that fire again, the
  turns of the deferred machine, runs of queues, the walk up to the root of a document (enough: the depth of the
  target), also along the path of triggered events, and the conversion of responses (enough: two turns for each data type).  The tokenizer is called on
  arguments of pseudo classes up to a depth, for which the length of the text is enough (\<open>parse_only_depth\<close>).  Theorems about results state
  that enough fuel gives the result.

  \<^bold>\<open>Arguments for code that is not modelled.\<close>  The stemmer and the stop words (generated), comparison by locale, number and JSON
  parsing of attribute values, what a selector string matches (in the models of events and traversal), answers of the document (parents, node types, elements with \<open>getBBox\<close>) and
  the clock and random numbers of the browser.

  \<^bold>\<open>Not modelled.\<close>  Calls of the browser without logic of their own (building and parsing HTML, styles, dimensions,
  tweens of animations, transports of requests), the set matchers and the cache of compiled selectors of Sizzle, the controller of \<open>leverageNative\<close> while it runs,
  user agent tests, minified and generated files, \<open>jquery-3.5.1.js\<close> (the previous release of the same code) and the C++ logging
  library the documentation is about.
\<close>

end
